(* ===== verification/Prelude.thy ===== *)
theory Prelude
  imports "HOL-Library.Word" "HOL-Library.Product_Lexorder"
begin

text \<open>
  The vocabulary every other theory shares: the result type of fallible
  operations, Rust's checked and saturating integer arithmetic on words with the
  facts that carry it to the natural numbers, and a few lemmas on sums over lists.

  A machine integer of width \<open>w\<close> is a \<open>w word\<close>. A fixed byte array \<open>[u8; n]\<close> that
  the code only compares, orders and uses as a key is the word of \<open>8 n\<close> bits it
  spells in big-endian order: equality is the same and the numeric order is the
  lexicographic order of the bytes.
\<close>

named_theorems arith_unat \<open>facts that move checked word arithmetic to the natural numbers\<close>

type_synonym u8 = "8 word"
type_synonym u32 = "32 word"
type_synonym u64 = "64 word"
type_synonym u128 = "128 word"
type_synonym hash32 = "256 word"
type_synonym bytes = "u8 list"


subsection \<open>Results\<close>

datatype ('e, 'a) result = Ok 'a | Err 'e

definition is_ok :: "('e, 'a) result \<Rightarrow> bool" where
  "is_ok r = (case r of Ok _ \<Rightarrow> True | Err _ \<Rightarrow> False)"

definition and_then :: "('e, 'a) result \<Rightarrow> ('a \<Rightarrow> ('e, 'b) result) \<Rightarrow> ('e, 'b) result" where
  "and_then r f = (case r of Ok a \<Rightarrow> f a | Err e \<Rightarrow> Err e)"

definition map_res :: "('a \<Rightarrow> 'b) \<Rightarrow> ('e, 'a) result \<Rightarrow> ('e, 'b) result" where
  "map_res f r = (case r of Ok a \<Rightarrow> Ok (f a) | Err e \<Rightarrow> Err e)"

definition map_err :: "('e \<Rightarrow> 'f) \<Rightarrow> ('e, 'a) result \<Rightarrow> ('f, 'a) result" where
  "map_err f r = (case r of Ok a \<Rightarrow> Ok a | Err e \<Rightarrow> Err (f e))"

definition ok_or :: "'e \<Rightarrow> 'a option \<Rightarrow> ('e, 'a) result" where
  "ok_or e x = (case x of Some a \<Rightarrow> Ok a | None \<Rightarrow> Err e)"

lemma is_ok_simps [simp]: "is_ok (Ok a)" "\<not> is_ok (Err e)"
  by (simp_all add: is_ok_def)

lemma is_ok_iff: "is_ok r \<longleftrightarrow> (\<exists>a. r = Ok a)"
  by (cases r) simp_all

lemma and_then_simps [simp]:
  "and_then (Ok a) f = f a" "and_then (Err e) f = Err e"
  by (simp_all add: and_then_def)

lemma and_then_eq_Ok [simp]:
  "and_then r f = Ok b \<longleftrightarrow> (\<exists>a. r = Ok a \<and> f a = Ok b)"
  by (cases r) simp_all

lemma and_then_eq_Err:
  "and_then r f = Err e \<longleftrightarrow> r = Err e \<or> (\<exists>a. r = Ok a \<and> f a = Err e)"
  by (cases r) auto

lemma map_res_simps [simp]:
  "map_res f (Ok a) = Ok (f a)" "map_res f (Err e) = Err e"
  by (simp_all add: map_res_def)

lemma map_res_eq_Ok [simp]: "map_res f r = Ok b \<longleftrightarrow> (\<exists>a. r = Ok a \<and> b = f a)"
  by (cases r) auto

lemma map_err_simps [simp]:
  "map_err f (Ok a) = Ok a" "map_err f (Err e) = Err (f e)"
  by (simp_all add: map_err_def)

lemma map_err_eq_Ok [simp]: "map_err f r = Ok b \<longleftrightarrow> r = Ok b"
  by (cases r) auto

lemma ok_or_simps [simp]: "ok_or e (Some a) = Ok a" "ok_or e None = Err e"
  by (simp_all add: ok_or_def)

lemma ok_or_eq_Ok [simp]: "ok_or e x = Ok a \<longleftrightarrow> x = Some a"
  by (cases x) simp_all

lemma ok_or_eq_Err [simp]: "ok_or e x = Err e' \<longleftrightarrow> x = None \<and> e' = e"
  by (cases x) auto


subsection \<open>Checked and saturating arithmetic\<close>

definition checked_add :: "'w::len word \<Rightarrow> 'w word \<Rightarrow> 'w word option" where
  "checked_add a b = (if unat a + unat b < 2 ^ LENGTH('w) then Some (a + b) else None)"

definition checked_sub :: "'w::len word \<Rightarrow> 'w word \<Rightarrow> 'w word option" where
  "checked_sub a b = (if b \<le> a then Some (a - b) else None)"

definition checked_mul :: "'w::len word \<Rightarrow> 'w word \<Rightarrow> 'w word option" where
  "checked_mul a b = (if unat a * unat b < 2 ^ LENGTH('w) then Some (a * b) else None)"

definition saturating_add :: "'w::len word \<Rightarrow> 'w word \<Rightarrow> 'w word" where
  "saturating_add a b = (if unat a + unat b < 2 ^ LENGTH('w) then a + b else - 1)"

definition saturating_sub :: "'w::len word \<Rightarrow> 'w word \<Rightarrow> 'w word" where
  "saturating_sub a b = (if b \<le> a then a - b else 0)"

definition saturating_mul :: "'w::len word \<Rightarrow> 'w word \<Rightarrow> 'w word" where
  "saturating_mul a b = (if unat a * unat b < 2 ^ LENGTH('w) then a * b else - 1)"

lemma unat_max: "unat (- 1 :: 'w::len word) = 2 ^ LENGTH('w) - 1"
  by (simp add: unsigned_minus_1_eq_mask mask_eq_exp_minus_1)

lemma unat_add_lt:
  "unat a + unat b < 2 ^ LENGTH('w) \<Longrightarrow> unat (a + b :: 'w::len word) = unat a + unat b"
  using unat_add_lem by blast

lemma unat_mult_lt:
  "unat a * unat b < 2 ^ LENGTH('w) \<Longrightarrow> unat (a * b :: 'w::len word) = unat a * unat b"
  using unat_mult_lem by blast

lemma unat_sub_le: "b \<le> a \<Longrightarrow> unat (a - b :: 'w::len word) = unat a - unat b"
  by (simp add: unat_sub)

lemma checked_add_eq_Some [arith_unat]:
  "checked_add a b = Some c \<longleftrightarrow> unat (c :: 'w::len word) = unat a + unat b"
proof
  assume "checked_add a b = Some c"
  then show "unat c = unat a + unat b"
    by (auto simp: checked_add_def unat_add_lt split: if_splits)
next
  assume *: "unat c = unat a + unat b"
  then have "unat a + unat b < 2 ^ LENGTH('w)"
    by (metis unsigned_less)
  with * show "checked_add a b = Some c"
    by (simp add: checked_add_def word_unat_eq_iff unat_add_lt)
qed

lemma checked_add_eq_None [arith_unat]:
  "checked_add a (b :: 'w::len word) = None \<longleftrightarrow> 2 ^ LENGTH('w) \<le> unat a + unat b"
  by (auto simp: checked_add_def)

lemma checked_sub_eq_Some [arith_unat]:
  "checked_sub a b = Some c \<longleftrightarrow> unat (a :: 'w::len word) = unat b + unat c"
proof
  assume "checked_sub a b = Some c"
  then show "unat a = unat b + unat c"
    by (auto simp: checked_sub_def unat_sub_le word_le_nat_alt split: if_splits)
next
  assume *: "unat a = unat b + unat c"
  then have "b \<le> a" by (simp add: word_le_nat_alt)
  with * show "checked_sub a b = Some c"
    by (simp add: checked_sub_def word_unat_eq_iff unat_sub_le)
qed

lemma checked_sub_eq_None [arith_unat]: "checked_sub a b = None \<longleftrightarrow> unat a < unat b"
  by (auto simp: checked_sub_def word_le_nat_alt)

lemma checked_mul_eq_Some [arith_unat]:
  "checked_mul a b = Some c \<longleftrightarrow> unat (c :: 'w::len word) = unat a * unat b"
proof
  assume "checked_mul a b = Some c"
  then show "unat c = unat a * unat b"
    by (auto simp: checked_mul_def unat_mult_lt split: if_splits)
next
  assume *: "unat c = unat a * unat b"
  then have "unat a * unat b < 2 ^ LENGTH('w)"
    by (metis unsigned_less)
  with * show "checked_mul a b = Some c"
    by (simp add: checked_mul_def word_unat_eq_iff unat_mult_lt)
qed

lemma unat_saturating_add [arith_unat]:
  "unat (saturating_add a b :: 'w::len word) = min (unat a + unat b) (2 ^ LENGTH('w) - 1)"
  by (auto simp: saturating_add_def unat_add_lt unat_max)

lemma unat_saturating_sub [arith_unat]: "unat (saturating_sub a b) = unat a - unat b"
  by (auto simp: saturating_sub_def unat_sub_le word_le_nat_alt)

lemma unat_saturating_mul [arith_unat]:
  "unat (saturating_mul a b :: 'w::len word) = min (unat a * unat b) (2 ^ LENGTH('w) - 1)"
  by (auto simp: saturating_mul_def unat_mult_lt unat_max)

lemma checked_add_0 [simp]: "checked_add a 0 = Some a" "checked_add 0 a = Some a"
  by (simp_all add: checked_add_eq_Some)

lemma checked_sub_0 [simp]: "checked_sub a 0 = Some a"
  by (simp add: checked_sub_eq_Some)

lemma checked_add_commute: "checked_add a b = checked_add b a"
  by (simp add: checked_add_def add.commute)

lemma saturating_add_0 [simp]: "saturating_add a 0 = a" "saturating_add 0 a = a"
  by (simp_all add: saturating_add_def)

lemma saturating_sub_0 [simp]: "saturating_sub a 0 = a"
  by (simp add: saturating_sub_def)

lemma unat_bound [simp]: "unat (a :: 'w::len word) < 2 ^ LENGTH('w)"
  by (rule unsigned_less)


subsection \<open>Sums over lists\<close>

definition saturating_sum :: "'w::len word list \<Rightarrow> 'w word" where
  "saturating_sum xs = foldl saturating_add 0 xs"

lemma unat_foldl_saturating_add:
  "unat (foldl saturating_add a xs :: 'w::len word)
     = min (unat a + sum_list (map unat xs)) (2 ^ LENGTH('w) - 1)"
proof (induction xs arbitrary: a)
  case Nil
  have "unat a \<le> 2 ^ LENGTH('w) - 1"
    using unat_bound [of a] by linarith
  then show ?case by simp
next
  case (Cons x xs)
  have "min (min p m + q) m = min (p + q) m" for p q m :: nat by linarith
  with Cons show ?case by (simp only: foldl_Cons unat_saturating_add) (simp add: add.assoc)
qed

lemma unat_saturating_sum [arith_unat]:
  "unat (saturating_sum xs :: 'w::len word) = min (sum_list (map unat xs)) (2 ^ LENGTH('w) - 1)"
  by (simp add: saturating_sum_def unat_foldl_saturating_add)

fun checked_sum :: "'w::len word \<Rightarrow> 'w word list \<Rightarrow> 'w word option" where
  "checked_sum acc [] = Some acc"
| "checked_sum acc (x # xs) =
    (case checked_add acc x of Some s \<Rightarrow> checked_sum s xs | None \<Rightarrow> None)"

lemma checked_sum_eq_Some [arith_unat]:
  "checked_sum acc xs = Some s \<longleftrightarrow> unat (s :: 'w::len word) = unat acc + sum_list (map unat xs)"
proof (induction xs arbitrary: acc)
  case Nil
  then show ?case by (auto simp: word_unat_eq_iff)
next
  case (Cons x xs)
  show ?case
  proof (cases "checked_add acc x")
    case None
    then have "unat s < unat acc + unat x"
      using unat_bound [of s] unfolding checked_add_eq_None by linarith
    with None show ?thesis by simp
  next
    case (Some t)
    then have "unat t = unat acc + unat x" by (simp add: checked_add_eq_Some)
    with Some Cons show ?thesis by (simp add: add.assoc)
  qed
qed

end
