(* ===== verification/Lattice.thy ===== *)
theory Lattice
  imports Prelude
begin

text \<open>
  \<open>crates/types/src/mode.rs\<close>: access modes with their parameters, the parameter-free
  kinds scheduling reads, the compatibility relation between kinds, and the three
  conflict classes it partitions them into. Constructors carry the kind's or the
  class's initial where the source reuses a variant name across enums.
\<close>

datatype Moves = In | Out | Both

datatype Mode =
    Read
  | Delta (delta_moves: Moves)
  | Reserve (reserve_amount: u128)
  | Write (write_moves: Moves)

datatype Presence = Either | Absent | Present

datatype ModeKind = KRead | KDelta | KReserve | KWrite

datatype ConflictClass = CRead | CMovement | CWrite

fun credits :: "Moves \<Rightarrow> bool" where
  "credits In = True"
| "credits Both = True"
| "credits Out = False"

fun debits :: "Moves \<Rightarrow> bool" where
  "debits Out = True"
| "debits Both = True"
| "debits In = False"

fun meet :: "Presence \<Rightarrow> Presence \<Rightarrow> Presence option" where
  "meet Either met = Some met"
| "meet met Either = Some met"
| "meet Absent Absent = Some Absent"
| "meet Present Present = Some Present"
| "meet Absent Present = None"
| "meet Present Absent = None"

fun mode_moves :: "Mode \<Rightarrow> Moves option" where
  "mode_moves Read = None"
| "mode_moves (Delta moves) = Some moves"
| "mode_moves (Write moves) = Some moves"
| "mode_moves (Reserve _) = Some Out"

fun kind :: "Mode \<Rightarrow> ModeKind" where
  "kind Read = KRead"
| "kind (Delta _) = KDelta"
| "kind (Reserve _) = KReserve"
| "kind (Write _) = KWrite"

fun compatible :: "ModeKind \<Rightarrow> ModeKind \<Rightarrow> bool" where
  "compatible KRead KRead = True"
| "compatible KDelta KDelta = True"
| "compatible KDelta KReserve = True"
| "compatible KReserve KDelta = True"
| "compatible KReserve KReserve = True"
| "compatible _ _ = False"

fun representative :: "ConflictClass \<Rightarrow> ModeKind" where
  "representative CRead = KRead"
| "representative CMovement = KDelta"
| "representative CWrite = KWrite"

definition conflicts_with :: "ConflictClass \<Rightarrow> ConflictClass \<Rightarrow> bool" where
  "conflicts_with a b = (\<not> compatible (representative a) (representative b))"

fun conflict_class :: "ModeKind \<Rightarrow> ConflictClass" where
  "conflict_class KRead = CRead"
| "conflict_class KDelta = CMovement"
| "conflict_class KReserve = CMovement"
| "conflict_class KWrite = CWrite"


subsection \<open>The derived order of modes\<close>

fun moves_rank :: "Moves \<Rightarrow> nat" where
  "moves_rank In = 0"
| "moves_rank Out = 1"
| "moves_rank Both = 2"

fun mode_key :: "Mode \<Rightarrow> nat \<times> nat \<times> u128" where
  "mode_key Read = (0, 0, 0)"
| "mode_key (Delta m) = (1, moves_rank m, 0)"
| "mode_key (Reserve a) = (2, 0, a)"
| "mode_key (Write m) = (3, moves_rank m, 0)"

lemma moves_rank_inj [simp]: "moves_rank a = moves_rank b \<longleftrightarrow> a = b"
  by (cases a; cases b) simp_all

lemma mode_key_inj [simp]: "mode_key a = mode_key b \<longleftrightarrow> a = b"
  by (cases a; cases b) simp_all

instantiation Mode :: linorder
begin

definition less_eq_Mode :: "Mode \<Rightarrow> Mode \<Rightarrow> bool" where
  "less_eq_Mode a b = (mode_key a \<le> mode_key b)"

definition less_Mode :: "Mode \<Rightarrow> Mode \<Rightarrow> bool" where
  "less_Mode a b = (mode_key a < mode_key b)"

instance
  by standard (auto simp: less_eq_Mode_def less_Mode_def simp flip: mode_key_inj)

end


subsection \<open>Laws of the lattice\<close>

lemma compatible_sym: "compatible a b = compatible b a"
  by (cases a; cases b) simp_all

lemma compatible_class: "compatible a b \<longleftrightarrow> \<not> conflicts_with (conflict_class a) (conflict_class b)"
  by (cases a; cases b) (simp_all add: conflicts_with_def)

lemma compatible_trans: "compatible a b \<Longrightarrow> compatible b c \<Longrightarrow> compatible a c"
  by (cases a; cases b; cases c) simp_all

lemma write_excludes [simp]: "\<not> compatible KWrite k" "\<not> compatible k KWrite"
  by (cases k; simp)+

lemma conflicts_with_sym: "conflicts_with a b = conflicts_with b a"
  by (simp add: conflicts_with_def compatible_sym)

lemma kind_cases_class:
  "conflict_class k = CRead \<longleftrightarrow> k = KRead"
  "conflict_class k = CWrite \<longleftrightarrow> k = KWrite"
  "conflict_class k = CMovement \<longleftrightarrow> k = KDelta \<or> k = KReserve"
  by (cases k; simp)+

lemma meet_sym: "meet a b = meet b a"
  by (cases a; cases b) simp_all

lemma meet_idem: "meet a a = Some a"
  by (cases a) simp_all

lemma meet_unit: "meet a Either = Some a"
  by (cases a) simp_all

end
