(* ===== verification/Address.thy ===== *)
theory Address
  imports Lattice
begin

text \<open>
  \<open>crates/types/src/address.rs\<close>: addresses, the class byte they end in, substate keys
  and declared access targets, each with the order Rust derives for it. An address
  is its thirty-two bytes read as one big-endian word, so the class tag is the low
  byte; local keys and collection ids are sixteen bytes.
\<close>

type_synonym LocalKey = u128
type_synonym CollectionId = u128
type_synonym Address = hash32
type_synonym TxHash = hash32

datatype AddressClass = Principal | Component | Package | Resource | Native | Restricted

fun tag :: "AddressClass \<Rightarrow> u8" where
  "tag Principal = 1"
| "tag Component = 2"
| "tag Package = 3"
| "tag Resource = 4"
| "tag Native = 5"
| "tag Restricted = 6"

definition from_tag :: "u8 \<Rightarrow> AddressClass option" where
  "from_tag t =
    (if t = 1 then Some Principal else if t = 2 then Some Component
     else if t = 3 then Some Package else if t = 4 then Some Resource
     else if t = 5 then Some Native else if t = 6 then Some Restricted
     else None)"

definition address_new :: "248 word \<Rightarrow> AddressClass \<Rightarrow> Address" where
  "address_new body class = (word_cat body (tag class) :: 256 word)"

definition address_class :: "Address \<Rightarrow> AddressClass option" where
  "address_class a = from_tag (ucast a)"

definition address_body :: "Address \<Rightarrow> 248 word" where
  "address_body a = ucast (drop_bit 8 a)"

definition address_from_bytes :: "hash32 \<Rightarrow> (u8, Address) result" where
  "address_from_bytes b = (case from_tag (ucast b) of Some _ \<Rightarrow> Ok b | None \<Rightarrow> Err (ucast b))"

datatype SubstateKey = SubstateKey (sk_owner: Address) (sk_local: LocalKey)

definition key_to_bytes :: "SubstateKey \<Rightarrow> 384 word" where
  "key_to_bytes k = word_cat (sk_owner k) (sk_local k)"

definition key_from_bytes :: "384 word \<Rightarrow> (u8, SubstateKey) result" where
  "key_from_bytes b =
    and_then (address_from_bytes (ucast (drop_bit 128 b)))
      (\<lambda>owner. Ok (SubstateKey owner (ucast b)))"

datatype EffectTarget =
    Point SubstateKey
  | Entry Address CollectionId u128
  | RangeT Address CollectionId u128 u128 u32

fun target_owner :: "EffectTarget \<Rightarrow> Address" where
  "target_owner (Point key) = sk_owner key"
| "target_owner (Entry owner _ _) = owner"
| "target_owner (RangeT owner _ _ _ _) = owner"


subsection \<open>Derived orders\<close>

fun sk_key :: "SubstateKey \<Rightarrow> Address \<times> LocalKey" where
  "sk_key (SubstateKey a l) = (a, l)"

lemma sk_key_inj [simp]: "sk_key a = sk_key b \<longleftrightarrow> a = b"
  by (cases a; cases b) simp

instantiation SubstateKey :: linorder
begin

definition less_eq_SubstateKey :: "SubstateKey \<Rightarrow> SubstateKey \<Rightarrow> bool" where
  "less_eq_SubstateKey a b = (sk_key a \<le> sk_key b)"

definition less_SubstateKey :: "SubstateKey \<Rightarrow> SubstateKey \<Rightarrow> bool" where
  "less_SubstateKey a b = (sk_key a < sk_key b)"

instance
  by standard (auto simp: less_eq_SubstateKey_def less_SubstateKey_def simp flip: sk_key_inj)

end

fun target_key :: "EffectTarget \<Rightarrow> nat \<times> Address \<times> u128 \<times> u128 \<times> u128 \<times> u32" where
  "target_key (Point (SubstateKey a l)) = (0, a, l, 0, 0, 0)"
| "target_key (Entry a c x) = (1, a, c, x, 0, 0)"
| "target_key (RangeT a c lo hi cap) = (2, a, c, lo, hi, cap)"

lemma target_key_inj [simp]: "target_key a = target_key b \<longleftrightarrow> a = b"
  by (cases a rule: target_key.cases; cases b rule: target_key.cases) simp_all

instantiation EffectTarget :: linorder
begin

definition less_eq_EffectTarget :: "EffectTarget \<Rightarrow> EffectTarget \<Rightarrow> bool" where
  "less_eq_EffectTarget a b = (target_key a \<le> target_key b)"

definition less_EffectTarget :: "EffectTarget \<Rightarrow> EffectTarget \<Rightarrow> bool" where
  "less_EffectTarget a b = (target_key a < target_key b)"

instance
  by standard (auto simp: less_eq_EffectTarget_def less_EffectTarget_def simp flip: target_key_inj)

end

lemmas order_eval = less_eq_SubstateKey_def less_SubstateKey_def
  less_eq_EffectTarget_def less_EffectTarget_def less_eq_Mode_def less_Mode_def


subsection \<open>The class byte\<close>

lemma from_tag_tag [simp]: "from_tag (tag c) = Some c"
  by (cases c) (simp_all add: from_tag_def)

lemma from_tag_Some: "from_tag t = Some c \<Longrightarrow> t = tag c"
  by (auto simp: from_tag_def split: if_splits)

lemma ucast_word_cat_low:
  "LENGTH('a) + LENGTH('b) \<le> LENGTH('c) \<Longrightarrow>
   ucast (word_cat (a :: 'a::len word) (b :: 'b::len word) :: 'c::len word) = b"
  by (rule bit_word_eqI) (auto simp: bit_simps bit_word_cat_iff bit_ucast_iff)

lemma ucast_drop_word_cat_high:
  "LENGTH('a) + LENGTH('b) \<le> LENGTH('c) \<Longrightarrow>
   ucast (drop_bit LENGTH('b) (word_cat (a :: 'a::len word) (b :: 'b::len word) :: 'c::len word)) = a"
  by (rule bit_word_eqI)
     (auto simp: bit_simps bit_word_cat_iff bit_ucast_iff)

lemma word_cat_split:
  "LENGTH('c) = LENGTH('a) + LENGTH('b) \<Longrightarrow>
   word_cat (ucast (drop_bit LENGTH('b) w) :: 'a::len word) (ucast w :: 'b::len word)
     = (w :: 'c::len word)"
  by (rule bit_word_eqI)
     (auto simp: bit_simps bit_word_cat_iff bit_ucast_iff not_less dest: bit_imp_le_length)

lemma address_class_new: "address_class (address_new body c) = Some c"
  using ucast_word_cat_low [where 'a = 248 and 'b = 8 and 'c = 256]
  by (simp add: address_class_def address_new_def)

lemma address_body_new: "address_body (address_new body c) = body"
  using ucast_drop_word_cat_high [where 'a = 248 and 'b = 8 and 'c = 256]
  by (simp add: address_body_def address_new_def)

lemma address_new_split: "address_class a = Some c \<Longrightarrow> address_new (address_body a) c = a"
  using word_cat_split [where 'a = 248 and 'b = 8 and 'c = 256, of a]
  by (auto simp: address_class_def address_new_def address_body_def dest: from_tag_Some)

lemma key_bytes_roundtrip:
  "address_class (sk_owner k) \<noteq> None \<Longrightarrow> key_from_bytes (key_to_bytes k) = Ok k"
  using ucast_drop_word_cat_high [where 'a = 256 and 'b = 128 and 'c = 384, of "sk_owner k" "sk_local k"]
    ucast_word_cat_low [where 'a = 256 and 'b = 128 and 'c = 384, of "sk_owner k" "sk_local k"]
  by (auto simp: key_from_bytes_def key_to_bytes_def address_from_bytes_def address_class_def
      split: option.splits)

lemma key_from_bytes_Ok:
  "key_from_bytes b = Ok k \<Longrightarrow> key_to_bytes k = b \<and> address_class (sk_owner k) \<noteq> None"
  using word_cat_split [where 'a = 256 and 'b = 128 and 'c = 384, of b]
  by (auto simp: key_from_bytes_def key_to_bytes_def address_from_bytes_def address_class_def
      split: option.splits)

end
