(* ===== verification/BTree.thy ===== *)
theory BTree
  imports Prelude
begin

text \<open>
  Rust's \<open>BTreeMap\<close> and \<open>BTreeSet\<close>. A map is the list of its entries in strictly
  ascending key order, so two maps are equal exactly when they answer every lookup
  the same, and an iteration is the list itself. Sets are maps to unit.
\<close>

named_theorems bt_eval \<open>the entry list of each map operation, for evaluation\<close>

typedef (overloaded) ('k::linorder, 'v) btmap =
  "{xs :: ('k \<times> 'v) list. sorted_wrt (<) (map fst xs)}"
  morphisms entries BTMap
  by (rule exI [of _ "[]"]) simp

setup_lifting type_definition_btmap

type_synonym 'k btset = "('k, unit) btmap"

fun ins_entry :: "'k::linorder \<Rightarrow> 'v \<Rightarrow> ('k \<times> 'v) list \<Rightarrow> ('k \<times> 'v) list" where
  "ins_entry k v [] = [(k, v)]"
| "ins_entry k v ((k', v') # xs) =
    (if k < k' then (k, v) # (k', v') # xs
     else if k = k' then (k, v) # xs
     else (k', v') # ins_entry k v xs)"

lemma set_fst_ins_entry: "fst ` set (ins_entry k v xs) = insert k (fst ` set xs)"
  by (induction k v xs rule: ins_entry.induct) auto

lemma sorted_ins_entry:
  "sorted_wrt (<) (map fst xs) \<Longrightarrow> sorted_wrt (<) (map fst (ins_entry k v xs))"
  by (induction k v xs rule: ins_entry.induct)
     (auto simp: set_fst_ins_entry dest: less_trans)

lemma map_of_ins_entry: "map_of (ins_entry k v xs) = (map_of xs)(k \<mapsto> v)"
  by (induction k v xs rule: ins_entry.induct) (auto simp: fun_eq_iff)

lemma sorted_filter_entries:
  "sorted_wrt (<) (map fst xs) \<Longrightarrow> sorted_wrt (<) (map fst (filter P xs))"
  by (induction xs) auto

lift_definition bt_empty :: "('k::linorder, 'v) btmap" is "[]"
  by simp

lift_definition bt_get :: "('k::linorder, 'v) btmap \<Rightarrow> 'k \<Rightarrow> 'v option" is map_of .

lift_definition bt_insert :: "'k::linorder \<Rightarrow> 'v \<Rightarrow> ('k, 'v) btmap \<Rightarrow> ('k, 'v) btmap"
  is ins_entry by (rule sorted_ins_entry)

lift_definition bt_remove :: "'k::linorder \<Rightarrow> ('k, 'v) btmap \<Rightarrow> ('k, 'v) btmap"
  is "\<lambda>k. filter (\<lambda>e. fst e \<noteq> k)" by (rule sorted_filter_entries)

lift_definition bt_filter :: "('k::linorder \<Rightarrow> 'v \<Rightarrow> bool) \<Rightarrow> ('k, 'v) btmap \<Rightarrow> ('k, 'v) btmap"
  is "\<lambda>P. filter (\<lambda>e. P (fst e) (snd e))" by (rule sorted_filter_entries)

lift_definition bt_map :: "('k::linorder \<Rightarrow> 'v \<Rightarrow> 'w) \<Rightarrow> ('k, 'v) btmap \<Rightarrow> ('k, 'w) btmap"
  is "\<lambda>f. map (\<lambda>e. (fst e, f (fst e) (snd e)))" by (simp add: comp_def)

definition bt_keys :: "('k::linorder, 'v) btmap \<Rightarrow> 'k list" where
  "bt_keys m = map fst (entries m)"

definition bt_values :: "('k::linorder, 'v) btmap \<Rightarrow> 'v list" where
  "bt_values m = map snd (entries m)"

definition bt_is_empty :: "('k::linorder, 'v) btmap \<Rightarrow> bool" where
  "bt_is_empty m = (entries m = [])"

definition bt_len :: "('k::linorder, 'v) btmap \<Rightarrow> nat" where
  "bt_len m = length (entries m)"

definition bt_contains :: "('k::linorder, 'v) btmap \<Rightarrow> 'k \<Rightarrow> bool" where
  "bt_contains m k = (bt_get m k \<noteq> None)"

definition bt_get_or :: "'v \<Rightarrow> ('k::linorder, 'v) btmap \<Rightarrow> 'k \<Rightarrow> 'v" where
  "bt_get_or d m k = (case bt_get m k of Some v \<Rightarrow> v | None \<Rightarrow> d)"

definition bt_extend :: "('k::linorder, 'v) btmap \<Rightarrow> ('k \<times> 'v) list \<Rightarrow> ('k, 'v) btmap" where
  "bt_extend m xs = foldl (\<lambda>m e. bt_insert (fst e) (snd e) m) m xs"

text \<open>\<open>entry(k).or_default()\<close> followed by an update in place, \<open>get_mut\<close> followed by one, and the
  entries of an inclusive range in ascending order.\<close>

definition bt_entry :: "'v \<Rightarrow> ('v \<Rightarrow> 'v) \<Rightarrow> 'k::linorder \<Rightarrow> ('k, 'v) btmap \<Rightarrow> ('k, 'v) btmap" where
  "bt_entry d f k m = bt_insert k (f (bt_get_or d m k)) m"

definition bt_modify :: "('v \<Rightarrow> 'v) \<Rightarrow> 'k::linorder \<Rightarrow> ('k, 'v) btmap \<Rightarrow> ('k, 'v) btmap" where
  "bt_modify f k m = (case bt_get m k of Some v \<Rightarrow> bt_insert k (f v) m | None \<Rightarrow> m)"

definition bt_range :: "'k::linorder \<Rightarrow> 'k \<Rightarrow> ('k, 'v) btmap \<Rightarrow> ('k \<times> 'v) list" where
  "bt_range lo hi m = filter (\<lambda>e. lo \<le> fst e \<and> fst e \<le> hi) (entries m)"

definition bt_of_list :: "('k::linorder \<times> 'v) list \<Rightarrow> ('k, 'v) btmap" where
  "bt_of_list xs = bt_extend bt_empty xs"

abbreviation bs_insert :: "'k::linorder \<Rightarrow> 'k btset \<Rightarrow> 'k btset" where
  "bs_insert k s \<equiv> bt_insert k () s"

definition bs_of_list :: "'k::linorder list \<Rightarrow> 'k btset" where
  "bs_of_list xs = bt_of_list (map (\<lambda>k. (k, ())) xs)"

definition bt_sum :: "('k::linorder \<Rightarrow> 'v \<Rightarrow> nat) \<Rightarrow> ('k, 'v) btmap \<Rightarrow> nat" where
  "bt_sum f m = sum_list (map (\<lambda>e. f (fst e) (snd e)) (entries m))"


subsection \<open>Lookups\<close>

lemma bt_get_empty [simp]: "bt_get bt_empty k = None"
  by transfer simp

lemma bt_get_insert [simp]:
  "bt_get (bt_insert k v m) k' = (if k' = k then Some v else bt_get m k')"
  by transfer (simp add: map_of_ins_entry)

lemma map_of_filter_fst: "map_of (filter (\<lambda>e. P (fst e)) xs) k = (if P k then map_of xs k else None)"
  by (induction xs) auto

lemma bt_get_remove [simp]:
  "bt_get (bt_remove k m) k' = (if k' = k then None else bt_get m k')"
  by transfer (simp add: map_of_filter_fst [where P = "\<lambda>x. x \<noteq> _"])

lemma map_of_filter_sorted:
  "sorted_wrt (<) (map fst (xs :: ('k::linorder \<times> 'v) list)) \<Longrightarrow>
   map_of (filter (\<lambda>e. P (fst e) (snd e)) xs) k
     = (case map_of xs k of Some v \<Rightarrow> if P k v then Some v else None | None \<Rightarrow> None)"
proof (induction xs)
  case (Cons e xs)
  then have "map_of xs (fst e) = None"
    by (auto simp: map_of_eq_None_iff)
  with Cons show ?case by auto
qed simp

lemma bt_get_filter [simp]:
  "bt_get (bt_filter P m) k
     = (case bt_get m k of Some v \<Rightarrow> if P k v then Some v else None | None \<Rightarrow> None)"
  by transfer (rule map_of_filter_sorted)

lemma map_of_map_entry: "map_of (map (\<lambda>e. (fst e, f (fst e) (snd e))) xs) k = map_option (f k) (map_of xs k)"
  by (induction xs) auto

lemma bt_get_map [simp]: "bt_get (bt_map f m) k = map_option (f k) (bt_get m k)"
  by transfer (rule map_of_map_entry)

lemma bt_contains_iff: "bt_contains m k \<longleftrightarrow> (\<exists>v. bt_get m k = Some v)"
  by (simp add: bt_contains_def)

lemma bt_get_or_simps [simp]:
  "bt_get m k = None \<Longrightarrow> bt_get_or d m k = d"
  "bt_get m k = Some v \<Longrightarrow> bt_get_or d m k = v"
  by (simp_all add: bt_get_or_def)

lemma distinct_fst_entries [simp]: "distinct (map fst (entries m))"
  by (metis (mono_tags, lifting) entries mem_Collect_eq strict_sorted_iff)

lemma sorted_entries: "sorted_wrt (<) (map fst (entries m))"
  using entries [of m] by simp

lemma map_of_entries [simp]: "map_of (entries m) = bt_get m"
  by transfer simp

lemma mem_entries_iff [simp]: "(k, v) \<in> set (entries m) \<longleftrightarrow> bt_get m k = Some v"
  by (metis distinct_fst_entries map_of_entries map_of_eq_Some_iff)

lemma mem_keys_iff [simp]: "k \<in> set (bt_keys m) \<longleftrightarrow> bt_contains m k"
  using map_of_eq_None_iff [of "entries m" k] by (simp add: bt_keys_def bt_contains_def)

lemma mem_values_iff: "(v :: 'v) \<in> set (bt_values (m :: ('k::linorder, 'v) btmap)) \<longleftrightarrow> (\<exists>k. bt_get m k = Some v)"
proof -
  have "v \<in> snd ` S \<longleftrightarrow> (\<exists>k. (k, v) \<in> S)" for S :: "('k \<times> 'v) set" by force
  then show ?thesis by (simp add: bt_values_def)
qed

lemma btmap_eqI: "(\<And>k. bt_get m k = bt_get m' k) \<Longrightarrow> m = m'"
proof -
  assume *: "\<And>k. bt_get m k = bt_get m' k"
  then have "set (entries m) = set (entries m')" by auto
  moreover have "inj_on fst (set (entries m) \<union> set (entries m'))"
    using * by (auto intro!: inj_onI)
  moreover have "sorted (map fst (entries x))" for x :: "('a, 'b) btmap"
    using sorted_entries strict_sorted_iff by blast
  ultimately have "entries m = entries m'"
    by (intro map_sorted_distinct_set_unique) auto
  then show "m = m'" by (simp add: entries_inject)
qed

lemma btmap_eq_iff: "m = m' \<longleftrightarrow> (\<forall>k. bt_get m k = bt_get m' k)"
  by (auto intro: btmap_eqI)

lemma bt_is_empty_iff [simp]: "bt_is_empty m \<longleftrightarrow> m = bt_empty"
  unfolding bt_is_empty_def by transfer simp

lemma entries_eq_Nil_iff [simp]: "entries m = [] \<longleftrightarrow> m = bt_empty"
  by transfer simp

lemma bt_remove_absent [simp]: "bt_get m k = None \<Longrightarrow> bt_remove k m = m"
  by (rule btmap_eqI) auto

lemma bt_remove_insert [simp]: "bt_remove k (bt_insert k v m) = bt_remove k m"
  by (rule btmap_eqI) auto

lemma bt_insert_remove [simp]: "bt_insert k v (bt_remove k m) = bt_insert k v m"
  by (rule btmap_eqI) auto

lemma bt_insert_same: "bt_get m k = Some v \<Longrightarrow> bt_insert k v m = m"
  by (rule btmap_eqI) auto

lemma bt_insert_insert [simp]: "bt_insert k v (bt_insert k w m) = bt_insert k v m"
  by (rule btmap_eqI) auto

lemma bt_insert_neq_empty [simp]: "bt_insert k v m \<noteq> bt_empty"
  by (metis bt_get_empty bt_get_insert option.distinct(1))

lemma bt_neq_empty_iff: "m \<noteq> bt_empty \<longleftrightarrow> (\<exists>k v. bt_get m k = Some v)"
  by (metis bt_get_empty btmap_eqI not_None_eq)


subsection \<open>Entry lists\<close>

lemma entries_empty [simp, bt_eval]: "entries bt_empty = []"
  by transfer simp

lemma entries_insert [bt_eval]: "entries (bt_insert k v m) = ins_entry k v (entries m)"
  by transfer simp

lemma entries_remove [bt_eval]: "entries (bt_remove k m) = filter (\<lambda>e. fst e \<noteq> k) (entries m)"
  by transfer simp

lemma entries_filter [bt_eval]: "entries (bt_filter P m) = filter (\<lambda>e. P (fst e) (snd e)) (entries m)"
  by transfer simp

lemma entries_map [bt_eval]: "entries (bt_map f m) = map (\<lambda>e. (fst e, f (fst e) (snd e))) (entries m)"
  by transfer simp

lemma bt_extend_simps [simp]:
  "bt_extend m [] = m"
  "bt_extend m (e # xs) = bt_extend (bt_insert (fst e) (snd e) m) xs"
  by (simp_all add: bt_extend_def)

lemma bt_get_extend:
  "bt_get (bt_extend m xs) k = (case map_of (rev xs) k of Some v \<Rightarrow> Some v | None \<Rightarrow> bt_get m k)"
proof (induction xs arbitrary: m)
  case (Cons e xs)
  then show ?case
    by (simp add: map_add_def split: option.splits)
qed simp

lemma bt_extend_append [simp]: "bt_extend m (xs @ ys) = bt_extend (bt_extend m xs) ys"
  by (simp add: bt_extend_def)

lemma bt_get_extend_entries [simp]:
  "bt_get (bt_extend m (entries n)) k = (case bt_get n k of Some v \<Rightarrow> Some v | None \<Rightarrow> bt_get m k)"
proof -
  have "distinct (map fst (rev (entries n)))" by (simp add: rev_map [symmetric])
  then have "map_of (rev (entries n)) = map_of (entries n)"
    by (intro map_of_eqI) (auto simp: image_iff)
  then show ?thesis by (simp add: bt_get_extend)
qed

lemma bt_get_entry [simp]:
  "bt_get (bt_entry d f k m) k' = (if k' = k then Some (f (bt_get_or d m k)) else bt_get m k')"
  by (simp add: bt_entry_def)

lemma bt_get_modify [simp]:
  "bt_get (bt_modify f k m) k' = (if k' = k then map_option f (bt_get m k) else bt_get m k')"
  by (simp add: bt_modify_def split: option.splits)

lemma bt_get_or_insert [simp]:
  "bt_get_or d (bt_insert k v m) k' = (if k' = k then v else bt_get_or d m k')"
  by (simp add: bt_get_or_def)

lemma bt_get_or_remove [simp]:
  "bt_get_or d (bt_remove k m) k' = (if k' = k then d else bt_get_or d m k')"
  by (simp add: bt_get_or_def)

lemma bt_get_or_entry [simp]:
  "bt_get_or d' (bt_entry d f k m) k' = (if k' = k then f (bt_get_or d m k) else bt_get_or d' m k')"
  by (simp add: bt_get_or_def)

lemma bt_get_or_empty [simp]: "bt_get_or d bt_empty k = d"
  by (simp add: bt_get_or_def)

lemma bt_get_get_or_empty [simp]:
  "bt_get (bt_get_or bt_empty m k) j = Option.bind (bt_get m k) (\<lambda>n. bt_get n j)"
  by (simp add: bt_get_or_def split: option.split)

lemma sorted_bt_range: "sorted_wrt (<) (map fst (bt_range lo hi m))"
  unfolding bt_range_def by (rule sorted_filter_entries [OF sorted_entries])

lemma mem_bt_range: "(k, v) \<in> set (bt_range lo hi m) \<longleftrightarrow> lo \<le> k \<and> k \<le> hi \<and> bt_get m k = Some v"
  by (auto simp: bt_range_def)

lemma map_of_bt_range: "map_of (bt_range lo hi m) k = (if lo \<le> k \<and> k \<le> hi then bt_get m k else None)"
  using map_of_filter_fst [of "\<lambda>k. lo \<le> k \<and> k \<le> hi" "entries m" k] by (simp add: bt_range_def)

lemma bt_range_empty [simp]: "bt_range lo hi bt_empty = []"
  by (simp add: bt_range_def)

lemma bt_get_of_list [simp]: "bt_get (bt_of_list xs) k = map_of (rev xs) k"
  by (simp add: bt_of_list_def bt_get_extend split: option.splits)

lemma bt_contains_bs_of_list [simp]: "bt_contains (bs_of_list xs) k \<longleftrightarrow> k \<in> set xs"
  by (auto simp: bs_of_list_def bt_contains_def rev_map map_of_eq_None_iff image_iff)

lemma bt_contains_insert [simp]: "bt_contains (bt_insert k v m) k' \<longleftrightarrow> k' = k \<or> bt_contains m k'"
  by (auto simp: bt_contains_def)

lemma bt_contains_empty [simp]: "\<not> bt_contains bt_empty k"
  by (simp add: bt_contains_def)

lemma btset_eqI: "(\<And>k. bt_contains s k \<longleftrightarrow> bt_contains t k) \<Longrightarrow> s = (t :: 'k::linorder btset)"
  by (rule btmap_eqI) (metis bt_contains_iff not_None_eq old.unit.exhaust)


subsection \<open>Sums\<close>

lemma bt_sum_empty [simp]: "bt_sum f bt_empty = 0"
  by (simp add: bt_sum_def)

lemma sum_filter_fst:
  "distinct (map fst xs) \<Longrightarrow> map_of xs k = Some v \<Longrightarrow>
   sum_list (map g xs) = (g (k, v) :: nat) + sum_list (map g (filter (\<lambda>e. fst e \<noteq> k) xs))"
proof (induction xs)
  case (Cons e xs)
  show ?case
  proof (cases "fst e = k")
    case True
    with Cons.prems have "k \<notin> fst ` set xs" by auto
    then have "filter (\<lambda>e. fst e \<noteq> k) xs = xs" by (intro filter_True) auto
    moreover have "e = (k, v)" using True Cons.prems by (cases e) simp
    ultimately show ?thesis by simp
  next
    case False
    with Cons show ?thesis by simp
  qed
qed simp

lemma bt_sum_remove:
  "bt_get m k = Some v \<Longrightarrow> bt_sum f m = f k v + bt_sum f (bt_remove k m)"
  using sum_filter_fst [of "entries m" k v "\<lambda>e. f (fst e) (snd e)"]
  by (simp add: bt_sum_def entries_remove)

lemma bt_sum_insert: "bt_sum f (bt_insert k v m) = f k v + bt_sum f (bt_remove k m)"
  using bt_sum_remove [of "bt_insert k v m" k v f] by simp

lemma bt_sum_insert_new: "bt_get m k = None \<Longrightarrow> bt_sum f (bt_insert k v m) = f k v + bt_sum f m"
  by (simp add: bt_sum_insert)

lemma bt_sum_remove_le: "bt_sum f (bt_remove k m) \<le> bt_sum f m"
  by (cases "bt_get m k") (simp_all add: bt_sum_remove)

lemma bt_sum_get_le: "bt_get m k = Some v \<Longrightarrow> f k v \<le> bt_sum f m"
  by (simp add: bt_sum_remove)

lemma bt_sum_cong:
  "(\<And>k v. bt_get m k = Some v \<Longrightarrow> f k v = g k v) \<Longrightarrow> bt_sum f m = bt_sum g m"
proof -
  assume *: "\<And>k v. bt_get m k = Some v \<Longrightarrow> f k v = g k v"
  have "map (\<lambda>e. f (fst e) (snd e)) (entries m) = map (\<lambda>e. g (fst e) (snd e)) (entries m)"
    using * by (auto simp: map_eq_conv)
  then show ?thesis unfolding bt_sum_def by (rule arg_cong)
qed

lemma sum_list_values: "sum_list (map g (bt_values m)) = bt_sum (\<lambda>k v. g v) m"
  by (simp add: bt_values_def bt_sum_def comp_def)


subsection \<open>Equality is executable\<close>

instantiation btmap :: (linorder, equal) equal
begin

definition equal_btmap :: "('a, 'b) btmap \<Rightarrow> ('a, 'b) btmap \<Rightarrow> bool" where
  "equal_btmap m m' = (entries m = entries m')"

instance
  by standard (simp add: equal_btmap_def entries_inject)

end

end
