(* ===== verification/Effects.thy ===== *)
theory Effects
  imports Address BTree "HOL-Library.Multiset"
begin

text \<open>
  \<open>crates/types/src/effect.rs\<close>: one declared access, and the folding set of them a
  transaction declares, with the byte figures read off it. A set is the ordered map
  from target to the decl_modes declared on it and the decl_width of its leaves.
\<close>

definition MAX_SLOT_WIDTH :: u32 where
  "MAX_SLOT_WIDTH = 16 * 1024"

record Effect =
  eff_target :: EffectTarget
  eff_mode :: Mode

datatype EffectConflict = ReserveOverflow

record Declared =
  decl_modes :: "Mode btset"
  decl_width :: u32

type_synonym EffectSet = "(EffectTarget, Declared) btmap"

definition is_reserve :: "Mode \<Rightarrow> bool" where
  "is_reserve m = (case m of Reserve _ \<Rightarrow> True | _ \<Rightarrow> False)"

definition prior_reserve :: "Mode btset \<Rightarrow> u128 option" where
  "prior_reserve ms =
    (case filter is_reserve (bt_keys ms) of [] \<Rightarrow> None | m # _ \<Rightarrow> Some (reserve_amount m))"

definition reserve_fold :: "Effect \<Rightarrow> EffectSet \<Rightarrow> (EffectConflict, (u128 \<times> u128) option) result" where
  "reserve_fold effect S =
    (case eff_mode effect of
       Reserve amount \<Rightarrow>
         (case Option.bind (bt_get S (eff_target effect)) (\<lambda>d. prior_reserve (decl_modes d)) of
            None \<Rightarrow> Ok None
          | Some prior \<Rightarrow>
              map_res (\<lambda>demand. Some (prior, demand))
                (ok_or ReserveOverflow (checked_add prior amount)))
     | _ \<Rightarrow> Ok None)"

definition fold_declared :: "Effect \<Rightarrow> u32 \<Rightarrow> (u128 \<times> u128) option \<Rightarrow> Declared \<Rightarrow> Declared" where
  "fold_declared effect w folded d =
    d\<lparr>decl_width := min (decl_width d) w,
      decl_modes := (case folded of
                  Some (prior, demand) \<Rightarrow>
                    bs_insert (Reserve demand) (bt_remove (Reserve prior) (decl_modes d))
                | None \<Rightarrow> bs_insert (eff_mode effect) (decl_modes d))\<rparr>"

definition insert_bounded ::
  "Effect \<Rightarrow> u32 \<Rightarrow> EffectSet \<Rightarrow> (EffectConflict, bool) result \<times> EffectSet" where
  "insert_bounded effect w S =
    (case reserve_fold effect S of
       Err e \<Rightarrow> (Err e, S)
     | Ok folded \<Rightarrow>
        (let d = bt_get_or \<lparr>decl_modes = bt_empty, decl_width = MAX_SLOT_WIDTH\<rparr> S (eff_target effect);
             narrowed = (w < decl_width d);
             S' = bt_insert (eff_target effect) (fold_declared effect w folded d) S
         in (case folded of
               Some _ \<Rightarrow> (Ok True, S')
             | None \<Rightarrow> (Ok (\<not> bt_contains (decl_modes d) (eff_mode effect) \<or> narrowed), S'))))"

definition width_of :: "EffectSet \<Rightarrow> EffectTarget \<Rightarrow> u32" where
  "width_of S t = (case bt_get S t of Some d \<Rightarrow> decl_width d | None \<Rightarrow> MAX_SLOT_WIDTH)"

definition insert_from ::
  "Effect \<Rightarrow> EffectSet \<Rightarrow> EffectSet \<Rightarrow> (EffectConflict, bool) result \<times> EffectSet" where
  "insert_from effect source S = insert_bounded effect (width_of source (eff_target effect)) S"

definition insert_at_cap :: "Effect \<Rightarrow> EffectSet \<Rightarrow> (EffectConflict, bool) result \<times> EffectSet" where
  "insert_at_cap effect S = insert_bounded effect MAX_SLOT_WIDTH S"

fun leaves_read :: "EffectTarget \<Rightarrow> u64" where
  "leaves_read (Point _) = 1"
| "leaves_read (Entry _ _ _) = 1"
| "leaves_read (RangeT _ _ _ _ cap) = saturating_add (ucast cap) 1"

fun leaves_written :: "EffectTarget \<Rightarrow> u64" where
  "leaves_written (Point _) = 1"
| "leaves_written (Entry _ _ _) = 1"
| "leaves_written (RangeT _ _ _ _ cap) = ucast cap"

definition ENTRY_LEAF_BYTES :: u64 where
  "ENTRY_LEAF_BYTES = 35"

definition entry_leaf_bytes :: "u32 \<Rightarrow> u64" where
  "entry_leaf_bytes w = saturating_add ENTRY_LEAF_BYTES (ucast w)"

fun leaf_bytes :: "EffectTarget \<Rightarrow> u32 \<Rightarrow> u64" where
  "leaf_bytes (Point _) w = ucast w"
| "leaf_bytes (Entry _ _ _) w = entry_leaf_bytes w"
| "leaf_bytes (RangeT _ _ _ _ _) w = entry_leaf_bytes w"

definition read_bytes :: "EffectTarget \<Rightarrow> u32 \<Rightarrow> u64" where
  "read_bytes t w = saturating_mul (leaves_read t) (leaf_bytes t w)"

definition WRITE_LEAF_BYTES :: u64 where
  "WRITE_LEAF_BYTES = 2048"

definition written_leaf :: "u64 \<Rightarrow> u64" where
  "written_leaf leaf = saturating_add WRITE_LEAF_BYTES leaf"

fun write_bytes :: "EffectTarget \<Rightarrow> Mode \<Rightarrow> u32 \<Rightarrow> u64" where
  "write_bytes t Read w = 0"
| "write_bytes t _ w = saturating_mul (leaves_written t) (written_leaf (leaf_bytes t w))"

fun retained_bytes :: "EffectTarget \<Rightarrow> Mode \<Rightarrow> u32 \<Rightarrow> u64" where
  "retained_bytes t Read w = 0"
| "retained_bytes t _ w = saturating_mul (leaves_written t) (leaf_bytes t w)"

definition set_read_bytes :: "EffectSet \<Rightarrow> u64" where
  "set_read_bytes S =
    foldl (\<lambda>acc e. saturating_add acc (read_bytes (fst e) (decl_width (snd e)))) 0 (entries S)"

definition write_bytes_of :: "EffectSet \<Rightarrow> EffectTarget \<Rightarrow> u64" where
  "write_bytes_of S t =
    (case bt_get S t of
       None \<Rightarrow> 0
     | Some d \<Rightarrow> foldl max 0 (map (\<lambda>m. write_bytes t m (decl_width d)) (bt_keys (decl_modes d))))"

definition set_write_bytes :: "EffectSet \<Rightarrow> u64" where
  "set_write_bytes S = foldl (\<lambda>acc t. saturating_add acc (write_bytes_of S t)) 0 (bt_keys S)"

definition retained_bytes_of :: "EffectSet \<Rightarrow> EffectTarget \<Rightarrow> u64" where
  "retained_bytes_of S t =
    (case bt_get S t of
       None \<Rightarrow> 0
     | Some d \<Rightarrow> foldl max 0 (map (\<lambda>m. retained_bytes t m (decl_width d)) (bt_keys (decl_modes d))))"

definition set_retained_bytes :: "EffectSet \<Rightarrow> u64" where
  "set_retained_bytes S =
    foldl (\<lambda>acc t. saturating_add acc (retained_bytes_of S t)) 0 (bt_keys S)"

definition effects_of :: "EffectSet \<Rightarrow> Effect list" where
  "effects_of S =
    concat (map (\<lambda>e. map (\<lambda>m. \<lparr>eff_target = fst e, eff_mode = m\<rparr>) (bt_keys (decl_modes (snd e)))) (entries S))"

definition set_targets :: "EffectSet \<Rightarrow> EffectTarget list" where
  "set_targets S = bt_keys S"

definition set_len :: "EffectSet \<Rightarrow> nat" where
  "set_len S = sum_list (map (\<lambda>d. bt_len (decl_modes d)) (bt_values S))"

definition provision_targets :: "EffectSet \<Rightarrow> EffectTarget btset" where
  "provision_targets S =
    bs_of_list (map fst
      (filter (\<lambda>e. list_ex (\<lambda>m. kind m = KRead \<or> kind m = KWrite) (bt_keys (decl_modes (snd e))))
        (entries S)))"

definition set_contains :: "EffectSet \<Rightarrow> Effect \<Rightarrow> bool" where
  "set_contains S effect =
    (case bt_get S (eff_target effect) of
       None \<Rightarrow> False
     | Some d \<Rightarrow> bt_contains (decl_modes d) (eff_mode effect))"

definition claims_class :: "Declared \<Rightarrow> ConflictClass \<Rightarrow> bool" where
  "claims_class d class = list_ex (\<lambda>m. conflict_class (kind m) = class) (bt_keys (decl_modes d))"

fun self_conflicting_in :: "(EffectTarget \<times> Declared) list \<Rightarrow> SubstateKey option" where
  "self_conflicting_in [] = None"
| "self_conflicting_in ((t, d) # rest) =
    (case t of
       Point key \<Rightarrow>
         if claims_class d CWrite \<and> claims_class d CMovement then Some key else self_conflicting_in rest
     | _ \<Rightarrow> self_conflicting_in rest)"

definition self_conflicting :: "EffectSet \<Rightarrow> SubstateKey option" where
  "self_conflicting S = self_conflicting_in (entries S)"


subsection \<open>Well-formed sets: one reservation total per target\<close>

definition wf_modes :: "Mode btset \<Rightarrow> bool" where
  "wf_modes ms \<longleftrightarrow> (\<forall>a b. bt_contains ms (Reserve a) \<longrightarrow> bt_contains ms (Reserve b) \<longrightarrow> a = b)"

definition wf_set :: "EffectSet \<Rightarrow> bool" where
  "wf_set S \<longleftrightarrow> (\<forall>t d. bt_get S t = Some d \<longrightarrow> wf_modes (decl_modes d))"

lemma prior_reserve_None: "prior_reserve ms = None \<longleftrightarrow> (\<forall>a. \<not> bt_contains ms (Reserve a))"
proof -
  have "filter is_reserve (bt_keys ms) = [] \<longleftrightarrow> (\<forall>m. bt_contains ms m \<longrightarrow> \<not> is_reserve m)"
    by (auto simp: filter_empty_conv)
  also have "\<dots> \<longleftrightarrow> (\<forall>a. \<not> bt_contains ms (Reserve a))"
    by (auto simp: is_reserve_def split: Mode.splits)
  finally show ?thesis
    by (cases "filter is_reserve (bt_keys ms)") (simp_all add: prior_reserve_def)
qed

lemma prior_reserve_SomeD: "prior_reserve ms = Some a \<Longrightarrow> bt_contains ms (Reserve a)"
proof -
  assume *: "prior_reserve ms = Some a"
  then obtain m rest where m: "filter is_reserve (bt_keys ms) = m # rest" "a = reserve_amount m"
    by (auto simp: prior_reserve_def split: list.splits)
  then have "m \<in> set (filter is_reserve (bt_keys ms))" by simp
  with m(2) show ?thesis by (auto simp: is_reserve_def split: Mode.splits)
qed

lemma prior_reserve_Some:
  "wf_modes ms \<Longrightarrow> prior_reserve ms = Some a \<longleftrightarrow> bt_contains ms (Reserve a)"
  by (metis not_None_eq prior_reserve_None prior_reserve_SomeD wf_modes_def)

lemma wf_modes_empty [simp]: "wf_modes bt_empty"
  by (simp add: wf_modes_def)

lemma bt_contains_remove [simp]: "bt_contains (bt_remove k m) k' \<longleftrightarrow> k' \<noteq> k \<and> bt_contains m k'"
  by (auto simp: bt_contains_def)

text \<open>What an insert does to the modes of its target, once the fold has an answer.\<close>

definition fold_mode :: "Mode \<Rightarrow> Mode btset \<Rightarrow> Mode btset option" where
  "fold_mode m ms =
    (case m of
       Reserve a \<Rightarrow>
         (case prior_reserve ms of
            None \<Rightarrow> Some (bs_insert m ms)
          | Some p \<Rightarrow>
              map_option (\<lambda>s. bs_insert (Reserve s) (bt_remove (Reserve p) ms)) (checked_add p a))
     | _ \<Rightarrow> Some (bs_insert m ms))"

definition declared_at :: "EffectSet \<Rightarrow> EffectTarget \<Rightarrow> Declared" where
  "declared_at S t = bt_get_or \<lparr>decl_modes = bt_empty, decl_width = MAX_SLOT_WIDTH\<rparr> S t"

lemma prior_reserve_empty [simp]: "prior_reserve bt_empty = None"
  by (simp add: prior_reserve_None)

lemma wf_declared_at: "wf_set S \<Longrightarrow> wf_modes (decl_modes (declared_at S t))"
  by (cases "bt_get S t") (auto simp: declared_at_def wf_set_def)

lemma reserve_fold_declared_at:
  "reserve_fold e S =
    (case eff_mode e of
       Reserve a \<Rightarrow>
         (case prior_reserve (decl_modes (declared_at S (eff_target e))) of
            None \<Rightarrow> Ok None
          | Some p \<Rightarrow> map_res (\<lambda>s. Some (p, s)) (ok_or ReserveOverflow (checked_add p a)))
     | _ \<Rightarrow> Ok None)"
  by (cases "bt_get S (eff_target e)")
     (auto simp: reserve_fold_def declared_at_def split: Mode.splits)

lemma Declared_update_all [simp]: "d\<lparr>decl_width := w, decl_modes := ms\<rparr> = \<lparr>decl_modes = ms, decl_width = w\<rparr>"
  by (cases d) simp

lemma insert_bounded_eq:
  "insert_bounded e w S =
    (let d = declared_at S (eff_target e) in
     case fold_mode (eff_mode e) (decl_modes d) of
       None \<Rightarrow> (Err ReserveOverflow, S)
     | Some ms \<Rightarrow>
         (Ok ((is_reserve (eff_mode e) \<and> prior_reserve (decl_modes d) \<noteq> None)
              \<or> \<not> bt_contains (decl_modes d) (eff_mode e) \<or> w < decl_width d),
          bt_insert (eff_target e) \<lparr>decl_modes = ms, decl_width = min (decl_width d) w\<rparr> S))"
  by (auto simp: insert_bounded_def reserve_fold_declared_at fold_mode_def fold_declared_def Let_def
      is_reserve_def
      simp flip: declared_at_def split: Mode.splits option.splits)

definition reserved_total :: "Mode btset \<Rightarrow> nat" where
  "reserved_total ms = (case prior_reserve ms of None \<Rightarrow> 0 | Some p \<Rightarrow> unat p)"

lemma mode_set_eqI:
  assumes "wf_modes ms" "wf_modes ms'" "prior_reserve ms = prior_reserve ms'"
    and "\<And>m. \<not> is_reserve m \<Longrightarrow> bt_contains ms m = bt_contains ms' m"
  shows "ms = ms'"
proof (rule btset_eqI)
  fix k
  show "bt_contains ms k = bt_contains ms' k"
  proof (cases k)
    case (Reserve a)
    with assms(1-3) show ?thesis by (metis prior_reserve_Some)
  qed (use assms(4) [of k] in \<open>simp_all add: is_reserve_def\<close>)
qed

subsection \<open>Inserting is order-independent\<close>

lemma fold_mode_plain: "\<not> is_reserve m \<Longrightarrow> fold_mode m ms = Some (bs_insert m ms)"
  by (auto simp: fold_mode_def is_reserve_def split: Mode.splits)

lemma wf_modes_insert_plain: "wf_modes ms \<Longrightarrow> \<not> is_reserve m \<Longrightarrow> wf_modes (bs_insert m ms)"
  by (auto simp: wf_modes_def is_reserve_def split: Mode.splits)

lemma prior_reserve_insert_plain:
  "wf_modes ms \<Longrightarrow> \<not> is_reserve m \<Longrightarrow> prior_reserve (bs_insert m ms) = prior_reserve ms"
proof -
  assume *: "wf_modes ms" "\<not> is_reserve m"
  then have "bt_contains (bs_insert m ms) (Reserve a) = bt_contains ms (Reserve a)" for a
    by (auto simp: is_reserve_def)
  with * show ?thesis
    by (metis option.exhaust prior_reserve_None prior_reserve_Some wf_modes_insert_plain)
qed

lemma fold_mode_Some:
  assumes "wf_modes ms"
  shows "fold_mode m ms = Some ms' \<longleftrightarrow>
    wf_modes ms' \<and> (\<forall>k. \<not> is_reserve k \<longrightarrow> bt_contains ms' k = (bt_contains ms k \<or> k = m)) \<and>
    (case m of
       Reserve a \<Rightarrow> \<exists>s. prior_reserve ms' = Some s \<and> unat s = reserved_total ms + unat a
     | _ \<Rightarrow> prior_reserve ms' = prior_reserve ms)" (is "_ \<longleftrightarrow> ?R ms'")
proof -
  have sound: "?R t" if t: "fold_mode m ms = Some t" for t
  proof (cases "is_reserve m")
    case False
    with t assms show ?thesis
      by (auto simp: fold_mode_plain wf_modes_insert_plain prior_reserve_insert_plain is_reserve_def
          split: Mode.splits)
  next
    case True
    then obtain a where m: "m = Reserve a" by (auto simp: is_reserve_def split: Mode.splits)
    show ?thesis
    proof (cases "prior_reserve ms")
      case None
      with t m have t': "t = bs_insert (Reserve a) ms" by (simp add: fold_mode_def)
      with None have wf: "wf_modes t" by (auto simp: wf_modes_def prior_reserve_None)
      then have "prior_reserve t = Some a" by (simp add: prior_reserve_Some t')
      with None m wf t' show ?thesis by (auto simp: reserved_total_def is_reserve_def)
    next
      case (Some p)
      with t m obtain s where s: "checked_add p a = Some s"
        and t': "t = bs_insert (Reserve s) (bt_remove (Reserve p) ms)"
        by (auto simp: fold_mode_def)
      have only: "bt_contains ms (Reserve b) \<longleftrightarrow> b = p" for b
        using Some assms by (metis prior_reserve_Some option.inject)
      then have wf: "wf_modes t" by (auto simp: wf_modes_def t')
      then have "prior_reserve t = Some s" by (simp add: prior_reserve_Some t')
      with Some m wf t' s show ?thesis
        by (auto simp: reserved_total_def is_reserve_def checked_add_eq_Some)
    qed
  qed
  have complete: "fold_mode m ms = Some ms'" if R: "?R ms'"
  proof -
    obtain t where t: "fold_mode m ms = Some t"
    proof (cases "fold_mode m ms")
      case None
      then obtain a p where "m = Reserve a" "prior_reserve ms = Some p" "checked_add p a = None"
        by (auto simp: fold_mode_def split: Mode.splits option.splits)
      with R have "\<exists>s :: u128. unat s = unat p + unat a" "checked_add p a = None"
        by (auto simp: reserved_total_def)
      then show ?thesis by (metis checked_add_eq_Some option.distinct(1))
    qed (use that in blast)
    have "prior_reserve t = prior_reserve ms'"
      using sound [OF t] R by (auto simp: word_unat_eq_iff split: Mode.splits)
    with sound [OF t] R have "t = ms'" by (intro mode_set_eqI) auto
    with t show ?thesis by simp
  qed
  from sound complete show ?thesis by blast
qed

lemma wf_fold_mode: "wf_modes ms \<Longrightarrow> fold_mode m ms = Some ms' \<Longrightarrow> wf_modes ms'"
  by (simp add: fold_mode_Some)

lemma reserved_total_fold_mode:
  "wf_modes ms \<Longrightarrow> fold_mode m ms = Some ms' \<Longrightarrow>
   reserved_total ms' = reserved_total ms + (case m of Reserve a \<Rightarrow> unat a | _ \<Rightarrow> 0)"
  by (auto simp: fold_mode_Some reserved_total_def split: Mode.splits)

lemma fold_mode_exists:
  assumes "wf_modes ms" "reserved_total ms + (case m of Reserve a \<Rightarrow> unat a | _ \<Rightarrow> 0) < 2 ^ 128"
  shows "\<exists>ms'. fold_mode m ms = Some ms'"
proof (cases "fold_mode m ms")
  case None
  then obtain a p where "m = Reserve a" "prior_reserve ms = Some p" "checked_add p a = None"
    by (auto simp: fold_mode_def split: Mode.splits option.splits)
  with assms(2) show ?thesis by (simp add: reserved_total_def checked_add_eq_None)
qed simp

lemma reserved_total_bound: "reserved_total ms < 2 ^ 128"
  using unat_bound [where 'w = 128] by (auto simp: reserved_total_def split: option.splits)

lemma fold_mode_commute:
  assumes "wf_modes ms" and x: "fold_mode m ms = Some ms1" and y: "fold_mode n ms1 = Some ms2"
  shows "\<exists>ms3. fold_mode n ms = Some ms3 \<and> fold_mode m ms3 = Some ms2"
proof -
  have wf1: "wf_modes ms1" and wf2: "wf_modes ms2"
    using assms wf_fold_mode by blast+
  let ?v = "\<lambda>m. case m of Reserve a \<Rightarrow> unat a | _ \<Rightarrow> 0"
  have tot: "reserved_total ms2 = reserved_total ms + ?v m + ?v n"
    using reserved_total_fold_mode [OF assms(1) x] reserved_total_fold_mode [OF wf1 y] by simp
  moreover have bound: "reserved_total ms2 < 2 ^ 128" by (rule reserved_total_bound)
  ultimately obtain ms3 where a: "fold_mode n ms = Some ms3"
    using fold_mode_exists [OF assms(1), of n] by auto
  have wf3: "wf_modes ms3" using a assms(1) wf_fold_mode by blast
  have "reserved_total ms3 = reserved_total ms + ?v n"
    using reserved_total_fold_mode [OF assms(1) a] .
  with tot bound obtain ms4 where b: "fold_mode m ms3 = Some ms4"
    using fold_mode_exists [OF wf3, of m] by auto
  have "ms4 = ms2"
  proof (rule mode_set_eqI)
    show "wf_modes ms4" using b wf3 wf_fold_mode by blast
    show "wf_modes ms2" by (fact wf2)
    show "prior_reserve ms4 = prior_reserve ms2"
      using a b x y assms(1) wf1 wf3
      by (auto simp: fold_mode_Some reserved_total_def word_unat_eq_iff split: Mode.splits)
    show "bt_contains ms4 k = bt_contains ms2 k" if "\<not> is_reserve k" for k
      using a b x y assms(1) wf1 wf3 that by (auto simp: fold_mode_Some)
  qed
  with a b show ?thesis by blast
qed

definition insert_step :: "Effect \<times> u32 \<Rightarrow> EffectSet option \<Rightarrow> EffectSet option" where
  "insert_step p so =
    Option.bind so (\<lambda>S. case insert_bounded (fst p) (snd p) S of (Ok _, S') \<Rightarrow> Some S' | (Err _, _) \<Rightarrow> None)"

definition insert_all :: "(Effect \<times> u32) list \<Rightarrow> EffectSet \<Rightarrow> EffectSet option" where
  "insert_all ps S = fold insert_step ps (Some S)"

lemma insert_step_None [simp]: "insert_step p None = None"
  by (simp add: insert_step_def)

lemma insert_step_Some:
  "insert_step (e, w) (Some S) =
    (let d = declared_at S (eff_target e) in
     map_option (\<lambda>ms. bt_insert (eff_target e) \<lparr>decl_modes = ms, decl_width = min (decl_width d) w\<rparr> S)
       (fold_mode (eff_mode e) (decl_modes d)))"
  by (auto simp: insert_step_def insert_bounded_eq Let_def split: option.splits)

lemma declared_at_insert:
  "declared_at (bt_insert t d S) t' = (if t' = t then d else declared_at S t')"
  by (auto simp: declared_at_def bt_get_or_def)

lemma wf_set_insert: "wf_set S \<Longrightarrow> wf_modes (decl_modes d) \<Longrightarrow> wf_set (bt_insert t d S)"
  by (auto simp: wf_set_def)

lemma wf_set_empty [simp]: "wf_set bt_empty"
  by (simp add: wf_set_def)

lemma wf_insert_step: "wf_set S \<Longrightarrow> insert_step p (Some S) = Some S' \<Longrightarrow> wf_set S'"
  by (cases p) (auto simp: insert_step_Some Let_def intro!: wf_set_insert
      intro: wf_fold_mode wf_declared_at)

lemma bt_insert_commute:
  "k \<noteq> k' \<Longrightarrow> bt_insert k v (bt_insert k' v' m) = bt_insert k' v' (bt_insert k v m)"
  by (rule btmap_eqI) auto

lemma insert_step_commute_Some:
  assumes "wf_set S" and "insert_step q (insert_step p (Some S)) = Some S'"
  shows "insert_step p (insert_step q (Some S)) = Some S'"
proof -
  obtain e w where p: "p = (e, w)" by (cases p)
  obtain f v where q: "q = (f, v)" by (cases q)
  let ?t = "eff_target e" and ?u = "eff_target f"
  let ?d = "declared_at S ?t"
  from assms(2) obtain ms1 where ms1: "fold_mode (eff_mode e) (decl_modes ?d) = Some ms1"
    and step2: "insert_step q (Some (bt_insert ?t \<lparr>decl_modes = ms1, decl_width = min (decl_width ?d) w\<rparr> S)) = Some S'"
    by (cases "insert_step p (Some S)") (auto simp: p insert_step_Some Let_def)
  show ?thesis
  proof (cases "?t = ?u")
    case True
    with step2 obtain ms2 where ms2: "fold_mode (eff_mode f) ms1 = Some ms2"
      and S': "S' = bt_insert ?t \<lparr>decl_modes = ms2, decl_width = min (min (decl_width ?d) w) v\<rparr> S"
      by (auto simp: q insert_step_Some Let_def declared_at_insert)
    obtain ms3 where "fold_mode (eff_mode f) (decl_modes ?d) = Some ms3" "fold_mode (eff_mode e) ms3 = Some ms2"
      using fold_mode_commute [OF wf_declared_at [OF assms(1)] ms1 ms2] by blast
    with True S' show ?thesis
      by (simp add: p q insert_step_Some Let_def declared_at_insert min.commute min.left_commute)
  next
    case False
    with step2 ms1 show ?thesis
      by (auto simp: p q insert_step_Some Let_def declared_at_insert bt_insert_commute)
  qed
qed

text \<open>Guarding the step by well-formedness makes it commute on every state.\<close>

lemma insert_step_guard_commute:
  fixes g :: "Effect \<times> u32 \<Rightarrow> EffectSet option \<Rightarrow> EffectSet option"
  defines "g \<equiv> \<lambda>p so. case so of Some S \<Rightarrow> if wf_set S then insert_step p so else None | None \<Rightarrow> None"
  shows "g p \<circ> g q = g q \<circ> g p"
proof
  fix so
  show "(g p \<circ> g q) so = (g q \<circ> g p) so"
  proof (cases "\<exists>S. so = Some S \<and> wf_set S")
    case False
    then show ?thesis by (auto simp: g_def split: option.splits)
  next
    case True
    then obtain S where S: "so = Some S" "wf_set S" by blast
    have eq: "g a (g b so) = insert_step a (insert_step b so)" for a b
      using S wf_insert_step [OF S(2), of b] by (auto simp: g_def split: option.splits)
    have "insert_step p (insert_step q so) = insert_step q (insert_step p so)"
    proof (cases "insert_step p (insert_step q so)")
      case None
      then show ?thesis
        by (metis S insert_step_commute_Some option.exhaust)
    next
      case (Some X)
      then show ?thesis
        by (metis S insert_step_commute_Some)
    qed
    then show ?thesis by (simp add: eq)
  qed
qed

lemma insert_all_permute:
  assumes "wf_set S" "mset xs = mset ys"
  shows "insert_all xs S = insert_all ys S"
proof -
  define g where "g = (\<lambda>p so. case so of
    Some S \<Rightarrow> if wf_set S then insert_step p so else None | None \<Rightarrow> None)"
  have guard: "fold g zs so = fold insert_step zs so" if "\<forall>T. so = Some T \<longrightarrow> wf_set T" for zs so
    using that
  proof (induction zs arbitrary: so)
    case (Cons z zs)
    have "g z so = insert_step z so"
      using Cons.prems by (auto simp: g_def split: option.splits)
    moreover have "\<forall>T. insert_step z so = Some T \<longrightarrow> wf_set T"
      using Cons.prems wf_insert_step by (cases so) auto
    ultimately show ?case using Cons.IH by simp
  qed simp
  have "fold g xs = fold g ys"
    using assms(2) insert_step_guard_commute
    by (intro fold_multiset_equiv) (auto simp: g_def)
  moreover have "fold insert_step zs (Some S) = fold g zs (Some S)" for zs
    using guard [of "Some S"] assms(1) by simp
  ultimately show ?thesis by (simp add: insert_all_def)
qed

lemma insert_all_Cons: "insert_all (p # ps) S =
    (case insert_step p (Some S) of Some S' \<Rightarrow> insert_all ps S' | None \<Rightarrow> None)"
proof -
  have "fold insert_step qs None = None" for qs by (induction qs) simp_all
  then show ?thesis by (simp add: insert_all_def split: option.splits)
qed

lemma wf_insert_all: "wf_set S \<Longrightarrow> insert_all ps S = Some S' \<Longrightarrow> wf_set S'"
proof (induction ps arbitrary: S)
  case Nil
  then show ?case by (simp add: insert_all_def)
next
  case (Cons p ps)
  then show ?case by (auto simp: insert_all_Cons split: option.splits dest: wf_insert_step)
qed

definition demand :: "EffectTarget \<Rightarrow> Effect \<times> u32 \<Rightarrow> nat" where
  "demand t p = (if eff_target (fst p) = t
    then (case eff_mode (fst p) of Reserve a \<Rightarrow> unat a | _ \<Rightarrow> 0) else 0)"

lemma insert_all_total:
  "wf_set S \<Longrightarrow> insert_all ps S = Some S' \<Longrightarrow>
   reserved_total (decl_modes (declared_at S' t))
     = reserved_total (decl_modes (declared_at S t)) + sum_list (map (demand t) ps)"
proof (induction ps arbitrary: S)
  case Nil
  then show ?case by (simp add: insert_all_def)
next
  case (Cons p ps)
  then obtain S1 where S1: "insert_step p (Some S) = Some S1" "insert_all ps S1 = Some S'"
    by (auto simp: insert_all_Cons split: option.splits)
  obtain e w where p: "p = (e, w)" by (cases p)
  have "reserved_total (decl_modes (declared_at S1 t)) = reserved_total (decl_modes (declared_at S t)) + demand t p"
    using S1(1) Cons.prems(1)
    by (auto simp: p insert_step_Some Let_def declared_at_insert demand_def
        dest!: reserved_total_fold_mode [OF wf_declared_at])
  then show ?case
    using Cons.IH [OF wf_insert_step [OF Cons.prems(1) S1(1)] S1(2)] by simp
qed

lemma insert_all_width:
  "insert_all ps S = Some S' \<Longrightarrow>
   decl_width (declared_at S' t) = foldl min (decl_width (declared_at S t))
     (map snd (filter (\<lambda>p. eff_target (fst p) = t) ps))"
proof (induction ps arbitrary: S)
  case Nil
  then show ?case by (simp add: insert_all_def)
next
  case (Cons p ps)
  then obtain S1 where S1: "insert_step p (Some S) = Some S1" "insert_all ps S1 = Some S'"
    by (auto simp: insert_all_Cons split: option.splits)
  obtain e w where p: "p = (e, w)" by (cases p)
  have "decl_width (declared_at S1 t) = (if eff_target e = t then min (decl_width (declared_at S t)) w
    else decl_width (declared_at S t))"
    using S1(1) by (auto simp: p insert_step_Some Let_def declared_at_insert)
  then show ?case using Cons.IH [OF S1(2)] by (simp add: p)
qed

lemma insert_all_plain_modes:
  "wf_set S \<Longrightarrow> insert_all ps S = Some S' \<Longrightarrow> \<not> is_reserve m \<Longrightarrow>
   bt_contains (decl_modes (declared_at S' t)) m \<longleftrightarrow>
     bt_contains (decl_modes (declared_at S t)) m \<or> (\<exists>p \<in> set ps. eff_target (fst p) = t \<and> eff_mode (fst p) = m)"
proof (induction ps arbitrary: S)
  case Nil
  then show ?case by (simp add: insert_all_def)
next
  case (Cons p ps)
  then obtain S1 where S1: "insert_step p (Some S) = Some S1" "insert_all ps S1 = Some S'"
    by (auto simp: insert_all_Cons split: option.splits)
  obtain e w where p: "p = (e, w)" by (cases p)
  have "bt_contains (decl_modes (declared_at S1 t)) m \<longleftrightarrow>
      bt_contains (decl_modes (declared_at S t)) m \<or> (eff_target e = t \<and> eff_mode e = m)"
    using S1(1) Cons.prems(1,3) wf_declared_at [OF Cons.prems(1)]
    by (auto simp: p insert_step_Some Let_def declared_at_insert fold_mode_Some split: if_splits)
  then show ?case
    using Cons.IH [OF wf_insert_step [OF Cons.prems(1) S1(1)] S1(2) Cons.prems(3)] by (auto simp: p)
qed

text \<open>C7 Folding declared accesses into a set does not depend on their order: any two
  orderings of the same inserts either both overflow a reserve total or build the
  same set.\<close>

theorem insert_order_independent:
  assumes "wf_set S" "mset xs = mset ys"
  shows "insert_all xs S = insert_all ys S"
  using assms by (rule insert_all_permute)

definition example_inserts :: "(Effect \<times> u32) list" where
  "example_inserts =
    [(\<lparr>eff_target = Point (SubstateKey 2 1), eff_mode = Reserve 5\<rparr>, 64),
     (\<lparr>eff_target = Point (SubstateKey 2 1), eff_mode = Read\<rparr>, 32),
     (\<lparr>eff_target = Point (SubstateKey 2 1), eff_mode = Reserve 7\<rparr>, 16)]"

lemmas insert_eval = insert_all_def insert_step_def insert_bounded_def reserve_fold_def fold_declared_def
  prior_reserve_def is_reserve_def bt_keys_def bt_get_or_def bt_eval order_eval Let_def
  checked_add_def example_inserts_def MAX_SLOT_WIDTH_def

theorem insert_order_independent_witness:
  "insert_all example_inserts bt_empty = insert_all (rev example_inserts) bt_empty
   \<and> map_option (\<lambda>S. bt_keys (decl_modes (declared_at S (Point (SubstateKey 2 1)))))
       (insert_all example_inserts bt_empty) = Some [Read, Reserve 12]"
proof -
  have "map_option (\<lambda>S. bt_keys (decl_modes (declared_at S (Point (SubstateKey 2 1)))))
       (insert_all example_inserts bt_empty) = Some [Read, Reserve 12]"
    by (simp add: insert_eval declared_at_def)
  with insert_order_independent [of bt_empty example_inserts "rev example_inserts"] show ?thesis
    by simp
qed

text \<open>C8 What a built set holds for a target is the fold of what was inserted on it: the
  reservation on it totals the reserves declared, its other modes are the ones
  declared, and its width is the narrowest stated.\<close>

theorem insert_all_folds:
  assumes "insert_all ps bt_empty = Some S"
  shows "reserved_total (decl_modes (declared_at S t)) = sum_list (map (demand t) ps)
    \<and> (\<forall>m. \<not> is_reserve m \<longrightarrow> (bt_contains (decl_modes (declared_at S t)) m \<longleftrightarrow>
         (\<exists>p \<in> set ps. eff_target (fst p) = t \<and> eff_mode (fst p) = m)))
    \<and> width_of S t = foldl min MAX_SLOT_WIDTH (map snd (filter (\<lambda>p. eff_target (fst p) = t) ps))"
proof -
  have empty: "declared_at bt_empty t = \<lparr>decl_modes = bt_empty, decl_width = MAX_SLOT_WIDTH\<rparr>"
    by (simp add: declared_at_def)
  have "width_of S t = decl_width (declared_at S t)"
    by (cases "bt_get S t") (simp_all add: width_of_def declared_at_def)
  moreover have "reserved_total bt_empty = 0" by (simp add: reserved_total_def)
  ultimately show ?thesis
    using insert_all_total [OF _ assms, of t] insert_all_plain_modes [OF _ assms, of _ t]
      insert_all_width [OF assms, of t]
    by (simp add: empty)
qed

theorem insert_all_folds_witness:
  "\<exists>S. insert_all example_inserts bt_empty = Some S
    \<and> reserved_total (decl_modes (declared_at S (Point (SubstateKey 2 1)))) = 12
    \<and> width_of S (Point (SubstateKey 2 1)) = 16"
proof -
  obtain S where S: "insert_all example_inserts bt_empty = Some S"
    by (simp add: insert_eval)
  from insert_all_folds [OF this, of "Point (SubstateKey 2 1)"] S show ?thesis
    by (simp add: example_inserts_def demand_def MAX_SLOT_WIDTH_def)
qed

end
