(* ===== verification/Conflict.thy ===== *)
theory Conflict
  imports Effects
begin

text \<open>
  When two declared effects exclude each other. \<open>crates/kernel/src/conflict.rs\<close> states it
  as target overlap composed with mode compatibility; \<open>crates/kernel/src/executor.rs\<close>
  restates it over conflict classes and claim intervals, which is the form grouping
  and routing read. The two are proved to be one relation.
\<close>

fun targets_overlap :: "EffectTarget \<Rightarrow> EffectTarget \<Rightarrow> bool" where
  "targets_overlap (Point left) (Point right) = (left = right)"
| "targets_overlap (Entry lo lc lx) (Entry ro rc rx) = (lo = ro \<and> lc = rc \<and> lx = rx)"
| "targets_overlap (Entry eo ec x) (RangeT ro rc lo hi _) = (eo = ro \<and> ec = rc \<and> lo \<le> x \<and> x \<le> hi)"
| "targets_overlap (RangeT ro rc lo hi _) (Entry eo ec x) = (eo = ro \<and> ec = rc \<and> lo \<le> x \<and> x \<le> hi)"
| "targets_overlap (RangeT lo lc llo lhi _) (RangeT ro rc rlo rhi _) =
    (llo \<le> lhi \<and> rlo \<le> rhi \<and> lo = ro \<and> lc = rc \<and> llo \<le> rhi \<and> rlo \<le> lhi)"
| "targets_overlap (Point _) _ = False"
| "targets_overlap _ (Point _) = False"

definition conflicts :: "Effect \<Rightarrow> Effect \<Rightarrow> bool" where
  "conflicts a b =
    (targets_overlap (eff_target a) (eff_target b) \<and> \<not> compatible (kind (eff_mode a)) (kind (eff_mode b)))"

fun claim_interval :: "EffectTarget \<Rightarrow> (u128 \<times> u128) option" where
  "claim_interval (Entry _ _ x) = Some (x, x)"
| "claim_interval (RangeT _ _ lo hi _) = (if lo \<le> hi then Some (lo, hi) else None)"
| "claim_interval (Point _) = None"

fun collection_of :: "EffectTarget \<Rightarrow> (Address \<times> CollectionId) option" where
  "collection_of (Point _) = None"
| "collection_of (Entry owner coll _) = Some (owner, coll)"
| "collection_of (RangeT owner coll _ _ _) = Some (owner, coll)"

definition effects_conflict :: "Effect \<Rightarrow> Effect \<Rightarrow> bool" where
  "effects_conflict a b =
    (if \<not> conflicts_with (conflict_class (kind (eff_mode a))) (conflict_class (kind (eff_mode b))) then False
     else (case (eff_target a, eff_target b) of
        (Point left, Point right) \<Rightarrow> left = right
      | (left, right) \<Rightarrow>
          (case (collection_of left, collection_of right) of
             (Some cl, Some cr) \<Rightarrow>
               (if cl \<noteq> cr then False
                else (case (claim_interval left, claim_interval right) of
                        (Some (alo, ahi), Some (blo, bhi)) \<Rightarrow> alo \<le> bhi \<and> blo \<le> ahi
                      | _ \<Rightarrow> False))
           | _ \<Rightarrow> False)))"

definition sets_conflict :: "EffectSet \<Rightarrow> EffectSet \<Rightarrow> bool" where
  "sets_conflict a b =
    list_ex (\<lambda>left. list_ex (\<lambda>right. effects_conflict left right) (effects_of b)) (effects_of a)"


subsection \<open>Overlap is a shared cell\<close>

text \<open>The cells a target names: point leaves, and the entries of a collection.\<close>

datatype Cell = CellPoint SubstateKey | CellEntry Address CollectionId u128

fun target_cells :: "EffectTarget \<Rightarrow> Cell set" where
  "target_cells (Point k) = {CellPoint k}"
| "target_cells (Entry a c x) = {CellEntry a c x}"
| "target_cells (RangeT a c lo hi _) = CellEntry a c ` {lo..hi}"

lemma targets_overlap_names: "targets_overlap a b \<longleftrightarrow> target_cells a \<inter> target_cells b \<noteq> {}"
proof (cases "(a, b)" rule: targets_overlap.cases)
  case (5 lo lc llo lhi u ro rc rlo rhi v)
  have "({llo..lhi} \<inter> {rlo..rhi} \<noteq> {}) \<longleftrightarrow> llo \<le> lhi \<and> rlo \<le> rhi \<and> llo \<le> rhi \<and> rlo \<le> lhi"
    by (auto simp: Int_atLeastAtMost)
  moreover have "CellEntry lo lc ` A \<inter> CellEntry ro rc ` B \<noteq> {} \<longleftrightarrow> lo = ro \<and> lc = rc \<and> A \<inter> B \<noteq> {}" for A B
    by blast
  ultimately show ?thesis
    using 5 by (simp only: prod.inject targets_overlap.simps target_cells.simps) blast
qed auto

lemma targets_overlap_sym: "targets_overlap a b = targets_overlap b a"
  by (simp add: targets_overlap_names Int_commute)

lemma conflicts_sym: "conflicts a b = conflicts b a"
  by (simp add: conflicts_def targets_overlap_sym compatible_sym)

lemma targets_overlap_interval:
  "targets_overlap a b \<longleftrightarrow>
    (case (a, b) of
       (Point left, Point right) \<Rightarrow> left = right
     | (left, right) \<Rightarrow>
         (case (collection_of left, collection_of right) of
            (Some cl, Some cr) \<Rightarrow>
              cl = cr \<and> (case (claim_interval left, claim_interval right) of
                 (Some (alo, ahi), Some (blo, bhi)) \<Rightarrow> alo \<le> bhi \<and> blo \<le> ahi
               | _ \<Rightarrow> False)
          | _ \<Rightarrow> False))"
  by (cases "(a, b)" rule: targets_overlap.cases) auto

lemma effects_conflict_eq: "effects_conflict a b = conflicts a b"
  unfolding effects_conflict_def conflicts_def compatible_class targets_overlap_interval
  by (auto split: EffectTarget.splits option.splits if_splits)

lemma mem_effects_of: "e \<in> set (effects_of S) \<longleftrightarrow>
    (\<exists>d. bt_get S (eff_target e) = Some d \<and> bt_contains (decl_modes d) (eff_mode e))"
proof -
  have "e \<in> set (effects_of S) \<longleftrightarrow>
    (\<exists>t d m. (t, d) \<in> set (entries S) \<and> m \<in> set (bt_keys (decl_modes d)) \<and> e = \<lparr>eff_target = t, eff_mode = m\<rparr>)"
    by (force simp: effects_of_def simp del: mem_entries_iff)
  then show ?thesis by (cases e) auto
qed

lemma set_contains_effects_of: "set_contains S e \<longleftrightarrow> e \<in> set (effects_of S)"
  by (auto simp: mem_effects_of set_contains_def split: option.splits)

lemma sets_conflict_iff:
  "sets_conflict a b \<longleftrightarrow> (\<exists>x \<in> set (effects_of a). \<exists>y \<in> set (effects_of b). conflicts x y)"
  by (simp add: sets_conflict_def effects_conflict_eq list_ex_iff)

lemma sets_conflict_sym: "sets_conflict a b = sets_conflict b a"
  unfolding sets_conflict_iff using conflicts_sym by blast

text \<open>C6 The relation the executor groups and screens by is the pairwise conflict of the
  kernel: overlap of the named cells with incompatible modes. Two effects conflict
  exactly when some cell is named by both and their kinds may not share it.\<close>

theorem effects_conflict_is_conflicts:
  "effects_conflict a b = conflicts a b
   \<and> conflicts a b = (target_cells (eff_target a) \<inter> target_cells (eff_target b) \<noteq> {}
        \<and> \<not> compatible (kind (eff_mode a)) (kind (eff_mode b)))"
  by (simp add: effects_conflict_eq conflicts_def targets_overlap_names)

end
