(* ===== verification/Oracle.thy ===== *)
theory Oracle
  imports Conflict
begin

text \<open>
  \<open>crates/kernel/src/oracle.rs\<close> and the \<open>Access\<close> record of \<open>crates/kernel/src/store.rs\<close>: when
  a recorded access is covered by what a transaction declared. Coverage is what makes
  scheduling by declaration sound: accesses covered by two declarations that do not
  conflict do not conflict either.
\<close>

record Access =
  acc_target :: EffectTarget
  acc_kind :: ModeKind

fun permits :: "ModeKind \<Rightarrow> ModeKind \<Rightarrow> bool" where
  "permits KWrite KRead = True"
| "permits KWrite KWrite = True"
| "permits KRead KRead = True"
| "permits KDelta KDelta = True"
| "permits KReserve KReserve = True"
| "permits _ _ = False"

fun target_covers :: "EffectTarget \<Rightarrow> EffectTarget \<Rightarrow> bool" where
  "target_covers (Point d) (Point a) = (d = a)"
| "target_covers (Entry d_o dc dx) (Entry ao ac ax) = (d_o = ao \<and> dc = ac \<and> dx = ax)"
| "target_covers (RangeT d_o dc lo hi _) (Entry ao ac x) = (d_o = ao \<and> dc = ac \<and> lo \<le> x \<and> x \<le> hi)"
| "target_covers (Entry d_o dc x) (RangeT ao ac lo hi cap) =
    (d_o = ao \<and> dc = ac \<and> lo = x \<and> hi = x \<and> cap \<le> 1)"
| "target_covers (RangeT d_o dc dlo dhi dcap) (RangeT ao ac alo ahi acap) =
    (d_o = ao \<and> dc = ac \<and> dlo \<le> alo \<and> ahi \<le> dhi \<and> acap \<le> dcap)"
| "target_covers _ _ = False"

definition exclusive_movement :: "Effect \<Rightarrow> Access \<Rightarrow> bool" where
  "exclusive_movement d a =
    ((case eff_target d of Point _ \<Rightarrow> True | _ \<Rightarrow> False) \<and> kind (eff_mode d) = KWrite \<and> acc_kind a = KDelta)"

definition covered :: "Access \<Rightarrow> EffectSet \<Rightarrow> bool" where
  "covered a declared =
    list_ex (\<lambda>e. target_covers (eff_target e) (acc_target a)
        \<and> (permits (kind (eff_mode e)) (acc_kind a) \<or> exclusive_movement e a))
      (effects_of declared)"

definition undeclared_accesses :: "Access list \<Rightarrow> EffectSet \<Rightarrow> Access list" where
  "undeclared_accesses trace declared = filter (\<lambda>a. \<not> covered a declared) trace"


subsection \<open>Coverage\<close>

lemma target_covers_names: "target_covers d a \<Longrightarrow> target_cells a \<subseteq> target_cells d"
  by (cases "(d, a)" rule: target_covers.cases) (auto intro!: imageI intro: order_trans)

lemma target_covers_overlap:
  "target_covers d a \<Longrightarrow> target_covers d' a' \<Longrightarrow> targets_overlap a a' \<Longrightarrow> targets_overlap d d'"
  unfolding targets_overlap_names using target_covers_names by blast

lemma target_covers_refl: "target_covers a a"
  by (cases a) auto

lemma permits_compatible:
  "permits d a \<Longrightarrow> permits d' a' \<Longrightarrow> compatible d d' \<Longrightarrow> compatible a a'"
  by (cases d; cases a; cases d'; cases a') simp_all

lemma covered_iff:
  "covered a declared \<longleftrightarrow>
    (\<exists>e \<in> set (effects_of declared). target_covers (eff_target e) (acc_target a)
       \<and> (permits (kind (eff_mode e)) (acc_kind a) \<or> exclusive_movement e a))"
  by (simp add: covered_def list_ex_iff)

lemma covered_kinds_compatible:
  assumes "permits (kind (eff_mode e)) (acc_kind a) \<or> exclusive_movement e a"
    and "permits (kind (eff_mode f)) (acc_kind b) \<or> exclusive_movement f b"
    and "compatible (kind (eff_mode e)) (kind (eff_mode f))"
  shows "compatible (acc_kind a) (acc_kind b)"
  using assms permits_compatible by (auto simp: exclusive_movement_def)

lemma covered_disjoint:
  assumes "covered a A" "covered b B" "\<not> sets_conflict A B" "targets_overlap (acc_target a) (acc_target b)"
  shows "compatible (acc_kind a) (acc_kind b)"
proof -
  from assms(1) obtain e where e: "e \<in> set (effects_of A)" "target_covers (eff_target e) (acc_target a)"
    "permits (kind (eff_mode e)) (acc_kind a) \<or> exclusive_movement e a"
    by (auto simp: covered_iff)
  from assms(2) obtain f where f: "f \<in> set (effects_of B)" "target_covers (eff_target f) (acc_target b)"
    "permits (kind (eff_mode f)) (acc_kind b) \<or> exclusive_movement f b"
    by (auto simp: covered_iff)
  have "targets_overlap (eff_target e) (eff_target f)"
    using e(2) f(2) assms(4) by (rule target_covers_overlap)
  moreover have "\<not> conflicts e f" using assms(3) e(1) f(1) by (auto simp: sets_conflict_iff)
  ultimately have "compatible (kind (eff_mode e)) (kind (eff_mode f))" by (simp add: conflicts_def)
  with e(3) f(3) show ?thesis by (rule covered_kinds_compatible)
qed

lemma undeclared_accesses_empty: "undeclared_accesses trace D = [] \<longleftrightarrow> (\<forall>a \<in> set trace. covered a D)"
  by (auto simp: undeclared_accesses_def filter_empty_conv)


definition example_declared :: "EffectTarget \<Rightarrow> Mode \<Rightarrow> EffectSet" where
  "example_declared t m = bt_insert t \<lparr>decl_modes = bs_insert m bt_empty, decl_width = 64\<rparr> bt_empty"

lemma effects_of_example: "effects_of (example_declared t m) = [\<lparr>eff_target = t, eff_mode = m\<rparr>]"
  by (simp add: example_declared_def effects_of_def bt_keys_def bt_eval)


end
