(* ===== verification/Grouping.thy ===== *)
theory Grouping
  imports Conflict
begin

text \<open>
  The conflict grouping of \<open>crates/kernel/src/executor.rs\<close>: a union-find array with path
  halving, the pass that connects the transactions touching one point key, the
  ordered sweep that connects the claims on one collection, and the grouping they
  build. An index out of the array's bounds, which panics in the code, and a parent
  chain that never ends are both the result None; on every batch the grouping is
  proved to return, and its groups are the connected components of the pairwise
  conflict relation.
\<close>

subsection \<open>Union-find\<close>

partial_function (option) root :: "nat list \<Rightarrow> nat \<Rightarrow> (nat list \<times> nat) option" where
  "root component index =
    (if length component \<le> index then None
     else if component ! index = index then Some (component, index)
     else if length component \<le> component ! index then None
     else let component' = component[index := component ! (component ! index)]
          in root component' (component' ! index))"

definition merge :: "nat list \<Rightarrow> nat \<Rightarrow> nat \<Rightarrow> nat list option" where
  "merge component left right =
    (case root component left of
       None \<Rightarrow> None
     | Some (component1, a) \<Rightarrow>
        (case root component1 right of
           None \<Rightarrow> None
         | Some (component2, b) \<Rightarrow> Some (component2[max a b := min a b])))"


subsection \<open>The collection sweep\<close>

record CollectionClaim =
  cl_tx :: nat
  cl_lo :: u128
  cl_hi :: u128
  cl_class :: ConflictClass

type_synonym Active = "(u128 \<times> nat) list"

fun absorb :: "Active \<Rightarrow> nat list \<Rightarrow> nat \<Rightarrow> u128 \<Rightarrow> u128 option \<Rightarrow> (u128 option \<times> nat list) option" where
  "absorb [] component claim lo reach = Some (reach, component)"
| "absorb ((hi, rep) # rest) component claim lo reach =
    (if hi < lo then absorb rest component claim lo reach
     else (case merge component claim rep of
             None \<Rightarrow> None
           | Some component' \<Rightarrow>
               absorb rest component' claim lo
                 (Some (case reach of None \<Rightarrow> hi | Some far \<Rightarrow> max far hi))))"

fun sweep_classes ::
  "ConflictClass list \<Rightarrow> CollectionClaim \<Rightarrow> u128 \<Rightarrow> (ConflictClass \<Rightarrow> Active) \<Rightarrow> nat list
    \<Rightarrow> (u128 \<times> (ConflictClass \<Rightarrow> Active) \<times> nat list) option" where
  "sweep_classes [] claim reach active component = Some (reach, active, component)"
| "sweep_classes (class # rest) claim reach active component =
    (if \<not> conflicts_with (cl_class claim) class
     then sweep_classes rest claim reach active component
     else (case absorb (active class) component (cl_tx claim) (cl_lo claim) None of
             None \<Rightarrow> None
           | Some (None, component') \<Rightarrow>
               sweep_classes rest claim reach (active(class := [])) component'
           | Some (Some far, component') \<Rightarrow>
               (if class = cl_class claim
                then sweep_classes rest claim (max reach far) (active(class := [])) component'
                else sweep_classes rest claim reach (active(class := [(far, cl_tx claim)])) component')))"

definition ALL_classes :: "ConflictClass list" where
  "ALL_classes = [CRead, CMovement, CWrite]"

fun sweep_claims ::
  "CollectionClaim list \<Rightarrow> (ConflictClass \<Rightarrow> Active) \<Rightarrow> nat list \<Rightarrow> nat list option" where
  "sweep_claims [] active component = Some component"
| "sweep_claims (claim # rest) active component =
    (case sweep_classes ALL_classes claim (cl_hi claim) active component of
       None \<Rightarrow> None
     | Some (reach, active', component') \<Rightarrow>
         sweep_claims rest
           (active'(cl_class claim := active' (cl_class claim) @ [(reach, cl_tx claim)])) component')"

definition sweep_collection :: "CollectionClaim list \<Rightarrow> nat list \<Rightarrow> nat list option" where
  "sweep_collection claims component =
    sweep_claims (sort_key (\<lambda>c. (cl_lo c, cl_hi c, cl_tx c)) claims) (\<lambda>_. []) component"


subsection \<open>Point keys\<close>

record PointClasses =
  pc_reads :: "nat list"
  pc_commutative :: "nat list"
  pc_writes :: "nat list"

definition pc_default :: PointClasses where
  "pc_default = \<lparr>pc_reads = [], pc_commutative = [], pc_writes = []\<rparr>"

definition pc_push :: "PointClasses \<Rightarrow> nat \<Rightarrow> ModeKind \<Rightarrow> PointClasses" where
  "pc_push pc index k =
    (case conflict_class k of
       CRead \<Rightarrow> pc\<lparr>pc_reads := pc_reads pc @ [index]\<rparr>
     | CMovement \<Rightarrow> pc\<lparr>pc_commutative := pc_commutative pc @ [index]\<rparr>
     | CWrite \<Rightarrow> pc\<lparr>pc_writes := pc_writes pc @ [index]\<rparr>)"

definition pc_anchor :: "PointClasses \<Rightarrow> nat option" where
  "pc_anchor pc =
    (case pc_writes pc of
       w # _ \<Rightarrow> Some w
     | [] \<Rightarrow> (if pc_reads pc = [] \<or> pc_commutative pc = [] then None else Some (hd (pc_reads pc))))"

fun merge_all :: "nat \<Rightarrow> nat list \<Rightarrow> nat list \<Rightarrow> nat list option" where
  "merge_all anchor [] component = Some component"
| "merge_all anchor (index # rest) component =
    (case merge component anchor index of
       None \<Rightarrow> None
     | Some component' \<Rightarrow> merge_all anchor rest component')"

definition merge_into :: "PointClasses \<Rightarrow> nat list \<Rightarrow> nat list option" where
  "merge_into pc component =
    (case pc_anchor pc of
       None \<Rightarrow> Some component
     | Some anchor \<Rightarrow> merge_all anchor (pc_reads pc @ pc_commutative pc @ pc_writes pc) component)"


subsection \<open>Grouping a batch\<close>

type_synonym Buckets_of_claims =
  "(SubstateKey, PointClasses) btmap \<times> (Address \<times> CollectionId, CollectionClaim list) btmap"

definition bucket_effect :: "Buckets_of_claims \<Rightarrow> nat \<times> Effect \<Rightarrow> Buckets_of_claims" where
  "bucket_effect b ie =
    (let (points, collections) = b; (index, effect) = ie; k = kind (eff_mode effect) in
     case eff_target effect of
       Point key \<Rightarrow>
         (bt_insert key (pc_push (bt_get_or pc_default points key) index k) points, collections)
     | target \<Rightarrow>
         (case (collection_of target, claim_interval target) of
            (Some on, Some (lo, hi)) \<Rightarrow>
              (points,
               bt_insert on
                 (bt_get_or [] collections on
                   @ [\<lparr>cl_tx = index, cl_lo = lo, cl_hi = hi, cl_class = conflict_class k\<rparr>])
                 collections)
          | _ \<Rightarrow> (points, collections)))"

definition indexed_effects :: "EffectSet list \<Rightarrow> (nat \<times> Effect) list" where
  "indexed_effects batch =
    concat (map (\<lambda>p. map (\<lambda>e. (fst p, e)) (effects_of (snd p))) (enumerate 0 batch))"

definition bucket_batch :: "EffectSet list \<Rightarrow> Buckets_of_claims" where
  "bucket_batch batch = foldl bucket_effect (bt_empty, bt_empty) (indexed_effects batch)"

fun try_fold :: "('b \<Rightarrow> 'a \<Rightarrow> 'a option) \<Rightarrow> 'b list \<Rightarrow> 'a \<Rightarrow> 'a option" where
  "try_fold f [] s = Some s"
| "try_fold f (x # xs) s = (case f x s of None \<Rightarrow> None | Some s' \<Rightarrow> try_fold f xs s')"

fun collect_groups :: "nat list \<Rightarrow> nat list \<Rightarrow> (nat, nat list) btmap \<Rightarrow> (nat, nat list) btmap option" where
  "collect_groups component [] groups = Some groups"
| "collect_groups component (index # rest) groups =
    (case root component index of
       None \<Rightarrow> None
     | Some (component', r) \<Rightarrow>
         collect_groups component' rest (bt_insert r (bt_get_or [] groups r @ [index]) groups))"

definition conflict_groups :: "EffectSet list \<Rightarrow> nat list list option" where
  "conflict_groups batch =
    (let (points, collections) = bucket_batch batch; component = [0..<length batch] in
     case try_fold merge_into (bt_values points) component of
       None \<Rightarrow> None
     | Some component1 \<Rightarrow>
        (case try_fold sweep_collection (bt_values collections) component1 of
           None \<Rightarrow> None
         | Some component2 \<Rightarrow>
             map_option bt_values (collect_groups component2 [0..<length batch] bt_empty)))"

declare root.simps [code]

subsection \<open>Union-find is correct\<close>

fun rep :: "nat list \<Rightarrow> nat \<Rightarrow> nat" where
  "rep component i = (if component ! i < i then rep component (component ! i) else i)"

declare rep.simps [simp del]

definition uf_inv :: "nat list \<Rightarrow> bool" where
  "uf_inv component \<longleftrightarrow> (\<forall>i < length component. component ! i \<le> i)"

definition uf_rel :: "nat list \<Rightarrow> (nat \<times> nat) set" where
  "uf_rel component =
    {(i, j). i < length component \<and> j < length component \<and> rep component i = rep component j}"

lemma rep_le: "rep component i \<le> i"
proof (induction i rule: less_induct)
  case (less i)
  then show ?case
    by (subst rep.simps) (auto intro: le_trans less_imp_le)
qed

lemma rep_less_length: "i < length component \<Longrightarrow> rep component i < length component"
  using rep_le [of component i] by simp

lemma rep_parent: "component ! i \<le> i \<Longrightarrow> rep component (component ! i) = rep component i"
  using rep.simps [of component i] by (cases "component ! i = i") simp_all

lemma rep_root: "\<not> component ! i < i \<Longrightarrow> rep component i = i"
  by (subst rep.simps) simp

lemma rep_is_root:
  assumes "uf_inv component" "i < length component"
  shows "component ! rep component i = rep component i"
  using assms(2)
proof (induction i rule: less_induct)
  case (less i)
  show ?case
  proof (cases "component ! i < i")
    case True
    then have "component ! i < length component" using less.prems by simp
    with less.IH [OF True] True show ?thesis by (simp add: rep_parent less_imp_le)
  next
    case False
    then have "component ! i = i" using assms(1) less.prems unfolding uf_inv_def by force
    with False show ?thesis by (simp add: rep_root)
  qed
qed

lemma rep_shortcut:
  assumes "uf_inv component" "i < length component" "g < i" "rep component g = rep component i"
  shows "rep (component[i := g]) j = rep component j"
proof (induction j rule: less_induct)
  case (less j)
  show ?case
  proof (cases "j = i")
    case True
    have "rep (component[i := g]) i = rep (component[i := g]) g"
      using assms(2,3) by (subst rep.simps) simp
    with True less.IH [of g] assms(3,4) show ?thesis by simp
  next
    case False
    then have "component[i := g] ! j = component ! j" by simp
    with less.IH show ?thesis
      by (subst rep.simps, subst (2) rep.simps) simp
  qed
qed

lemma root_correct:
  "uf_inv component \<Longrightarrow> i < length component \<Longrightarrow>
   \<exists>c. root component i = Some (c, rep component i) \<and> length c = length component
     \<and> uf_inv c \<and> (\<forall>j. rep c j = rep component j)"
proof (induction i arbitrary: component rule: less_induct)
  case (less i)
  show ?case
  proof (cases "component ! i = i")
    case True
    then show ?thesis
      using less.prems by (intro exI [of _ component]) (simp add: root.simps rep_root)
  next
    case False
    define p where "p = component ! i"
    have p: "p < i" using False less.prems unfolding uf_inv_def p_def by force
    have "component ! p \<le> p" using p less.prems unfolding uf_inv_def by simp
    define g where "g = component ! p"
    have g: "g < i" "rep component g = rep component i"
      using p \<open>component ! p \<le> p\<close> rep_parent [of component p] rep_parent [of component i]
      by (auto simp: g_def p_def)
    let ?c = "component[i := g]"
    have inv: "uf_inv ?c" using less.prems g(1)
      by (auto simp: uf_inv_def nth_list_update)
    have reps: "rep ?c j = rep component j" for j
      using rep_shortcut less.prems g by blast
    have "root component i = root ?c g"
      using False less.prems p by (subst root.simps) (simp add: Let_def g_def p_def)
    moreover obtain c where "root ?c g = Some (c, rep ?c g)" "length c = length ?c" "uf_inv c"
      "\<forall>j. rep c j = rep ?c j"
      using less.IH [OF g(1) inv] less.prems g(1) by auto
    ultimately show ?thesis using g(2) reps by auto
  qed
qed

lemma rep_link:
  assumes "uf_inv component" "m < length component" "component ! m = m" "component ! k = k" "k \<le> m"
  shows "rep (component[m := k]) j = (if rep component j = m then k else rep component j)"
proof (induction j rule: less_induct)
  case (less j)
  have k: "rep (component[m := k]) k = k"
    using assms by (subst rep.simps) (auto simp: nth_list_update)
  show ?case
  proof (cases "j = m")
    case True
    have "rep component m = m" using assms(3) by (simp add: rep_root)
    moreover have "rep (component[m := k]) m = k"
      using assms(2,5) k by (subst rep.simps) auto
    ultimately show ?thesis using True by simp
  next
    case False
    then have eq: "component[m := k] ! j = component ! j" by simp
    show ?thesis
    proof (cases "component ! j < j")
      case True
      with less.IH [OF True] eq show ?thesis
        by (simp add: rep.simps [of _ j])
    next
      case n: False
      with eq False show ?thesis by (simp add: rep_root)
    qed
  qed
qed

text \<open>What every operation on the array does to the relation it stands for: it only
  grows, and stays inside any equivalence that contains the pairs it merges.\<close>

definition extends :: "(nat \<times> nat) set \<Rightarrow> nat list \<Rightarrow> nat list \<Rightarrow> bool" where
  "extends Q c c' \<longleftrightarrow> length c' = length c \<and> uf_inv c' \<and> uf_rel c \<subseteq> uf_rel c'
     \<and> (uf_rel c \<subseteq> Q \<longrightarrow> uf_rel c' \<subseteq> Q)"

lemma extends_refl: "uf_inv c \<Longrightarrow> extends Q c c"
  by (simp add: extends_def)

lemma extends_trans: "extends Q c c' \<Longrightarrow> extends Q c' c'' \<Longrightarrow> extends Q c c''"
  by (auto simp: extends_def)

lemma uf_rel_trans: "(a, b) \<in> uf_rel c \<Longrightarrow> (b, d) \<in> uf_rel c \<Longrightarrow> (a, d) \<in> uf_rel c"
  by (simp add: uf_rel_def)

lemma uf_rel_sym: "(a, b) \<in> uf_rel c \<Longrightarrow> (b, a) \<in> uf_rel c"
  by (simp add: uf_rel_def)

lemma uf_rel_refl: "a < length c \<Longrightarrow> (a, a) \<in> uf_rel c"
  by (simp add: uf_rel_def)

lemma merge_correct:
  assumes "uf_inv c" "l < length c" "r < length c" "equiv {..<length c} Q" "(l, r) \<in> Q"
  shows "\<exists>c'. merge c l r = Some c' \<and> extends Q c c' \<and> (l, r) \<in> uf_rel c'"
proof -
  obtain c1 where c1: "root c l = Some (c1, rep c l)" "length c1 = length c" "uf_inv c1"
    "\<And>j. rep c1 j = rep c j"
    using root_correct [OF assms(1,2)] by blast
  obtain c2 where c2: "root c1 r = Some (c2, rep c r)" "length c2 = length c" "uf_inv c2"
    "\<And>j. rep c2 j = rep c j"
    using root_correct [OF c1(3), of r] assms(3) c1(2,4) by auto
  let ?a = "rep c l" and ?b = "rep c r"
  let ?c' = "c2[max ?a ?b := min ?a ?b]"
  have roots: "c2 ! ?a = ?a" "c2 ! ?b = ?b"
    using rep_is_root [OF c2(3), of l] rep_is_root [OF c2(3), of r] assms(2,3) c2(2,4) by simp_all
  have len: "max ?a ?b < length c2"
    using rep_less_length [OF assms(2)] rep_less_length [OF assms(3)] c2(2) by simp
  have rep': "rep ?c' j = (if rep c j = max ?a ?b then min ?a ?b else rep c j)" for j
    using rep_link [OF c2(3) len, of "min ?a ?b" j] roots c2(4) by (simp add: max_def min_def)
  have inv: "uf_inv ?c'"
    using c2(3) len by (auto simp: uf_inv_def nth_list_update max_def min_def)
  have lr: "(l, r) \<in> uf_rel ?c'"
    using assms(2,3) c2(2) by (simp add: uf_rel_def rep')
  have "uf_rel ?c' \<subseteq> Q" if sub: "uf_rel c \<subseteq> Q"
  proof
    fix p assume p: "p \<in> uf_rel ?c'"
    obtain i j where ij: "p = (i, j)" by (cases p)
    with p c2(2) have bnd: "i < length c" "j < length c" and eq: "rep ?c' i = rep ?c' j"
      by (auto simp: uf_rel_def)
    have Q: "\<And>x y. x < length c \<Longrightarrow> y < length c \<Longrightarrow> rep c x = rep c y \<Longrightarrow> (x, y) \<in> Q"
      using sub by (auto simp: uf_rel_def)
    have sym: "(r, l) \<in> Q" using assms(4,5) by (meson equivE symE)
    have tr: "\<And>x y z. (x, y) \<in> Q \<Longrightarrow> (y, z) \<in> Q \<Longrightarrow> (x, z) \<in> Q"
      using assms(4) by (meson equivE transE)
    from eq [unfolded rep'] consider "rep c i = rep c j" | "rep c i = ?a" "rep c j = ?b" | "rep c i = ?b" "rep c j = ?a"
      by (auto simp: max_def min_def split: if_splits)
    then have "(i, j) \<in> Q"
      by cases (use Q bnd assms(2,3,5) sym tr in metis)+
    with ij show "p \<in> Q" by simp
  qed
  moreover have "uf_rel c \<subseteq> uf_rel ?c'"
    using c2(2) by (auto simp: uf_rel_def rep')
  ultimately have "extends Q c ?c'"
    using inv c2(2) by (simp add: extends_def)
  with c1(1) c2(1) lr show ?thesis by (simp add: merge_def)
qed

lemma extends_relD: "extends Q c c' \<Longrightarrow> p \<in> uf_rel c \<Longrightarrow> p \<in> uf_rel c'"
  by (auto simp: extends_def)

lemma extends_len: "extends Q c c' \<Longrightarrow> length c' = length c"
  by (simp add: extends_def)

lemma extends_inv: "extends Q c c' \<Longrightarrow> uf_inv c'"
  by (simp add: extends_def)


subsection \<open>The sweep is correct\<close>

definition absorb_post ::
  "(nat \<times> nat) set \<Rightarrow> Active \<Rightarrow> nat list \<Rightarrow> nat \<Rightarrow> u128 \<Rightarrow> u128 option \<Rightarrow> u128 option \<Rightarrow> nat list \<Rightarrow> bool" where
  "absorb_post Q act c tx lo reach reach' c' \<longleftrightarrow>
     extends Q c c'
   \<and> (\<forall>hi rp. (hi, rp) \<in> set act \<longrightarrow> lo \<le> hi \<longrightarrow>
        (tx, rp) \<in> uf_rel c' \<and> (\<exists>far. reach' = Some far \<and> hi \<le> far))
   \<and> (\<forall>far. reach' = Some far \<longrightarrow> reach = Some far \<or> lo \<le> far \<and> far \<in> fst ` set act)
   \<and> (\<forall>far. reach = Some far \<longrightarrow> (\<exists>far'. reach' = Some far' \<and> far \<le> far'))"

lemma absorb_post_skip:
  assumes "absorb_post Q act c tx lo reach reach' c'" "hi < lo"
  shows "absorb_post Q ((hi, rp) # act) c tx lo reach reach' c'"
proof -
  have "\<not> lo \<le> hi" using assms(2) by simp
  with assms(1) show ?thesis unfolding absorb_post_def by auto
qed

lemma absorb_post_take:
  assumes post: "absorb_post Q act c1 tx lo (Some (case reach of None \<Rightarrow> hi | Some far \<Rightarrow> max far hi)) reach' c'"
    and "extends Q c c1" "(tx, rp) \<in> uf_rel c1" "lo \<le> hi"
  shows "absorb_post Q ((hi, rp) # act) c tx lo reach reach' c'"
proof -
  obtain far' where far': "reach' = Some far'" "(case reach of None \<Rightarrow> hi | Some far \<Rightarrow> max far hi) \<le> far'"
    using post by (auto simp: absorb_post_def)
  then have lb: "hi \<le> far'" "\<And>f. reach = Some f \<Longrightarrow> f \<le> far'"
    by (auto split: option.splits)
  have ext: "extends Q c1 c'" using post by (simp add: absorb_post_def)
  then have "extends Q c c'" using assms(2) extends_trans by blast
  moreover have "(tx, rp) \<in> uf_rel c'" using assms(3) ext extends_relD by blast
  moreover have "reach = Some far' \<or> lo \<le> far' \<and> far' \<in> fst ` set ((hi, rp) # act)"
    using post far'(1) assms(4)
    by (auto simp: absorb_post_def max_def split: option.splits if_splits)
  ultimately show ?thesis
    using post far'(1) lb unfolding absorb_post_def by simp
qed

lemma absorb_correct:
  assumes "uf_inv c" "equiv {..<length c} Q" "tx < length c"
    and "\<And>hi rp. (hi, rp) \<in> set act \<Longrightarrow> rp < length c \<and> (lo \<le> hi \<longrightarrow> (tx, rp) \<in> Q)"
  shows "\<exists>reach' c'. absorb act c tx lo reach = Some (reach', c') \<and> absorb_post Q act c tx lo reach reach' c'"
  using assms
proof (induction act arbitrary: c reach)
  case Nil
  then show ?case by (simp add: extends_refl absorb_post_def)
next
  case (Cons e act)
  obtain hi rp where e: "e = (hi, rp)" by (cases e)
  show ?case
  proof (cases "hi < lo")
    case True
    obtain reach' c' where "absorb act c tx lo reach = Some (reach', c')"
      "absorb_post Q act c tx lo reach reach' c'"
      using Cons.IH [OF Cons.prems(1-3), of reach] Cons.prems(4) by auto
    with absorb_post_skip True e show ?thesis by auto
  next
    case False
    let ?r = "Some (case reach of None \<Rightarrow> hi | Some far \<Rightarrow> max far hi)"
    have "rp < length c" "(tx, rp) \<in> Q" using Cons.prems(4) [of hi rp] e False by auto
    then obtain c1 where c1: "merge c tx rp = Some c1" "extends Q c c1" "(tx, rp) \<in> uf_rel c1"
      using merge_correct [OF Cons.prems(1,3) _ Cons.prems(2)] by blast
    have len: "length c1 = length c" and inv: "uf_inv c1"
      using c1(2) by (simp_all add: extends_def)
    obtain reach' c' where IH: "absorb act c1 tx lo ?r = Some (reach', c')"
      "absorb_post Q act c1 tx lo ?r reach' c'"
      using Cons.IH [OF inv, of ?r] Cons.prems(2-4) len by auto
    have "absorb_post Q (e # act) c tx lo reach reach' c'"
      unfolding e using IH(2) c1(2,3) False by (intro absorb_post_take) auto
    moreover have "absorb (e # act) c tx lo reach = Some (reach', c')"
      using False IH(1) c1(1) e by simp
    ultimately show ?thesis by blast
  qed
qed

text \<open>The state of the sweep while \<open>claim\<close> is being placed against the claims \<open>P\<close>
  already placed: every active entry speaks for a placed claim of its class, and
  every placed claim the sweep point is still inside is spoken for, by an entry or
  by the entry \<open>claim\<close> will leave.\<close>

definition sweep_inv ::
  "CollectionClaim set \<Rightarrow> CollectionClaim \<Rightarrow> u128 \<Rightarrow> (ConflictClass \<Rightarrow> Active) \<Rightarrow> nat list \<Rightarrow> bool" where
  "sweep_inv P claim reach active c \<longleftrightarrow>
     (\<forall>k hi rp. (hi, rp) \<in> set (active k) \<longrightarrow>
        (\<exists>p \<in> P. cl_class p = k \<and> cl_hi p = hi \<and> (cl_tx p, rp) \<in> uf_rel c))
   \<and> (\<exists>p \<in> insert claim P. cl_class p = cl_class claim \<and> cl_hi p = reach \<and> (cl_tx p, cl_tx claim) \<in> uf_rel c)
   \<and> cl_hi claim \<le> reach
   \<and> (\<forall>p \<in> P. cl_lo claim \<le> cl_hi p \<longrightarrow>
        (\<exists>(hi, rp) \<in> set (active (cl_class p)). cl_hi p \<le> hi \<and> (cl_tx p, rp) \<in> uf_rel c)
        \<or> (cl_class p = cl_class claim \<and> cl_hi p \<le> reach \<and> (cl_tx p, cl_tx claim) \<in> uf_rel c))"

text \<open>What relates two claims of one collection: their classes conflict and their
  intervals meet.\<close>

definition claims_conflict :: "CollectionClaim \<Rightarrow> CollectionClaim \<Rightarrow> bool" where
  "claims_conflict p q \<longleftrightarrow> conflicts_with (cl_class p) (cl_class q) \<and> cl_lo p \<le> cl_hi q \<and> cl_lo q \<le> cl_hi p"

lemma sweep_inv_soundD:
  "sweep_inv P claim reach active c \<Longrightarrow> (hi, rp) \<in> set (active k) \<Longrightarrow>
   \<exists>p \<in> P. cl_class p = k \<and> cl_hi p = hi \<and> (cl_tx p, rp) \<in> uf_rel c"
  by (simp add: sweep_inv_def)

lemma sweep_inv_pendD:
  "sweep_inv P claim reach active c \<Longrightarrow>
   (\<exists>p \<in> insert claim P. cl_class p = cl_class claim \<and> cl_hi p = reach \<and> (cl_tx p, cl_tx claim) \<in> uf_rel c)
   \<and> cl_hi claim \<le> reach"
  by (simp add: sweep_inv_def)

lemma sweep_inv_completeD:
  "sweep_inv P claim reach active c \<Longrightarrow> p \<in> P \<Longrightarrow> cl_lo claim \<le> cl_hi p \<Longrightarrow>
   (\<exists>(hi, rp) \<in> set (active (cl_class p)). cl_hi p \<le> hi \<and> (cl_tx p, rp) \<in> uf_rel c)
   \<or> (cl_class p = cl_class claim \<and> cl_hi p \<le> reach \<and> (cl_tx p, cl_tx claim) \<in> uf_rel c)"
  by (simp add: sweep_inv_def)

lemma sweep_inv_extends:
  "sweep_inv P claim reach active c \<Longrightarrow> extends Q c c' \<Longrightarrow> sweep_inv P claim reach active c'"
proof -
  assume *: "sweep_inv P claim reach active c" "extends Q c c'"
  have sub: "\<And>x y. (x, y) \<in> uf_rel c \<Longrightarrow> (x, y) \<in> uf_rel c'"
    using *(2) extends_relD by blast
  from *(1) show ?thesis
    unfolding sweep_inv_def by (fast intro: sub)
qed

text \<open>An unexpired claim of an absorbed class meets the arriving claim's component.\<close>

lemma absorb_meets:
  assumes inv: "sweep_inv P claim reach active c"
    and post: "absorb_post Q (active k) c (cl_tx claim) (cl_lo claim) None reach' c'"
    and p: "p \<in> P" "cl_class p = k" "cl_lo claim \<le> cl_hi p"
  shows "(cl_tx p, cl_tx claim) \<in> uf_rel c' \<and>
    ((\<exists>far. reach' = Some far \<and> cl_hi p \<le> far) \<or> (k = cl_class claim \<and> cl_hi p \<le> reach))"
proof -
  have ext: "extends Q c c'" using post by (simp add: absorb_post_def)
  consider hi rp where "(hi, rp) \<in> set (active k)" "cl_hi p \<le> hi" "(cl_tx p, rp) \<in> uf_rel c"
    | "cl_class p = cl_class claim" "cl_hi p \<le> reach" "(cl_tx p, cl_tx claim) \<in> uf_rel c"
    using sweep_inv_completeD [OF inv p(1,3)] p(2) by blast
  then show ?thesis
  proof cases
    case 1
    then have "cl_lo claim \<le> hi" using p(3) by simp
    with 1(1) post have "(cl_tx claim, rp) \<in> uf_rel c'" "\<exists>far. reach' = Some far \<and> hi \<le> far"
      by (auto simp: absorb_post_def)
    moreover have "(cl_tx p, rp) \<in> uf_rel c'" using 1(3) ext extends_relD by blast
    ultimately show ?thesis using 1(2) uf_rel_sym uf_rel_trans by (metis order_trans)
  next
    case 2
    then show ?thesis using ext extends_relD p(2) by blast
  qed
qed

lemma absorb_source:
  assumes inv: "sweep_inv P claim reach active c"
    and post: "absorb_post Q (active k) c (cl_tx claim) (cl_lo claim) None (Some far) c'"
  shows "\<exists>p \<in> P. cl_class p = k \<and> cl_hi p = far \<and> (cl_tx p, cl_tx claim) \<in> uf_rel c'"
proof -
  obtain rp where rp: "(far, rp) \<in> set (active k)" "cl_lo claim \<le> far"
    using post by (auto simp: absorb_post_def)
  obtain p where p: "p \<in> P" "cl_class p = k" "cl_hi p = far" "(cl_tx p, rp) \<in> uf_rel c"
    using sweep_inv_soundD [OF inv rp(1)] by blast
  have "(cl_tx claim, rp) \<in> uf_rel c'" "extends Q c c'"
    using post rp by (auto simp: absorb_post_def)
  with p show ?thesis using extends_relD uf_rel_sym uf_rel_trans by metis
qed

lemma sweep_inv_absorb_none:
  assumes inv: "sweep_inv P claim reach active c"
    and post: "absorb_post Q (active k) c (cl_tx claim) (cl_lo claim) None None c'"
  shows "sweep_inv P claim reach (active(k := [])) c'"
proof -
  have ext: "extends Q c c'" using post by (simp add: absorb_post_def)
  note inv' = sweep_inv_extends [OF inv ext]
  show ?thesis
    unfolding sweep_inv_def
  proof (intro conjI allI impI ballI)
    fix k' hi rp assume "(hi, rp) \<in> set ((active(k := [])) k')"
    then show "\<exists>p\<in>P. cl_class p = k' \<and> cl_hi p = hi \<and> (cl_tx p, rp) \<in> uf_rel c'"
      using sweep_inv_soundD [OF inv'] by (auto split: if_splits)
  next
    fix p assume p: "p \<in> P" "cl_lo claim \<le> cl_hi p"
    show "(\<exists>(hi, rp)\<in>set ((active(k := [])) (cl_class p)). cl_hi p \<le> hi \<and> (cl_tx p, rp) \<in> uf_rel c')
        \<or> cl_class p = cl_class claim \<and> cl_hi p \<le> reach \<and> (cl_tx p, cl_tx claim) \<in> uf_rel c'"
    proof (cases "cl_class p = k")
      case True
      with absorb_meets [OF inv post p(1) _ p(2)] show ?thesis by auto
    next
      case False
      with sweep_inv_completeD [OF inv' p] show ?thesis by auto
    qed
  qed (use sweep_inv_pendD [OF inv'] in auto)
qed

lemma sweep_inv_absorb_own:
  assumes inv: "sweep_inv P claim reach active c"
    and post: "absorb_post Q (active (cl_class claim)) c (cl_tx claim) (cl_lo claim) None (Some far) c'"
  shows "sweep_inv P claim (max reach far) (active(cl_class claim := [])) c'"
proof -
  let ?k = "cl_class claim"
  have ext: "extends Q c c'" using post by (simp add: absorb_post_def)
  note inv' = sweep_inv_extends [OF inv ext]
  show ?thesis
    unfolding sweep_inv_def
  proof (intro conjI allI impI ballI)
    fix k' hi rp assume "(hi, rp) \<in> set ((active(?k := [])) k')"
    then show "\<exists>p\<in>P. cl_class p = k' \<and> cl_hi p = hi \<and> (cl_tx p, rp) \<in> uf_rel c'"
      using sweep_inv_soundD [OF inv'] by (auto split: if_splits)
  next
    show "\<exists>p\<in>insert claim P. cl_class p = ?k \<and> cl_hi p = max reach far
        \<and> (cl_tx p, cl_tx claim) \<in> uf_rel c'"
    proof (cases "far \<le> reach")
      case True
      then have "max reach far = reach" by (simp add: max_def)
      with sweep_inv_pendD [OF inv'] show ?thesis by simp
    next
      case False
      then have "max reach far = far" by (simp add: max.absorb2 not_le less_imp_le)
      with absorb_source [OF inv post] show ?thesis by auto
    qed
    show "cl_hi claim \<le> max reach far" using sweep_inv_pendD [OF inv'] by (auto simp: max_def)
  next
    fix p assume p: "p \<in> P" "cl_lo claim \<le> cl_hi p"
    show "(\<exists>(hi, rp)\<in>set ((active(?k := [])) (cl_class p)). cl_hi p \<le> hi \<and> (cl_tx p, rp) \<in> uf_rel c')
        \<or> cl_class p = ?k \<and> cl_hi p \<le> max reach far \<and> (cl_tx p, cl_tx claim) \<in> uf_rel c'"
    proof (cases "cl_class p = ?k")
      case True
      with absorb_meets [OF inv post p(1) _ p(2)] show ?thesis by (auto simp: le_max_iff_disj)
    next
      case False
      with sweep_inv_completeD [OF inv' p] show ?thesis by auto
    qed
  qed
qed

lemma sweep_inv_absorb_other:
  assumes inv: "sweep_inv P claim reach active c" and k: "k \<noteq> cl_class claim"
    and post: "absorb_post Q (active k) c (cl_tx claim) (cl_lo claim) None (Some far) c'"
  shows "sweep_inv P claim reach (active(k := [(far, cl_tx claim)])) c'"
proof -
  have ext: "extends Q c c'" using post by (simp add: absorb_post_def)
  note inv' = sweep_inv_extends [OF inv ext]
  show ?thesis
    unfolding sweep_inv_def
  proof (intro conjI allI impI ballI)
    fix k' hi rp assume "(hi, rp) \<in> set ((active(k := [(far, cl_tx claim)])) k')"
    then show "\<exists>p\<in>P. cl_class p = k' \<and> cl_hi p = hi \<and> (cl_tx p, rp) \<in> uf_rel c'"
      using sweep_inv_soundD [OF inv'] absorb_source [OF inv post] by (auto split: if_splits)
  next
    fix p assume p: "p \<in> P" "cl_lo claim \<le> cl_hi p"
    show "(\<exists>(hi, rp)\<in>set ((active(k := [(far, cl_tx claim)])) (cl_class p)).
          cl_hi p \<le> hi \<and> (cl_tx p, rp) \<in> uf_rel c')
        \<or> cl_class p = cl_class claim \<and> cl_hi p \<le> reach \<and> (cl_tx p, cl_tx claim) \<in> uf_rel c'"
    proof (cases "cl_class p = k")
      case True
      with absorb_meets [OF inv post p(1) _ p(2)] k show ?thesis by auto
    next
      case False
      with sweep_inv_completeD [OF inv' p] show ?thesis by auto
    qed
  qed (use sweep_inv_pendD [OF inv'] in auto)
qed

text \<open>What the batch's conflict closure \<open>Q\<close> has to contain for one collection.\<close>

definition claims_in :: "(nat \<times> nat) set \<Rightarrow> nat \<Rightarrow> CollectionClaim set \<Rightarrow> bool" where
  "claims_in Q n P \<longleftrightarrow>
     (\<forall>p \<in> P. cl_tx p < n \<and> cl_lo p \<le> cl_hi p)
   \<and> (\<forall>p \<in> P. \<forall>q \<in> P. claims_conflict p q \<longrightarrow> (cl_tx p, cl_tx q) \<in> Q)"

lemma absorb_applies:
  assumes "uf_inv c" "equiv {..<length c} Q" "uf_rel c \<subseteq> Q" "claims_in Q (length c) (insert claim P)"
    and "\<forall>p \<in> P. cl_lo p \<le> cl_lo claim" "sweep_inv P claim reach active c"
    and "conflicts_with (cl_class claim) k"
  shows "\<exists>reach' c'. absorb (active k) c (cl_tx claim) (cl_lo claim) None = Some (reach', c')
    \<and> absorb_post Q (active k) c (cl_tx claim) (cl_lo claim) None reach' c'"
proof (rule absorb_correct)
  fix hi rp assume e: "(hi, rp) \<in> set (active k)"
  obtain p where p: "p \<in> P" "cl_class p = k" "cl_hi p = hi" "(cl_tx p, rp) \<in> uf_rel c"
    using sweep_inv_soundD [OF assms(6) e] by blast
  have "rp < length c" using p(4) by (simp add: uf_rel_def)
  moreover have "(cl_tx claim, rp) \<in> Q" if "cl_lo claim \<le> hi"
  proof -
    have "cl_lo claim \<le> cl_hi claim" "cl_lo p \<le> cl_lo claim"
      using assms(4,5) p(1) by (auto simp: claims_in_def)
    then have "claims_conflict claim p"
      using that p(2,3) assms(7) by (auto simp: claims_conflict_def)
    then have "(cl_tx claim, cl_tx p) \<in> Q" using assms(4) p(1) by (simp add: claims_in_def)
    then show ?thesis using p(4) assms(2,3) by (meson equivE subsetD transE)
  qed
  ultimately show "rp < length c \<and> (cl_lo claim \<le> hi \<longrightarrow> (cl_tx claim, rp) \<in> Q)" by blast
qed (use assms(1,2,4) in \<open>auto simp: claims_in_def\<close>)

lemma sweep_classes_correct:
  assumes "uf_inv c" "equiv {..<length c} Q" "uf_rel c \<subseteq> Q" "claims_in Q (length c) (insert claim P)"
    and "\<forall>p \<in> P. cl_lo p \<le> cl_lo claim" "sweep_inv P claim reach active c"
  shows "\<exists>reach' active' c'. sweep_classes ks claim reach active c = Some (reach', active', c')
    \<and> extends Q c c' \<and> sweep_inv P claim reach' active' c'
    \<and> (\<forall>p \<in> P. cl_class p \<in> set ks \<longrightarrow> claims_conflict claim p \<longrightarrow> (cl_tx p, cl_tx claim) \<in> uf_rel c')"
  using assms
proof (induction ks arbitrary: reach active c)
  case Nil
  then show ?case by (simp add: extends_refl)
next
  case (Cons k ks)
  show ?case
  proof (cases "conflicts_with (cl_class claim) k")
    case False
    with Cons.IH [OF Cons.prems] show ?thesis
      by (auto simp: claims_conflict_def)
  next
    case True
    obtain r c1 where r: "absorb (active k) c (cl_tx claim) (cl_lo claim) None = Some (r, c1)"
      and post: "absorb_post Q (active k) c (cl_tx claim) (cl_lo claim) None r c1"
      using absorb_applies [OF Cons.prems True] by blast
    have ext: "extends Q c c1" using post by (simp add: absorb_post_def)
    have met: "(cl_tx p, cl_tx claim) \<in> uf_rel c1" if "p \<in> P" "cl_class p = k" "claims_conflict claim p" for p
      using absorb_meets [OF Cons.prems(6) post that(1,2)] that(3) by (simp add: claims_conflict_def)
    obtain reach1 active1 where step: "sweep_classes (k # ks) claim reach active c = sweep_classes ks claim reach1 active1 c1"
      and inv1: "sweep_inv P claim reach1 active1 c1"
    proof (cases r)
      case None
      show ?thesis
      proof (rule that)
        show "sweep_classes (k # ks) claim reach active c
            = sweep_classes ks claim reach (active(k := [])) c1" using True r None by simp
        show "sweep_inv P claim reach (active(k := [])) c1"
          using sweep_inv_absorb_none [OF Cons.prems(6)] post None by simp
      qed
    next
      case (Some far)
      note inv = Cons.prems(6)
      show ?thesis
      proof (cases "k = cl_class claim")
        case own: True
        show ?thesis
        proof (rule that)
          show "sweep_classes (k # ks) claim reach active c
              = sweep_classes ks claim (max reach far) (active(k := [])) c1" using True r Some own by simp
          show "sweep_inv P claim (max reach far) (active(k := [])) c1"
            using sweep_inv_absorb_own [OF inv] post Some own by simp
        qed
      next
        case other: False
        show ?thesis
        proof (rule that)
          show "sweep_classes (k # ks) claim reach active c
              = sweep_classes ks claim reach (active(k := [(far, cl_tx claim)])) c1"
            using True r Some other by simp
          show "sweep_inv P claim reach (active(k := [(far, cl_tx claim)])) c1"
            using sweep_inv_absorb_other [OF inv other] post Some by simp
        qed
      qed
    qed
    have c1: "uf_inv c1" "length c1 = length c" "uf_rel c1 \<subseteq> Q"
      using ext Cons.prems(3) by (auto simp: extends_def)
    obtain reach' active' c' where IH: "sweep_classes ks claim reach1 active1 c1 = Some (reach', active', c')"
      "extends Q c1 c'" "sweep_inv P claim reach' active' c'"
      "\<forall>p \<in> P. cl_class p \<in> set ks \<longrightarrow> claims_conflict claim p \<longrightarrow> (cl_tx p, cl_tx claim) \<in> uf_rel c'"
      using Cons.IH [OF c1(1) _ c1(3) _ Cons.prems(5) inv1] Cons.prems(2,4) c1(2) by auto
    have "\<forall>p \<in> P. cl_class p \<in> set (k # ks) \<longrightarrow> claims_conflict claim p \<longrightarrow> (cl_tx p, cl_tx claim) \<in> uf_rel c'"
      using IH(2,4) met extends_relD by auto
    with step IH(1,3) extends_trans [OF ext IH(2)] show ?thesis by auto
  qed
qed

text \<open>Between two claims: the state after placing \<open>P\<close>, whose intervals all start at or
  before \<open>lo\<close>.\<close>

definition placed :: "CollectionClaim set \<Rightarrow> u128 \<Rightarrow> (ConflictClass \<Rightarrow> Active) \<Rightarrow> nat list \<Rightarrow> bool" where
  "placed P lo active c \<longleftrightarrow>
     (\<forall>k hi rp. (hi, rp) \<in> set (active k) \<longrightarrow>
        (\<exists>p \<in> P. cl_class p = k \<and> cl_hi p = hi \<and> (cl_tx p, rp) \<in> uf_rel c))
   \<and> (\<forall>p \<in> P. lo \<le> cl_hi p \<longrightarrow>
        (\<exists>(hi, rp) \<in> set (active (cl_class p)). cl_hi p \<le> hi \<and> (cl_tx p, rp) \<in> uf_rel c))
   \<and> (\<forall>p \<in> P. cl_lo p \<le> lo)
   \<and> (\<forall>p \<in> P. \<forall>q \<in> P. claims_conflict p q \<longrightarrow> (cl_tx p, cl_tx q) \<in> uf_rel c)"

lemma placed_sweep_inv:
  assumes "placed P lo active c" "lo \<le> cl_lo claim" "cl_tx claim < length c"
  shows "sweep_inv P claim (cl_hi claim) active c"
  using assms unfolding placed_def sweep_inv_def by (auto simp: uf_rel_refl)

lemma claims_conflict_sym: "claims_conflict p q = claims_conflict q p"
  by (auto simp: claims_conflict_def conflicts_with_sym)

lemma sweep_inv_placed:
  assumes inv: "sweep_inv P claim reach active c"
    and met: "\<forall>p \<in> P. claims_conflict claim p \<longrightarrow> (cl_tx p, cl_tx claim) \<in> uf_rel c"
    and old: "\<forall>p \<in> P. \<forall>q \<in> P. claims_conflict p q \<longrightarrow> (cl_tx p, cl_tx q) \<in> uf_rel c"
    and lo: "\<forall>p \<in> P. cl_lo p \<le> cl_lo claim" "cl_lo claim \<le> cl_hi claim" and "cl_tx claim < length c"
  shows "placed (insert claim P) (cl_lo claim)
    (active(cl_class claim := active (cl_class claim) @ [(reach, cl_tx claim)])) c"
    (is "placed _ _ ?active c")
proof -
  have sound: "\<exists>p \<in> insert claim P. cl_class p = k \<and> cl_hi p = hi \<and> (cl_tx p, rp) \<in> uf_rel c"
    if "(hi, rp) \<in> set (?active k)" for k hi rp
  proof (cases "(hi, rp) \<in> set (active k)")
    case True
    with sweep_inv_soundD [OF inv] show ?thesis by blast
  next
    case False
    with that have "k = cl_class claim" "hi = reach" "rp = cl_tx claim" by (auto split: if_splits)
    with sweep_inv_pendD [OF inv] show ?thesis by auto
  qed
  have complete: "\<exists>(hi, rp) \<in> set (?active (cl_class p)). cl_hi p \<le> hi \<and> (cl_tx p, rp) \<in> uf_rel c"
    if p: "p \<in> insert claim P" "cl_lo claim \<le> cl_hi p" for p
  proof (cases "p = claim")
    case True
    then show ?thesis using sweep_inv_pendD [OF inv] assms(6) by (auto simp: uf_rel_refl)
  next
    case False
    with p sweep_inv_completeD [OF inv, of p] show ?thesis by auto
  qed
  have "(cl_tx p, cl_tx q) \<in> uf_rel c" if "p \<in> insert claim P" "q \<in> insert claim P" "claims_conflict p q" for p q
    using that met old assms(6) claims_conflict_sym uf_rel_sym uf_rel_refl by (metis insert_iff)
  with sound complete lo show ?thesis unfolding placed_def by auto
qed

lemma sweep_claims_correct:
  assumes "uf_inv c" "equiv {..<length c} Q" "uf_rel c \<subseteq> Q" "claims_in Q (length c) (P \<union> set claims)"
    and "placed P lo active c" "\<forall>q \<in> set claims. lo \<le> cl_lo q" "sorted (map cl_lo claims)"
  shows "\<exists>c'. sweep_claims claims active c = Some c' \<and> extends Q c c'
    \<and> (\<forall>p \<in> P \<union> set claims. \<forall>q \<in> P \<union> set claims. claims_conflict p q \<longrightarrow> (cl_tx p, cl_tx q) \<in> uf_rel c')"
  using assms
proof (induction claims arbitrary: P lo active c)
  case Nil
  then show ?case by (simp add: extends_refl placed_def)
next
  case (Cons claim claims)
  have cl: "cl_tx claim < length c" "cl_lo claim \<le> cl_hi claim" "lo \<le> cl_lo claim"
    using Cons.prems(4,6) by (auto simp: claims_in_def)
  have P: "\<forall>p \<in> P. cl_lo p \<le> cl_lo claim"
    using Cons.prems(5) cl(3) by (auto simp: placed_def intro: order_trans)
  have in_Q: "claims_in Q (length c) (insert claim P)"
    using Cons.prems(4) by (auto simp: claims_in_def)
  obtain reach active' c1 where step: "sweep_classes ALL_classes claim (cl_hi claim) active c = Some (reach, active', c1)"
    and ext: "extends Q c c1" and inv: "sweep_inv P claim reach active' c1"
    and met: "\<forall>p \<in> P. cl_class p \<in> set ALL_classes \<longrightarrow> claims_conflict claim p \<longrightarrow> (cl_tx p, cl_tx claim) \<in> uf_rel c1"
    using sweep_classes_correct [OF Cons.prems(1-3) in_Q P placed_sweep_inv [OF Cons.prems(5) cl(3,1)]]
    by blast
  have all: "k \<in> set ALL_classes" for k by (cases k) (simp_all add: ALL_classes_def)
  have c1: "uf_inv c1" "length c1 = length c" "uf_rel c1 \<subseteq> Q"
    using ext Cons.prems(3) by (auto simp: extends_def)
  let ?active = "active'(cl_class claim := active' (cl_class claim) @ [(reach, cl_tx claim)])"
  have placed: "placed (insert claim P) (cl_lo claim) ?active c1"
  proof (rule sweep_inv_placed [OF inv _ _ P cl(2)])
    show "\<forall>p\<in>P. \<forall>q\<in>P. claims_conflict p q \<longrightarrow> (cl_tx p, cl_tx q) \<in> uf_rel c1"
      using Cons.prems(5) ext extends_relD unfolding placed_def by blast
  qed (use met all c1 cl in auto)
  have "\<exists>c'. sweep_claims claims ?active c1 = Some c' \<and> extends Q c1 c'
    \<and> (\<forall>p \<in> insert claim P \<union> set claims. \<forall>q \<in> insert claim P \<union> set claims.
         claims_conflict p q \<longrightarrow> (cl_tx p, cl_tx q) \<in> uf_rel c')"
    using Cons.prems(2,4,7) c1(2) by (intro Cons.IH [OF c1(1) _ c1(3) _ placed]) auto
  with step extends_trans [OF ext] show ?case by auto
qed

lemma sweep_collection_correct:
  assumes "uf_inv c" "equiv {..<length c} Q" "uf_rel c \<subseteq> Q" "claims_in Q (length c) (set claims)"
  shows "\<exists>c'. sweep_collection claims c = Some c' \<and> extends Q c c'
    \<and> (\<forall>p \<in> set claims. \<forall>q \<in> set claims. claims_conflict p q \<longrightarrow> (cl_tx p, cl_tx q) \<in> uf_rel c')"
proof -
  let ?key = "\<lambda>c. (cl_lo c, cl_hi c, cl_tx c)"
  let ?cs = "sort_key ?key claims"
  have "sorted (map ?key ?cs)" by simp
  then have "sorted (map fst (map ?key ?cs))"
    by (auto simp: sorted_wrt_map sorted_map less_eq_prod_def elim!: sorted_wrt_mono_rel [rotated])
  then have "sorted (map cl_lo ?cs)" by (simp add: comp_def)
  moreover have "placed {} 0 (\<lambda>_. []) c" by (simp add: placed_def)
  ultimately have "\<exists>c'. sweep_claims ?cs (\<lambda>_. []) c = Some c' \<and> extends Q c c'
      \<and> (\<forall>p \<in> {} \<union> set ?cs. \<forall>q \<in> {} \<union> set ?cs. claims_conflict p q \<longrightarrow> (cl_tx p, cl_tx q) \<in> uf_rel c')"
    using assms by (intro sweep_claims_correct) auto
  then show ?thesis by (simp add: sweep_collection_def)
qed

subsection \<open>Point keys are connected as the lattice says\<close>

lemma merge_all_correct:
  assumes "uf_inv c" "equiv {..<length c} Q" "anchor < length c"
    and "\<forall>i \<in> set is. i < length c \<and> (anchor, i) \<in> Q"
  shows "\<exists>c'. merge_all anchor is c = Some c' \<and> extends Q c c' \<and> (\<forall>i \<in> set is. (anchor, i) \<in> uf_rel c')"
  using assms
proof (induction "is" arbitrary: c)
  case Nil
  then show ?case by (simp add: extends_refl)
next
  case (Cons i "is")
  obtain c1 where c1: "merge c anchor i = Some c1" "extends Q c c1" "(anchor, i) \<in> uf_rel c1"
    using merge_correct [OF Cons.prems(1,3) _ Cons.prems(2)] Cons.prems(4) by auto
  obtain c' where "merge_all anchor is c1 = Some c'" "extends Q c1 c'" "\<forall>i \<in> set is. (anchor, i) \<in> uf_rel c'"
    using Cons.IH [of c1] Cons.prems(2-4) c1(2) by (auto simp: extends_def)
  with c1 extends_trans [OF c1(2)] show ?case by (auto intro: extends_relD)
qed

fun pc_class :: "PointClasses \<Rightarrow> ConflictClass \<Rightarrow> nat list" where
  "pc_class pc CRead = pc_reads pc"
| "pc_class pc CMovement = pc_commutative pc"
| "pc_class pc CWrite = pc_writes pc"

definition point_in :: "(nat \<times> nat) set \<Rightarrow> nat \<Rightarrow> PointClasses \<Rightarrow> bool" where
  "point_in Q n pc \<longleftrightarrow>
     (\<forall>k. \<forall>i \<in> set (pc_class pc k). i < n)
   \<and> (\<forall>k k'. conflicts_with k k' \<longrightarrow> (\<forall>i \<in> set (pc_class pc k). \<forall>j \<in> set (pc_class pc k'). (i, j) \<in> Q))"

lemma conflicts_with_write [simp]: "conflicts_with CWrite k" "conflicts_with k CWrite"
  by (simp_all add: conflicts_with_def)

lemma conflicts_with_table [simp]:
  "conflicts_with CRead CMovement" "conflicts_with CMovement CRead"
  "\<not> conflicts_with CRead CRead" "\<not> conflicts_with CMovement CMovement"
  by (simp_all add: conflicts_with_def)

lemma point_in_anchor:
  assumes "point_in Q n pc" "equiv {..<n} Q" "pc_anchor pc = Some a" "i \<in> set (pc_class pc k)"
  shows "a < n \<and> (a, i) \<in> Q"
proof (cases "pc_writes pc")
  case (Cons w ws)
  then have "a = w" using assms(3) by (simp add: pc_anchor_def)
  then have a: "a \<in> set (pc_class pc CWrite)" using Cons by simp
  have "conflicts_with CWrite k" by simp
  then have "(a, i) \<in> Q" using a assms(1,4) unfolding point_in_def by blast
  moreover have "a < n" using a assms(1) unfolding point_in_def by blast
  ultimately show ?thesis by blast
next
  case Nil
  then have ne: "pc_reads pc \<noteq> []" "pc_commutative pc \<noteq> []" "a = hd (pc_reads pc)"
    using assms(3) by (auto simp: pc_anchor_def split: if_splits)
  have a: "a \<in> set (pc_class pc CRead)" using ne by simp
  obtain m where m: "m \<in> set (pc_class pc CMovement)" using ne(2) by (cases "pc_commutative pc") auto
  have am: "(a, m) \<in> Q" using a m assms(1) conflicts_with_table(1) unfolding point_in_def by blast
  have "(a, i) \<in> Q"
  proof (cases k)
    case CRead
    then have "(m, i) \<in> Q" using m assms(1,4) conflicts_with_table(2) unfolding point_in_def by blast
    with am show ?thesis using assms(2) by (meson equivE transE)
  next
    case CMovement
    then show ?thesis using a assms(1,4) conflicts_with_table(1) unfolding point_in_def by blast
  next
    case CWrite
    with Nil assms(4) show ?thesis by simp
  qed
  moreover have "a < n" using a assms(1) unfolding point_in_def by blast
  ultimately show ?thesis by blast
qed

lemma pc_all: "set (pc_reads pc @ pc_commutative pc @ pc_writes pc) = (\<Union>k. set (pc_class pc k))"
proof (intro set_eqI iffI)
  fix i assume "i \<in> set (pc_reads pc @ pc_commutative pc @ pc_writes pc)"
  then consider "i \<in> set (pc_class pc CRead)" | "i \<in> set (pc_class pc CMovement)"
    | "i \<in> set (pc_class pc CWrite)" by auto
  then show "i \<in> (\<Union>k. set (pc_class pc k))" by cases blast+
next
  fix i assume "i \<in> (\<Union>k. set (pc_class pc k))"
  then obtain k where "i \<in> set (pc_class pc k)" by blast
  then show "i \<in> set (pc_reads pc @ pc_commutative pc @ pc_writes pc)" by (cases k) auto
qed

lemma merge_into_correct:
  assumes "uf_inv c" "equiv {..<length c} Q" "point_in Q (length c) pc"
  shows "\<exists>c'. merge_into pc c = Some c' \<and> extends Q c c' \<and>
    (\<forall>k k'. conflicts_with k k' \<longrightarrow>
       (\<forall>i \<in> set (pc_class pc k). \<forall>j \<in> set (pc_class pc k'). (i, j) \<in> uf_rel c'))"
proof (cases "pc_anchor pc")
  case None
  then have "pc_writes pc = []" "pc_reads pc = [] \<or> pc_commutative pc = []"
    by (auto simp: pc_anchor_def split: list.splits if_splits)
  then have "pc_class pc k = [] \<or> pc_class pc k' = []" if "conflicts_with k k'" for k k'
    using that by (cases k; cases k') (auto simp: conflicts_with_def)
  with None assms(1) show ?thesis
    by (simp add: merge_into_def extends_refl) (metis empty_iff empty_set)
next
  case (Some a)
  let ?is = "pc_reads pc @ pc_commutative pc @ pc_writes pc"
  have pre: "\<forall>i \<in> set ?is. i < length c \<and> (a, i) \<in> Q"
    using point_in_anchor [OF assms(3,2) Some] assms(3) unfolding pc_all point_in_def by blast
  have "?is \<noteq> []" using Some by (auto simp: pc_anchor_def split: list.splits if_splits)
  then obtain i where "i \<in> set ?is" by (meson ex_in_conv set_empty)
  then obtain k where "i \<in> set (pc_class pc k)" unfolding pc_all by blast
  then have "a < length c" using point_in_anchor [OF assms(3,2) Some] by blast
  then obtain c' where c': "merge_all a ?is c = Some c'" "extends Q c c'" "\<forall>i \<in> set ?is. (a, i) \<in> uf_rel c'"
    using merge_all_correct [OF assms(1,2) _ pre] by blast
  have "(i, j) \<in> uf_rel c'" if "i \<in> set (pc_class pc k)" "j \<in> set (pc_class pc k')" for i j k k'
    using that c'(3) uf_rel_sym uf_rel_trans unfolding pc_all by blast
  with Some c'(1,2) show ?thesis by (auto simp: merge_into_def)
qed


subsection \<open>Buckets hold what the batch declares\<close>

lemma pc_class_push:
  "set (pc_class (pc_push pc i k) k') = set (pc_class pc k') \<union> (if conflict_class k = k' then {i} else {})"
  by (cases k'; cases "conflict_class k") (auto simp: pc_push_def)

lemma pc_class_default [simp]: "pc_class pc_default k = []"
  by (cases k) (simp_all add: pc_default_def)

lemma bucket_effect_point:
  "eff_target e = Point key \<Longrightarrow> bucket_effect (ps, cs) (i, e) =
     (bt_insert key (pc_push (bt_get_or pc_default ps key) i (kind (eff_mode e))) ps, cs)"
  by (simp add: bucket_effect_def)

lemma bucket_effect_collection:
  "collection_of (eff_target e) = Some on \<Longrightarrow> bucket_effect (ps, cs) (i, e) =
     (ps, case claim_interval (eff_target e) of
            None \<Rightarrow> cs
          | Some (lo, hi) \<Rightarrow>
              bt_insert on (bt_get_or [] cs on
                @ [\<lparr>cl_tx = i, cl_lo = lo, cl_hi = hi, cl_class = conflict_class (kind (eff_mode e))\<rparr>]) cs)"
  by (cases "eff_target e") (auto simp: bucket_effect_def)

lemma bucket_points:
  "i \<in> set (pc_class (bt_get_or pc_default (fst (foldl bucket_effect (bt_empty, bt_empty) ies)) key) k) \<longleftrightarrow>
   (\<exists>e. (i, e) \<in> set ies \<and> eff_target e = Point key \<and> conflict_class (kind (eff_mode e)) = k)"
proof (induction ies rule: rev_induct)
  case Nil
  then show ?case by (simp add: bt_get_or_def)
next
  case (snoc ie ies)
  obtain ps cs where b: "foldl bucket_effect (bt_empty, bt_empty) ies = (ps, cs)" by fastforce
  obtain j e where ie: "ie = (j, e)" by (cases ie)
  show ?case
  proof (cases "eff_target e")
    case (Point key')
    with snoc b ie show ?thesis
      by (auto simp: bucket_effect_point bt_get_or_def pc_class_push split: if_splits)
  next
    case (Entry a c x)
    with snoc b ie show ?thesis by (auto simp: bucket_effect_collection)
  next
    case (RangeT a c lo hi cap)
    with snoc b ie show ?thesis by (auto simp: bucket_effect_collection)
  qed
qed

lemma bucket_collections:
  "cl \<in> set (bt_get_or [] (snd (foldl bucket_effect (bt_empty, bt_empty) ies)) on) \<longleftrightarrow>
   (\<exists>e. (cl_tx cl, e) \<in> set ies \<and> collection_of (eff_target e) = Some on
     \<and> claim_interval (eff_target e) = Some (cl_lo cl, cl_hi cl)
     \<and> cl_class cl = conflict_class (kind (eff_mode e)))"
proof (induction ies rule: rev_induct)
  case Nil
  then show ?case by (simp add: bt_get_or_def)
next
  case (snoc ie ies)
  obtain ps cs where b: "foldl bucket_effect (bt_empty, bt_empty) ies = (ps, cs)" by fastforce
  obtain j e where ie: "ie = (j, e)" by (cases ie)
  show ?case
  proof (cases "collection_of (eff_target e)")
    case None
    then obtain key where "eff_target e = Point key" by (cases "eff_target e") auto
    with snoc b ie show ?thesis by (auto simp: bucket_effect_point)
  next
    case (Some on')
    show ?thesis
    proof (cases "claim_interval (eff_target e)")
      case None
      with Some snoc b ie show ?thesis by (auto simp: bucket_effect_collection)
    next
      case (Some lohi)
      obtain lo hi where lohi: "lohi = (lo, hi)" by (cases lohi)
      have "cl = \<lparr>cl_tx = j, cl_lo = lo, cl_hi = hi, cl_class = conflict_class (kind (eff_mode e))\<rparr> \<longleftrightarrow>
          cl_tx cl = j \<and> cl_lo cl = lo \<and> cl_hi cl = hi \<and> cl_class cl = conflict_class (kind (eff_mode e))"
        by (cases cl) auto
      with Some \<open>collection_of (eff_target e) = Some on'\<close> snoc b ie lohi show ?thesis
        by (auto simp: bucket_effect_collection bt_get_or_def)
    qed
  qed
qed

lemma mem_indexed_effects:
  "(i, e) \<in> set (indexed_effects batch) \<longleftrightarrow> i < length batch \<and> e \<in> set (effects_of (batch ! i))"
proof
  assume "(i, e) \<in> set (indexed_effects batch)"
  then obtain p where "p \<in> set (enumerate 0 batch)" "i = fst p" "e \<in> set (effects_of (snd p))"
    by (auto simp: indexed_effects_def)
  then show "i < length batch \<and> e \<in> set (effects_of (batch ! i))"
    by (auto simp: in_set_enumerate_eq)
next
  assume *: "i < length batch \<and> e \<in> set (effects_of (batch ! i))"
  then have "(i, batch ! i) \<in> set (enumerate 0 batch)" by (simp add: in_set_enumerate_eq)
  with * show "(i, e) \<in> set (indexed_effects batch)"
    by (auto simp: indexed_effects_def intro!: bexI [of _ "(i, batch ! i)"])
qed


subsection \<open>The groups are the connected components\<close>

definition conflict_rel :: "EffectSet list \<Rightarrow> (nat \<times> nat) set" where
  "conflict_rel batch =
    {(i, j). i < length batch \<and> j < length batch \<and> sets_conflict (batch ! i) (batch ! j)}"

definition conflict_closure :: "EffectSet list \<Rightarrow> (nat \<times> nat) set" where
  "conflict_closure batch =
    {(i, j). i < length batch \<and> j < length batch \<and> (i, j) \<in> (conflict_rel batch)\<^sup>*}"

lemma sym_conflict_rel: "sym (conflict_rel batch)"
  by (auto simp: sym_def conflict_rel_def sets_conflict_sym)

lemma equiv_conflict_closure: "equiv {..<length batch} (conflict_closure batch)"
proof (rule equivI)
  show "refl_on {..<length batch} (conflict_closure batch)"
    by (auto simp: refl_on_def conflict_closure_def)
  show "sym (conflict_closure batch)"
    using sym_rtrancl [OF sym_conflict_rel [of batch]] by (auto simp: sym_def conflict_closure_def)
  show "trans (conflict_closure batch)"
    by (auto simp: trans_def conflict_closure_def)
qed (auto simp: conflict_closure_def)

lemma conflict_rel_closure: "conflict_rel batch \<subseteq> conflict_closure batch"
  by (auto simp: conflict_rel_def conflict_closure_def)

lemma uf_rel_covers_closure:
  assumes "conflict_rel batch \<subseteq> uf_rel c" "length c = length batch"
  shows "conflict_closure batch \<subseteq> uf_rel c"
proof -
  have "(i, j) \<in> (conflict_rel batch)\<^sup>* \<Longrightarrow> i < length batch \<Longrightarrow> (i, j) \<in> uf_rel c" for i j
  proof (induction rule: rtrancl_induct)
    case base
    then show ?case using assms(2) by (simp add: uf_rel_refl)
  next
    case (step y z)
    then show ?case using assms(1) uf_rel_trans by blast
  qed
  then show ?thesis by (auto simp: conflict_closure_def)
qed

lemma try_fold_extends:
  assumes step: "\<And>x c. x \<in> set xs \<Longrightarrow> uf_inv c \<Longrightarrow> length c = n \<Longrightarrow> uf_rel c \<subseteq> Q \<Longrightarrow>
      \<exists>c'. f x c = Some c' \<and> extends Q c c' \<and> M x \<subseteq> uf_rel c'"
    and "uf_inv c" "length c = n" "uf_rel c \<subseteq> Q"
  shows "\<exists>c'. try_fold f xs c = Some c' \<and> extends Q c c' \<and> (\<forall>x \<in> set xs. M x \<subseteq> uf_rel c')"
  using assms
proof (induction xs arbitrary: c)
  case Nil
  then show ?case by (simp add: extends_refl)
next
  case (Cons x xs)
  obtain c1 where c1: "f x c = Some c1" "extends Q c c1" "M x \<subseteq> uf_rel c1"
    using Cons.prems(1) [of x c] Cons.prems(2-4) by auto
  obtain c' where c': "try_fold f xs c1 = Some c'" "extends Q c1 c'" "\<forall>x \<in> set xs. M x \<subseteq> uf_rel c'"
    using Cons.IH [of c1] Cons.prems c1(2) by (auto simp: extends_def)
  have "M x \<subseteq> uf_rel c'" using c1(3) c'(2) by (auto simp: extends_def)
  with c1 c' extends_trans [OF c1(2) c'(2)] show ?case by auto
qed

lemma conflicts_point:
  "eff_target e = Point key \<Longrightarrow> conflicts e f \<longleftrightarrow>
     eff_target f = Point key \<and> conflicts_with (conflict_class (kind (eff_mode e))) (conflict_class (kind (eff_mode f)))"
  by (cases "eff_target f") (auto simp: conflicts_def compatible_class)

lemma conflicts_collection:
  "collection_of (eff_target e) = Some on \<Longrightarrow> conflicts e f \<longleftrightarrow>
     collection_of (eff_target f) = Some on
     \<and> conflicts_with (conflict_class (kind (eff_mode e))) (conflict_class (kind (eff_mode f)))
     \<and> (\<exists>lo hi lo' hi'. claim_interval (eff_target e) = Some (lo, hi)
          \<and> claim_interval (eff_target f) = Some (lo', hi') \<and> lo \<le> hi' \<and> lo' \<le> hi)"
  by (cases "eff_target e"; cases "eff_target f") (auto simp: conflicts_def compatible_class)

lemma claim_interval_le: "claim_interval t = Some (lo, hi) \<Longrightarrow> lo \<le> hi"
  by (cases t) (auto split: if_splits)

lemma conflict_closureI:
  "i < length batch \<Longrightarrow> j < length batch \<Longrightarrow> e \<in> set (effects_of (batch ! i)) \<Longrightarrow>
   f \<in> set (effects_of (batch ! j)) \<Longrightarrow> conflicts e f \<Longrightarrow> (i, j) \<in> conflict_closure batch"
  using conflict_rel_closure by (fastforce simp: conflict_rel_def sets_conflict_iff)

lemma bucket_point_in:
  assumes "bt_get (fst (bucket_batch batch)) key = Some pc"
  shows "point_in (conflict_closure batch) (length batch) pc"
proof -
  have mem: "i \<in> set (pc_class pc k) \<longleftrightarrow> (\<exists>e. i < length batch \<and> e \<in> set (effects_of (batch ! i))
      \<and> eff_target e = Point key \<and> conflict_class (kind (eff_mode e)) = k)" for i k
    using bucket_points [of i "indexed_effects batch" key k] assms
    by (simp add: bucket_batch_def mem_indexed_effects)
  show ?thesis unfolding point_in_def
  proof (intro conjI allI ballI impI)
    fix k k' i j assume k: "conflicts_with k k'" and "i \<in> set (pc_class pc k)" "j \<in> set (pc_class pc k')"
    then obtain e f where ef: "i < length batch" "e \<in> set (effects_of (batch ! i))" "eff_target e = Point key"
      "conflict_class (kind (eff_mode e)) = k" "j < length batch" "f \<in> set (effects_of (batch ! j))"
      "eff_target f = Point key" "conflict_class (kind (eff_mode f)) = k'"
      unfolding mem by blast
    then have "conflicts e f" using k by (simp add: conflicts_point)
    with ef show "(i, j) \<in> conflict_closure batch" by (blast intro: conflict_closureI)
  qed (auto simp: mem)
qed

lemma bucket_claims_mem:
  assumes "bt_get (snd (bucket_batch batch)) on = Some cs"
  shows "cl \<in> set cs \<longleftrightarrow> (\<exists>e. cl_tx cl < length batch \<and> e \<in> set (effects_of (batch ! cl_tx cl))
      \<and> collection_of (eff_target e) = Some on \<and> claim_interval (eff_target e) = Some (cl_lo cl, cl_hi cl)
      \<and> cl_class cl = conflict_class (kind (eff_mode e)))"
  using bucket_collections [of cl "indexed_effects batch" on] assms
  by (simp add: bucket_batch_def mem_indexed_effects)

lemma bucket_claims_in:
  assumes "bt_get (snd (bucket_batch batch)) on = Some cs"
  shows "claims_in (conflict_closure batch) (length batch) (set cs)"
  unfolding claims_in_def
proof (intro conjI ballI impI)
  fix p q assume pq: "p \<in> set cs" "q \<in> set cs" "claims_conflict p q"
  obtain e where e: "cl_tx p < length batch" "e \<in> set (effects_of (batch ! cl_tx p))"
    "collection_of (eff_target e) = Some on" "claim_interval (eff_target e) = Some (cl_lo p, cl_hi p)"
    "cl_class p = conflict_class (kind (eff_mode e))"
    using pq(1) bucket_claims_mem [OF assms] by blast
  obtain f where f: "cl_tx q < length batch" "f \<in> set (effects_of (batch ! cl_tx q))"
    "collection_of (eff_target f) = Some on" "claim_interval (eff_target f) = Some (cl_lo q, cl_hi q)"
    "cl_class q = conflict_class (kind (eff_mode f))"
    using pq(2) bucket_claims_mem [OF assms] by blast
  have "conflicts e f"
    using e f pq(3) by (simp add: conflicts_collection claims_conflict_def)
  with e f show "(cl_tx p, cl_tx q) \<in> conflict_closure batch" by (blast intro: conflict_closureI)
qed (use bucket_claims_mem [OF assms] claim_interval_le in blast)+

definition point_pairs :: "PointClasses \<Rightarrow> (nat \<times> nat) set" where
  "point_pairs pc = {(i, j). \<exists>k k'. conflicts_with k k' \<and> i \<in> set (pc_class pc k) \<and> j \<in> set (pc_class pc k')}"

definition claim_pairs :: "CollectionClaim list \<Rightarrow> (nat \<times> nat) set" where
  "claim_pairs cs = {(cl_tx p, cl_tx q) | p q. p \<in> set cs \<and> q \<in> set cs \<and> claims_conflict p q}"

lemma conflict_rel_buckets:
  assumes "(i, j) \<in> conflict_rel batch"
  shows "(\<exists>pc \<in> set (bt_values (fst (bucket_batch batch))). (i, j) \<in> point_pairs pc)
    \<or> (\<exists>cs \<in> set (bt_values (snd (bucket_batch batch))). (i, j) \<in> claim_pairs cs)"
proof -
  obtain e f where ef: "i < length batch" "j < length batch" "e \<in> set (effects_of (batch ! i))"
    "f \<in> set (effects_of (batch ! j))" "conflicts e f"
    using assms by (auto simp: conflict_rel_def sets_conflict_iff)
  show ?thesis
  proof (cases "collection_of (eff_target e)")
    case None
    then obtain key where key: "eff_target e = Point key" by (cases "eff_target e") auto
    then have f: "eff_target f = Point key"
      and k: "conflicts_with (conflict_class (kind (eff_mode e))) (conflict_class (kind (eff_mode f)))"
      using ef(5) by (simp_all add: conflicts_point)
    let ?pc = "bt_get_or pc_default (fst (bucket_batch batch)) key"
    have i: "i \<in> set (pc_class ?pc (conflict_class (kind (eff_mode e))))"
      and j: "j \<in> set (pc_class ?pc (conflict_class (kind (eff_mode f))))"
      using ef key f by (auto simp: bucket_batch_def bucket_points mem_indexed_effects)
    then have "bt_get (fst (bucket_batch batch)) key = Some ?pc"
      by (cases "bt_get (fst (bucket_batch batch)) key") auto
    moreover have "(i, j) \<in> point_pairs ?pc" using i j k by (auto simp: point_pairs_def)
    ultimately have "?pc \<in> set (bt_values (fst (bucket_batch batch)))" "(i, j) \<in> point_pairs ?pc"
      by (simp_all only: mem_values_iff) blast
    then show ?thesis by blast
  next
    case (Some on)
    obtain lo hi lo' hi' where iv: "collection_of (eff_target f) = Some on"
      "conflicts_with (conflict_class (kind (eff_mode e))) (conflict_class (kind (eff_mode f)))"
      "claim_interval (eff_target e) = Some (lo, hi)" "claim_interval (eff_target f) = Some (lo', hi')"
      "lo \<le> hi'" "lo' \<le> hi"
      using ef(5) by (auto simp: conflicts_collection [OF Some])
    let ?cs = "bt_get_or [] (snd (bucket_batch batch)) on"
    let ?p = "\<lparr>cl_tx = i, cl_lo = lo, cl_hi = hi, cl_class = conflict_class (kind (eff_mode e))\<rparr>"
    let ?q = "\<lparr>cl_tx = j, cl_lo = lo', cl_hi = hi', cl_class = conflict_class (kind (eff_mode f))\<rparr>"
    have p: "?p \<in> set ?cs" and q: "?q \<in> set ?cs"
      using ef Some iv by (auto simp: bucket_batch_def bucket_collections mem_indexed_effects)
    then have get: "bt_get (snd (bucket_batch batch)) on = Some ?cs"
      by (cases "bt_get (snd (bucket_batch batch)) on") auto
    have "claims_conflict ?p ?q" using iv by (simp add: claims_conflict_def)
    then have "(cl_tx ?p, cl_tx ?q) \<in> claim_pairs ?cs" using p q unfolding claim_pairs_def by blast
    then have "(i, j) \<in> claim_pairs ?cs" by simp
    moreover have "?cs \<in> set (bt_values (snd (bucket_batch batch)))"
      using get by (simp only: mem_values_iff) blast
    ultimately show ?thesis by blast
  qed
qed

lemma uf_rel_initial: "uf_inv [0..<n]" "uf_rel [0..<n] = {(i, i) | i. i < n}"
proof -
  show "uf_inv [0..<n]" by (simp add: uf_inv_def)
  have "rep [0..<n] i = i" if "i < n" for i using that by (simp add: rep_root)
  then show "uf_rel [0..<n] = {(i, i) | i. i < n}" by (auto simp: uf_rel_def)
qed

lemma components_correct:
  "\<exists>c1 c2. try_fold merge_into (bt_values (fst (bucket_batch batch))) [0..<length batch] = Some c1
     \<and> try_fold sweep_collection (bt_values (snd (bucket_batch batch))) c1 = Some c2
     \<and> uf_inv c2 \<and> length c2 = length batch \<and> uf_rel c2 = conflict_closure batch"
proof -
  let ?Q = "conflict_closure batch" and ?n = "length batch"
  have init: "uf_rel [0..<?n] \<subseteq> ?Q" by (auto simp: uf_rel_initial conflict_closure_def)
  obtain c1 where c1: "try_fold merge_into (bt_values (fst (bucket_batch batch))) [0..<?n] = Some c1"
    "extends ?Q [0..<?n] c1" "\<forall>pc \<in> set (bt_values (fst (bucket_batch batch))). point_pairs pc \<subseteq> uf_rel c1"
  proof (atomize_elim, rule try_fold_extends [where n = ?n])
    fix pc c assume *: "pc \<in> set (bt_values (fst (bucket_batch batch)))" "uf_inv c" "length c = ?n"
    have eq: "equiv {..<length c} ?Q" using equiv_conflict_closure [of batch] *(3) by simp
    have "point_in ?Q (length c) pc" using * by (auto simp: mem_values_iff intro: bucket_point_in)
    then obtain c' where "merge_into pc c = Some c'" "extends ?Q c c'"
      "\<forall>k k'. conflicts_with k k' \<longrightarrow>
       (\<forall>i \<in> set (pc_class pc k). \<forall>j \<in> set (pc_class pc k'). (i, j) \<in> uf_rel c')"
      using merge_into_correct [OF *(2) eq] by blast
    then show "\<exists>c'. merge_into pc c = Some c' \<and> extends ?Q c c' \<and> point_pairs pc \<subseteq> uf_rel c'"
      unfolding point_pairs_def by blast
  qed (use init uf_rel_initial in auto)
  have c1': "uf_inv c1" "length c1 = ?n" "uf_rel c1 \<subseteq> ?Q"
    using c1(2) init by (auto simp: extends_def)
  obtain c2 where c2: "try_fold sweep_collection (bt_values (snd (bucket_batch batch))) c1 = Some c2"
    "extends ?Q c1 c2" "\<forall>cs \<in> set (bt_values (snd (bucket_batch batch))). claim_pairs cs \<subseteq> uf_rel c2"
  proof (atomize_elim, rule try_fold_extends [where n = ?n])
    fix cs c assume *: "cs \<in> set (bt_values (snd (bucket_batch batch)))" "uf_inv c" "length c = ?n" "uf_rel c \<subseteq> ?Q"
    have eq: "equiv {..<length c} ?Q" using equiv_conflict_closure [of batch] *(3) by simp
    have "claims_in ?Q (length c) (set cs)" using * by (auto simp: mem_values_iff intro: bucket_claims_in)
    then obtain c' where "sweep_collection cs c = Some c'" "extends ?Q c c'"
      "\<forall>p \<in> set cs. \<forall>q \<in> set cs. claims_conflict p q \<longrightarrow> (cl_tx p, cl_tx q) \<in> uf_rel c'"
      using sweep_collection_correct [OF *(2) eq *(4)] by blast
    then show "\<exists>c'. sweep_collection cs c = Some c' \<and> extends ?Q c c' \<and> claim_pairs cs \<subseteq> uf_rel c'"
      unfolding claim_pairs_def by blast
  qed (use c1' in auto)
  have c2': "uf_inv c2" "length c2 = ?n" "uf_rel c2 \<subseteq> ?Q" "uf_rel c1 \<subseteq> uf_rel c2"
    using c2(2) c1' by (auto simp: extends_def)
  have "conflict_rel batch \<subseteq> uf_rel c2"
    using conflict_rel_buckets c1(3) c2(3) c2'(4) by fast
  then have "uf_rel c2 = ?Q" using uf_rel_covers_closure c2' by blast
  with c1(1) c2(1) c2' show ?thesis by blast
qed

lemma bt_values_keys: "bt_values m = map (\<lambda>k. the (bt_get m k)) (bt_keys m)"
  by (auto simp: bt_values_def bt_keys_def)

lemma collect_groups_correct:
  "uf_inv c \<Longrightarrow> \<forall>i \<in> set is. i < length c \<Longrightarrow>
   \<exists>g. collect_groups c is groups = Some g
     \<and> (\<forall>r. bt_get_or [] g r = bt_get_or [] groups r @ filter (\<lambda>i. rep c i = r) is)
     \<and> (\<forall>r. bt_contains g r \<longleftrightarrow> bt_contains groups r \<or> (\<exists>i \<in> set is. rep c i = r))"
proof (induction "is" arbitrary: c groups)
  case Nil
  then show ?case by simp
next
  case (Cons i "is")
  obtain c1 where c1: "root c i = Some (c1, rep c i)" "length c1 = length c" "uf_inv c1"
    "\<And>j. rep c1 j = rep c j"
    using root_correct [OF Cons.prems(1), of i] Cons.prems(2) by auto
  let ?g = "bt_insert (rep c i) (bt_get_or [] groups (rep c i) @ [i]) groups"
  obtain g where g: "collect_groups c1 is ?g = Some g"
    "\<forall>r. bt_get_or [] g r = bt_get_or [] ?g r @ filter (\<lambda>i. rep c i = r) is"
    "\<forall>r. bt_contains g r \<longleftrightarrow> bt_contains ?g r \<or> (\<exists>i \<in> set is. rep c i = r)"
    using Cons.IH [OF c1(3), of ?g] Cons.prems(2) c1(2,4) by auto
  have "bt_get_or [] ?g r = bt_get_or [] groups r @ (if rep c i = r then [i] else [])" for r
    by (auto simp: bt_get_or_def)
  with g c1(1) show ?case by auto
qed



lemma rep_idem: "uf_inv c \<Longrightarrow> i < length c \<Longrightarrow> rep c (rep c i) = rep c i"
  by (metis rep_is_root rep_root less_irrefl)

lemma conflict_groups_shape:
  "\<exists>c roots. uf_inv c \<and> length c = length batch \<and> uf_rel c = conflict_closure batch
     \<and> sorted_wrt (<) roots \<and> set roots = rep c ` {..<length batch}
     \<and> conflict_groups batch = Some (map (\<lambda>r. filter (\<lambda>i. rep c i = r) [0..<length batch]) roots)"
proof -
  obtain c1 c where c: "try_fold merge_into (bt_values (fst (bucket_batch batch))) [0..<length batch] = Some c1"
    "try_fold sweep_collection (bt_values (snd (bucket_batch batch))) c1 = Some c"
    "uf_inv c" "length c = length batch" "uf_rel c = conflict_closure batch"
    using components_correct [of batch] by blast
  obtain g where g: "collect_groups c [0..<length batch] bt_empty = Some g"
    "\<And>r. bt_get_or [] g r = bt_get_or [] bt_empty r @ filter (\<lambda>i. rep c i = r) [0..<length batch]"
    "\<And>r. bt_contains g r \<longleftrightarrow> bt_contains bt_empty r \<or> (\<exists>i \<in> set [0..<length batch]. rep c i = r)"
    using collect_groups_correct [OF c(3), of "[0..<length batch]" bt_empty] c(4) by auto
  have "the (bt_get g r) = filter (\<lambda>i. rep c i = r) [0..<length batch]" if "r \<in> set (bt_keys g)" for r
    using g(2) [of r] that by (auto simp: bt_contains_iff)
  then have vals: "bt_values g = map (\<lambda>r. filter (\<lambda>i. rep c i = r) [0..<length batch]) (bt_keys g)"
    by (simp add: bt_values_keys)
  have "conflict_groups batch = Some (bt_values g)"
    using c(1,2) g(1) by (simp add: conflict_groups_def split_beta Let_def)
  moreover have "sorted_wrt (<) (bt_keys g)" by (simp add: bt_keys_def sorted_entries)
  moreover have "set (bt_keys g) = rep c ` {..<length batch}"
    using g(3) by (fastforce simp: image_iff)
  ultimately show ?thesis using c(3-5) vals by metis
qed

lemma sorted_filter_upt: "sorted_wrt (<) (filter P [0..<n])"
  by (simp add: sorted_wrt_filter)

lemma hd_group:
  assumes "uf_inv c" "r \<in> rep c ` {..<length c}"
  shows "hd (filter (\<lambda>i. rep c i = r) [0..<length c]) = r" "r \<in> set (filter (\<lambda>i. rep c i = r) [0..<length c])"
proof -
  obtain i where i: "i < length c" "r = rep c i" using assms(2) by auto
  then have r: "r < length c" "rep c r = r" using rep_less_length rep_idem assms(1) by auto
  let ?g = "filter (\<lambda>i. rep c i = r) [0..<length c]"
  show mem: "r \<in> set ?g" using r by simp
  have "hd ?g \<in> set ?g" using mem by (metis empty_iff empty_set hd_in_set)
  then have "r \<le> hd ?g" using rep_le [of c "hd ?g"] by auto
  moreover have "hd ?g \<le> r"
    using mem sorted_filter_upt [of "\<lambda>i. rep c i = r" "length c"] by (cases ?g) auto
  ultimately show "hd ?g = r" by simp
qed

lemma mset_groups:
  "mset (concat (map (\<lambda>r. filter (\<lambda>i. f i = r) xs) rs)) = mset (filter (\<lambda>i. f i \<in> set rs) xs)"
  if "distinct rs"
  using that
proof (induction rs)
  case (Cons r rs)
  have "mset (filter (\<lambda>i. f i \<in> set (r # rs)) xs) = mset (filter (\<lambda>i. f i = r) xs) + mset (filter (\<lambda>i. f i \<in> set rs) xs)"
    using Cons.prems by (induction xs) auto
  with Cons show ?case by simp
qed simp

lemma conflict_groups_spec:
  "\<exists>gs. conflict_groups batch = Some gs
     \<and> mset (concat gs) = mset [0..<length batch]
     \<and> (\<forall>g \<in> set gs. g \<noteq> [] \<and> sorted_wrt (<) g)
     \<and> sorted_wrt (<) (map hd gs)
     \<and> (\<forall>i j. (\<exists>g \<in> set gs. i \<in> set g \<and> j \<in> set g) \<longleftrightarrow> (i, j) \<in> conflict_closure batch)"
proof -
  let ?n = "length batch"
  obtain c roots where c: "uf_inv c" "length c = ?n" "uf_rel c = conflict_closure batch"
    "sorted_wrt (<) roots" "set roots = rep c ` {..<?n}"
    "conflict_groups batch = Some (map (\<lambda>r. filter (\<lambda>i. rep c i = r) [0..<?n]) roots)"
    using conflict_groups_shape by blast
  let ?g = "\<lambda>r. filter (\<lambda>i. rep c i = r) [0..<?n]"
  have "distinct roots" using c(4) strict_sorted_iff by blast
  then have "mset (concat (map ?g roots)) = mset (filter (\<lambda>i. rep c i \<in> set roots) [0..<?n])"
    by (rule mset_groups)
  also have "filter (\<lambda>i. rep c i \<in> set roots) [0..<?n] = [0..<?n]"
    by (rule filter_True) (auto simp: c(5))
  finally have part: "mset (concat (map ?g roots)) = mset [0..<?n]" .
  have hds: "hd (?g r) = r" "r \<in> set (?g r)" if "r \<in> set roots" for r
    using hd_group [OF c(1), of r] that c(2,5) by auto
  have "map hd (map ?g roots) = roots"
    using hds(1) by (auto simp: map_idI)
  then have "sorted_wrt (<) (map hd (map ?g roots))" using c(4) by (simp only:)
  moreover have "\<forall>g \<in> set (map ?g roots). g \<noteq> [] \<and> sorted_wrt (<) g"
  proof
    fix g assume "g \<in> set (map ?g roots)"
    then obtain r where "r \<in> set roots" "g = ?g r" by auto
    with hds(2) sorted_filter_upt show "g \<noteq> [] \<and> sorted_wrt (<) g" by (metis empty_iff empty_set)
  qed
  moreover have "(\<exists>g \<in> set (map ?g roots). i \<in> set g \<and> j \<in> set g) \<longleftrightarrow> (i, j) \<in> uf_rel c" for i j
    by (auto simp: c(2,5) uf_rel_def)
  ultimately show ?thesis using part c(3,6) by auto
qed

text \<open>C4 The groups a batch is scheduled in are exactly the connected components of the
  pairwise conflict relation between its members' declarations: grouping always
  returns, every member is in exactly one group, groups and members are in
  ascending order, and two members share a group if and only if a chain of
  conflicting declarations connects them.\<close>

theorem conflict_groups_components:
  "\<exists>gs. conflict_groups batch = Some gs
     \<and> mset (concat gs) = mset [0..<length batch]
     \<and> (\<forall>g \<in> set gs. g \<noteq> [] \<and> sorted_wrt (<) g)
     \<and> sorted_wrt (<) (map hd gs)
     \<and> (\<forall>i j. (\<exists>g \<in> set gs. i \<in> set g \<and> j \<in> set g) \<longleftrightarrow>
          i < length batch \<and> j < length batch \<and> (i, j) \<in> (conflict_rel batch)\<^sup>*)"
  using conflict_groups_spec [of batch] by (simp add: conflict_closure_def)

definition declares :: "EffectTarget \<Rightarrow> Mode \<Rightarrow> EffectSet" where
  "declares t m = snd (insert_at_cap \<lparr>eff_target = t, eff_mode = m\<rparr> bt_empty)"

definition example_batch :: "EffectSet list" where
  "example_batch =
    [declares (RangeT 2 7 10 20 4) Read, declares (Point (SubstateKey 2 1)) (Delta In),
     declares (Entry 2 7 15) (Write Both), declares (Point (SubstateKey 2 1)) (Reserve 5)]"

lemma effects_of_declares: "effects_of (declares t m) = [\<lparr>eff_target = t, eff_mode = m\<rparr>]"
  by (simp add: declares_def insert_at_cap_def insert_bounded_def reserve_fold_def fold_declared_def
      Let_def effects_of_def bt_keys_def bt_eval split: Mode.splits)

lemma example_groups: "conflict_groups example_batch = Some [[0, 2], [1], [3]]"
  by (simp add: conflict_groups_def bucket_batch_def indexed_effects_def example_batch_def effects_of_declares
      bucket_effect_def bt_get_or_def bt_values_def bt_eval order_eval pc_push_def pc_default_def
      merge_into_def pc_anchor_def sweep_collection_def ALL_classes_def conflicts_with_def
      merge_def root.simps Let_def)

theorem conflict_groups_components_witness:
  "conflict_groups example_batch = Some [[0, 2], [1], [3]]
   \<and> (0, 2) \<in> (conflict_rel example_batch)\<^sup>* \<and> (1, 3) \<notin> (conflict_rel example_batch)\<^sup>*"
proof -
  obtain gs where "conflict_groups example_batch = Some gs"
    and rel: "\<forall>i j. (\<exists>g \<in> set gs. i \<in> set g \<and> j \<in> set g) \<longleftrightarrow>
      i < length example_batch \<and> j < length example_batch \<and> (i, j) \<in> (conflict_rel example_batch)\<^sup>*"
    using conflict_groups_components [of example_batch] by blast
  then have gs: "gs = [[0, 2], [1], [3]]" by (simp add: example_groups)
  have len: "length example_batch = 4" by (simp add: example_batch_def)
  have "(0, 2) \<in> (conflict_rel example_batch)\<^sup>*" using rel [rule_format, of 0 2] by (simp add: gs len)
  moreover have "(1, 3) \<notin> (conflict_rel example_batch)\<^sup>*" using rel [rule_format, of 1 3] by (simp add: gs len)
  ultimately show ?thesis by (simp add: example_groups)
qed

end
