(* ===== verification/Outcome.thy ===== *)
theory Outcome
  imports Address Lattice
begin

text \<open>
  \<open>crates/types/src/execution.rs\<close>: the record execution leaves behind. The abort
  vocabulary, the outcome taxonomy a receipt carries and the caps on what one
  transaction may emit. A constructor of \<open>AbortReason\<close> has the prefix \<open>A_\<close>, since
  the error types that map into it reuse its names.
\<close>

datatype AbortReason =
    A_Unreachable
  | A_IntegerDivideByZero
  | A_IntegerOverflow
  | A_MemoryOutOfBounds
  | A_TableOutOfBounds
  | A_IndirectCallToNull
  | A_IndirectCallSignature
  | A_StackExhausted
  | A_OutOfGas
  | A_TrapOutsideProfile
  | A_AbiViolation
  | A_HandleUnknown
  | A_HandleWrongMode
  | A_UndeclaredBranch
  | A_MalformedAmountCell
  | A_EntryIndexOutOfBounds
  | A_OrderOutsideInterval
  | A_IntervalWriteCapExceeded
  | A_ReservationMissing
  | A_ReservationAlreadyTaken
  | A_IssuanceUngranted
  | A_BucketUnderflow
  | A_BucketOverflow
  | A_WrongEdgeKind
  | A_InstanceHeldTwice
  | A_InstanceNotHeld
  | A_ValueDropped
  | A_EmissionOutsideInvocation
  | A_EventTypeOutOfRange
  | A_ErrorCodeOutOfRange
  | A_EventCountExceeded
  | A_EventPayloadTooLarge
  | A_DuplicateReservationRequest
  | A_LedgerInvariant
  | A_DeltaTotalOverflow
  | A_CellOverflow
  | A_CellUnderflow
  | A_SupplyOutOfBounds
  | A_MathDivideByZero
  | A_MathOverflow
  | A_ShareAboveOne
  | A_WrongResource
  | A_BytesAsValue
  | A_UndenominatedMovement
  | A_MixedContents
  | A_EffectUnsupported
  | A_SelfConflictingModes
  | A_ReservationMismatch
  | A_CapabilityOutOfRange
  | A_MissingProducerEdge
  | A_MalformedEdgeCell
  | A_AuthorityCellUnreadable
  | A_BadReturnShape
  | A_ExportMissing
  | A_InstantiationFailed
  | A_CodeUnavailable
  | A_WrongIssuanceKind
  | A_WrongMintedIds
  | A_AnswerTooLarge
  | A_MalformedSeal
  | A_SealStanding
  | A_ValueNotConserved
  | A_CellValueTooLarge
  | A_EscrowOverflow
  | A_ConditionStraddlesScope
  | A_OutsideScope
  | A_CrossingKeyRepeated
  | A_HandleOutsideFrame
  | A_MissingCeiling
  | A_EventBytesExceeded
  | A_CrossingWithoutRecourse
  | A_OwedArrival
  | A_DepositUnbound

definition abort_bytes :: "(u8 \<times> AbortReason) list" where
  "abort_bytes =
    [(0, A_Unreachable),
     (1, A_IntegerDivideByZero),
     (2, A_IntegerOverflow),
     (3, A_MemoryOutOfBounds),
     (4, A_TableOutOfBounds),
     (5, A_IndirectCallToNull),
     (6, A_IndirectCallSignature),
     (7, A_StackExhausted),
     (8, A_OutOfGas),
     (9, A_TrapOutsideProfile),
     (10, A_AbiViolation),
     (11, A_HandleUnknown),
     (12, A_HandleWrongMode),
     (13, A_UndeclaredBranch),
     (14, A_MalformedAmountCell),
     (15, A_EntryIndexOutOfBounds),
     (16, A_OrderOutsideInterval),
     (17, A_IntervalWriteCapExceeded),
     (18, A_ReservationMissing),
     (19, A_ReservationAlreadyTaken),
     (20, A_IssuanceUngranted),
     (21, A_BucketUnderflow),
     (22, A_BucketOverflow),
     (23, A_WrongEdgeKind),
     (24, A_InstanceHeldTwice),
     (25, A_InstanceNotHeld),
     (26, A_ValueDropped),
     (27, A_EmissionOutsideInvocation),
     (28, A_EventTypeOutOfRange),
     (29, A_ErrorCodeOutOfRange),
     (30, A_EventCountExceeded),
     (31, A_EventPayloadTooLarge),
     (33, A_DuplicateReservationRequest),
     (34, A_LedgerInvariant),
     (35, A_DeltaTotalOverflow),
     (36, A_CellOverflow),
     (37, A_CellUnderflow),
     (38, A_SupplyOutOfBounds),
     (39, A_MathDivideByZero),
     (40, A_MathOverflow),
     (41, A_ShareAboveOne),
     (42, A_WrongResource),
     (43, A_BytesAsValue),
     (44, A_UndenominatedMovement),
     (45, A_MixedContents),
     (46, A_EffectUnsupported),
     (49, A_SelfConflictingModes),
     (50, A_ReservationMismatch),
     (51, A_CapabilityOutOfRange),
     (52, A_MissingProducerEdge),
     (53, A_MalformedEdgeCell),
     (54, A_AuthorityCellUnreadable),
     (55, A_BadReturnShape),
     (56, A_ExportMissing),
     (57, A_InstantiationFailed),
     (58, A_CodeUnavailable),
     (59, A_WrongIssuanceKind),
     (60, A_WrongMintedIds),
     (61, A_AnswerTooLarge),
     (62, A_MalformedSeal),
     (63, A_SealStanding),
     (64, A_ValueNotConserved),
     (65, A_CellValueTooLarge),
     (66, A_EscrowOverflow),
     (67, A_ConditionStraddlesScope),
     (70, A_OutsideScope),
     (71, A_CrossingKeyRepeated),
     (72, A_HandleOutsideFrame),
     (73, A_MissingCeiling),
     (74, A_EventBytesExceeded),
     (75, A_CrossingWithoutRecourse),
     (76, A_OwedArrival),
     (77, A_DepositUnbound)]"

definition abort_discriminant :: "AbortReason \<Rightarrow> u8" where
  "abort_discriminant reason = the (map_of (map prod.swap abort_bytes) reason)"

definition abort_of_discriminant :: "u8 \<Rightarrow> AbortReason option" where
  "abort_of_discriminant b = map_of abort_bytes b"

text \<open>The caps one transaction's emissions and shape are held to.\<close>

definition ABSENT_REP :: u32 where "ABSENT_REP = - 1"
definition MAX_EVENTS_PER_TX :: nat where "MAX_EVENTS_PER_TX = 256"
definition MAX_EVENT_PAYLOAD_BYTES :: nat where "MAX_EVENT_PAYLOAD_BYTES = 4096"
definition EVENT_FRAME_BYTES :: nat where "EVENT_FRAME_BYTES = 38"
definition MAX_EVENT_BYTES_PER_TX :: nat where "MAX_EVENT_BYTES_PER_TX = 64 * 1024"
definition MAX_MANIFEST_NODES :: nat where "MAX_MANIFEST_NODES = 4096"
definition MAX_CROSSINGS_PER_TX :: nat where "MAX_CROSSINGS_PER_TX = 128"
definition MAX_ANSWER_BYTES :: nat where "MAX_ANSWER_BYTES = MAX_EVENT_PAYLOAD_BYTES"
definition MAX_EVENT_TYPES :: u32 where "MAX_EVENT_TYPES = 1024"
definition MAX_ERROR_CODES :: u32 where "MAX_ERROR_CODES = 1024"

record Event =
  ev_emitter :: Address
  ev_type :: u32
  ev_payload :: bytes

record Answer =
  ans_node :: u32
  ans_value :: bytes

datatype UnmetCondition =
    Holds EffectTarget Presence "u32 option"
  | Satisfies u32
  | SignedIn Address
  | Unanswerable "u32 option"

datatype Outcome =
    Completed "Answer list"
  | UserError AbortReason
  | Infeasible SubstateKey u128
  | ConstraintUnmet u32 u32 u128
  | Declined u32 u32
  | NullifierSpent SubstateKey
  | ProtocolError AbortReason
  | ConditionUnmet UnmetCondition
  | BaselineDiscarded TxHash
  | EscrowAlreadyClaimed SubstateKey
  | EscrowAlreadyIssued SubstateKey

lemma distinct_abort_bytes: "distinct (map fst abort_bytes)"
  by (simp add: abort_bytes_def)

lemma abort_bytes_total: "\<exists>b. (b, reason) \<in> set abort_bytes"
  by (cases reason) (simp_all add: abort_bytes_def)

lemma map_of_swap_inverse:
  assumes "distinct (map fst xs)" "(b, a) \<in> set xs"
  shows "map_of xs (the (map_of (map prod.swap xs) a)) = Some a"
proof -
  have "a \<in> fst ` set (map prod.swap xs)" using assms(2) by force
  then obtain b' where "map_of (map prod.swap xs) a = Some b'"
    by (metis map_of_eq_None_iff not_None_eq set_map)
  moreover from this have "(b', a) \<in> set xs" by (auto dest!: map_of_SomeD)
  ultimately show ?thesis using assms(1) by simp
qed

text \<open>Every abort class keeps a wire byte of its own.\<close>

lemma abort_discriminant_roundtrip: "abort_of_discriminant (abort_discriminant reason) = Some reason"
  unfolding abort_of_discriminant_def abort_discriminant_def
  using abort_bytes_total map_of_swap_inverse [OF distinct_abort_bytes] by blast

end
