(* ===== verification/Bytes.thy ===== *)
theory Bytes
  imports Prelude
begin

unbundle bit_operations_syntax

text \<open>
  Little-endian words, and the amount cell of \<open>crates/types/src/amount.rs\<close>: a \<open>u128\<close> in
  sixteen bytes, absent at zero.
\<close>

definition le_bytes :: "'w::len word \<Rightarrow> bytes" where
  "le_bytes w = map (\<lambda>i. ucast (drop_bit (8 * i) w)) [0..<LENGTH('w) div 8]"

fun le_word :: "bytes \<Rightarrow> 'w::len word" where
  "le_word [] = 0"
| "le_word (b # bs) = (ucast b OR push_bit 8 (le_word bs))"

definition AMOUNT_CELL_BYTES :: nat where
  "AMOUNT_CELL_BYTES = 16"

definition encode_amount :: "u128 \<Rightarrow> bytes" where
  "encode_amount amount = le_bytes amount"

definition amount_cell :: "u128 \<Rightarrow> bytes option" where
  "amount_cell amount = (if amount \<noteq> 0 then Some (encode_amount amount) else None)"

definition read_amount :: "bytes \<Rightarrow> u128 option" where
  "read_amount bs = (if length bs = AMOUNT_CELL_BYTES then Some (le_word bs) else None)"


subsection \<open>Disjoint bits add\<close>

lemma low_and_high_nat: "take_bit k (x :: nat) AND push_bit k y = 0"
  by (rule bit_eqI) (auto simp: bit_simps)

lemma or_push_bit: "v < 2 ^ s \<Longrightarrow> v OR push_bit s w = v + w * 2 ^ s" for v w :: nat
proof -
  assume "v < 2 ^ s"
  then have "v AND push_bit s w = 0"
    using low_and_high_nat [of s v w] by (simp add: take_bit_nat_eq_self)
  then show ?thesis by (simp add: disjunctive_add_eq_or [symmetric] push_bit_eq_mult)
qed

subsection \<open>Round trips\<close>

lemma length_le_bytes [simp]: "length (le_bytes (w :: 'w::len word)) = LENGTH('w) div 8"
  by (simp add: le_bytes_def)

lemma nth_le_bytes:
  "i < LENGTH('w) div 8 \<Longrightarrow> le_bytes (w :: 'w::len word) ! i = ucast (drop_bit (8 * i) w)"
  by (simp add: le_bytes_def)

lemma bit_le_word:
  "bit (le_word bs :: 'w::len word) i \<longleftrightarrow>
     i < LENGTH('w) \<and> i div 8 < length bs \<and> bit (bs ! (i div 8)) (i mod 8)"
proof (induction bs arbitrary: i)
  case Nil
  then show ?case by simp
next
  case (Cons b bs)
  show ?case
  proof (cases "i < 8")
    case True
    then show ?thesis by (auto simp: bit_simps bit_ucast_iff)
  next
    case False
    then have "i = 8 + (i - 8)" "\<not> bit b i" by (auto dest: bit_imp_le_length)
    moreover have "i div 8 = Suc ((i - 8) div 8)" "i mod 8 = (i - 8) mod 8"
      using False by (auto simp: le_div_geq le_mod_geq)
    ultimately show ?thesis
      using Cons.IH [of "i - 8"] False by (auto simp: bit_simps bit_ucast_iff)
  qed
qed

lemma le_word_le_bytes:
  assumes "8 dvd LENGTH('w)"
  shows "le_word (le_bytes w) = (w :: 'w::len word)"
proof (rule bit_word_eqI)
  fix i assume i: "i < LENGTH('w)"
  then have "i div 8 < LENGTH('w) div 8" using assms
    by (metis div_less_iff_less_mult dvd_div_mult_self zero_less_numeral)
  moreover have "8 * (i div 8) + i mod 8 = i" by simp
  ultimately show "bit (le_word (le_bytes w) :: 'w word) i = bit w i"
    using i by (simp add: bit_le_word nth_le_bytes bit_ucast_iff bit_simps)
qed

lemma le_bytes_le_word:
  assumes "length bs = LENGTH('w) div 8"
  shows "le_bytes (le_word bs :: 'w::len word) = bs"
proof (rule nth_equalityI)
  show "length (le_bytes (le_word bs :: 'w word)) = length bs" using assms by simp
  fix i assume "i < length (le_bytes (le_word bs :: 'w word))"
  then have i: "i < LENGTH('w) div 8" by simp
  have "le_bytes (le_word bs :: 'w word) ! i = bs ! i"
  proof (rule bit_word_eqI)
    fix n assume n: "n < LENGTH(8)"
    then have "8 * i + n < LENGTH('w)" using i by simp
    moreover have "(8 * i + n) div 8 = i" "(8 * i + n) mod 8 = n" using n by simp_all
    ultimately show "bit (le_bytes (le_word bs :: 'w word) ! i) n = bit (bs ! i) n"
      using i n assms by (simp add: nth_le_bytes bit_ucast_iff bit_simps bit_le_word)
  qed
  then show "le_bytes (le_word bs :: 'w word) ! i = bs ! i" .
qed

lemma read_encode_amount [simp]: "read_amount (encode_amount a) = Some a"
  by (simp add: read_amount_def encode_amount_def AMOUNT_CELL_BYTES_def le_word_le_bytes)

lemma read_amount_Some: "read_amount bs = Some a \<Longrightarrow> bs = encode_amount a"
  using le_bytes_le_word [where 'w = 128, of bs]
  by (auto simp: read_amount_def encode_amount_def AMOUNT_CELL_BYTES_def split: if_splits)

lemma read_amount_inj: "read_amount bs = Some a \<longleftrightarrow> bs = encode_amount a"
  using read_amount_Some by auto

lemma length_encode_amount [simp]: "length (encode_amount a) = 16"
  by (simp add: encode_amount_def)

end
