(* ===== verification/Writes.thy ===== *)
theory Writes
  imports Address BTree Bytes
begin

text \<open>
  \<open>crates/types/src/writes.rs\<close>: what one transaction says about state. Byte cells and
  collection entries are written absolutely; amount cells are moved, and the
  movement becomes a value only where it settles. A resource address is an address.
\<close>

type_synonym ResourceAddr = Address

datatype EntryKey = EntryKey (ek_owner: Address) (ek_collection: CollectionId) (ek_order: u128)

fun ek_key :: "EntryKey \<Rightarrow> Address \<times> CollectionId \<times> u128" where
  "ek_key (EntryKey a c x) = (a, c, x)"

lemma ek_key_inj [simp]: "ek_key a = ek_key b \<longleftrightarrow> a = b"
  by (cases a; cases b) simp

instantiation EntryKey :: linorder
begin

definition less_eq_EntryKey :: "EntryKey \<Rightarrow> EntryKey \<Rightarrow> bool" where
  "less_eq_EntryKey a b = (ek_key a \<le> ek_key b)"

definition less_EntryKey :: "EntryKey \<Rightarrow> EntryKey \<Rightarrow> bool" where
  "less_EntryKey a b = (ek_key a < ek_key b)"

instance
  by standard (auto simp: less_eq_EntryKey_def less_EntryKey_def simp flip: ek_key_inj)

end

record Movement =
  mv_resource :: ResourceAddr
  mv_credit :: u128
  mv_debit :: u128
  mv_unjudged_debit :: u128

record StateWrites =
  sw_cells :: "(SubstateKey, bytes option) btmap"
  sw_movements :: "(SubstateKey, Movement) btmap"
  sw_entries :: "(EntryKey, bytes option) btmap"

record SettledWrites =
  set_cells :: "(SubstateKey, bytes option) btmap"
  set_entries :: "(EntryKey, bytes option) btmap"

datatype Compose = Denomination | Overflow

record OverDebit =
  od_key :: SubstateKey
  od_held :: u128
  od_debit :: u128

definition mv_none :: "ResourceAddr \<Rightarrow> Movement" where
  "mv_none resource = \<lparr>mv_resource = resource, mv_credit = 0, mv_debit = 0, mv_unjudged_debit = 0\<rparr>"

definition mv_debit_of :: "ResourceAddr \<Rightarrow> u128 \<Rightarrow> Movement" where
  "mv_debit_of resource amount =
    \<lparr>mv_resource = resource, mv_credit = 0, mv_debit = amount, mv_unjudged_debit = 0\<rparr>"

definition mv_unjudged :: "ResourceAddr \<Rightarrow> u128 \<Rightarrow> Movement" where
  "mv_unjudged resource amount =
    \<lparr>mv_resource = resource, mv_credit = 0, mv_debit = 0, mv_unjudged_debit = amount\<rparr>"

definition mv_then :: "Movement \<Rightarrow> Movement \<Rightarrow> (Compose, Movement) result" where
  "mv_then m n =
    (if mv_resource m \<noteq> mv_resource n then Err Denomination
     else and_then (ok_or Overflow (checked_add (mv_credit m) (mv_credit n))) (\<lambda>credit.
          and_then (ok_or Overflow (checked_add (mv_debit m) (mv_debit n))) (\<lambda>debit.
          and_then (ok_or Overflow (checked_add (mv_unjudged_debit m) (mv_unjudged_debit n))) (\<lambda>unjudged.
          Ok \<lparr>mv_resource = mv_resource m, mv_credit = credit, mv_debit = debit, mv_unjudged_debit = unjudged\<rparr>))))"

definition mv_land :: "Movement \<Rightarrow> u128 \<Rightarrow> (u128 \<times> u128) option" where
  "mv_land m before =
    (if mv_credit m \<ge> mv_debit m
     then (let net = mv_credit m - mv_debit m; room = - 1 - before in
           if net > room then Some (- 1, net - room) else Some (before + net, 0))
     else (case checked_sub before (mv_debit m - mv_credit m) of
             Some after \<Rightarrow> Some (after, 0)
           | None \<Rightarrow> None))"

definition mv_apply :: "Movement \<Rightarrow> u128 \<Rightarrow> u128 option" where
  "mv_apply m before =
    (case mv_land m before of
       Some (after, _) \<Rightarrow> Some (saturating_sub after (mv_unjudged_debit m))
     | None \<Rightarrow> None)"

definition mv_burned :: "Movement \<Rightarrow> u128 \<Rightarrow> u128" where
  "mv_burned m before = (case mv_land m before of Some (_, burned) \<Rightarrow> burned | None \<Rightarrow> 0)"

definition resolve_before ::
  "(SubstateKey \<Rightarrow> bytes option) \<Rightarrow> (SubstateKey, bytes option) btmap \<Rightarrow> SubstateKey \<Rightarrow> u128" where
  "resolve_before prior cells key =
    (case Option.bind (case bt_get cells key of Some change \<Rightarrow> change | None \<Rightarrow> prior key) read_amount of
       Some amount \<Rightarrow> amount
     | None \<Rightarrow> 0)"

fun resolve_movements ::
  "(SubstateKey \<Rightarrow> bytes option) \<Rightarrow> (SubstateKey \<times> Movement) list \<Rightarrow> (SubstateKey, bytes option) btmap
    \<Rightarrow> (OverDebit, (SubstateKey, bytes option) btmap) result" where
  "resolve_movements prior [] cells = Ok cells"
| "resolve_movements prior ((key, movement) # rest) cells =
    (let before = resolve_before prior cells key in
     case mv_apply movement before of
       None \<Rightarrow> Err \<lparr>od_key = key, od_held = before,
                   od_debit = saturating_sub (mv_debit movement) (mv_credit movement)\<rparr>
     | Some after \<Rightarrow> resolve_movements prior rest (bt_insert key (amount_cell after) cells))"

definition resolve :: "StateWrites \<Rightarrow> (SubstateKey \<Rightarrow> bytes option) \<Rightarrow> (OverDebit, SettledWrites) result" where
  "resolve w prior =
    map_res (\<lambda>cells. \<lparr>set_cells = cells, set_entries = sw_entries w\<rparr>)
      (resolve_movements prior (entries (sw_movements w)) (sw_cells w))"

definition sw_is_empty :: "StateWrites \<Rightarrow> bool" where
  "sw_is_empty w = (bt_is_empty (sw_cells w) \<and> bt_is_empty (sw_movements w) \<and> bt_is_empty (sw_entries w))"

definition from_absolutes :: "(SubstateKey, bytes option) btmap \<Rightarrow> SettledWrites" where
  "from_absolutes cells = \<lparr>set_cells = cells, set_entries = bt_empty\<rparr>"

definition from_parts ::
  "(SubstateKey, bytes option) btmap \<Rightarrow> (EntryKey, bytes option) btmap \<Rightarrow> SettledWrites" where
  "from_parts cells es = \<lparr>set_cells = cells, set_entries = es\<rparr>"

definition settled_is_empty :: "SettledWrites \<Rightarrow> bool" where
  "settled_is_empty w = (bt_is_empty (set_cells w) \<and> bt_is_empty (set_entries w))"

definition writes_of_settled :: "SettledWrites \<Rightarrow> StateWrites" where
  "writes_of_settled s = \<lparr>sw_cells = set_cells s, sw_movements = bt_empty, sw_entries = set_entries s\<rparr>"

definition MAX_CELL_VALUE_LEN :: nat where
  "MAX_CELL_VALUE_LEN = 256 * 1024"

definition cell_values_fit :: "StateWrites \<Rightarrow> bool" where
  "cell_values_fit w =
    list_all (\<lambda>v. case v of None \<Rightarrow> True | Some value \<Rightarrow> length value \<le> MAX_CELL_VALUE_LEN)
      (bt_values (sw_cells w) @ bt_values (sw_entries w))"


subsection \<open>Landing a movement\<close>

lemma max_minus: "unat (- 1 - (b :: u128)) = 2 ^ 128 - 1 - unat b"
proof -
  have "b \<le> - 1" by simp
  then show ?thesis by (simp add: unat_sub_le unat_max)
qed

text \<open>What landing does to the balance, over the naturals: what the cell ends at and
  what is burned account for all of the credit and all of the debit.\<close>

lemma mv_land_Some:
  "mv_land m before = Some (after, burned) \<Longrightarrow>
   unat after + unat burned + unat (mv_debit m) = unat before + unat (mv_credit m)
   \<and> (burned \<noteq> 0 \<longrightarrow> after = - 1)"
proof (cases "mv_debit m \<le> mv_credit m")
  case True
  assume land: "mv_land m before = Some (after, burned)"
  define net where "net = mv_credit m - mv_debit m"
  have net: "unat net = unat (mv_credit m) - unat (mv_debit m)"
    using True by (simp add: net_def unat_sub_le)
  have le: "unat (mv_debit m) \<le> unat (mv_credit m)" using True by (simp add: word_le_nat_alt)
  show ?thesis
  proof (cases "net > - 1 - before")
    case over: True
    then have "after = - 1" "burned = net - (- 1 - before)"
      using land True by (auto simp: mv_land_def Let_def net_def)
    moreover have "unat (net - (- 1 - before)) = unat net - (2 ^ 128 - 1 - unat before)"
      using over by (simp add: unat_sub_le less_imp_le max_minus)
    moreover have "2 ^ 128 - 1 - unat before < unat net"
      using over by (simp add: word_less_nat_alt max_minus)
    moreover have "unat before < 2 ^ 128" using unat_bound [of before] by simp
    ultimately show ?thesis using net le by (simp add: unat_max)
  next
    case fits: False
    then have "after = before + net" "burned = 0"
      using land True by (simp_all add: mv_land_def Let_def net_def)
    moreover have "unat net \<le> 2 ^ 128 - 1 - unat before"
      using fits by (simp add: word_less_nat_alt max_minus not_less)
    then have "unat (before + net) = unat before + unat net"
      using unat_bound [of before] by (intro unat_add_lt) simp
    ultimately show ?thesis using net le by simp
  qed
next
  case False
  assume land: "mv_land m before = Some (after, burned)"
  then have "checked_sub before (mv_debit m - mv_credit m) = Some after" "burned = 0"
    using False by (auto simp: mv_land_def split: option.splits)
  moreover have "unat (mv_debit m - mv_credit m) = unat (mv_debit m) - unat (mv_credit m)"
    using False by (simp add: unat_sub_le)
  moreover have "unat (mv_credit m) \<le> unat (mv_debit m)" using False by (simp add: word_le_nat_alt)
  ultimately show ?thesis by (simp add: checked_sub_eq_Some)
qed

lemma mv_land_None:
  "mv_land m before = None \<longleftrightarrow> unat before + unat (mv_credit m) < unat (mv_debit m)"
proof (cases "mv_debit m \<le> mv_credit m")
  case True
  then show ?thesis by (auto simp: mv_land_def Let_def word_le_nat_alt)
next
  case False
  then have "unat (mv_debit m - mv_credit m) = unat (mv_debit m) - unat (mv_credit m)"
    by (simp add: unat_sub_le)
  moreover have "unat (mv_credit m) < unat (mv_debit m)" using False by (simp add: word_le_nat_alt)
  moreover have "mv_land m before = None \<longleftrightarrow> checked_sub before (mv_debit m - mv_credit m) = None"
    using False by (auto simp: mv_land_def split: option.splits)
  ultimately show ?thesis by (auto simp: checked_sub_eq_None)
qed

lemma mv_land_exact:
  assumes "mv_land m before = Some (after, burned)"
    and "unat before + unat (mv_credit m) - unat (mv_debit m) < 2 ^ 128"
  shows "burned = 0 \<and> unat after = unat before + unat (mv_credit m) - unat (mv_debit m)"
proof -
  note * = mv_land_Some [OF assms(1)]
  have "burned = 0"
  proof (rule ccontr)
    assume "burned \<noteq> 0"
    then have "unat burned > 0" "unat after = 2 ^ 128 - 1"
      using * by (auto simp: unat_max word_unat_eq_iff)
    moreover have "unat after + unat burned + unat (mv_debit m) = unat before + unat (mv_credit m)"
      using * by blast
    ultimately show False using assms(2) by linarith
  qed
  with * show ?thesis by simp
qed


lemma mv_apply_Some:
  assumes "mv_apply m before = Some after" "mv_burned m before = 0"
  shows "unat after = unat before + unat (mv_credit m) - unat (mv_debit m) - unat (mv_unjudged_debit m)
    \<and> unat (mv_debit m) \<le> unat before + unat (mv_credit m)"
proof -
  obtain landed burned where land: "mv_land m before = Some (landed, burned)"
    using assms(1) by (auto simp: mv_apply_def split: option.splits)
  then have "burned = 0" "after = saturating_sub landed (mv_unjudged_debit m)"
    using assms by (simp_all add: mv_apply_def mv_burned_def)
  with mv_land_Some [OF land] show ?thesis by (auto simp: arith_unat)
qed

lemma mv_then_Ok:
  "mv_then m n = Ok mn \<longleftrightarrow>
     mv_resource m = mv_resource n \<and> mv_resource mn = mv_resource m
     \<and> checked_add (mv_credit m) (mv_credit n) = Some (mv_credit mn)
     \<and> checked_add (mv_debit m) (mv_debit n) = Some (mv_debit mn)
     \<and> checked_add (mv_unjudged_debit m) (mv_unjudged_debit n) = Some (mv_unjudged_debit mn)"
  by (cases mn) (auto simp: mv_then_def)

text \<open>Composing two movements and landing the sum once is landing them one after the other,
  whenever neither landing burns a credit: the composed movement is not refused, burns nothing and
  leaves the cell where the sequence leaves it, in either order of composition.\<close>

theorem then_is_sequence:
  assumes "mv_then m n = Ok mn"
    and "mv_apply m before = Some mid" "mv_burned m before = 0"
    and "mv_apply n mid = Some after" "mv_burned n mid = 0"
    and "unat (mv_unjudged_debit m) = 0" "unat (mv_unjudged_debit n) = 0"
  shows "mv_apply mn before = Some after \<and> mv_burned mn before = 0 \<and> mv_then n m = Ok mn"
proof -
  note sums = assms(1) [unfolded mv_then_Ok checked_add_eq_Some]
  note first = mv_apply_Some [OF assms(2,3)] and second = mv_apply_Some [OF assms(4,5)]
  have net: "unat after + unat (mv_debit mn) = unat before + unat (mv_credit mn)"
    using sums first second assms(6,7) by linarith
  then have "mv_land mn before \<noteq> None" by (simp add: mv_land_None)
  then obtain landed burned where land: "mv_land mn before = Some (landed, burned)" by auto
  have "unat before + unat (mv_credit mn) - unat (mv_debit mn) < 2 ^ 128"
    using net unat_bound [of after] by simp
  from mv_land_exact [OF land this] net have "burned = 0" "landed = after"
    by (auto simp: word_unat_eq_iff)
  moreover have "unat (mv_unjudged_debit mn) = 0" using sums assms(6,7) by simp
  ultimately have "mv_apply mn before = Some after" "mv_burned mn before = 0"
    using land by (auto simp: mv_apply_def mv_burned_def saturating_sub_def unat_eq_zero)
  moreover have "mv_then n m = Ok mn"
    using assms(1) by (simp add: mv_then_Ok checked_add_eq_Some add.commute)
  ultimately show ?thesis by simp
qed

subsection \<open>Settling a receipt\<close>

lemma resolve_before_insert_other:
  "k \<noteq> key \<Longrightarrow> resolve_before prior (bt_insert key v cells) k = resolve_before prior cells k"
  by (simp add: resolve_before_def)

lemma resolve_movements_Ok:
  "resolve_movements prior ms cells = Ok cells' \<Longrightarrow> distinct (map fst ms) \<Longrightarrow>
   bt_get cells' k =
     (case map_of ms k of
        None \<Rightarrow> bt_get cells k
      | Some m \<Rightarrow> map_option amount_cell (mv_apply m (resolve_before prior cells k)))"
proof (induction prior ms cells rule: resolve_movements.induct)
  case (2 prior key m rest cells)
  then obtain after where after: "mv_apply m (resolve_before prior cells key) = Some after"
    by (auto simp: Let_def split: option.splits)
  have "map_of rest key = None" using 2(3) by (auto simp: map_of_eq_None_iff)
  with 2 after show ?case
    by (auto simp: Let_def resolve_before_insert_other split: option.splits)
qed simp

lemma resolve_movements_Err:
  "resolve_movements prior ms cells = Err e \<Longrightarrow> distinct (map fst ms) \<Longrightarrow>
   \<exists>m. (od_key e, m) \<in> set ms \<and> mv_apply m (resolve_before prior cells (od_key e)) = None
     \<and> od_held e = resolve_before prior cells (od_key e)
     \<and> od_debit e = saturating_sub (mv_debit m) (mv_credit m)"
proof (induction prior ms cells rule: resolve_movements.induct)
  case (2 prior key m rest cells)
  show ?case
  proof (cases "mv_apply m (resolve_before prior cells key)")
    case None
    with 2(2) show ?thesis by (auto simp: Let_def)
  next
    case (Some after)
    with 2(2,3) obtain m' where
      "(od_key e, m') \<in> set rest"
      "mv_apply m' (resolve_before prior (bt_insert key (amount_cell after) cells) (od_key e)) = None"
      "od_held e = resolve_before prior (bt_insert key (amount_cell after) cells) (od_key e)"
      "od_debit e = saturating_sub (mv_debit m') (mv_credit m')"
      using 2(1) [OF refl Some] by (auto simp: Let_def)
    moreover from this 2(3) have "od_key e \<noteq> key" by force
    ultimately show ?thesis by (auto simp: resolve_before_insert_other)
  qed
qed simp

lemma mv_apply_None: "mv_apply m before = None \<longleftrightarrow> mv_land m before = None"
  by (auto simp: mv_apply_def split: option.splits)


theorem then_is_sequence_witness:
  "mv_then \<lparr>mv_resource = 7, mv_credit = 5, mv_debit = 2, mv_unjudged_debit = 0\<rparr>
           \<lparr>mv_resource = 7, mv_credit = 0, mv_debit = 10, mv_unjudged_debit = 0\<rparr>
     = Ok \<lparr>mv_resource = 7, mv_credit = 5, mv_debit = 12, mv_unjudged_debit = 0\<rparr> \<and>
   mv_apply \<lparr>mv_resource = 7, mv_credit = 5, mv_debit = 12, mv_unjudged_debit = 0\<rparr> 9 = Some 2"
proof -
  let ?m = "\<lparr>mv_resource = 7, mv_credit = 5, mv_debit = 2, mv_unjudged_debit = 0\<rparr>"
  let ?n = "\<lparr>mv_resource = 7, mv_credit = 0, mv_debit = 10, mv_unjudged_debit = 0\<rparr>"
  let ?mn = "\<lparr>mv_resource = 7, mv_credit = 5, mv_debit = 12, mv_unjudged_debit = 0\<rparr>"
  have 1: "mv_then ?m ?n = Ok ?mn"
    by (simp add: mv_then_def checked_add_def)
  have 2: "mv_apply ?m 9 = Some 12" "mv_burned ?m 9 = 0" "mv_apply ?n 12 = Some 2" "mv_burned ?n 12 = 0"
    by (simp_all add: mv_apply_def mv_burned_def mv_land_def saturating_sub_def checked_sub_def)
  show ?thesis using then_is_sequence [OF 1 2] 1 by simp
qed

end
