(* ===== verification/DeltaModes.thy ===== *)
theory DeltaModes
  imports Outcome Writes "HOL-Library.Multiset"
begin

text \<open>
  \<open>crates/kernel/src/modes.rs\<close>: the execution semantics of the commutative modes. The
  delta fold sums credits and debits and applies them once; the reservation judge
  walks the requests in canonical transaction order. The lemmas show both depend
  on the multiset of their inputs alone, give the fold's value on every branch,
  and bound what the judge grants by what is available.
\<close>

datatype ModeError =
    BadAmountCell nat
  | DeltaOverflow
  | CellOverflow
  | CellUnderflow
  | SupplyOutOfBounds
  | EscrowOverflow

fun mode_abort :: "ModeError \<Rightarrow> AbortReason" where
  "mode_abort (BadAmountCell _) = A_MalformedAmountCell"
| "mode_abort DeltaOverflow = A_DeltaTotalOverflow"
| "mode_abort CellOverflow = A_CellOverflow"
| "mode_abort CellUnderflow = A_CellUnderflow"
| "mode_abort SupplyOutOfBounds = A_SupplyOutOfBounds"
| "mode_abort EscrowOverflow = A_EscrowOverflow"

definition decode_amount :: "bytes \<Rightarrow> (ModeError, u128) result" where
  "decode_amount bs = ok_or (BadAmountCell (length bs)) (read_amount bs)"

datatype DeltaOp = Add u128 | Sub u128

fun delta_totals_from :: "u128 \<Rightarrow> u128 \<Rightarrow> DeltaOp list \<Rightarrow> (ModeError, u128 \<times> u128) result" where
  "delta_totals_from credit debit [] = Ok (credit, debit)"
| "delta_totals_from credit debit (Add amount # ops) =
    and_then (ok_or DeltaOverflow (checked_add credit amount)) (\<lambda>credit. delta_totals_from credit debit ops)"
| "delta_totals_from credit debit (Sub amount # ops) =
    and_then (ok_or DeltaOverflow (checked_add debit amount)) (\<lambda>debit. delta_totals_from credit debit ops)"

definition delta_totals :: "DeltaOp list \<Rightarrow> (ModeError, u128 \<times> u128) result" where
  "delta_totals ops = delta_totals_from 0 0 ops"

definition fold_deltas :: "u128 \<Rightarrow> DeltaOp list \<Rightarrow> (ModeError, u128) result" where
  "fold_deltas committed ops =
    and_then (delta_totals ops) (\<lambda>(credit, debit).
    and_then (ok_or CellOverflow (checked_add committed credit)) (\<lambda>credited.
    ok_or CellUnderflow (checked_sub credited debit)))"

definition total_movement :: "DeltaOp list \<Rightarrow> ResourceAddr \<Rightarrow> (ModeError, Movement) result" where
  "total_movement ops resource =
    map_res (\<lambda>(credit, debit).
        \<lparr>mv_resource = resource, mv_credit = credit, mv_debit = debit, mv_unjudged_debit = 0\<rparr>)
      (delta_totals ops)"

datatype Feasibility = Feasible | NotFeasible

definition is_feasible :: "Feasibility \<Rightarrow> bool" where
  "is_feasible f = (f = Feasible)"

fun judge_ordered :: "u128 \<Rightarrow> (TxHash \<times> u128) list \<Rightarrow> (TxHash \<times> Feasibility) list" where
  "judge_ordered remaining [] = []"
| "judge_ordered remaining ((tx, amount) # rest) =
    (if remaining \<ge> amount
     then (tx, Feasible) # judge_ordered (remaining - amount) rest
     else (tx, NotFeasible) # judge_ordered remaining rest)"

definition judge :: "u128 \<Rightarrow> (TxHash \<times> u128) list \<Rightarrow> (TxHash \<times> Feasibility) list" where
  "judge available requests = judge_ordered available (sort requests)"


subsection \<open>The delta fold\<close>

fun op_credit :: "DeltaOp \<Rightarrow> nat" where
  "op_credit (Add a) = unat a" | "op_credit (Sub a) = 0"

fun op_debit :: "DeltaOp \<Rightarrow> nat" where
  "op_debit (Add a) = 0" | "op_debit (Sub a) = unat a"

definition credits_of :: "DeltaOp list \<Rightarrow> nat" where
  "credits_of ops = sum_list (map op_credit ops)"

definition debits_of :: "DeltaOp list \<Rightarrow> nat" where
  "debits_of ops = sum_list (map op_debit ops)"

lemma credits_of_simps [simp]:
  "credits_of [] = 0" "credits_of (op # ops) = op_credit op + credits_of ops"
  "credits_of (xs @ ys) = credits_of xs + credits_of ys"
  by (simp_all add: credits_of_def)

lemma debits_of_simps [simp]:
  "debits_of [] = 0" "debits_of (op # ops) = op_debit op + debits_of ops"
  "debits_of (xs @ ys) = debits_of xs + debits_of ys"
  by (simp_all add: debits_of_def)

lemma totals_permutation:
  assumes "mset ops = mset ops'"
  shows "credits_of ops = credits_of ops'" "debits_of ops = debits_of ops'"
  using assms by (metis credits_of_def debits_of_def mset_map sum_mset_sum_list)+

lemma delta_totals_from_Ok:
  "delta_totals_from c d ops = Ok (credit, debit) \<longleftrightarrow>
     unat credit = unat c + credits_of ops \<and> unat debit = unat d + debits_of ops"
proof (induction c d ops rule: delta_totals_from.induct)
  case (2 c d a ops)
  show ?case
  proof (cases "checked_add c a")
    case None
    then have "unat credit \<noteq> unat c + unat a + n" for n
      using unat_bound [of credit] unfolding checked_add_eq_None by linarith
    with None show ?thesis by (simp add: add.assoc)
  next
    case (Some s)
    then have "unat s = unat c + unat a" by (simp add: checked_add_eq_Some)
    with Some show ?thesis using 2 [of s] by (simp add: add.assoc)
  qed
next
  case (3 c d a ops)
  show ?case
  proof (cases "checked_add d a")
    case None
    then have "unat debit \<noteq> unat d + unat a + n" for n
      using unat_bound [of debit] unfolding checked_add_eq_None by linarith
    with None show ?thesis by (simp add: add.assoc)
  next
    case (Some s)
    then have "unat s = unat d + unat a" by (simp add: checked_add_eq_Some)
    with Some show ?thesis using 3 [of s] by (simp add: add.assoc)
  qed
qed (auto simp: word_unat_eq_iff)

lemma delta_totals_from_Err: "delta_totals_from c d ops = Err e \<Longrightarrow> e = DeltaOverflow"
  by (induction c d ops rule: delta_totals_from.induct) (auto simp: and_then_eq_Err)

lemma delta_totals_Ok:
  "delta_totals ops = Ok (credit, debit) \<longleftrightarrow> unat credit = credits_of ops \<and> unat debit = debits_of ops"
  by (simp add: delta_totals_def delta_totals_from_Ok)

lemma delta_totals_spec:
  "delta_totals ops =
    (if credits_of ops < 2 ^ 128 \<and> debits_of ops < 2 ^ 128
     then Ok (word_of_nat (credits_of ops), word_of_nat (debits_of ops))
     else Err DeltaOverflow)"
proof (cases "delta_totals ops")
  case (Ok p)
  obtain c d where p: "p = (c, d)" by force
  with Ok have "unat c = credits_of ops" "unat d = debits_of ops" by (simp_all add: delta_totals_Ok)
  then show ?thesis
    using unat_bound [of c] unat_bound [of d] by (simp add: Ok p flip: \<open>unat c = _\<close> \<open>unat d = _\<close>)
next
  case (Err e)
  then have "e = DeltaOverflow" unfolding delta_totals_def by (rule delta_totals_from_Err)
  moreover have "\<not> (credits_of ops < 2 ^ 128 \<and> debits_of ops < 2 ^ 128)"
  proof
    assume "credits_of ops < 2 ^ 128 \<and> debits_of ops < 2 ^ 128"
    then have "delta_totals ops = Ok (word_of_nat (credits_of ops), word_of_nat (debits_of ops))"
      by (simp add: delta_totals_Ok unat_of_nat take_bit_nat_eq_self)
    with Err show False by simp
  qed
  ultimately show ?thesis using Err by auto
qed

lemma fold_deltas_value:
  "fold_deltas committed ops =
     (if credits_of ops \<ge> 2 ^ 128 \<or> debits_of ops \<ge> 2 ^ 128 then Err DeltaOverflow
      else if unat committed + credits_of ops \<ge> 2 ^ 128 then Err CellOverflow
      else if unat committed + credits_of ops < debits_of ops then Err CellUnderflow
      else Ok (word_of_nat (unat committed + credits_of ops - debits_of ops)))"
proof (cases "credits_of ops < 2 ^ 128 \<and> debits_of ops < 2 ^ 128")
  case True
  define c d :: u128 where "c = word_of_nat (credits_of ops)" and "d = word_of_nat (debits_of ops)"
  have cd: "unat c = credits_of ops" "unat d = debits_of ops"
    using True by (simp_all add: c_def d_def unat_of_nat take_bit_nat_eq_self)
  have totals: "delta_totals ops = Ok (c, d)" using True by (simp add: delta_totals_spec c_def d_def)
  show ?thesis
  proof (cases "checked_add committed c")
    case None
    then have "unat committed + credits_of ops \<ge> 2 ^ 128" by (simp add: checked_add_eq_None cd)
    with None True totals show ?thesis by (simp add: fold_deltas_def)
  next
    case (Some s)
    then have s: "unat s = unat committed + credits_of ops" by (simp add: checked_add_eq_Some cd)
    show ?thesis
    proof (cases "checked_sub s d")
      case None
      then have "unat committed + credits_of ops < debits_of ops"
        by (simp add: checked_sub_eq_None cd s)
      with None True \<open>checked_add committed c = Some s\<close> totals s show ?thesis
        using unat_bound [of s] by (simp add: fold_deltas_def)
    next
      case (Some r)
      then have "unat r = unat committed + credits_of ops - debits_of ops"
        "debits_of ops \<le> unat committed + credits_of ops"
        by (simp_all add: checked_sub_eq_Some cd flip: s)
      with \<open>checked_add committed c = Some s\<close> Some True totals s show ?thesis
        using unat_bound [of s] by (simp add: fold_deltas_def word_unat_eq_iff
            flip: \<open>unat r = _\<close>)
    qed
  qed
qed (auto simp: fold_deltas_def delta_totals_spec)

text \<open>C19 The delta fold on every branch. With the credits and the debits of the batch summed over
  the naturals: a total past 128 bits is \<open>DeltaOverflow\<close>, then a credited cell past 128 bits is
  \<open>CellOverflow\<close>, then debits past the credited cell are \<open>CellUnderflow\<close>, and otherwise the cell is
  exactly committed plus credits minus debits. Any order of the same movements gives the same
  result, error included.\<close>

theorem fold_deltas_exact:
  "fold_deltas committed ops =
     (if credits_of ops \<ge> 2 ^ 128 \<or> debits_of ops \<ge> 2 ^ 128 then Err DeltaOverflow
      else if unat committed + credits_of ops \<ge> 2 ^ 128 then Err CellOverflow
      else if unat committed + credits_of ops < debits_of ops then Err CellUnderflow
      else Ok (word_of_nat (unat committed + credits_of ops - debits_of ops)))
   \<and> (\<forall>ops'. mset ops' = mset ops \<longrightarrow> fold_deltas committed ops' = fold_deltas committed ops)"
    (is "?value \<and> ?perm")
proof -
  have "fold_deltas committed ops =
     (if credits_of ops \<ge> 2 ^ 128 \<or> debits_of ops \<ge> 2 ^ 128 then Err DeltaOverflow
      else if unat committed + credits_of ops \<ge> 2 ^ 128 then Err CellOverflow
      else if unat committed + credits_of ops < debits_of ops then Err CellUnderflow
      else Ok (word_of_nat (unat committed + credits_of ops - debits_of ops)))" for ops
    by (rule fold_deltas_value)
  moreover from this have ?perm by (metis totals_permutation)
  ultimately show ?thesis by blast
qed

theorem fold_deltas_exact_witness:
  "fold_deltas 10 [Add 5, Sub 12, Add 1] = Ok 4 \<and> fold_deltas 10 [Sub 12, Add 1, Add 5] = Ok 4"
  using fold_deltas_exact [of 10 "[Add 5, Sub 12, Add 1]"] by auto

text \<open>The movement a queue reports and the value its fold lands on agree.\<close>

lemma fold_deltas_total_movement:
  assumes "total_movement ops resource = Ok m" "fold_deltas committed ops = Ok v"
  shows "mv_apply m committed = Some v \<and> mv_burned m committed = 0"
proof -
  obtain c d where m: "m = \<lparr>mv_resource = resource, mv_credit = c, mv_debit = d, mv_unjudged_debit = 0\<rparr>"
    and t: "delta_totals ops = Ok (c, d)"
    using assms(1) by (auto simp: total_movement_def)
  from assms(2) t have net: "unat committed + unat c = unat d + unat v"
    by (auto simp: fold_deltas_def checked_add_eq_Some checked_sub_eq_Some)
  then have "mv_land m committed \<noteq> None" by (simp add: mv_land_None m)
  then obtain a b where land: "mv_land m committed = Some (a, b)" by auto
  have "unat committed + unat (mv_credit m) - unat (mv_debit m) < 2 ^ 128"
    using net unat_bound [of v] by (simp add: m)
  from mv_land_exact [OF land this] net have "b = 0" "a = v"
    by (auto simp: m word_unat_eq_iff)
  with land show ?thesis by (simp add: mv_apply_def mv_burned_def m)
qed


subsection \<open>The reservation judge\<close>

definition granted :: "(TxHash \<times> u128) list \<Rightarrow> (TxHash \<times> Feasibility) list \<Rightarrow> nat" where
  "granted requests verdicts =
    sum_list (map (\<lambda>(r, v). if snd v = Feasible then unat (snd r) else 0) (zip requests verdicts))"

lemma granted_simps [simp]:
  "granted [] vs = 0" "granted (r # rs) (v # vs) =
     (if snd v = Feasible then unat (snd r) else 0) + granted rs vs"
  by (simp_all add: granted_def)

lemma judge_ordered_tx: "map fst (judge_ordered a rs) = map fst rs"
  by (induction a rs rule: judge_ordered.induct) auto

lemma length_judge_ordered [simp]: "length (judge_ordered a rs) = length rs"
  using judge_ordered_tx [of a rs] by (metis length_map)

lemma judge_ordered_greedy:
  "i < length rs \<Longrightarrow>
   snd (judge_ordered a rs ! i) = Feasible \<longleftrightarrow>
     granted (take i rs) (take i (judge_ordered a rs)) + unat (snd (rs ! i)) \<le> unat a"
proof (induction a rs arbitrary: i rule: judge_ordered.induct)
  case (2 a tx m rest)
  show ?case
  proof (cases i)
    case 0
    then show ?thesis by (simp add: word_le_nat_alt)
  next
    case (Suc j)
    show ?thesis
    proof (cases "m \<le> a")
      case True
      then have "unat (a - m) = unat a - unat m" "unat m \<le> unat a"
        by (simp_all add: unat_sub_le word_le_nat_alt)
      with True Suc 2(1) [of j] 2(3) show ?thesis by auto
    next
      case False
      with Suc 2(2) [of j] 2(3) show ?thesis by auto
    qed
  qed
qed simp

lemma judge_ordered_granted: "granted rs (judge_ordered a rs) \<le> unat a"
proof (induction a rs rule: judge_ordered.induct)
  case (2 a tx m rest)
  show ?case
  proof (cases "m \<le> a")
    case True
    then have "unat (a - m) = unat a - unat m" "unat m \<le> unat a"
      by (simp_all add: unat_sub_le word_le_nat_alt)
    with True 2(1) show ?thesis by simp
  qed (use 2(2) in simp)
qed simp

lemma judge_mset:
  assumes "mset batch' = mset batch"
  shows "judge a batch' = judge a batch"
proof -
  have "sort batch' = sort batch" using assms by (intro properties_for_sort) simp_all
  then show ?thesis by (simp add: judge_def)
qed

text \<open>C20 The reservation judge. Its verdicts come in ascending transaction order and depend on the
  multiset of requests alone; together the feasible requests never exceed what is available; and the
  judge is greedy, so a request is refused exactly when what the canonically earlier feasible ones
  left does not cover it.\<close>

theorem judge_canonical:
  assumes "mset requests' = mset requests"
  shows "judge available requests' = judge available requests
    \<and> map fst (judge available requests) = map fst (sort requests)
    \<and> granted (sort requests) (judge available requests) \<le> unat available
    \<and> (\<forall>i < length requests.
         snd (judge available requests ! i) = Feasible \<longleftrightarrow>
           granted (take i (sort requests)) (take i (judge available requests))
             + unat (snd (sort requests ! i)) \<le> unat available)"
proof -
  have "judge available requests' = judge available requests"
    using assms by (rule judge_mset)
  then show ?thesis
    by (simp add: judge_def judge_ordered_tx judge_ordered_granted judge_ordered_greedy)
qed

theorem judge_canonical_witness:
  "judge 10 [(3, 4), (1, 7), (2, 5)] = judge 10 [(1, 7), (2, 5), (3, 4)]
   \<and> judge 10 [(1, 7), (2, 5), (3, 4)] = [(1, Feasible), (2, NotFeasible), (3, NotFeasible)]"
  using judge_canonical [of "[(3, 4), (1, 7), (2, 5)]" "[(1, 7), (2, 5), (3, 4)]" 10]
  by (simp add: judge_def sort_key_def less_prod_def)

end
