(* ===== verification/Store.thy ===== *)
theory Store
  imports DeltaModes Effects
begin

text \<open>
  \<open>crates/kernel/src/store.rs\<close>: what execution may read (the traits \<open>Substates\<close> and
  \<open>Baseline\<close>), the errors a store answers with, the holds that stand under a cell, and
  the in-memory store. A trait object \<open>dyn Baseline\<close> is a record of its methods; the
  locale \<open>baseline\<close> states what the code relies on of one, and the in-memory
  store is interpreted as one.
\<close>

datatype StoreError =
    MissingReservation TxHash SubstateKey
  | HeldExceedsCommitted SubstateKey
  | DuplicateRequest TxHash SubstateKey
  | ModeErr ModeError

datatype Fault = Floor | Declaration ModeError | Defect

fun fault :: "StoreError \<Rightarrow> Fault" where
  "fault (ModeErr CellUnderflow) = Floor"
| "fault (ModeErr CellOverflow) = Floor"
| "fault (HeldExceedsCommitted _) = Floor"
| "fault (ModeErr (BadAmountCell n)) = Declaration (BadAmountCell n)"
| "fault _ = Defect"

fun store_abort :: "StoreError \<Rightarrow> AbortReason" where
  "store_abort (MissingReservation _ _) = A_ReservationMissing"
| "store_abort (HeldExceedsCommitted _) = A_LedgerInvariant"
| "store_abort (DuplicateRequest _ _) = A_DuplicateReservationRequest"
| "store_abort (ModeErr mode) = mode_abort mode"

record AppliedDelta =
  ad_key :: SubstateKey
  ad_before :: u128
  ad_after :: u128

record FeeHolds =
  fh_members :: "(TxHash, u128) btmap"
  fh_rest :: u128

definition fee_holds_default :: FeeHolds where
  "fee_holds_default = \<lparr>fh_members = bt_empty, fh_rest = 0\<rparr>"

definition fee_total :: "FeeHolds \<Rightarrow> u128" where
  "fee_total h = foldl saturating_add (fh_rest h) (bt_values (fh_members h))"

record WithheldCredits =
  wc_members :: "(TxHash, u128) btmap"

definition withheld_default :: WithheldCredits where
  "withheld_default = \<lparr>wc_members = bt_empty\<rparr>"

definition withheld_total :: "WithheldCredits \<Rightarrow> u128" where
  "withheld_total w = foldl saturating_add 0 (bt_values (wc_members w))"

definition kept_from :: "WithheldCredits \<Rightarrow> TxHash \<Rightarrow> u128" where
  "kept_from w tx =
    foldl saturating_add 0 (map snd (filter (\<lambda>(member, _). member \<noteq> tx) (entries (wc_members w))))"

text \<open>The two read traits, as the record of their methods.\<close>

record Baseline =
  base_cell :: "SubstateKey \<Rightarrow> bytes option"
  base_entries_in_range :: "Address \<Rightarrow> CollectionId \<Rightarrow> u128 \<Rightarrow> u128 \<Rightarrow> nat \<Rightarrow> (u128 \<times> bytes) list"
  base_holds :: "SubstateKey \<Rightarrow> (TxHash, u128) btmap"
  base_fee_holds :: "SubstateKey \<Rightarrow> FeeHolds"
  base_withheld_credits :: "SubstateKey \<Rightarrow> WithheldCredits"
  base_held_reservation :: "SubstateKey \<Rightarrow> TxHash \<Rightarrow> u128 option"

text \<open>The default body of \<open>Baseline::held_reservation\<close>.\<close>

definition default_held_reservation ::
  "(SubstateKey \<Rightarrow> (TxHash, u128) btmap) \<Rightarrow> SubstateKey \<Rightarrow> TxHash \<Rightarrow> u128 option" where
  "default_held_reservation holds key tx = bt_get (holds key) tx"

record MemoryStore =
  ms_cells :: "(SubstateKey, bytes) btmap"
  ms_entries :: "(Address \<times> CollectionId, (u128, bytes) btmap) btmap"
  ms_pending_deltas :: "(SubstateKey, DeltaOp list) btmap"
  ms_held :: "(SubstateKey, (TxHash, u128) btmap) btmap"
  ms_fee_held :: "(SubstateKey, FeeHolds) btmap"
  ms_withheld :: "(SubstateKey, WithheldCredits) btmap"

definition ms_new :: MemoryStore where
  "ms_new = \<lparr>ms_cells = bt_empty, ms_entries = bt_empty, ms_pending_deltas = bt_empty,
             ms_held = bt_empty, ms_fee_held = bt_empty, ms_withheld = bt_empty\<rparr>"

definition ms_cell :: "MemoryStore \<Rightarrow> SubstateKey \<Rightarrow> bytes option" where
  "ms_cell s key = bt_get (ms_cells s) key"

definition ms_entries_in_range ::
  "MemoryStore \<Rightarrow> Address \<Rightarrow> CollectionId \<Rightarrow> u128 \<Rightarrow> u128 \<Rightarrow> nat \<Rightarrow> (u128 \<times> bytes) list" where
  "ms_entries_in_range s owner collection lo hi limit =
    (if lo > hi then []
     else take limit
       (case bt_get (ms_entries s) (owner, collection) of
          Some es \<Rightarrow> bt_range lo hi es
        | None \<Rightarrow> []))"

definition ms_holds :: "MemoryStore \<Rightarrow> SubstateKey \<Rightarrow> (TxHash, u128) btmap" where
  "ms_holds s key = bt_get_or bt_empty (ms_held s) key"

definition ms_fee_holds :: "MemoryStore \<Rightarrow> SubstateKey \<Rightarrow> FeeHolds" where
  "ms_fee_holds s key = bt_get_or fee_holds_default (ms_fee_held s) key"

definition ms_withheld_credits :: "MemoryStore \<Rightarrow> SubstateKey \<Rightarrow> WithheldCredits" where
  "ms_withheld_credits s key = bt_get_or withheld_default (ms_withheld s) key"

definition ms_held_reservation :: "MemoryStore \<Rightarrow> SubstateKey \<Rightarrow> TxHash \<Rightarrow> u128 option" where
  "ms_held_reservation s key tx = Option.bind (bt_get (ms_held s) key) (\<lambda>holds. bt_get holds tx)"

definition memory_baseline :: "MemoryStore \<Rightarrow> Baseline" where
  "memory_baseline s =
    \<lparr>base_cell = ms_cell s,
     base_entries_in_range = ms_entries_in_range s,
     base_holds = ms_holds s,
     base_fee_holds = ms_fee_holds s,
     base_withheld_credits = ms_withheld_credits s,
     base_held_reservation = ms_held_reservation s\<rparr>"

text \<open>Iterating the store's contents.\<close>

definition ms_cell_list :: "MemoryStore \<Rightarrow> (SubstateKey \<times> bytes) list" where
  "ms_cell_list s = entries (ms_cells s)"

definition ms_collection_entries :: "MemoryStore \<Rightarrow> (EntryKey \<times> bytes) list" where
  "ms_collection_entries s =
    concat (map (\<lambda>((owner, collection), es). map (\<lambda>(order, v). (EntryKey owner collection order, v)) (entries es))
      (entries (ms_entries s)))"

text \<open>The in-memory store's half of \<open>AmountLedger\<close>, and its seeding surface.\<close>

definition amount_bytes :: "u128 \<Rightarrow> bytes option" where
  "amount_bytes amount = amount_cell amount"

definition ms_set_amount :: "SubstateKey \<Rightarrow> u128 \<Rightarrow> MemoryStore \<Rightarrow> MemoryStore" where
  "ms_set_amount key amount s =
    (case amount_bytes amount of
       Some cell \<Rightarrow> s\<lparr>ms_cells := bt_insert key cell (ms_cells s)\<rparr>
     | None \<Rightarrow> s\<lparr>ms_cells := bt_remove key (ms_cells s)\<rparr>)"

definition ms_set_hold :: "SubstateKey \<Rightarrow> TxHash \<Rightarrow> u128 option \<Rightarrow> MemoryStore \<Rightarrow> MemoryStore" where
  "ms_set_hold key tx amount s =
    (case amount of
       Some a \<Rightarrow> s\<lparr>ms_held := bt_entry bt_empty (bt_insert tx a) key (ms_held s)\<rparr>
     | None \<Rightarrow> s\<lparr>ms_held := bt_modify (bt_remove tx) key (ms_held s)\<rparr>)"

definition ms_set_fee_hold :: "SubstateKey \<Rightarrow> TxHash \<Rightarrow> u128 option \<Rightarrow> MemoryStore \<Rightarrow> MemoryStore" where
  "ms_set_fee_hold key tx amount s =
    (case amount of
       Some a \<Rightarrow> s\<lparr>ms_fee_held :=
          bt_entry fee_holds_default (fh_members_update (bt_insert tx a)) key (ms_fee_held s)\<rparr>
     | None \<Rightarrow> s\<lparr>ms_fee_held := bt_modify (fh_members_update (bt_remove tx)) key (ms_fee_held s)\<rparr>)"

definition ms_withhold_credit :: "SubstateKey \<Rightarrow> TxHash \<Rightarrow> u128 \<Rightarrow> MemoryStore \<Rightarrow> MemoryStore" where
  "ms_withhold_credit key tx amount s =
    s\<lparr>ms_withheld := bt_entry withheld_default (wc_members_update (bt_insert tx amount)) key (ms_withheld s)\<rparr>"

definition ms_note :: "EffectTarget \<Rightarrow> ModeKind \<Rightarrow> MemoryStore \<Rightarrow> MemoryStore" where
  "ms_note target k s = s"

definition ms_queued :: "MemoryStore \<Rightarrow> (SubstateKey, DeltaOp list) btmap" where
  "ms_queued s = ms_pending_deltas s"

definition ms_clear_queued :: "MemoryStore \<Rightarrow> MemoryStore" where
  "ms_clear_queued s = s\<lparr>ms_pending_deltas := bt_empty\<rparr>"

definition ms_write :: "SubstateKey \<Rightarrow> bytes \<Rightarrow> MemoryStore \<Rightarrow> MemoryStore" where
  "ms_write key v s = s\<lparr>ms_cells := bt_insert key v (ms_cells s)\<rparr>"

definition ms_entry_write ::
  "Address \<Rightarrow> CollectionId \<Rightarrow> u128 \<Rightarrow> bytes \<Rightarrow> MemoryStore \<Rightarrow> MemoryStore" where
  "ms_entry_write owner collection order v s =
    s\<lparr>ms_entries := bt_entry bt_empty (bt_insert order v) (owner, collection) (ms_entries s)\<rparr>"

definition ms_hold_fees :: "SubstateKey \<Rightarrow> FeeHolds \<Rightarrow> MemoryStore \<Rightarrow> MemoryStore" where
  "ms_hold_fees key holds s = s\<lparr>ms_fee_held := bt_insert key holds (ms_fee_held s)\<rparr>"


subsection \<open>What a baseline promises\<close>

text \<open>A scan answers the leading entries of one ascending sequence per collection, cut to the
  interval; the single-hold lookup answers what the hold map holds.\<close>

locale baseline =
  fixes B :: Baseline
    and contents :: "Address \<Rightarrow> CollectionId \<Rightarrow> (u128, bytes) btmap"
  assumes scan: "base_entries_in_range B owner collection lo hi limit
      = take limit (bt_range lo hi (contents owner collection))"
    and held: "base_held_reservation B key tx = bt_get (base_holds B key) tx"
begin

lemma scan_sorted: "sorted_wrt (<) (map fst (base_entries_in_range B owner collection lo hi limit))"
  using sorted_bt_range [of lo hi "contents owner collection"]
  by (simp add: scan take_map [symmetric] sorted_wrt_take)

lemma scan_point:
  "map_option snd (case base_entries_in_range B owner collection order order 1 of [] \<Rightarrow> None | e # _ \<Rightarrow> Some e)
     = bt_get (contents owner collection) order"
proof -
  let ?es = "bt_range order order (contents owner collection)"
  have "map_of ?es order = bt_get (contents owner collection) order"
    by (simp add: map_of_bt_range)
  moreover have "\<forall>e \<in> set ?es. fst e = order" by (auto simp: bt_range_def)
  ultimately show ?thesis by (cases ?es) (auto simp: scan)
qed

end

definition ms_contents :: "MemoryStore \<Rightarrow> Address \<Rightarrow> CollectionId \<Rightarrow> (u128, bytes) btmap" where
  "ms_contents s owner collection = bt_get_or bt_empty (ms_entries s) (owner, collection)"

lemma bt_range_inverted: "hi < lo \<Longrightarrow> bt_range lo hi m = []"
  by (auto simp: bt_range_def filter_empty_conv)

interpretation mem: baseline "memory_baseline s" "ms_contents s" for s
proof
  show "base_entries_in_range (memory_baseline s) owner collection lo hi limit
      = take limit (bt_range lo hi (ms_contents s owner collection))" for owner collection lo hi limit
    by (auto simp: memory_baseline_def ms_entries_in_range_def ms_contents_def bt_get_or_def
        bt_range_inverted split: option.split)
  show "base_held_reservation (memory_baseline s) key tx = bt_get (base_holds (memory_baseline s) key) tx"
    for key tx
    by (simp add: memory_baseline_def ms_held_reservation_def ms_holds_def)
qed


subsection \<open>Hold totals\<close>

lemma unat_fee_total:
  "unat (fee_total h) = min (unat (fh_rest h) + bt_sum (\<lambda>_ a. unat a) (fh_members h)) (2 ^ 128 - 1)"
  by (simp add: fee_total_def unat_foldl_saturating_add sum_list_values)

lemma unat_withheld_total:
  "unat (withheld_total w) = min (bt_sum (\<lambda>_ a. unat a) (wc_members w)) (2 ^ 128 - 1)"
  by (simp add: withheld_total_def unat_foldl_saturating_add sum_list_values)

lemma kept_from_remove:
  "kept_from w tx = withheld_total \<lparr>wc_members = bt_remove tx (wc_members w)\<rparr>"
  by (simp add: kept_from_def withheld_total_def bt_values_def entries_remove case_prod_unfold)

lemma kept_from_le_total: "unat (kept_from w tx) \<le> unat (withheld_total w)"
  by (simp add: kept_from_remove unat_withheld_total min.coboundedI1 bt_sum_remove_le)

end
