(* ===== verification/Ledger.thy ===== *)
theory Ledger
  imports Store
begin

text \<open>
  \<open>crates/kernel/src/ledger.rs\<close>: the amount-cell semantics, written once as a trait
  every store provides. The trait's required methods are the record \<open>AmountLedger\<close>;
  each provided method is a definition over it, with \<open>&self\<close> methods reading the
  baseline view alone. The locale \<open>amount_ledger\<close> states what the required methods
  promise; inside it every provided method is shown to run exactly as it does on an
  abstract ledger, whose state is the view itself, so a fact proved of the abstract
  ledger holds of every store that implements the trait.
\<close>

record 's AmountLedger =
  al_base :: "'s \<Rightarrow> Baseline"
  al_set_amount :: "SubstateKey \<Rightarrow> u128 \<Rightarrow> 's \<Rightarrow> 's"
  al_set_hold :: "SubstateKey \<Rightarrow> TxHash \<Rightarrow> u128 option \<Rightarrow> 's \<Rightarrow> 's"
  al_set_fee_hold :: "SubstateKey \<Rightarrow> TxHash \<Rightarrow> u128 option \<Rightarrow> 's \<Rightarrow> 's"
  al_withhold_credit :: "SubstateKey \<Rightarrow> TxHash \<Rightarrow> u128 \<Rightarrow> 's \<Rightarrow> 's"
  al_note :: "EffectTarget \<Rightarrow> ModeKind \<Rightarrow> 's \<Rightarrow> 's"
  al_queued :: "'s \<Rightarrow> (SubstateKey, DeltaOp list) btmap"
  al_clear_queued :: "'s \<Rightarrow> 's"


subsection \<open>The provided methods that read\<close>

definition al_amount :: "Baseline \<Rightarrow> SubstateKey \<Rightarrow> (StoreError, u128) result" where
  "al_amount b key =
    (case base_cell b key of
       Some cell \<Rightarrow> map_err ModeErr (decode_amount cell)
     | None \<Rightarrow> Ok 0)"

definition al_with_queued ::
  "(SubstateKey, DeltaOp list) btmap \<Rightarrow> SubstateKey \<Rightarrow> u128 \<Rightarrow> (StoreError, u128) result" where
  "al_with_queued q key committed =
    (case bt_get q key of
       Some ops \<Rightarrow> map_err ModeErr (fold_deltas committed ops)
     | None \<Rightarrow> Ok committed)"

definition al_held_total :: "Baseline \<Rightarrow> SubstateKey \<Rightarrow> (StoreError, u128) result" where
  "al_held_total b key =
    ok_or (HeldExceedsCommitted key) (checked_sum 0 (bt_values (base_holds b key)))"

definition al_check_reserve_target :: "Baseline \<Rightarrow> SubstateKey \<Rightarrow> (StoreError, unit) result" where
  "al_check_reserve_target b key = map_res (\<lambda>_. ()) (al_amount b key)"

definition al_unpromised ::
  "Baseline \<Rightarrow> SubstateKey \<Rightarrow> u128 \<Rightarrow> u128 \<Rightarrow> (StoreError, u128) result" where
  "al_unpromised b key standing withheld =
    and_then (al_held_total b key) (\<lambda>held.
    and_then (ok_or (HeldExceedsCommitted key) (checked_sub standing held)) (\<lambda>left.
    Ok (saturating_sub (saturating_sub left (fee_total (base_fee_holds b key))) withheld)))"

definition al_spendable ::
  "Baseline \<Rightarrow> SubstateKey \<Rightarrow> TxHash \<Rightarrow> u128 \<Rightarrow> (StoreError, u128) result" where
  "al_spendable b key tx credit =
    and_then (al_amount b key) (\<lambda>standing.
    and_then (ok_or (ModeErr CellOverflow) (checked_add standing credit)) (\<lambda>credited.
    al_unpromised b key credited (kept_from (base_withheld_credits b key) tx)))"

definition al_judge_movement ::
  "Baseline \<Rightarrow> SubstateKey \<Rightarrow> TxHash \<Rightarrow> u128 \<Rightarrow> u128 \<Rightarrow> (StoreError, u128) result" where
  "al_judge_movement b key tx credit debit =
    and_then (al_amount b key) (\<lambda>standing.
    and_then (ok_or (ModeErr CellOverflow) (checked_add standing credit)) (\<lambda>credited.
    and_then (al_unpromised b key credited (kept_from (base_withheld_credits b key) tx)) (\<lambda>room.
    if debit > room then Err (ModeErr CellUnderflow) else Ok (credited - debit))))"


subsection \<open>The provided methods that change the store\<close>

definition al_reduce_hold :: "'s AmountLedger \<Rightarrow> SubstateKey \<Rightarrow> TxHash \<Rightarrow> u128 \<Rightarrow> 's \<Rightarrow> 's" where
  "al_reduce_hold L key tx amount s =
    (let standing = case base_held_reservation (al_base L s) key tx of Some h \<Rightarrow> h | None \<Rightarrow> 0
     in al_set_hold L key tx (Some (min amount standing)) s)"

definition al_apply_movement ::
  "'s AmountLedger \<Rightarrow> SubstateKey \<Rightarrow> TxHash \<Rightarrow> u128 \<Rightarrow> u128 \<Rightarrow> 's \<Rightarrow> (StoreError, u128) result \<times> 's" where
  "al_apply_movement L key tx credit debit s =
    (case al_judge_movement (al_base L s) key tx credit debit of
       Err e \<Rightarrow> (Err e, s)
     | Ok after \<Rightarrow> (Ok after, al_set_amount L key after s))"

fun collect_requests ::
  "'s AmountLedger \<Rightarrow> (TxHash \<times> SubstateKey \<times> u128) list \<Rightarrow> (TxHash \<times> SubstateKey) btset
    \<Rightarrow> (SubstateKey, (TxHash \<times> u128) list) btmap \<Rightarrow> 's
    \<Rightarrow> (StoreError, (SubstateKey, (TxHash \<times> u128) list) btmap) result \<times> 's" where
  "collect_requests L [] seen by_key s = (Ok by_key, s)"
| "collect_requests L ((tx, key, amount) # rest) seen by_key s =
    (if bt_contains seen (tx, key) then (Err (DuplicateRequest tx key), s)
     else collect_requests L rest (bs_insert (tx, key) seen)
            (bt_entry [] (\<lambda>batch. batch @ [(tx, amount)]) key by_key)
            (al_note L (Point key) KReserve s))"

definition requested :: "(TxHash \<times> u128) list \<Rightarrow> TxHash \<Rightarrow> u128" where
  "requested batch tx =
    (case find (\<lambda>(candidate, _). candidate = tx) batch of Some (_, amount) \<Rightarrow> amount | None \<Rightarrow> 0)"

fun hold_verdicts ::
  "'s AmountLedger \<Rightarrow> SubstateKey \<Rightarrow> (TxHash \<times> u128) list \<Rightarrow> (TxHash \<times> Feasibility) list
    \<Rightarrow> (TxHash \<times> SubstateKey, Feasibility) btmap \<Rightarrow> 's
    \<Rightarrow> (TxHash \<times> SubstateKey, Feasibility) btmap \<times> 's" where
  "hold_verdicts L key batch [] verdicts s = (verdicts, s)"
| "hold_verdicts L key batch ((tx, verdict) # rest) verdicts s =
    hold_verdicts L key batch rest (bt_insert (tx, key) verdict verdicts)
      (if is_feasible verdict then al_set_hold L key tx (Some (requested batch tx)) s else s)"

fun hold_batches ::
  "'s AmountLedger \<Rightarrow> (SubstateKey \<times> (TxHash \<times> u128) list) list
    \<Rightarrow> (TxHash \<times> SubstateKey, Feasibility) btmap \<Rightarrow> 's
    \<Rightarrow> (StoreError, (TxHash \<times> SubstateKey, Feasibility) btmap) result \<times> 's" where
  "hold_batches L [] verdicts s = (Ok verdicts, s)"
| "hold_batches L ((key, batch) # rest) verdicts s =
    (case and_then (al_amount (al_base L s) key) (\<lambda>standing.
            al_unpromised (al_base L s) key standing
              (withheld_total (base_withheld_credits (al_base L s) key))) of
       Err e \<Rightarrow> (Err e, s)
     | Ok available \<Rightarrow>
         (case hold_verdicts L key batch (judge available batch) verdicts s of
            (verdicts', s') \<Rightarrow> hold_batches L rest verdicts' s'))"

definition al_judge_and_hold ::
  "'s AmountLedger \<Rightarrow> (TxHash \<times> SubstateKey \<times> u128) list \<Rightarrow> 's
    \<Rightarrow> (StoreError, (TxHash \<times> SubstateKey, Feasibility) btmap) result \<times> 's" where
  "al_judge_and_hold L requests s =
    (case collect_requests L requests bt_empty bt_empty s of
       (Err e, s') \<Rightarrow> (Err e, s')
     | (Ok by_key, s') \<Rightarrow> hold_batches L (entries by_key) bt_empty s')"

definition al_settle ::
  "'s AmountLedger \<Rightarrow> SubstateKey \<Rightarrow> TxHash \<Rightarrow> 's \<Rightarrow> (StoreError, u128) result \<times> 's" where
  "al_settle L key tx s =
    (case and_then (ok_or (MissingReservation tx key) (base_held_reservation (al_base L s) key tx)) (\<lambda>amount.
          and_then (al_amount (al_base L s) key) (\<lambda>standing.
          and_then (ok_or (HeldExceedsCommitted key) (checked_sub standing amount)) (\<lambda>after.
          Ok (amount, after)))) of
       Err e \<Rightarrow> (Err e, s)
     | Ok (amount, after) \<Rightarrow> (Ok amount, al_set_amount L key after (al_set_hold L key tx None s)))"

definition al_release ::
  "'s AmountLedger \<Rightarrow> SubstateKey \<Rightarrow> TxHash \<Rightarrow> 's \<Rightarrow> (StoreError, u128) result \<times> 's" where
  "al_release L key tx s =
    (case ok_or (MissingReservation tx key) (base_held_reservation (al_base L s) key tx) of
       Err e \<Rightarrow> (Err e, s)
     | Ok amount \<Rightarrow> (Ok amount, al_set_hold L key tx None s))"

fun fold_queue :: "Baseline \<Rightarrow> (SubstateKey \<times> DeltaOp list) list \<Rightarrow> (StoreError, AppliedDelta list) result" where
  "fold_queue b [] = Ok []"
| "fold_queue b ((key, ops) # rest) =
    and_then (al_amount b key) (\<lambda>before.
    and_then (map_err ModeErr (fold_deltas before ops)) (\<lambda>after.
    map_res (\<lambda>applied. \<lparr>ad_key = key, ad_before = before, ad_after = after\<rparr> # applied) (fold_queue b rest)))"

definition al_commit_deltas ::
  "'s AmountLedger \<Rightarrow> 's \<Rightarrow> (StoreError, AppliedDelta list) result \<times> 's" where
  "al_commit_deltas L s =
    (case fold_queue (al_base L s) (entries (al_queued L s)) of
       Err e \<Rightarrow> (Err e, s)
     | Ok applied \<Rightarrow>
         (Ok applied, al_clear_queued L (foldl (\<lambda>s o'. al_set_amount L (ad_key o') (ad_after o') s) s applied)))"


subsection \<open>A sequence of calls on one ledger\<close>

datatype LedgerCall =
    ApplyMovement SubstateKey TxHash u128 u128
  | JudgeAndHold "(TxHash \<times> SubstateKey \<times> u128) list"
  | Settle SubstateKey TxHash
  | Release SubstateKey TxHash
  | ReduceHold SubstateKey TxHash u128
  | SetFeeHold SubstateKey TxHash "u128 option"
  | WithholdCredit SubstateKey TxHash u128
  | CommitDeltas

datatype LedgerReply =
    Moved "(StoreError, u128) result"
  | Judged "(StoreError, (TxHash \<times> SubstateKey, Feasibility) btmap) result"
  | Settled "(StoreError, u128) result"
  | Released "(StoreError, u128) result"
  | Committed "(StoreError, AppliedDelta list) result"
  | Done

fun al_call :: "'s AmountLedger \<Rightarrow> LedgerCall \<Rightarrow> 's \<Rightarrow> LedgerReply \<times> 's" where
  "al_call L (ApplyMovement key tx credit debit) s = map_prod Moved id (al_apply_movement L key tx credit debit s)"
| "al_call L (JudgeAndHold requests) s = map_prod Judged id (al_judge_and_hold L requests s)"
| "al_call L (Settle key tx) s = map_prod Settled id (al_settle L key tx s)"
| "al_call L (Release key tx) s = map_prod Released id (al_release L key tx s)"
| "al_call L (ReduceHold key tx amount) s = (Done, al_reduce_hold L key tx amount s)"
| "al_call L (SetFeeHold key tx amount) s = (Done, al_set_fee_hold L key tx amount s)"
| "al_call L (WithholdCredit key tx amount) s = (Done, al_withhold_credit L key tx amount s)"
| "al_call L CommitDeltas s = map_prod Committed id (al_commit_deltas L s)"

fun al_run :: "'s AmountLedger \<Rightarrow> LedgerCall list \<Rightarrow> 's \<Rightarrow> LedgerReply list \<times> 's" where
  "al_run L [] s = ([], s)"
| "al_run L (c # cs) s =
    (case al_call L c s of (reply, s') \<Rightarrow> case al_run L cs s' of (replies, s'') \<Rightarrow> (reply # replies, s''))"


subsection \<open>The abstract ledger\<close>

fun change_hold :: "TxHash \<Rightarrow> u128 option \<Rightarrow> (TxHash, u128) btmap \<Rightarrow> (TxHash, u128) btmap" where
  "change_hold tx (Some a) m = bt_insert tx a m"
| "change_hold tx None m = bt_remove tx m"

definition put_amount :: "SubstateKey \<Rightarrow> u128 \<Rightarrow> Baseline \<Rightarrow> Baseline" where
  "put_amount key amount b = b\<lparr>base_cell := (base_cell b)(key := amount_bytes amount)\<rparr>"

definition put_hold :: "SubstateKey \<Rightarrow> TxHash \<Rightarrow> u128 option \<Rightarrow> Baseline \<Rightarrow> Baseline" where
  "put_hold key tx h b =
    b\<lparr>base_holds := (base_holds b)(key := change_hold tx h (base_holds b key)),
      base_held_reservation := (base_held_reservation b)(key := (base_held_reservation b key)(tx := h))\<rparr>"

definition put_fee_hold :: "SubstateKey \<Rightarrow> TxHash \<Rightarrow> u128 option \<Rightarrow> Baseline \<Rightarrow> Baseline" where
  "put_fee_hold key tx h b =
    b\<lparr>base_fee_holds := (base_fee_holds b)(key := fh_members_update (change_hold tx h) (base_fee_holds b key))\<rparr>"

definition put_withheld :: "SubstateKey \<Rightarrow> TxHash \<Rightarrow> u128 \<Rightarrow> Baseline \<Rightarrow> Baseline" where
  "put_withheld key tx a b =
    b\<lparr>base_withheld_credits :=
       (base_withheld_credits b)(key := wc_members_update (bt_insert tx a) (base_withheld_credits b key))\<rparr>"

lemmas put_defs = put_amount_def put_hold_def put_fee_hold_def put_withheld_def

type_synonym ledger_state = "Baseline \<times> (SubstateKey, DeltaOp list) btmap"

definition spec_ledger :: "ledger_state AmountLedger" where
  "spec_ledger =
    \<lparr>al_base = fst,
     al_set_amount = (\<lambda>key a. map_prod (put_amount key a) id),
     al_set_hold = (\<lambda>key tx h. map_prod (put_hold key tx h) id),
     al_set_fee_hold = (\<lambda>key tx h. map_prod (put_fee_hold key tx h) id),
     al_withhold_credit = (\<lambda>key tx a. map_prod (put_withheld key tx a) id),
     al_note = (\<lambda>_ _. id),
     al_queued = snd,
     al_clear_queued = map_prod id (\<lambda>_. bt_empty)\<rparr>"

text \<open>Scans of ordered collections are no part of the ledger.\<close>

definition forget_entries :: "Baseline \<Rightarrow> Baseline" where
  "forget_entries b = b\<lparr>base_entries_in_range := \<lambda>_ _ _ _ _. []\<rparr>"

definition ledger_abs :: "'s AmountLedger \<Rightarrow> 's \<Rightarrow> ledger_state" where
  "ledger_abs L s = (forget_entries (al_base L s), al_queued L s)"

subsection \<open>What the required methods promise\<close>

locale amount_ledger =
  fixes L :: "'s AmountLedger"
  assumes base_set_amount: "al_base L (al_set_amount L key a s) = put_amount key a (al_base L s)"
    and base_set_hold: "al_base L (al_set_hold L key tx h s) = put_hold key tx h (al_base L s)"
    and base_set_fee_hold: "al_base L (al_set_fee_hold L key tx h s) = put_fee_hold key tx h (al_base L s)"
    and base_withhold_credit: "al_base L (al_withhold_credit L key tx a s) = put_withheld key tx a (al_base L s)"
    and base_note: "al_base L (al_note L target k s) = al_base L s"
    and base_clear_queued: "al_base L (al_clear_queued L s) = al_base L s"
    and queued_set_amount: "al_queued L (al_set_amount L key a s) = al_queued L s"
    and queued_set_hold: "al_queued L (al_set_hold L key tx h s) = al_queued L s"
    and queued_set_fee_hold: "al_queued L (al_set_fee_hold L key tx h s) = al_queued L s"
    and queued_withhold_credit: "al_queued L (al_withhold_credit L key tx a s) = al_queued L s"
    and queued_note: "al_queued L (al_note L target k s) = al_queued L s"
    and queued_clear_queued: "al_queued L (al_clear_queued L s) = bt_empty"

interpretation spec: amount_ledger spec_ledger
  by unfold_locales (simp_all add: spec_ledger_def)

lemma forget_put [simp]:
  "forget_entries (put_amount key a b) = put_amount key a (forget_entries b)"
  "forget_entries (put_hold key tx h b) = put_hold key tx h (forget_entries b)"
  "forget_entries (put_fee_hold key tx h b) = put_fee_hold key tx h (forget_entries b)"
  "forget_entries (put_withheld key tx a b) = put_withheld key tx a (forget_entries b)"
  by (simp_all add: forget_entries_def put_defs)

lemma forget_fields [simp]:
  "base_cell (forget_entries b) = base_cell b"
  "base_holds (forget_entries b) = base_holds b"
  "base_fee_holds (forget_entries b) = base_fee_holds b"
  "base_withheld_credits (forget_entries b) = base_withheld_credits b"
  "base_held_reservation (forget_entries b) = base_held_reservation b"
  by (simp_all add: forget_entries_def)

lemma forget_reads [simp]:
  "al_amount (forget_entries b) key = al_amount b key"
  "al_held_total (forget_entries b) key = al_held_total b key"
  "al_unpromised (forget_entries b) key x y = al_unpromised b key x y"
  "al_judge_movement (forget_entries b) key tx c d = al_judge_movement b key tx c d"
  by (simp_all add: al_amount_def al_held_total_def al_unpromised_def al_judge_movement_def)

lemma forget_fold_queue [simp]: "fold_queue (forget_entries b) q = fold_queue b q"
  by (induction b q rule: fold_queue.induct) simp_all

lemma spec_ledger_simps [simp]:
  "al_base spec_ledger st = fst st"
  "al_queued spec_ledger st = snd st"
  "al_set_amount spec_ledger key a (b, q) = (put_amount key a b, q)"
  "al_set_hold spec_ledger key tx h (b, q) = (put_hold key tx h b, q)"
  "al_set_fee_hold spec_ledger key tx h (b, q) = (put_fee_hold key tx h b, q)"
  "al_withhold_credit spec_ledger key tx a (b, q) = (put_withheld key tx a b, q)"
  "al_note spec_ledger target k st = st"
  "al_clear_queued spec_ledger (b, q) = (b, bt_empty)"
  by (simp_all add: spec_ledger_def)

context amount_ledger
begin

lemmas laws = base_set_amount base_set_hold base_set_fee_hold base_withhold_credit base_note
  base_clear_queued queued_set_amount queued_set_hold queued_set_fee_hold queued_withhold_credit
  queued_note queued_clear_queued

lemma abs_base: "fst (ledger_abs L s) = forget_entries (al_base L s)"
  and abs_queued: "snd (ledger_abs L s) = al_queued L s"
  by (simp_all add: ledger_abs_def)

lemma abs_set_amount: "ledger_abs L (al_set_amount L key a s) = al_set_amount spec_ledger key a (ledger_abs L s)"
  and abs_set_hold: "ledger_abs L (al_set_hold L key tx h s) = al_set_hold spec_ledger key tx h (ledger_abs L s)"
  and abs_set_fee_hold: "ledger_abs L (al_set_fee_hold L key tx h s) = al_set_fee_hold spec_ledger key tx h (ledger_abs L s)"
  and abs_withhold_credit: "ledger_abs L (al_withhold_credit L key tx a s) = al_withhold_credit spec_ledger key tx a (ledger_abs L s)"
  and abs_note: "ledger_abs L (al_note L target k s) = ledger_abs L s"
  and abs_clear_queued: "ledger_abs L (al_clear_queued L s) = al_clear_queued spec_ledger (ledger_abs L s)"
  by (simp_all add: ledger_abs_def laws)

lemmas abs_simps = abs_base abs_queued abs_set_amount abs_set_hold abs_set_fee_hold
  abs_withhold_credit abs_note abs_clear_queued

lemma abs_apply_movement:
  "map_prod id (ledger_abs L) (al_apply_movement L key tx c d s)
     = al_apply_movement spec_ledger key tx c d (ledger_abs L s)"
  by (simp add: al_apply_movement_def abs_simps split: result.split)

lemma abs_settle:
  "map_prod id (ledger_abs L) (al_settle L key tx s) = al_settle spec_ledger key tx (ledger_abs L s)"
  by (simp add: al_settle_def abs_simps split: result.split prod.split del: and_then_eq_Ok)

lemma abs_release:
  "map_prod id (ledger_abs L) (al_release L key tx s) = al_release spec_ledger key tx (ledger_abs L s)"
  by (simp add: al_release_def abs_simps split: result.split)

lemma abs_reduce_hold:
  "ledger_abs L (al_reduce_hold L key tx a s) = al_reduce_hold spec_ledger key tx a (ledger_abs L s)"
  by (simp add: al_reduce_hold_def abs_simps)

lemma abs_collect_requests:
  "map_prod id (ledger_abs L) (collect_requests L reqs seen by_key s)
     = collect_requests spec_ledger reqs seen by_key (ledger_abs L s)"
  by (induction reqs arbitrary: seen by_key s) (auto simp: abs_simps)

lemma abs_hold_verdicts:
  "map_prod id (ledger_abs L) (hold_verdicts L key batch vs verdicts s)
     = hold_verdicts spec_ledger key batch vs verdicts (ledger_abs L s)"
  by (induction vs arbitrary: verdicts s) (auto simp: abs_simps)

lemma abs_hold_batches:
  "map_prod id (ledger_abs L) (hold_batches L batches verdicts s)
     = hold_batches spec_ledger batches verdicts (ledger_abs L s)"
proof (induction batches arbitrary: verdicts s)
  case (Cons e rest)
  obtain key batch where e: "e = (key, batch)" by force
  let ?room = "and_then (al_amount (al_base L s) key) (\<lambda>standing.
            al_unpromised (al_base L s) key standing
              (withheld_total (base_withheld_credits (al_base L s) key)))"
  show ?case
  proof (cases ?room)
    case (Ok available)
    obtain verdicts' s' where hv: "hold_verdicts L key batch (judge available batch) verdicts s = (verdicts', s')"
      by force
    then have "hold_verdicts spec_ledger key batch (judge available batch) verdicts (ledger_abs L s)
        = (verdicts', ledger_abs L s')"
      by (simp flip: abs_hold_verdicts)
    with Ok hv Cons show ?thesis by (simp add: e abs_simps del: and_then_eq_Ok)
  qed (simp add: e abs_simps del: and_then_eq_Ok)
qed simp

lemma abs_judge_and_hold:
  "map_prod id (ledger_abs L) (al_judge_and_hold L reqs s) = al_judge_and_hold spec_ledger reqs (ledger_abs L s)"
  unfolding al_judge_and_hold_def abs_collect_requests [symmetric]
  by (simp add: abs_hold_batches split: prod.split result.split)

lemma abs_set_amounts:
  "ledger_abs L (foldl (\<lambda>s o'. al_set_amount L (ad_key o') (ad_after o') s) s applied)
     = foldl (\<lambda>s o'. al_set_amount spec_ledger (ad_key o') (ad_after o') s) (ledger_abs L s) applied"
  by (induction applied arbitrary: s) (simp_all add: abs_simps)

lemma abs_commit_deltas:
  "map_prod id (ledger_abs L) (al_commit_deltas L s) = al_commit_deltas spec_ledger (ledger_abs L s)"
  by (simp add: al_commit_deltas_def abs_simps abs_set_amounts split: result.split)

lemmas abs_calls = abs_apply_movement abs_settle abs_release abs_judge_and_hold abs_commit_deltas

text \<open>Each call is answered as the abstract ledger answers it, and leads to the view it leads to.\<close>

lemma abs_call: "map_prod id (ledger_abs L) (al_call L c s) = al_call spec_ledger c (ledger_abs L s)"
  by (cases c)
     (simp_all add: abs_reduce_hold abs_set_fee_hold abs_withhold_credit prod.map_comp
        flip: abs_calls)

lemma abs_run: "map_prod id (ledger_abs L) (al_run L cs s) = al_run spec_ledger cs (ledger_abs L s)"
proof (induction cs arbitrary: s)
  case (Cons c cs)
  obtain reply s' where call: "al_call L c s = (reply, s')" by force
  then have "al_call spec_ledger c (ledger_abs L s) = (reply, ledger_abs L s')"
    by (simp flip: abs_call)
  with call show ?case by (simp flip: Cons split: prod.split)
qed simp

end

subsection \<open>The floor under a cell\<close>

definition held_sum :: "Baseline \<Rightarrow> SubstateKey \<Rightarrow> nat" where
  "held_sum b key = bt_sum (\<lambda>_ a. unat a) (base_holds b key)"

definition standing :: "Baseline \<Rightarrow> SubstateKey \<Rightarrow> nat" where
  "standing b key = (case al_amount b key of Ok a \<Rightarrow> unat a | Err _ \<Rightarrow> 0)"

text \<open>Every reservation outstanding on a cell is covered by what the cell holds.\<close>

definition funded :: "Baseline \<Rightarrow> bool" where
  "funded b = (\<forall>key. held_sum b key \<le> standing b key)"

definition coherent :: "Baseline \<Rightarrow> bool" where
  "coherent b = (\<forall>key tx. base_held_reservation b key tx = bt_get (base_holds b key) tx)"

lemma al_amount_put [simp]:
  "al_amount (put_amount key a b) key' = (if key' = key then Ok a else al_amount b key')"
  "al_amount (put_hold key tx h b) = al_amount b"
  "al_amount (put_fee_hold key tx h b) = al_amount b"
  "al_amount (put_withheld key tx c b) = al_amount b"
  by (simp_all add: al_amount_def put_defs amount_bytes_def amount_cell_def decode_amount_def fun_eq_iff)

lemma standing_put [simp]:
  "standing (put_amount key a b) key' = (if key' = key then unat a else standing b key')"
  "standing (put_hold key tx h b) = standing b"
  "standing (put_fee_hold key tx h b) = standing b"
  "standing (put_withheld key tx c b) = standing b"
  by (simp_all add: standing_def fun_eq_iff)

lemma held_sum_put [simp]:
  "held_sum (put_amount key a b) = held_sum b"
  "held_sum (put_fee_hold key tx h b) = held_sum b"
  "held_sum (put_withheld key tx c b) = held_sum b"
  by (simp_all add: held_sum_def put_defs fun_eq_iff)

lemma held_sum_put_hold:
  "held_sum (put_hold key tx h b) key' =
    (if key' = key
     then (case h of Some a \<Rightarrow> unat a | None \<Rightarrow> 0)
            + (held_sum b key - (case bt_get (base_holds b key) tx of Some a \<Rightarrow> unat a | None \<Rightarrow> 0))
     else held_sum b key')"
proof -
  have "bt_sum (\<lambda>_ a. unat a) (bt_remove tx m)
      = bt_sum (\<lambda>_ a. unat a) m - (case bt_get m tx of Some a \<Rightarrow> unat a | None \<Rightarrow> 0)"
    for m :: "(TxHash, u128) btmap"
    by (cases "bt_get m tx") (simp_all add: bt_sum_remove [where m = m and k = tx])
  then show ?thesis by (cases h) (simp_all add: held_sum_def put_hold_def bt_sum_insert)
qed

lemma coherent_put [simp]:
  "coherent b \<Longrightarrow> coherent (put_amount key a b)"
  "coherent b \<Longrightarrow> coherent (put_hold key tx h b)"
  "coherent b \<Longrightarrow> coherent (put_fee_hold key tx h b)"
  "coherent b \<Longrightarrow> coherent (put_withheld key tx c b)"
  by (simp_all add: coherent_def put_defs) (cases h; simp)

lemma al_held_total_Ok: "al_held_total b key = Ok h \<longleftrightarrow> unat h = held_sum b key"
  by (simp add: al_held_total_def checked_sum_eq_Some sum_list_values held_sum_def)

lemma al_held_total_Err: "al_held_total b key = Err e \<Longrightarrow> e = HeldExceedsCommitted key"
  by (simp add: al_held_total_def)

lemma held_le_bound: "al_held_total b key = Err e \<Longrightarrow> 2 ^ 128 \<le> held_sum b key"
proof (rule ccontr)
  assume err: "al_held_total b key = Err e" and "\<not> 2 ^ 128 \<le> held_sum b key"
  then have "unat (word_of_nat (held_sum b key) :: u128) = held_sum b key"
    by (simp add: unat_of_nat take_bit_nat_eq_self)
  then have "al_held_total b key = Ok (word_of_nat (held_sum b key))"
    by (simp add: al_held_total_Ok)
  with err show False by simp
qed

text \<open>What \<open>unpromised\<close> answers, over the naturals.\<close>

lemma al_unpromised_Ok:
  "al_unpromised b key st w = Ok r \<longleftrightarrow>
     held_sum b key \<le> unat st
     \<and> unat r = unat st - held_sum b key - unat (fee_total (base_fee_holds b key)) - unat w"
proof (cases "al_held_total b key")
  case (Ok h)
  then have h: "unat h = held_sum b key" by (simp add: al_held_total_Ok)
  show ?thesis
  proof (cases "checked_sub st h")
    case None
    then have "unat st < held_sum b key" by (simp add: checked_sub_eq_None h)
    with Ok None show ?thesis by (simp add: al_unpromised_def)
  next
    case (Some left)
    then have "unat st = held_sum b key + unat left" by (simp add: checked_sub_eq_Some h)
    with Ok Some show ?thesis
      by (auto simp: al_unpromised_def word_unat_eq_iff arith_unat)
  qed
next
  case (Err e)
  then have "unat st < held_sum b key"
    using held_le_bound [OF Err] unat_bound [of st] by simp
  with Err show ?thesis by (simp add: al_unpromised_def)
qed

lemma al_unpromised_Err:
  "al_unpromised b key st w = Err e \<longleftrightarrow> unat st < held_sum b key \<and> e = HeldExceedsCommitted key"
proof -
  have "e' = HeldExceedsCommitted key" if "al_unpromised b key st w = Err e'" for e'
    using that by (auto simp: al_unpromised_def and_then_eq_Err dest: al_held_total_Err)
  moreover have "(\<exists>r. al_unpromised b key st w = Ok r) \<longleftrightarrow> held_sum b key \<le> unat st"
  proof
    assume "held_sum b key \<le> unat st"
    then obtain h where "al_held_total b key = Ok h"
      using held_le_bound [of b key] unat_bound [of st] by (cases "al_held_total b key") fastforce+
    moreover from this \<open>held_sum b key \<le> unat st\<close> have "checked_sub st h = Some (st - h)"
      by (simp add: al_held_total_Ok checked_sub_def word_le_nat_alt)
    ultimately show "\<exists>r. al_unpromised b key st w = Ok r" by (simp add: al_unpromised_def)
  qed (auto simp: al_unpromised_Ok)
  ultimately show ?thesis by (cases "al_unpromised b key st w") (auto simp: not_le)
qed

text \<open>C12 The judgment of a movement, every branch, over the naturals. A cell that is not an amount is
  its decode error; a credit past 128 bits is \<open>CellOverflow\<close>; reservations the credited cell does not
  cover are \<open>HeldExceedsCommitted\<close>; a debit past what reservations, fee holds and the credits
  withheld from the transaction leave is \<open>CellUnderflow\<close>; and otherwise the cell takes exactly
  committed plus credit minus debit, which still covers every reservation.\<close>

theorem judge_movement_exact:
  "al_judge_movement b key tx credit debit =
    (case al_amount b key of
       Err e \<Rightarrow> Err e
     | Ok st \<Rightarrow>
         if 2 ^ 128 \<le> unat st + unat credit then Err (ModeErr CellOverflow)
         else if unat st + unat credit < held_sum b key then Err (HeldExceedsCommitted key)
         else if unat st + unat credit - held_sum b key - unat (fee_total (base_fee_holds b key))
                   - unat (kept_from (base_withheld_credits b key) tx) < unat debit
           then Err (ModeErr CellUnderflow)
         else Ok (st + credit - debit))"
proof (cases "al_amount b key")
  case (Ok st)
  let ?w = "kept_from (base_withheld_credits b key) tx"
  show ?thesis
  proof (cases "checked_add st credit")
    case None
    then have "2 ^ 128 \<le> unat st + unat credit" by (simp add: checked_add_eq_None)
    with Ok None show ?thesis by (simp add: al_judge_movement_def)
  next
    case (Some credited)
    then have c: "unat credited = unat st + unat credit" by (simp add: checked_add_eq_Some)
    then have "\<not> 2 ^ 128 \<le> unat st + unat credit" using unat_bound [of credited] by simp
    moreover have "st + credit = credited" using Some by (simp add: checked_add_def split: if_splits)
    moreover note Ok Some c
    ultimately show ?thesis
    proof (cases "al_unpromised b key credited ?w")
      case room: (Ok room)
      from room [unfolded al_unpromised_Ok] \<open>st + credit = credited\<close> Ok Some c room \<open>\<not> _ \<le> _\<close>
      show ?thesis by (simp add: al_judge_movement_def word_less_nat_alt)
    next
      case err: (Err e)
      from err [unfolded al_unpromised_Err] Ok Some c err \<open>\<not> _ \<le> _\<close>
      show ?thesis by (simp add: al_judge_movement_def)
    qed
  qed
qed (simp add: al_judge_movement_def)

lemma judge_movement_Ok:
  assumes "al_judge_movement b key tx credit debit = Ok after"
  shows "held_sum b key \<le> unat after"
    and "unat after + unat debit = standing b key + unat credit"
proof -
  obtain st credited room where
    *: "al_amount b key = Ok st" "checked_add st credit = Some credited"
    "al_unpromised b key credited (kept_from (base_withheld_credits b key) tx) = Ok room"
    "debit \<le> room" "after = credited - debit"
    using assms by (auto simp: al_judge_movement_def split: if_splits)
  have room: "held_sum b key \<le> unat credited" "unat room \<le> unat credited - held_sum b key"
    using *(3) by (simp_all add: al_unpromised_Ok)
  have d: "unat debit \<le> unat room" using *(4) by (simp add: word_le_nat_alt)
  then have "debit \<le> credited" using room by (simp add: word_le_nat_alt)
  then have "unat after = unat credited - unat debit" using *(5) by (simp add: unat_sub_le)
  moreover have "unat credited = unat st + unat credit" using *(2) by (simp add: checked_add_eq_Some)
  ultimately show "held_sum b key \<le> unat after" "unat after + unat debit = standing b key + unat credit"
    using room d *(1) by (simp_all add: standing_def)
qed


subsection \<open>Every call keeps the ledger funded\<close>

abbreviation sound :: "ledger_state \<Rightarrow> bool" where
  "sound st \<equiv> funded (fst st) \<and> coherent (fst st)"

lemma sound_apply_movement: "sound st \<Longrightarrow> sound (snd (al_apply_movement spec_ledger key tx c d st))"
  by (cases st)
     (auto simp: al_apply_movement_def funded_def split: result.split dest!: judge_movement_Ok(1))

lemma sound_drop_hold: "sound (b, q) \<Longrightarrow> sound (put_hold key tx None b, q)"
  by (auto simp: funded_def held_sum_put_hold intro: le_trans [OF diff_le_self])

lemma sound_release: "sound st \<Longrightarrow> sound (snd (al_release spec_ledger key tx st))"
  using sound_drop_hold [of "fst st" "snd st"]
  by (cases st) (auto simp: al_release_def split: result.split)

lemma coherent_get: "coherent b \<Longrightarrow> base_held_reservation b key tx = bt_get (base_holds b key) tx"
  by (simp add: coherent_def)

lemma held_le_sum: "bt_get (base_holds b key) tx = Some a \<Longrightarrow> unat a \<le> held_sum b key"
  unfolding held_sum_def by (rule bt_sum_get_le [where f = "\<lambda>_ a. unat a"])

lemma sound_settle: "sound st \<Longrightarrow> sound (snd (al_settle spec_ledger key tx st))"
proof (cases st)
  case (Pair b q)
  assume sound: "sound st"
  show ?thesis
  proof (cases "fst (al_settle spec_ledger key tx st)")
    case (Ok a)
    then obtain s after where
      *: "base_held_reservation b key tx = Some a" "al_amount b key = Ok s" "checked_sub s a = Some after"
      "snd (al_settle spec_ledger key tx st) = (put_amount key after (put_hold key tx None b), q)"
      using Pair by (auto simp: al_settle_def split: result.splits)
    have "bt_get (base_holds b key) tx = Some a" using sound * Pair by (simp add: coherent_get)
    moreover have "unat s = unat a + unat after" using * by (simp add: checked_sub_eq_Some)
    moreover have "held_sum b key \<le> unat s" using sound Pair * by (auto simp: funded_def standing_def dest: spec [of _ key])
    ultimately show ?thesis using sound Pair * by (auto simp: funded_def held_sum_put_hold)
  qed (use sound in \<open>auto simp: al_settle_def split: result.splits\<close>)
qed

lemma sound_reduce_hold: "sound st \<Longrightarrow> sound (al_reduce_hold spec_ledger key tx a st)"
proof (cases st)
  case (Pair b q)
  assume sound: "sound st"
  define h where "h = (case bt_get (base_holds b key) tx of Some h \<Rightarrow> h | None \<Rightarrow> 0)"
  have red: "al_reduce_hold spec_ledger key tx a st = (put_hold key tx (Some (min a h)) b, q)"
    using sound Pair by (simp add: al_reduce_hold_def h_def coherent_get)
  have "unat (min a h) + (held_sum b key - unat h) \<le> held_sum b key"
    using held_le_sum [of b key tx] by (auto simp: h_def min_def word_le_nat_alt split: option.splits)
  moreover have "(case bt_get (base_holds b key) tx of Some a \<Rightarrow> unat a | None \<Rightarrow> 0) = unat h"
    by (simp add: h_def split: option.splits)
  ultimately show ?thesis
    using sound Pair unfolding red by (auto simp: funded_def held_sum_put_hold intro: le_trans)
qed

lemma find_key:
  "distinct (map fst xs) \<Longrightarrow> (k, v) \<in> set xs \<Longrightarrow> find (\<lambda>(c, _). c = k) xs = Some (k, v)"
  by (induction xs) (auto simp: image_iff)

lemma requested_mem: "distinct (map fst batch) \<Longrightarrow> (tx, a) \<in> set batch \<Longrightarrow> requested batch tx = a"
  by (simp add: requested_def find_key)

lemma sound_put_hold:
  assumes "sound (b, q)" "held_sum b key + unat a \<le> standing b key"
  shows "sound (put_hold key tx (Some a) b, q)" "held_sum (put_hold key tx (Some a) b) key \<le> held_sum b key + unat a"
  using assms by (auto simp: funded_def held_sum_put_hold)

lemma sound_hold_verdicts:
  assumes "sound (b, q)" "map fst vs = map fst rs"
    and "held_sum b key + granted rs vs \<le> standing b key"
    and "\<forall>(tx, a) \<in> set rs. requested batch tx = a"
  shows "sound (snd (hold_verdicts spec_ledger key batch vs verdicts (b, q)))"
  using assms
proof (induction vs arbitrary: rs b verdicts)
  case (Cons v vs)
  obtain tx verdict where v: "v = (tx, verdict)" by force
  with Cons.prems(2) obtain a rs' where rs: "rs = (tx, a) # rs'" "map fst vs = map fst rs'"
    by (cases rs) auto
  show ?case
  proof (cases verdict)
    case Feasible
    then have room: "held_sum b key + unat a + granted rs' vs \<le> standing b key"
      using Cons.prems(3) by (simp add: v rs)
    then have "held_sum b key + unat a \<le> standing b key" by simp
    note hold = sound_put_hold [OF Cons.prems(1) this, of tx]
    have "held_sum (put_hold key tx (Some a) b) key + granted rs' vs \<le> standing (put_hold key tx (Some a) b) key"
      using hold(2) room by simp
    with Cons.IH [OF hold(1) rs(2) this] Cons.prems(4) Feasible show ?thesis
      by (simp add: v rs is_feasible_def)
  next
    case NotFeasible
    with Cons.IH [OF Cons.prems(1) rs(2)] Cons.prems(3,4) show ?thesis
      by (simp add: v rs is_feasible_def)
  qed
qed simp

lemma sound_hold_batches:
  assumes "sound st" "\<forall>(key, batch) \<in> set batches. distinct (map fst batch)"
  shows "sound (snd (hold_batches spec_ledger batches verdicts st))"
  using assms
proof (induction batches arbitrary: verdicts st)
  case (Cons e batches)
  obtain key batch where e: "e = (key, batch)" by force
  obtain b q where st: "st = (b, q)" by force
  let ?room = "and_then (al_amount b key) (\<lambda>standing.
            al_unpromised b key standing (withheld_total (base_withheld_credits b key)))"
  show ?case
  proof (cases ?room)
    case (Ok available)
    then have "held_sum b key + unat available \<le> standing b key"
      by (auto simp: standing_def al_unpromised_Ok)
    then have "held_sum b key + granted (sort batch) (judge available batch) \<le> standing b key"
      using judge_ordered_granted [of "sort batch" available] by (simp add: judge_def)
    moreover have "\<forall>(tx, a) \<in> set (sort batch). requested batch tx = a"
      using Cons.prems(2) by (auto simp: e requested_mem)
    ultimately have "sound (snd (hold_verdicts spec_ledger key batch (judge available batch) verdicts (b, q)))"
      using Cons.prems(1) by (intro sound_hold_verdicts [where rs = "sort batch"])
        (simp_all add: st judge_def judge_ordered_tx)
    moreover obtain verdicts' st' where
      hv: "hold_verdicts spec_ledger key batch (judge available batch) verdicts (b, q) = (verdicts', st')"
      by (metis surj_pair)
    ultimately have "sound (snd (hold_batches spec_ledger batches verdicts' st'))"
      using Cons by simp
    with hv Ok show ?thesis by (simp add: e st del: and_then_eq_Ok)
  qed (use Cons.prems in \<open>simp add: e st del: and_then_eq_Ok\<close>)
qed simp

definition req_pair :: "TxHash \<times> SubstateKey \<times> u128 \<Rightarrow> TxHash \<times> SubstateKey" where
  "req_pair r = (fst r, fst (snd r))"

definition batch_of :: "(TxHash \<times> SubstateKey \<times> u128) list \<Rightarrow> SubstateKey \<Rightarrow> (TxHash \<times> u128) list" where
  "batch_of reqs key = map (\<lambda>(tx, _, a). (tx, a)) (filter (\<lambda>(_, k, _). k = key) reqs)"

definition add_request ::
  "(SubstateKey, (TxHash \<times> u128) list) btmap \<Rightarrow> TxHash \<times> SubstateKey \<times> u128
    \<Rightarrow> (SubstateKey, (TxHash \<times> u128) list) btmap" where
  "add_request m r = bt_entry [] (\<lambda>batch. batch @ [(fst r, snd (snd r))]) (fst (snd r)) m"

lemma collect_requests_spec:
  "distinct (map req_pair reqs) \<Longrightarrow> \<forall>r \<in> set reqs. \<not> bt_contains seen (req_pair r) \<Longrightarrow>
   collect_requests spec_ledger reqs seen m st = (Ok (foldl add_request m reqs), st)"
proof (induction reqs arbitrary: seen m)
  case (Cons r reqs)
  obtain tx key a where r: "r = (tx, key, a)" by (cases r) auto
  from Cons.prems have "\<not> bt_contains seen (tx, key)"
    and "\<forall>r \<in> set reqs. \<not> bt_contains (bs_insert (tx, key) seen) (req_pair r)"
    by (auto simp: r req_pair_def image_iff)
  with Cons show ?case by (simp add: r add_request_def)
qed simp

lemma collect_requests_Ok:
  "collect_requests spec_ledger reqs seen m st = (Ok m', st') \<Longrightarrow>
   distinct (map req_pair reqs) \<and> (\<forall>r \<in> set reqs. \<not> bt_contains seen (req_pair r))"
proof (induction reqs arbitrary: seen m)
  case (Cons r reqs)
  obtain tx key a where r: "r = (tx, key, a)" by (cases r) auto
  from Cons.prems have "\<not> bt_contains seen (tx, key)" by (auto simp: r split: if_splits)
  with Cons.prems Cons.IH [of "bs_insert (tx, key) seen" "bt_entry [] (\<lambda>batch. batch @ [(tx, a)]) key m"]
  show ?case by (auto simp: r req_pair_def image_iff)
qed simp

lemma collect_requests_state: "snd (collect_requests spec_ledger reqs seen m st) = st"
  by (induction reqs arbitrary: seen m) auto

lemma get_add_requests: "bt_get_or [] (foldl add_request m reqs) key = bt_get_or [] m key @ batch_of reqs key"
proof (induction reqs arbitrary: m)
  case (Cons r reqs)
  then show ?case by (cases r) (simp add: add_request_def batch_of_def)
qed (simp add: batch_of_def)

lemma contains_add_requests:
  "bt_contains (foldl add_request m reqs) key \<longleftrightarrow> bt_contains m key \<or> key \<in> (fst \<circ> snd) ` set reqs"
  by (induction reqs arbitrary: m) (auto simp: add_request_def bt_entry_def)

lemma distinct_batch_of: "distinct (map req_pair reqs) \<Longrightarrow> distinct (map fst (batch_of reqs key))"
  by (induction reqs) (auto simp: batch_of_def req_pair_def image_iff)

lemma sound_judge_and_hold: "sound st \<Longrightarrow> sound (snd (al_judge_and_hold spec_ledger reqs st))"
proof -
  assume sound: "sound st"
  obtain r st' where Pair: "collect_requests spec_ledger reqs bt_empty bt_empty st = (r, st')"
    by (metis surj_pair)
  have st': "st' = st" using collect_requests_state [of reqs bt_empty bt_empty st] Pair by simp
  show ?thesis
  proof (cases r)
    case (Ok m)
    then have dist: "distinct (map req_pair reqs)" using collect_requests_Ok Pair by blast
    then have "m = foldl add_request bt_empty reqs"
      using collect_requests_spec [OF dist, of bt_empty bt_empty st] Pair Ok by simp
    then have "\<forall>(key, batch) \<in> set (entries m). distinct (map fst batch)"
      using get_add_requests [of bt_empty reqs] distinct_batch_of [OF dist]
      by (auto dest!: bt_get_or_simps(2) [where d = "[]"])
    with sound Pair Ok st' show ?thesis
      by (simp add: al_judge_and_hold_def sound_hold_batches)
  qed (use sound Pair st' in \<open>simp add: al_judge_and_hold_def\<close>)
qed

lemma sound_set_fee_hold: "sound st \<Longrightarrow> sound (al_set_fee_hold spec_ledger key tx h st)"
  and sound_withhold_credit: "sound st \<Longrightarrow> sound (al_withhold_credit spec_ledger key tx a st)"
  by (cases st; simp add: funded_def)+

lemmas sound_calls = sound_apply_movement sound_judge_and_hold sound_settle sound_release
  sound_reduce_hold sound_set_fee_hold sound_withhold_credit

lemma sound_call: "sound st \<Longrightarrow> c \<noteq> CommitDeltas \<Longrightarrow> sound (snd (al_call spec_ledger c st))"
  using sound_calls by (cases c) (simp_all add: snd_map_prod)

lemma snd_al_run: "snd (al_run L (c # cs) s) = snd (al_run L cs (snd (al_call L c s)))"
  by (simp split: prod.split)

lemma sound_run: "sound st \<Longrightarrow> CommitDeltas \<notin> set cs \<Longrightarrow> sound (snd (al_run spec_ledger cs st))"
proof (induction cs arbitrary: st)
  case (Cons c cs)
  then have "sound (snd (al_call spec_ledger c st))" by (intro sound_call) auto
  from Cons.IH [OF this] Cons.prems show ?case unfolding snd_al_run by simp
qed simp

subsection \<open>Folding the queue is all or nothing\<close>

lemma fold_queue_Ok:
  "fold_queue b q = Ok applied \<Longrightarrow> distinct (map fst q) \<Longrightarrow>
   map_of (map (\<lambda>o'. (ad_key o', ad_after o')) applied) key =
     (case map_of q key of
        None \<Rightarrow> None
      | Some ops \<Rightarrow> (case and_then (al_amount b key) (\<lambda>before. map_err ModeErr (fold_deltas before ops)) of
          Ok after \<Rightarrow> Some after | Err _ \<Rightarrow> None))
   \<and> map ad_key applied = map fst q
   \<and> (\<forall>ops. map_of q key = Some ops \<longrightarrow>
        is_ok (and_then (al_amount b key) (\<lambda>before. map_err ModeErr (fold_deltas before ops))))"
proof (induction q arbitrary: applied)
  case (Cons e q)
  obtain k ops where e: "e = (k, ops)" by force
  from Cons.prems(1) obtain before after applied' where
    *: "al_amount b k = Ok before" "fold_deltas before ops = Ok after" "fold_queue b q = Ok applied'"
    "applied = \<lparr>ad_key = k, ad_before = before, ad_after = after\<rparr> # applied'"
    by (auto simp: e)
  with Cons.IH [OF *(3)] Cons.prems(2) show ?case by (auto simp: e)
qed simp

lemma fold_queue_Err:
  "fold_queue b q = Err e \<Longrightarrow>
   \<exists>(key, ops) \<in> set q. and_then (al_amount b key) (\<lambda>before. map_err ModeErr (fold_deltas before ops)) = Err e"
proof (induction q)
  case (Cons x q)
  obtain k ops where x: "x = (k, ops)" by force
  from Cons show ?case
    by (cases "al_amount b k"; cases "fold_queue b q")
       (auto simp: x and_then_eq_Err split: result.splits)
qed simp

lemma foldl_put_amount:
  "distinct (map ad_key applied) \<Longrightarrow>
   al_amount (foldl (\<lambda>b o'. put_amount (ad_key o') (ad_after o') b) b applied) key =
     (case map_of (map (\<lambda>o'. (ad_key o', ad_after o')) applied) key of
        Some a \<Rightarrow> Ok a | None \<Rightarrow> al_amount b key)"
proof (induction applied arbitrary: b)
  case (Cons x applied)
  then have "ad_key x \<notin> fst ` set (map (\<lambda>o'. (ad_key o', ad_after o')) applied)" by force
  then have "map_of (map (\<lambda>o'. (ad_key o', ad_after o')) applied) (ad_key x) = None"
    by (simp add: map_of_eq_None_iff)
  with Cons show ?case by (auto split: option.split)
qed simp

lemma foldl_put_holds:
  "base_holds (foldl (\<lambda>b o'. put_amount (ad_key o') (ad_after o') b) b applied) = base_holds b"
  by (induction applied arbitrary: b) (simp_all add: put_amount_def)

context amount_ledger
begin

lemma base_set_amounts:
  "al_base L (foldl (\<lambda>s o'. al_set_amount L (ad_key o') (ad_after o') s) s applied)
     = foldl (\<lambda>b o'. put_amount (ad_key o') (ad_after o') b) (al_base L s) applied"
  by (induction applied arbitrary: s) (simp_all add: laws)

lemma commit_deltas_exact:
  "case al_commit_deltas L s of
     (Err e, s') \<Rightarrow> s' = s \<and> (\<exists>key ops. bt_get (al_queued L s) key = Some ops
        \<and> and_then (al_amount (al_base L s) key) (\<lambda>before. map_err ModeErr (fold_deltas before ops)) = Err e)
   | (Ok applied, s') \<Rightarrow> al_queued L s' = bt_empty \<and> base_holds (al_base L s') = base_holds (al_base L s)
        \<and> map ad_key applied = bt_keys (al_queued L s)
        \<and> (\<forall>key. al_amount (al_base L s') key =
             (case bt_get (al_queued L s) key of
                None \<Rightarrow> al_amount (al_base L s) key
              | Some ops \<Rightarrow> and_then (al_amount (al_base L s) key) (\<lambda>before. map_err ModeErr (fold_deltas before ops))))"
proof (cases "fold_queue (al_base L s) (entries (al_queued L s))")
  case (Ok applied)
  note facts = fold_queue_Ok [OF Ok]
  then have keys: "map ad_key applied = map fst (entries (al_queued L s))" by simp
  have "distinct (map ad_key applied)" unfolding keys by simp
  note put = foldl_put_amount [OF this]
  have "al_amount (al_base L (snd (al_commit_deltas L s))) key =
             (case bt_get (al_queued L s) key of
                None \<Rightarrow> al_amount (al_base L s) key
              | Some ops \<Rightarrow> and_then (al_amount (al_base L s) key) (\<lambda>before. map_err ModeErr (fold_deltas before ops)))"
    for key
    using facts [of key]
    by (auto simp: al_commit_deltas_def Ok laws base_set_amounts put is_ok_def
        split: option.split result.splits)
  with Ok keys show ?thesis
    by (simp add: al_commit_deltas_def laws base_set_amounts foldl_put_holds bt_keys_def)
next
  case (Err e)
  from fold_queue_Err [OF this] obtain key ops where
    "bt_get (al_queued L s) key = Some ops"
    "and_then (al_amount (al_base L s) key) (\<lambda>before. map_err ModeErr (fold_deltas before ops)) = Err e"
    by auto
  with Err show ?thesis by (simp add: al_commit_deltas_def) blast
qed

end

subsection \<open>The order of a batch of requests does not matter\<close>

lemma requested_mset:
  assumes "mset batch' = mset batch" "distinct (map fst batch)"
  shows "requested batch' = requested batch"
proof
  fix tx
  have same: "set batch' = set batch" using assms(1) by (metis set_mset_mset)
  have dist: "distinct (map fst batch')"
    using assms by (metis mset_eq_imp_distinct_iff mset_map)
  show "requested batch' tx = requested batch tx"
  proof (cases "\<exists>a. (tx, a) \<in> set batch")
    case True
    then show ?thesis using requested_mem [OF dist] requested_mem [OF assms(2)] same by blast
  next
    case False
    then have "find (\<lambda>(c, _). c = tx) xs = None" if "set xs = set batch" for xs :: "(TxHash \<times> u128) list"
      using that by (auto simp: find_None_iff)
    then show ?thesis using same by (simp add: requested_def)
  qed
qed

lemma hold_verdicts_batch:
  "requested batch' = requested batch \<Longrightarrow>
   hold_verdicts L key batch' vs verdicts s = hold_verdicts L key batch vs verdicts s"
  by (induction vs arbitrary: verdicts s) auto

lemma hold_batches_mset:
  assumes "\<And>key. mset (g key) = mset (f key)" "\<And>key. distinct (map fst (f key))"
  shows "hold_batches L (map (\<lambda>k. (k, g k)) keys) verdicts s = hold_batches L (map (\<lambda>k. (k, f k)) keys) verdicts s"
proof (induction keys arbitrary: verdicts s)
  case (Cons k keys)
  have "judge a (g k) = judge a (f k)" for a using assms(1) by (rule judge_mset)
  moreover have "hold_verdicts L k (g k) vs v s = hold_verdicts L k (f k) vs v s" for vs v s
    using assms by (intro hold_verdicts_batch requested_mset)
  ultimately show ?case by (simp add: Cons del: and_then_eq_Ok split: result.split prod.split)
qed simp

lemma entries_by_key: "entries m = map (\<lambda>k. (k, bt_get_or d m k)) (bt_keys m)"
proof -
  have "(fst e, bt_get_or d m (fst e)) = e" if "e \<in> set (entries m)" for e
    using that mem_entries_iff [of "fst e" "snd e" m] by (simp add: bt_get_or_def prod_eq_iff)
  then show ?thesis by (simp add: bt_keys_def comp_def map_idI)
qed

lemma bt_keys_cong:
  "(\<And>k. bt_contains m k \<longleftrightarrow> bt_contains m' k) \<Longrightarrow> bt_keys m = bt_keys m'"
  using sorted_entries [of m] sorted_entries [of m']
  by (intro strict_sorted_equal) (auto simp: bt_keys_def [symmetric] simp flip: mem_keys_iff)

lemma spec_judge_and_hold_mset:
  assumes "mset reqs' = mset reqs" "distinct (map req_pair reqs)"
  shows "al_judge_and_hold spec_ledger reqs' st = al_judge_and_hold spec_ledger reqs st"
proof -
  have same: "set reqs' = set reqs" using assms(1) by (metis set_mset_mset)
  have dist: "distinct (map req_pair reqs')"
    using assms by (metis mset_eq_imp_distinct_iff mset_map)
  let ?m = "foldl add_request bt_empty reqs" and ?m' = "foldl add_request bt_empty reqs'"
  have keys: "bt_keys ?m' = bt_keys ?m"
    by (rule bt_keys_cong) (simp add: contains_add_requests same)
  have "mset (batch_of reqs' key) = mset (batch_of reqs key)" for key
    using assms(1) by (simp add: batch_of_def)
  then have "hold_batches spec_ledger (map (\<lambda>k. (k, batch_of reqs' k)) (bt_keys ?m)) bt_empty st
      = hold_batches spec_ledger (map (\<lambda>k. (k, batch_of reqs k)) (bt_keys ?m)) bt_empty st"
    using distinct_batch_of [OF assms(2)] by (rule hold_batches_mset)
  then show ?thesis
    using assms(2) dist keys
    by (simp add: al_judge_and_hold_def collect_requests_spec get_add_requests
        entries_by_key [where d = "[]"])
qed

context amount_ledger
begin

lemma judge_and_hold_mset:
  assumes "mset reqs' = mset reqs" "distinct (map req_pair reqs)"
  shows "fst (al_judge_and_hold L reqs' s) = fst (al_judge_and_hold L reqs s)"
    and "ledger_abs L (snd (al_judge_and_hold L reqs' s)) = ledger_abs L (snd (al_judge_and_hold L reqs s))"
  using spec_judge_and_hold_mset [OF assms, of "ledger_abs L s"]
  by (simp_all flip: abs_judge_and_hold) (metis fst_map_prod snd_map_prod id_apply)+

text \<open>Under the funded invariant a call sequence without a queue fold keeps it.\<close>

lemma funded_run:
  assumes "funded (al_base L s)" "coherent (al_base L s)" "CommitDeltas \<notin> set cs"
  shows "funded (al_base L (snd (al_run L cs s)))" "coherent (al_base L (snd (al_run L cs s)))"
proof -
  have funded: "funded (forget_entries b) = funded b" and coherent: "coherent (forget_entries b) = coherent b" for b
    by (simp_all add: funded_def held_sum_def standing_def coherent_def)
  have "sound (ledger_abs L s)" using assms by (simp add: abs_base funded coherent)
  from sound_run [OF this assms(3)] have "sound (ledger_abs L (snd (al_run L cs s)))"
    by (simp flip: abs_run add: snd_map_prod)
  then show "funded (al_base L (snd (al_run L cs s)))" "coherent (al_base L (snd (al_run L cs s)))"
    by (simp_all add: abs_base funded coherent)
qed

text \<open>A standing reservation can always be settled.\<close>

lemma settle_succeeds:
  assumes "funded (al_base L s)" "coherent (al_base L s)"
    and "base_held_reservation (al_base L s) key tx = Some a" "al_amount (al_base L s) key = Ok st"
  shows "fst (al_settle L key tx s) = Ok a
    \<and> al_amount (al_base L (snd (al_settle L key tx s))) key = Ok (st - a)
    \<and> base_held_reservation (al_base L (snd (al_settle L key tx s))) key tx = None"
proof -
  have "unat a \<le> held_sum (al_base L s) key"
    using assms(2,3) by (intro held_le_sum) (simp add: coherent_get)
  also have "\<dots> \<le> unat st" using assms(1,4) by (auto simp: funded_def standing_def dest: spec [of _ key])
  finally have "checked_sub st a = Some (st - a)" by (simp add: checked_sub_def word_le_nat_alt)
  with assms show ?thesis by (simp add: al_settle_def laws) (simp add: put_defs)
qed

end


subsection \<open>The in-memory store is a ledger\<close>

definition memory_ledger :: "MemoryStore AmountLedger" where
  "memory_ledger =
    \<lparr>al_base = memory_baseline,
     al_set_amount = ms_set_amount,
     al_set_hold = ms_set_hold,
     al_set_fee_hold = ms_set_fee_hold,
     al_withhold_credit = ms_withhold_credit,
     al_note = ms_note,
     al_queued = ms_queued,
     al_clear_queued = ms_clear_queued\<rparr>"

lemmas ms_view_defs = ms_cell_def [abs_def] ms_entries_in_range_def [abs_def] ms_holds_def [abs_def]
  ms_fee_holds_def [abs_def] ms_withheld_credits_def [abs_def] ms_held_reservation_def [abs_def] ms_queued_def

interpretation ml: amount_ledger memory_ledger
proof
  show "al_base memory_ledger (al_set_amount memory_ledger key a s)
      = put_amount key a (al_base memory_ledger s)" for key a s
    by (simp add: memory_ledger_def memory_baseline_def ms_set_amount_def ms_view_defs put_defs fun_eq_iff
        split: option.split)
  show "al_base memory_ledger (al_set_hold memory_ledger key tx h s)
      = put_hold key tx h (al_base memory_ledger s)" for key tx h s
    by (cases h; cases "bt_get (ms_held s) key")
       (auto simp: memory_ledger_def memory_baseline_def ms_set_hold_def ms_view_defs put_defs fun_eq_iff
         bt_get_or_def)
  show "al_base memory_ledger (al_set_fee_hold memory_ledger key tx h s)
      = put_fee_hold key tx h (al_base memory_ledger s)" for key tx h s
    by (cases h; cases "bt_get (ms_fee_held s) key")
       (auto simp: memory_ledger_def memory_baseline_def ms_set_fee_hold_def ms_view_defs put_defs fun_eq_iff
         bt_get_or_def fee_holds_default_def)
  show "al_base memory_ledger (al_withhold_credit memory_ledger key tx c s)
      = put_withheld key tx c (al_base memory_ledger s)" for key tx c s
    by (simp add: memory_ledger_def memory_baseline_def ms_withhold_credit_def ms_view_defs put_defs fun_eq_iff)
qed (simp_all add: memory_ledger_def memory_baseline_def ms_note_def ms_clear_queued_def ms_view_defs
      ms_set_amount_def ms_set_hold_def ms_set_fee_hold_def ms_withhold_credit_def fun_eq_iff
      split: option.split)

end
