(* ===== verification/Overlay.thy ===== *)
theory Overlay
  imports Ledger Oracle
begin

text \<open>
  \<open>crates/kernel/src/overlay.rs\<close>: the transactional view execution runs against, two
  layers of changes over a read-only base. The active layer is the executing
  transaction's; \<open>merge_active\<close> makes it part of what the group has threaded and
  \<open>discard_active\<close> drops it. An overlay is a ledger and a baseline in its turn, and
  both locales are interpreted on it here. The lemmas show that every lookup, scan
  and ledger call on an overlay answers as the collapsed store does.
\<close>

type_synonym EntryChanges = "(u128, bytes option) btmap"

record Layer =
  ly_cells :: "(SubstateKey, bytes option) btmap"
  ly_entries :: "(Address \<times> CollectionId, EntryChanges) btmap"
  ly_pending_deltas :: "(SubstateKey, DeltaOp list) btmap"
  ly_held :: "(SubstateKey, (TxHash, u128 option) btmap) btmap"
  ly_fee_held :: "(SubstateKey, (TxHash, u128 option) btmap) btmap"
  ly_withheld :: "(SubstateKey, (TxHash, u128) btmap) btmap"

definition layer_default :: Layer where
  "layer_default = \<lparr>ly_cells = bt_empty, ly_entries = bt_empty, ly_pending_deltas = bt_empty,
                    ly_held = bt_empty, ly_fee_held = bt_empty, ly_withheld = bt_empty\<rparr>"

definition layer_range ::
  "Layer \<Rightarrow> Address \<Rightarrow> CollectionId \<Rightarrow> u128 \<Rightarrow> u128 \<Rightarrow> (u128 \<times> bytes option) list" where
  "layer_range layer owner collection lo hi =
    bt_range lo hi (bt_get_or bt_empty (ly_entries layer) (owner, collection))"

fun apply_hold_change :: "('k::linorder, 'v) btmap \<Rightarrow> 'k \<times> 'v option \<Rightarrow> ('k, 'v) btmap" where
  "apply_hold_change holds (tx, Some amount) = bt_insert tx amount holds"
| "apply_hold_change holds (tx, None) = bt_remove tx holds"

definition apply_hold_changes ::
  "('k::linorder, 'v) btmap \<Rightarrow> ('k, 'v option) btmap \<Rightarrow> ('k, 'v) btmap" where
  "apply_hold_changes holds changes = foldl apply_hold_change holds (entries changes)"

record OverlayStore =
  ov_base :: Baseline
  ov_committed :: Layer
  ov_active :: Layer
  ov_log :: "Access list"

definition ov_new :: "Baseline \<Rightarrow> OverlayStore" where
  "ov_new b = \<lparr>ov_base = b, ov_committed = layer_default, ov_active = layer_default, ov_log = []\<rparr>"

definition ov_access_log :: "OverlayStore \<Rightarrow> Access list" where
  "ov_access_log s = ov_log s"

definition ov_clear_log :: "OverlayStore \<Rightarrow> OverlayStore" where
  "ov_clear_log s = s\<lparr>ov_log := []\<rparr>"

definition ov_record :: "EffectTarget \<Rightarrow> ModeKind \<Rightarrow> OverlayStore \<Rightarrow> OverlayStore" where
  "ov_record target k s = s\<lparr>ov_log := ov_log s @ [\<lparr>acc_target = target, acc_kind = k\<rparr>]\<rparr>"


subsection \<open>Reading through the layers\<close>

definition ov_pre_active_cell :: "OverlayStore \<Rightarrow> SubstateKey \<Rightarrow> bytes option" where
  "ov_pre_active_cell s key =
    (case bt_get (ly_cells (ov_committed s)) key of
       Some change \<Rightarrow> change
     | None \<Rightarrow> base_cell (ov_base s) key)"

definition ov_cell_value :: "OverlayStore \<Rightarrow> SubstateKey \<Rightarrow> bytes option" where
  "ov_cell_value s key =
    (case bt_get (ly_cells (ov_active s)) key of
       Some change \<Rightarrow> change
     | None \<Rightarrow>
         (case bt_get (ly_cells (ov_committed s)) key of
            Some change \<Rightarrow> change
          | None \<Rightarrow> base_cell (ov_base s) key))"

definition ov_active_cells :: "OverlayStore \<Rightarrow> (SubstateKey \<times> bytes option) list" where
  "ov_active_cells s = entries (ly_cells (ov_active s))"

definition layer_entry :: "Layer \<Rightarrow> Address \<Rightarrow> CollectionId \<Rightarrow> u128 \<Rightarrow> bytes option option" where
  "layer_entry layer owner collection order =
    Option.bind (bt_get (ly_entries layer) (owner, collection)) (\<lambda>es. bt_get es order)"

definition ov_pre_active_entry :: "OverlayStore \<Rightarrow> Address \<Rightarrow> CollectionId \<Rightarrow> u128 \<Rightarrow> bytes option" where
  "ov_pre_active_entry s owner collection order =
    (case layer_entry (ov_committed s) owner collection order of
       Some change \<Rightarrow> change
     | None \<Rightarrow>
         map_option snd
           (case base_entries_in_range (ov_base s) owner collection order order 1 of
              [] \<Rightarrow> None | e # _ \<Rightarrow> Some e))"

definition ov_active_entries :: "OverlayStore \<Rightarrow> (EntryKey \<times> bytes option) list" where
  "ov_active_entries s =
    concat (map (\<lambda>((owner, collection), es).
        map (\<lambda>(order, change). (EntryKey owner collection order, change)) (entries es))
      (entries (ly_entries (ov_active s))))"

definition ov_entry_value :: "OverlayStore \<Rightarrow> Address \<Rightarrow> CollectionId \<Rightarrow> u128 \<Rightarrow> bytes option" where
  "ov_entry_value s owner collection order =
    (case layer_entry (ov_active s) owner collection order of
       Some change \<Rightarrow> change
     | None \<Rightarrow> ov_pre_active_entry s owner collection order)"

definition layer_holds ::
  "(SubstateKey, (TxHash, u128 option) btmap) btmap \<Rightarrow> SubstateKey \<Rightarrow> (TxHash, u128) btmap \<Rightarrow> (TxHash, u128) btmap" where
  "layer_holds changes key holds =
    (case bt_get changes key of Some c \<Rightarrow> apply_hold_changes holds c | None \<Rightarrow> holds)"

definition ov_effective_holds :: "OverlayStore \<Rightarrow> SubstateKey \<Rightarrow> (TxHash, u128) btmap" where
  "ov_effective_holds s key =
    layer_holds (ly_held (ov_active s)) key
      (layer_holds (ly_held (ov_committed s)) key (base_holds (ov_base s) key))"

definition ov_effective_fee_holds :: "OverlayStore \<Rightarrow> SubstateKey \<Rightarrow> FeeHolds" where
  "ov_effective_fee_holds s key =
    fh_members_update (layer_holds (ly_fee_held (ov_active s)) key)
      (fh_members_update (layer_holds (ly_fee_held (ov_committed s)) key) (base_fee_holds (ov_base s) key))"

definition layer_withheld ::
  "(SubstateKey, (TxHash, u128) btmap) btmap \<Rightarrow> SubstateKey \<Rightarrow> (TxHash, u128) btmap \<Rightarrow> (TxHash, u128) btmap" where
  "layer_withheld creds key members =
    (case bt_get creds key of Some c \<Rightarrow> bt_extend members (entries c) | None \<Rightarrow> members)"

definition ov_effective_withheld_credits :: "OverlayStore \<Rightarrow> SubstateKey \<Rightarrow> WithheldCredits" where
  "ov_effective_withheld_credits s key =
    wc_members_update (layer_withheld (ly_withheld (ov_active s)) key)
      (wc_members_update (layer_withheld (ly_withheld (ov_committed s)) key)
        (base_withheld_credits (ov_base s) key))"

definition layer_hold :: "Layer \<Rightarrow> SubstateKey \<Rightarrow> TxHash \<Rightarrow> u128 option option" where
  "layer_hold layer key tx = Option.bind (bt_get (ly_held layer) key) (\<lambda>holds. bt_get holds tx)"

definition ov_held_reservation :: "OverlayStore \<Rightarrow> SubstateKey \<Rightarrow> TxHash \<Rightarrow> u128 option" where
  "ov_held_reservation s key tx =
    (case layer_hold (ov_active s) key tx of
       Some change \<Rightarrow> change
     | None \<Rightarrow>
         (case layer_hold (ov_committed s) key tx of
            Some change \<Rightarrow> change
          | None \<Rightarrow> base_held_reservation (ov_base s) key tx))"

definition extend_queue ::
  "(SubstateKey, DeltaOp list) btmap \<Rightarrow> (SubstateKey \<times> DeltaOp list) list \<Rightarrow> (SubstateKey, DeltaOp list) btmap" where
  "extend_queue m q = foldl (\<lambda>m (key, ops). bt_entry [] (\<lambda>queued. queued @ ops) key m) m q"

definition ov_pending_map :: "OverlayStore \<Rightarrow> (SubstateKey, DeltaOp list) btmap" where
  "ov_pending_map s =
    extend_queue (ly_pending_deltas (ov_committed s)) (entries (ly_pending_deltas (ov_active s)))"

definition ov_has_layered_cells :: "OverlayStore \<Rightarrow> bool" where
  "ov_has_layered_cells s =
    (\<not> bt_is_empty (ly_cells (ov_active s)) \<or> \<not> bt_is_empty (ly_cells (ov_committed s)))"

definition ov_layered_cell :: "OverlayStore \<Rightarrow> SubstateKey \<Rightarrow> bool" where
  "ov_layered_cell s key =
    (case (case bt_get (ly_cells (ov_active s)) key of
             Some c \<Rightarrow> Some c
           | None \<Rightarrow> bt_get (ly_cells (ov_committed s)) key) of
       Some change \<Rightarrow> change \<noteq> None
     | None \<Rightarrow> False)"

text \<open>The three-way merge of a scan. \<open>usize\<close> is 64 bits wide.\<close>

definition usize_max :: nat where "usize_max = 2 ^ 64 - 1"

definition usize_saturating_add :: "nat \<Rightarrow> nat \<Rightarrow> nat" where
  "usize_saturating_add a b = min (a + b) usize_max"

definition peek :: "('k \<times> 'v) list \<Rightarrow> 'k option" where
  "peek xs = (case xs of [] \<Rightarrow> None | e # _ \<Rightarrow> Some (fst e))"

definition next_if :: "'k \<Rightarrow> ('k \<times> 'v) list \<Rightarrow> 'v option \<times> ('k \<times> 'v) list" where
  "next_if order xs =
    (case xs of
       [] \<Rightarrow> (None, [])
     | (k, v) # rest \<Rightarrow> if k = order then (Some v, rest) else (None, xs))"

definition least_order :: "u128 option list \<Rightarrow> u128 option" where
  "least_order os = (case List.map_filter id os of [] \<Rightarrow> None | x # xs \<Rightarrow> Some (foldl min x xs))"

lemma set_map_filter_id: "y \<in> set (List.map_filter id os) \<longleftrightarrow> Some y \<in> set os"
  by (induction os) (auto simp: map_filter_simps split: option.splits)

lemma least_order_mem: "least_order os = Some x \<Longrightarrow> Some x \<in> set os"
proof -
  have fold: "foldl min y ys \<in> insert y (set ys)" for y :: u128 and ys
  proof (induction ys arbitrary: y)
    case (Cons z ys)
    from Cons [of "min y z"] show ?case by (auto simp: min_def split: if_splits)
  qed simp
  assume "least_order os = Some x"
  then obtain y ys where "List.map_filter id os = y # ys" "x = foldl min y ys"
    by (auto simp: least_order_def split: list.splits)
  with fold have "x \<in> set (List.map_filter id os)" by auto
  then show ?thesis by (simp add: set_map_filter_id)
qed

lemma length_next_if: "length (snd (next_if order xs)) \<le> length xs"
  by (auto simp: next_if_def split: list.split)

lemma length_next_if_peek: "peek xs = Some order \<Longrightarrow> length (snd (next_if order xs)) < length xs"
  by (auto simp: next_if_def peek_def split: list.splits)

function merge_hits ::
  "nat \<Rightarrow> (u128 \<times> bytes option) list \<Rightarrow> (u128 \<times> bytes option) list \<Rightarrow> (u128 \<times> bytes) list
    \<Rightarrow> (u128 \<times> bytes) list" where
  "merge_hits room active committed base =
    (if room = 0 then []
     else (case least_order [peek active, peek committed, peek base] of
        None \<Rightarrow> []
      | Some order \<Rightarrow>
          (let (active_hit, active') = next_if order active;
               (committed_hit, committed') = next_if order committed;
               (base_hit, base') = next_if order base in
           case (case active_hit of Some c \<Rightarrow> c
                 | None \<Rightarrow> (case committed_hit of Some c \<Rightarrow> c | None \<Rightarrow> base_hit)) of
             Some v \<Rightarrow> (order, v) # merge_hits (room - 1) active' committed' base'
           | None \<Rightarrow> merge_hits room active' committed' base')))"
  by pat_completeness auto

lemma merge_step_shorter:
  assumes "least_order [peek active, peek committed, peek base] = Some order"
  shows "length (snd (next_if order active)) + length (snd (next_if order committed))
      + length (snd (next_if order base)) < length active + length committed + length base"
  using least_order_mem [OF assms] length_next_if [of order active] length_next_if [of order committed]
    length_next_if [of order base] length_next_if_peek [of active order]
    length_next_if_peek [of committed order] length_next_if_peek [of base order]
  by auto

termination merge_hits
proof (relation "measure (\<lambda>(_, a, c, b). length a + length c + length b)")
qed (auto dest!: merge_step_shorter simp: prod_eq_iff)

declare merge_hits.simps [simp del]

definition ov_merged_entries ::
  "OverlayStore \<Rightarrow> Address \<Rightarrow> CollectionId \<Rightarrow> u128 \<Rightarrow> u128 \<Rightarrow> nat \<Rightarrow> (u128 \<times> bytes) list" where
  "ov_merged_entries s owner collection lo hi limit =
    (if lo > hi \<or> limit = 0 then []
     else
       (let tombstones = length (filter (\<lambda>(_, change). change = None)
              (layer_range (ov_committed s) owner collection lo hi
               @ layer_range (ov_active s) owner collection lo hi));
            base = base_entries_in_range (ov_base s) owner collection lo hi
              (usize_saturating_add limit tombstones)
        in merge_hits limit (layer_range (ov_active s) owner collection lo hi)
             (layer_range (ov_committed s) owner collection lo hi) base))"

definition overlay_baseline :: "OverlayStore \<Rightarrow> Baseline" where
  "overlay_baseline s =
    \<lparr>base_cell = ov_cell_value s,
     base_entries_in_range = ov_merged_entries s,
     base_holds = ov_effective_holds s,
     base_fee_holds = ov_effective_fee_holds s,
     base_withheld_credits = ov_effective_withheld_credits s,
     base_held_reservation = ov_held_reservation s\<rparr>"


subsection \<open>Changing the layers\<close>

definition ov_hold_unjudged :: "SubstateKey \<Rightarrow> TxHash \<Rightarrow> u128 \<Rightarrow> OverlayStore \<Rightarrow> OverlayStore" where
  "ov_hold_unjudged key tx amount s =
    (let s' = ov_record (Point key) KReserve s in
     s'\<lparr>ov_active := (ov_active s')
        \<lparr>ly_held := bt_entry bt_empty (bt_insert tx (Some amount)) key (ly_held (ov_active s'))\<rparr>\<rparr>)"

definition ov_retain_pending_deltas :: "(SubstateKey \<Rightarrow> bool) \<Rightarrow> OverlayStore \<Rightarrow> OverlayStore" where
  "ov_retain_pending_deltas keep s =
    (let s' = s\<lparr>ov_active := (ov_active s)
            \<lparr>ly_pending_deltas := bt_filter (\<lambda>key _. keep key) (ly_pending_deltas (ov_active s))\<rparr>\<rparr>
     in if list_ex (\<lambda>key. \<not> keep key) (bt_keys (ly_pending_deltas (ov_committed s')))
        then s'\<lparr>ov_committed := (ov_committed s')
            \<lparr>ly_pending_deltas := bt_filter (\<lambda>key _. keep key) (ly_pending_deltas (ov_committed s'))\<rparr>\<rparr>
        else s')"

definition extend_nested ::
  "('k::linorder, ('j::linorder, 'v) btmap) btmap \<Rightarrow> ('k, ('j, 'v) btmap) btmap \<Rightarrow> ('k, ('j, 'v) btmap) btmap" where
  "extend_nested m n =
    foldl (\<lambda>m (k, inner). bt_entry bt_empty (\<lambda>standing. bt_extend standing (entries inner)) k m) m (entries n)"

definition ov_merge_active :: "OverlayStore \<Rightarrow> OverlayStore" where
  "ov_merge_active s =
    (let c = ov_committed s; a = ov_active s in
     s\<lparr>ov_active := layer_default,
       ov_committed :=
         \<lparr>ly_cells = bt_extend (ly_cells c) (entries (ly_cells a)),
          ly_entries = extend_nested (ly_entries c) (ly_entries a),
          ly_pending_deltas = extend_queue (ly_pending_deltas c) (entries (ly_pending_deltas a)),
          ly_held = extend_nested (ly_held c) (ly_held a),
          ly_fee_held = extend_nested (ly_fee_held c) (ly_fee_held a),
          ly_withheld = extend_nested (ly_withheld c) (ly_withheld a)\<rparr>\<rparr>)"

definition ov_discard_active :: "OverlayStore \<Rightarrow> OverlayStore" where
  "ov_discard_active s = s\<lparr>ov_active := layer_default\<rparr>"

text \<open>Both layers applied onto a plain store.\<close>

fun collapse_cell :: "MemoryStore \<Rightarrow> SubstateKey \<times> bytes option \<Rightarrow> MemoryStore" where
  "collapse_cell m (key, Some v) = m\<lparr>ms_cells := bt_insert key v (ms_cells m)\<rparr>"
| "collapse_cell m (key, None) = m\<lparr>ms_cells := bt_remove key (ms_cells m)\<rparr>"

fun collapse_entry :: "Address \<times> CollectionId \<Rightarrow> MemoryStore \<Rightarrow> u128 \<times> bytes option \<Rightarrow> MemoryStore" where
  "collapse_entry on m (order, Some v) =
    m\<lparr>ms_entries := bt_entry bt_empty (bt_insert order v) on (ms_entries m)\<rparr>"
| "collapse_entry on m (order, None) = m\<lparr>ms_entries := bt_modify (bt_remove order) on (ms_entries m)\<rparr>"

definition collapse_layer :: "Layer \<Rightarrow> MemoryStore \<Rightarrow> MemoryStore" where
  "collapse_layer layer m0 =
    (let m1 = foldl collapse_cell m0 (entries (ly_cells layer));
         m2 = foldl (\<lambda>m (on, es). foldl (collapse_entry on) m (entries es)) m1 (entries (ly_entries layer));
         m3 = m2\<lparr>ms_pending_deltas := extend_queue (ms_pending_deltas m2) (entries (ly_pending_deltas layer))\<rparr>;
         m4 = foldl (\<lambda>m (key, holds). foldl (\<lambda>m (tx, change). ms_set_hold key tx change m) m (entries holds))
                m3 (entries (ly_held layer));
         m5 = foldl (\<lambda>m (key, holds). foldl (\<lambda>m (tx, change). ms_set_fee_hold key tx change m) m (entries holds))
                m4 (entries (ly_fee_held layer))
     in foldl (\<lambda>m (key, creds). foldl (\<lambda>m (tx, credit). ms_withhold_credit key tx credit m) m (entries creds))
          m5 (entries (ly_withheld layer)))"

definition ov_collapse_onto :: "OverlayStore \<Rightarrow> MemoryStore \<Rightarrow> MemoryStore" where
  "ov_collapse_onto s m = collapse_layer (ov_active s) (collapse_layer (ov_committed s) m)"

subsection \<open>The store a transaction executes against\<close>

definition ov_read :: "SubstateKey \<Rightarrow> OverlayStore \<Rightarrow> (StoreError, bytes option) result \<times> OverlayStore" where
  "ov_read key s = (let s' = ov_record (Point key) KRead s in (Ok (ov_cell_value s' key), s'))"

definition put_cell :: "SubstateKey \<Rightarrow> bytes option \<Rightarrow> OverlayStore \<Rightarrow> OverlayStore" where
  "put_cell key change s =
    s\<lparr>ov_active := (ov_active s)\<lparr>ly_cells := bt_insert key change (ly_cells (ov_active s))\<rparr>\<rparr>"

definition put_entry :: "Address \<Rightarrow> CollectionId \<Rightarrow> u128 \<Rightarrow> bytes option \<Rightarrow> OverlayStore \<Rightarrow> OverlayStore" where
  "put_entry owner collection order change s =
    s\<lparr>ov_active := (ov_active s)
       \<lparr>ly_entries := bt_entry bt_empty (bt_insert order change) (owner, collection) (ly_entries (ov_active s))\<rparr>\<rparr>"

definition ov_write ::
  "SubstateKey \<Rightarrow> bytes \<Rightarrow> OverlayStore \<Rightarrow> (StoreError, unit) result \<times> OverlayStore" where
  "ov_write key v s = (Ok (), put_cell key (Some v) (ov_record (Point key) KWrite s))"

definition ov_remove ::
  "SubstateKey \<Rightarrow> OverlayStore \<Rightarrow> (StoreError, bytes option) result \<times> OverlayStore" where
  "ov_remove key s =
    (let s' = ov_record (Point key) KWrite s; previous = ov_cell_value s' key in
     (Ok previous, put_cell key None s'))"

definition ov_queue_delta ::
  "SubstateKey \<Rightarrow> DeltaOp \<Rightarrow> OverlayStore \<Rightarrow> (StoreError, unit) result \<times> OverlayStore" where
  "ov_queue_delta key op s =
    (let s' = ov_record (Point key) KDelta s in
     (Ok (), s'\<lparr>ov_active := (ov_active s')
        \<lparr>ly_pending_deltas := bt_entry [] (\<lambda>ops. ops @ [op]) key (ly_pending_deltas (ov_active s'))\<rparr>\<rparr>))"

definition ov_entry_write ::
  "Address \<Rightarrow> CollectionId \<Rightarrow> u128 \<Rightarrow> bytes \<Rightarrow> OverlayStore \<Rightarrow> (StoreError, unit) result \<times> OverlayStore" where
  "ov_entry_write owner collection order v s =
    (Ok (), put_entry owner collection order (Some v) (ov_record (Entry owner collection order) KWrite s))"

definition ov_entry_remove ::
  "Address \<Rightarrow> CollectionId \<Rightarrow> u128 \<Rightarrow> OverlayStore \<Rightarrow> (StoreError, bytes option) result \<times> OverlayStore" where
  "ov_entry_remove owner collection order s =
    (let s' = ov_record (Entry owner collection order) KWrite s;
         previous = ov_entry_value s' owner collection order in
     (Ok previous, put_entry owner collection order None s'))"

definition ov_entries_in_range ::
  "Address \<Rightarrow> CollectionId \<Rightarrow> u128 \<Rightarrow> u128 \<Rightarrow> u32 \<Rightarrow> OverlayStore
    \<Rightarrow> (StoreError, (u128 \<times> bytes) list) result \<times> OverlayStore" where
  "ov_entries_in_range owner collection lo hi cap s =
    (let s' = ov_record (RangeT owner collection lo hi cap) KRead s in
     (Ok (ov_merged_entries s' owner collection lo hi (unat cap)), s'))"


subsection \<open>The overlay as a ledger\<close>

definition ov_set_amount :: "SubstateKey \<Rightarrow> u128 \<Rightarrow> OverlayStore \<Rightarrow> OverlayStore" where
  "ov_set_amount key amount s = put_cell key (amount_bytes amount) s"

definition ov_set_hold :: "SubstateKey \<Rightarrow> TxHash \<Rightarrow> u128 option \<Rightarrow> OverlayStore \<Rightarrow> OverlayStore" where
  "ov_set_hold key tx amount s =
    s\<lparr>ov_active := (ov_active s)
       \<lparr>ly_held := bt_entry bt_empty (bt_insert tx amount) key (ly_held (ov_active s))\<rparr>\<rparr>"

definition ov_set_fee_hold :: "SubstateKey \<Rightarrow> TxHash \<Rightarrow> u128 option \<Rightarrow> OverlayStore \<Rightarrow> OverlayStore" where
  "ov_set_fee_hold key tx amount s =
    s\<lparr>ov_active := (ov_active s)
       \<lparr>ly_fee_held := bt_entry bt_empty (bt_insert tx amount) key (ly_fee_held (ov_active s))\<rparr>\<rparr>"

definition ov_withhold_credit :: "SubstateKey \<Rightarrow> TxHash \<Rightarrow> u128 \<Rightarrow> OverlayStore \<Rightarrow> OverlayStore" where
  "ov_withhold_credit key tx amount s =
    s\<lparr>ov_active := (ov_active s)
       \<lparr>ly_withheld := bt_entry bt_empty (bt_insert tx amount) key (ly_withheld (ov_active s))\<rparr>\<rparr>"

definition ov_clear_queued :: "OverlayStore \<Rightarrow> OverlayStore" where
  "ov_clear_queued s =
    (let s' = s\<lparr>ov_active := (ov_active s)\<lparr>ly_pending_deltas := bt_empty\<rparr>\<rparr> in
     if bt_is_empty (ly_pending_deltas (ov_committed s')) then s'
     else s'\<lparr>ov_committed := (ov_committed s')\<lparr>ly_pending_deltas := bt_empty\<rparr>\<rparr>)"

definition overlay_ledger :: "OverlayStore AmountLedger" where
  "overlay_ledger =
    \<lparr>al_base = overlay_baseline,
     al_set_amount = ov_set_amount,
     al_set_hold = ov_set_hold,
     al_set_fee_hold = ov_set_fee_hold,
     al_withhold_credit = ov_withhold_credit,
     al_note = ov_record,
     al_queued = ov_pending_map,
     al_clear_queued = ov_clear_queued\<rparr>"


subsection \<open>Folds over keyed changes\<close>

text \<open>A fold whose step touches one key of a view, over distinct keys.\<close>

lemma foldl_keyed:
  assumes step: "\<And>s k x k'. view (step s (k, x)) k' = (if k' = k then g x (view s k) else view s k')"
    and "distinct (map fst xs)"
  shows "view (foldl step s xs) k = (case map_of xs k of None \<Rightarrow> view s k | Some x \<Rightarrow> g x (view s k))"
  using assms(2)
proof (induction xs arbitrary: s)
  case (Cons e xs)
  obtain k' x where e: "e = (k', x)" by force
  with Cons.prems have "map_of xs k' = None" by (auto simp: map_of_eq_None_iff)
  with Cons show ?case by (auto simp: e step split: option.split)
qed simp

lemma foldl_unchanged: "(\<And>s x. f (step s x) = f s) \<Longrightarrow> f (foldl step s xs) = f s"
  by (induction xs arbitrary: s) simp_all

lemma bt_get_apply_hold_changes [simp]:
  "bt_get (apply_hold_changes (holds :: ('k::linorder, 'v) btmap) changes) tx =
    (case bt_get changes tx of Some change \<Rightarrow> change | None \<Rightarrow> bt_get holds tx)"
proof -
  have "bt_get (apply_hold_change s (k, x)) k' = (if k' = k then x else bt_get s k')"
    for s :: "('k::linorder, 'v) btmap" and k x k'
    by (cases x) simp_all
  from foldl_keyed [of bt_get apply_hold_change "\<lambda>x _. x" "entries changes" holds tx, OF this]
  show ?thesis by (simp add: apply_hold_changes_def split: option.split)
qed

lemma bt_get_layer_holds [simp]:
  "bt_get (layer_holds changes key holds) tx =
    (case Option.bind (bt_get changes key) (\<lambda>c. bt_get c tx) of
       Some change \<Rightarrow> change | None \<Rightarrow> bt_get holds tx)"
  by (cases "bt_get changes key") (simp_all add: layer_holds_def)

lemma bt_get_layer_withheld [simp]:
  "bt_get (layer_withheld creds key members) tx =
    (case Option.bind (bt_get creds key) (\<lambda>c. bt_get c tx) of
       Some credit \<Rightarrow> Some credit | None \<Rightarrow> bt_get members tx)"
  by (cases "bt_get creds key") (simp_all add: layer_withheld_def)

lemma foldl_bt_entry:
  assumes "distinct (map fst xs)"
  shows "bt_get (foldl (\<lambda>m (k, x). bt_entry d (g x) k m) m xs) k =
    (case map_of xs k of None \<Rightarrow> bt_get m k | Some x \<Rightarrow> Some (g x (bt_get_or d m k)))"
  using foldl_keyed [of bt_get "\<lambda>m (k, x). bt_entry d (g x) k m"
      "\<lambda>x v. Some (g x (case v of Some v \<Rightarrow> v | None \<Rightarrow> d))" xs m k] assms
  by (simp add: bt_get_or_def split: option.split)

lemma bt_get_extend_queue [simp]:
  "bt_get (extend_queue m (entries q)) key =
    (case bt_get q key of None \<Rightarrow> bt_get m key | Some ops \<Rightarrow> Some (bt_get_or [] m key @ ops))"
  unfolding extend_queue_def
  using foldl_bt_entry [of "entries q" "[]" "\<lambda>ops queued. queued @ ops" m key] by simp

lemma bt_get_extend_nested:
  "bt_get (extend_nested m n) k =
    (case bt_get n k of None \<Rightarrow> bt_get m k
     | Some inner \<Rightarrow> Some (bt_extend (bt_get_or bt_empty m k) (entries inner)))"
  unfolding extend_nested_def
  using foldl_bt_entry [of "entries n" bt_empty "\<lambda>inner standing. bt_extend standing (entries inner)" m k]
  by simp

lemma nested_extend_nested:
  "Option.bind (bt_get (extend_nested m n) k) (\<lambda>i. bt_get i j) =
    (case Option.bind (bt_get n k) (\<lambda>i. bt_get i j) of
       Some v \<Rightarrow> Some v | None \<Rightarrow> Option.bind (bt_get m k) (\<lambda>i. bt_get i j))"
  by (cases "bt_get n k"; cases "bt_get m k") (auto simp: bt_get_extend_nested split: option.split)

lemma nested_bt_entry:
  "Option.bind (bt_get (bt_entry bt_empty (bt_insert j v) k m) k') (\<lambda>i. bt_get i j') =
    (if k' = k \<and> j' = j then Some v else Option.bind (bt_get m k') (\<lambda>i. bt_get i j'))"
  by (cases "bt_get m k") auto

subsection \<open>The overlay keeps the ledger's promises\<close>

lemma merged_entries_cong:
  assumes "ov_base s' = ov_base s" "ly_entries (ov_committed s') = ly_entries (ov_committed s)"
    and "ly_entries (ov_active s') = ly_entries (ov_active s)"
  shows "ov_merged_entries s' = ov_merged_entries s"
  using assms by (simp add: ov_merged_entries_def layer_range_def fun_eq_iff)

lemma overlay_baseline_put_cell:
  "overlay_baseline (put_cell key change s) =
    (overlay_baseline s)\<lparr>base_cell := (base_cell (overlay_baseline s))(key := change)\<rparr>"
proof -
  have "ov_merged_entries (put_cell key change s) = ov_merged_entries s"
    by (rule merged_entries_cong) (simp_all add: put_cell_def)
  then show ?thesis
    by (simp add: overlay_baseline_def)
       (auto simp: put_cell_def fun_eq_iff ov_cell_value_def ov_effective_holds_def
         ov_effective_fee_holds_def ov_effective_withheld_credits_def ov_held_reservation_def
         layer_hold_def cong: option.case_cong)
qed

lemma layer_holds_insert:
  "layer_holds (bt_entry bt_empty (bt_insert tx h) key changes) key' holds =
    (if key' = key then change_hold tx h (layer_holds changes key holds) else layer_holds changes key' holds)"
  by (cases h) (auto intro!: btmap_eqI simp: nested_bt_entry)

lemma layer_withheld_insert:
  "layer_withheld (bt_entry bt_empty (bt_insert tx c) key creds) key' members =
    (if key' = key then bt_insert tx c (layer_withheld creds key members) else layer_withheld creds key' members)"
  by (auto intro!: btmap_eqI simp: nested_bt_entry)

lemma overlay_baseline_set_hold:
  "overlay_baseline (ov_set_hold key tx h s) = put_hold key tx h (overlay_baseline s)"
proof -
  have "ov_merged_entries (ov_set_hold key tx h s) = ov_merged_entries s"
    by (rule merged_entries_cong) (simp_all add: ov_set_hold_def)
  moreover have "ov_held_reservation (ov_set_hold key tx h s)
      = (ov_held_reservation s)(key := (ov_held_reservation s key)(tx := h))"
    by (auto simp: fun_eq_iff ov_held_reservation_def layer_hold_def ov_set_hold_def nested_bt_entry
        cong: option.case_cong)
  moreover have "ov_effective_holds (ov_set_hold key tx h s)
      = (ov_effective_holds s)(key := change_hold tx h (ov_effective_holds s key))"
    by (auto simp: fun_eq_iff ov_effective_holds_def ov_set_hold_def layer_holds_insert)
  ultimately show ?thesis
    by (simp add: overlay_baseline_def put_hold_def)
       (auto simp: ov_set_hold_def fun_eq_iff ov_cell_value_def ov_effective_fee_holds_def
         ov_effective_withheld_credits_def cong: option.case_cong)
qed

lemma overlay_baseline_set_fee_hold:
  "overlay_baseline (ov_set_fee_hold key tx h s) = put_fee_hold key tx h (overlay_baseline s)"
proof -
  have "ov_merged_entries (ov_set_fee_hold key tx h s) = ov_merged_entries s"
    by (rule merged_entries_cong) (simp_all add: ov_set_fee_hold_def)
  then show ?thesis
    by (simp add: overlay_baseline_def put_fee_hold_def)
       (auto simp: ov_set_fee_hold_def fun_eq_iff ov_cell_value_def ov_effective_holds_def
         ov_effective_fee_holds_def ov_effective_withheld_credits_def ov_held_reservation_def
         layer_hold_def layer_holds_insert cong: option.case_cong)
qed

lemma overlay_baseline_withhold_credit:
  "overlay_baseline (ov_withhold_credit key tx c s) = put_withheld key tx c (overlay_baseline s)"
proof -
  have "ov_merged_entries (ov_withhold_credit key tx c s) = ov_merged_entries s"
    by (rule merged_entries_cong) (simp_all add: ov_withhold_credit_def)
  then show ?thesis
    by (simp add: overlay_baseline_def put_withheld_def)
       (auto simp: ov_withhold_credit_def fun_eq_iff ov_cell_value_def ov_effective_holds_def
         ov_effective_fee_holds_def ov_effective_withheld_credits_def ov_held_reservation_def
         layer_hold_def layer_withheld_insert cong: option.case_cong)
qed

lemma overlay_baseline_cong:
  assumes "ov_base s' = ov_base s"
    and "ly_cells (ov_committed s') = ly_cells (ov_committed s)" "ly_cells (ov_active s') = ly_cells (ov_active s)"
    and "ly_entries (ov_committed s') = ly_entries (ov_committed s)" "ly_entries (ov_active s') = ly_entries (ov_active s)"
    and "ly_held (ov_committed s') = ly_held (ov_committed s)" "ly_held (ov_active s') = ly_held (ov_active s)"
    and "ly_fee_held (ov_committed s') = ly_fee_held (ov_committed s)" "ly_fee_held (ov_active s') = ly_fee_held (ov_active s)"
    and "ly_withheld (ov_committed s') = ly_withheld (ov_committed s)" "ly_withheld (ov_active s') = ly_withheld (ov_active s)"
  shows "overlay_baseline s' = overlay_baseline s"
  using merged_entries_cong [OF assms(1,4,5)] assms
  by (simp add: overlay_baseline_def fun_eq_iff ov_cell_value_def ov_effective_holds_def
      ov_effective_fee_holds_def ov_effective_withheld_credits_def ov_held_reservation_def layer_hold_def
      cong: option.case_cong)

lemma overlay_baseline_record [simp]: "overlay_baseline (ov_record target k s) = overlay_baseline s"
  by (rule overlay_baseline_cong) (simp_all add: ov_record_def)

lemma overlay_baseline_clear_queued: "overlay_baseline (ov_clear_queued s) = overlay_baseline s"
  by (rule overlay_baseline_cong) (simp_all add: ov_clear_queued_def Let_def)

lemma extend_queue_Nil [simp]: "extend_queue m [] = m"
  by (simp add: extend_queue_def)

interpretation ol: amount_ledger overlay_ledger
proof
  show "al_base overlay_ledger (al_set_amount overlay_ledger key a s)
      = put_amount key a (al_base overlay_ledger s)" for key a s
    by (simp add: overlay_ledger_def ov_set_amount_def overlay_baseline_put_cell put_amount_def)
qed (simp_all add: overlay_ledger_def overlay_baseline_set_hold overlay_baseline_set_fee_hold
      overlay_baseline_withhold_credit overlay_baseline_clear_queued,
    simp_all add: ov_pending_map_def ov_set_amount_def put_cell_def ov_set_hold_def ov_set_fee_hold_def
      ov_withhold_credit_def ov_record_def ov_clear_queued_def Let_def)

subsection \<open>A scan is the scan of the merged contents\<close>

abbreviation ascending :: "('k::linorder \<times> 'v) list \<Rightarrow> bool" where
  "ascending xs \<equiv> sorted_wrt (<) (map fst xs)"

definition override ::
  "(u128 \<times> bytes option) list \<Rightarrow> (u128 \<times> bytes option) list \<Rightarrow> (u128 \<times> bytes) list \<Rightarrow> u128 \<Rightarrow> bytes option" where
  "override a c b k =
    (case map_of a k of Some change \<Rightarrow> change
     | None \<Rightarrow> (case map_of c k of Some change \<Rightarrow> change | None \<Rightarrow> map_of b k))"

lemma foldl_min_le: "foldl min y ys \<le> (y :: u128) \<and> (\<forall>x \<in> set ys. foldl min y ys \<le> x)"
proof (induction ys arbitrary: y)
  case (Cons z ys)
  from Cons [of "min y z"] show ?case by simp
qed simp

lemma least_order_le: "least_order os = Some x \<Longrightarrow> Some y \<in> set os \<Longrightarrow> x \<le> y"
proof -
  assume least: "least_order os = Some x" and "Some y \<in> set os"
  then have "y \<in> set (List.map_filter id os)" by (simp add: set_map_filter_id)
  with least foldl_min_le show ?thesis
    by (auto simp: least_order_def split: list.splits)
qed

lemma least_order_None: "least_order os = None \<longleftrightarrow> (\<forall>x \<in> set os. x = None)"
proof -
  have "List.map_filter id os = [] \<longleftrightarrow> (\<forall>x \<in> set os. x = None)"
    by (induction os) (auto simp: map_filter_simps split: option.splits)
  then show ?thesis by (auto simp: least_order_def split: list.splits)
qed

lemma peek_None [simp]: "peek xs = None \<longleftrightarrow> xs = []"
  by (cases xs) (simp_all add: peek_def)

text \<open>What taking the head at the least order leaves of one ascending source.\<close>

lemma next_if_source:
  assumes "ascending xs" "\<And>y. peek xs = Some y \<Longrightarrow> order \<le> y"
  shows "ascending (snd (next_if order xs))"
    and "\<forall>k \<in> fst ` set (snd (next_if order xs)). order < k"
    and "map_of xs k = (if k = order then fst (next_if order xs) else map_of (snd (next_if order xs)) k)"
proof -
  have "order \<le> k" if "xs = (k, v) # rest" for k v rest using assms(2) that by (simp add: peek_def)
  with assms(1) show "ascending (snd (next_if order xs))"
    "\<forall>k \<in> fst ` set (snd (next_if order xs)). order < k"
    by (cases xs; force simp: next_if_def split: if_splits)+
  then show "map_of xs k = (if k = order then fst (next_if order xs) else map_of (snd (next_if order xs)) k)"
    using assms(1) \<open>\<And>k v rest. xs = (k, v) # rest \<Longrightarrow> order \<le> k\<close>
    by (cases xs) (auto simp: next_if_def map_of_eq_None_iff split: if_splits)
qed

lemma ascending_head:
  assumes "ascending M" "map_of M k = Some v" "\<And>j. map_of M j \<noteq> None \<Longrightarrow> k \<le> j"
  obtains M' where "M = (k, v) # M'" "ascending M'" "\<And>j. map_of M' j = (if j = k then None else map_of M j)"
proof (cases M)
  case Nil
  with assms(2) show ?thesis by simp
next
  case (Cons e M')
  have later: "\<forall>e' \<in> set M'. fst e < fst e'" using assms(1) Cons by auto
  have "fst e = k"
  proof (rule ccontr)
    assume "fst e \<noteq> k"
    moreover from this have "(k, v) \<in> set M'" using assms(2) Cons by (auto dest: map_of_SomeD)
    moreover have "k \<le> fst e" using assms(3) [of "fst e"] Cons by simp
    ultimately show False using later by (auto dest: bspec leD)
  qed
  moreover from this have "map_of M' k = None" using later by (fastforce simp: map_of_eq_None_iff)
  ultimately show ?thesis using that [of M'] assms(1,2) Cons by (cases e) auto
qed

lemma override_step:
  assumes "ascending a" "ascending c" "ascending b"
    and "least_order [peek a, peek c, peek b] = Some k"
  defines "a' \<equiv> snd (next_if k a)" and "c' \<equiv> snd (next_if k c)" and "b' \<equiv> snd (next_if k b)"
  shows "ascending a'" "ascending c'" "ascending b'"
    and "override a' c' b' j = (if j = k then None else override a c b j)"
    and "override a c b k =
      (case fst (next_if k a) of Some x \<Rightarrow> x | None \<Rightarrow>
        (case fst (next_if k c) of Some x \<Rightarrow> x | None \<Rightarrow> fst (next_if k b)))"
    and "override a c b j \<noteq> None \<Longrightarrow> k \<le> j"
proof -
  have "k \<le> y" if "peek a = Some y \<or> peek c = Some y \<or> peek b = Some y" for y
    using that by (intro least_order_le [OF assms(4)]) auto
  then have le: "\<And>y. peek a = Some y \<Longrightarrow> k \<le> y" "\<And>y. peek c = Some y \<Longrightarrow> k \<le> y" "\<And>y. peek b = Some y \<Longrightarrow> k \<le> y"
    by auto
  note na = next_if_source [OF assms(1) le(1)] and nc = next_if_source [OF assms(2) le(2)]
    and nb = next_if_source [OF assms(3) le(3)]
  show "ascending a'" "ascending c'" "ascending b'"
    using na(1) nc(1) nb(1) by (simp_all add: a'_def c'_def b'_def)
  have gone: "map_of a' k = None" "map_of c' k = None" "map_of b' k = None"
    using na(2) nc(2) nb(2) by (auto simp: a'_def c'_def b'_def map_of_eq_None_iff)
  then show "override a' c' b' j = (if j = k then None else override a c b j)"
    using na(3) [of j] nc(3) [of j] nb(3) [of j]
    by (simp add: override_def a'_def c'_def b'_def cong: option.case_cong)
  show "override a c b k =
      (case fst (next_if k a) of Some x \<Rightarrow> x | None \<Rightarrow>
        (case fst (next_if k c) of Some x \<Rightarrow> x | None \<Rightarrow> fst (next_if k b)))"
    using na(3) [of k] nc(3) [of k] nb(3) [of k] by (simp add: override_def cong: option.case_cong)
  have later: "k \<le> j" if "map_of a j \<noteq> None \<or> map_of c j \<noteq> None \<or> map_of b j \<noteq> None"
  proof (cases "j = k")
    case False
    with that na(3) [of j] nc(3) [of j] nb(3) [of j]
    have "map_of a' j \<noteq> None \<or> map_of c' j \<noteq> None \<or> map_of b' j \<noteq> None"
      by (simp add: a'_def c'_def b'_def)
    then have "j \<in> fst ` set a' \<or> j \<in> fst ` set c' \<or> j \<in> fst ` set b'"
      by (auto simp: map_of_eq_None_iff)
    then show ?thesis using na(2) nc(2) nb(2) by (auto simp: a'_def c'_def b'_def intro: less_imp_le)
  qed simp
  show "override a c b j \<noteq> None \<Longrightarrow> k \<le> j"
    by (rule later) (auto simp: override_def split: option.splits)
qed

definition winner ::
  "u128 \<Rightarrow> (u128 \<times> bytes option) list \<Rightarrow> (u128 \<times> bytes option) list \<Rightarrow> (u128 \<times> bytes) list \<Rightarrow> bytes option" where
  "winner k a c b = (case fst (next_if k a) of Some x \<Rightarrow> x | None \<Rightarrow>
      (case fst (next_if k c) of Some x \<Rightarrow> x | None \<Rightarrow> fst (next_if k b)))"

lemma merge_hits_stop:
  "n = 0 \<or> least_order [peek a, peek c, peek b] = None \<Longrightarrow> merge_hits n a c b = []"
  by (auto simp: merge_hits.simps [of n])

lemma merge_hits_step:
  "n \<noteq> 0 \<Longrightarrow> least_order [peek a, peek c, peek b] = Some k \<Longrightarrow>
   merge_hits n a c b =
    (case winner k a c b of
       Some v \<Rightarrow> (k, v) # merge_hits (n - 1) (snd (next_if k a)) (snd (next_if k c)) (snd (next_if k b))
     | None \<Rightarrow> merge_hits n (snd (next_if k a)) (snd (next_if k c)) (snd (next_if k b)))"
  by (subst merge_hits.simps) (simp add: case_prod_unfold Let_def winner_def)

lemma merge_hits_override:
  "ascending a \<Longrightarrow> ascending c \<Longrightarrow> ascending b \<Longrightarrow> ascending M \<Longrightarrow>
   (\<And>k. map_of M k = override a c b k) \<Longrightarrow> merge_hits n a c b = take n M"
proof (induction "length a + length c + length b" arbitrary: n a c b M rule: less_induct)
  case less
  show ?case
  proof (cases "n = 0 \<or> least_order [peek a, peek c, peek b] = None")
    case True
    moreover have "M = []" if "a = []" "c = []" "b = []"
      using that less(6) [of "fst (hd M)"] by (cases M) (auto simp: override_def)
    ultimately show ?thesis using merge_hits_stop [OF True] by (auto simp: least_order_None)
  next
    case False
    then obtain k where n: "n \<noteq> 0" and k: "least_order [peek a, peek c, peek b] = Some k" by auto
    note step = override_step [OF less(2-4) k] and IH = less(1) [OF merge_step_shorter [OF k]]
    have win: "winner k a c b = override a c b k" by (simp add: step(5) winner_def)
    show ?thesis
    proof (cases "override a c b k")
      case None
      have "map_of M j = override (snd (next_if k a)) (snd (next_if k c)) (snd (next_if k b)) j" for j
        using less(6) [of j] step(4) [of j] None by simp
      from IH [OF step(1-3) less(5) this] None show ?thesis
        by (simp add: merge_hits_step [OF n k] win)
    next
      case (Some v)
      obtain M' where M: "M = (k, v) # M'" "ascending M'" "\<And>j. map_of M' j = (if j = k then None else map_of M j)"
        using ascending_head [OF less(5), of k v] less(6) Some step(6) by metis
      have "map_of M' j = override (snd (next_if k a)) (snd (next_if k c)) (snd (next_if k b)) j" for j
        using M(3) [of j] less(6) [of j] step(4) [of j] by simp
      from IH [OF step(1-3) M(2) this] Some n show ?thesis
        by (simp add: merge_hits_step [OF n k] win M(1) take_Cons')
    qed
  qed
qed

definition tombs :: "('k \<times> 'v option) list \<Rightarrow> nat" where
  "tombs xs = length (filter (\<lambda>(_, change). change = None) xs)"

lemma tombs_next_if:
  "tombs (snd (next_if k xs)) = tombs xs - (if fst (next_if k xs) = Some None then 1 else 0)"
  "fst (next_if k xs) = Some None \<Longrightarrow> 0 < tombs xs"
  by (cases xs; auto simp: tombs_def next_if_def split: if_splits)+

lemma peek_take: "0 < N \<Longrightarrow> peek (take N xs) = peek xs"
  by (cases xs; cases N) (simp_all add: peek_def)

lemma next_if_take:
  assumes "0 < N"
  shows "fst (next_if k (take N xs)) = fst (next_if k xs)"
    and "snd (next_if k (take N xs))
      = take (if fst (next_if k xs) = None then N else N - 1) (snd (next_if k xs))"
  using assms by (cases xs; cases N; simp add: next_if_def split: prod.splits)+

text \<open>The bound on the base fetch suffices: a base cut to the room left plus the tombstones
  outstanding gives the same hits.\<close>

lemma merge_hits_take:
  "n + tombs a + tombs c \<le> N \<Longrightarrow> merge_hits n a c (take N b) = merge_hits n a c b"
proof (induction "length a + length c + length b" arbitrary: n a c b N rule: less_induct)
  case less
  show ?case
  proof (cases "n = 0 \<or> least_order [peek a, peek c, peek b] = None")
    case True
    then have "n = 0 \<or> least_order [peek a, peek c, peek (take N b)] = None"
      using less(2) by (cases "n = 0") (auto simp: peek_take)
    with True show ?thesis by (simp add: merge_hits_stop)
  next
    case False
    then obtain k where n: "n \<noteq> 0" and k: "least_order [peek a, peek c, peek b] = Some k" by auto
    from n less(2) have N: "0 < N" by simp
    define N' where "N' = (if fst (next_if k b) = None then N else N - 1)"
    have N': "snd (next_if k (take N b)) = take N' (snd (next_if k b))"
      unfolding N'_def by (rule next_if_take(2) [OF N])
    have k': "least_order [peek a, peek c, peek (take N b)] = Some k" using k by (simp add: peek_take N)
    have win: "winner k a c (take N b) = winner k a c b" by (simp only: winner_def next_if_take(1) [OF N])
    have "(case winner k a c b of Some _ \<Rightarrow> n - 1 | None \<Rightarrow> n)
        + tombs (snd (next_if k a)) + tombs (snd (next_if k c)) \<le> N'"
      using less(2) n tombs_next_if [of k a] tombs_next_if [of k c]
      by (auto simp: N'_def winner_def split: option.splits if_splits)
    with less(1) [OF merge_step_shorter [OF k]] show ?thesis
      by (cases "winner k a c b")
         (simp_all add: merge_hits_step [OF n k] merge_hits_step [OF n k'] win N')
  qed
qed

definition layer_changes :: "Layer \<Rightarrow> Address \<Rightarrow> CollectionId \<Rightarrow> EntryChanges" where
  "layer_changes layer owner collection = bt_get_or bt_empty (ly_entries layer) (owner, collection)"

definition ov_contents ::
  "(Address \<Rightarrow> CollectionId \<Rightarrow> (u128, bytes) btmap) \<Rightarrow> OverlayStore \<Rightarrow> Address \<Rightarrow> CollectionId
    \<Rightarrow> (u128, bytes) btmap" where
  "ov_contents contents s owner collection =
    apply_hold_changes (apply_hold_changes (contents owner collection)
      (layer_changes (ov_committed s) owner collection)) (layer_changes (ov_active s) owner collection)"

definition scan_fits :: "OverlayStore \<Rightarrow> Address \<Rightarrow> CollectionId \<Rightarrow> u128 \<Rightarrow> u128 \<Rightarrow> nat \<Rightarrow> bool" where
  "scan_fits s owner collection lo hi limit \<longleftrightarrow>
    limit + tombs (layer_range (ov_committed s) owner collection lo hi)
      + tombs (layer_range (ov_active s) owner collection lo hi) \<le> usize_max"

lemma layer_entry_changes: "layer_entry layer owner collection order = bt_get (layer_changes layer owner collection) order"
  by (simp add: layer_entry_def layer_changes_def)

context baseline
begin

lemma merged_entries_scan:
  assumes "ov_base s = B" "scan_fits s owner collection lo hi limit"
  shows "ov_merged_entries s owner collection lo hi limit
      = take limit (bt_range lo hi (ov_contents contents s owner collection))"
proof (cases "hi < lo \<or> limit = 0")
  case True
  then show ?thesis by (auto simp: ov_merged_entries_def bt_range_inverted)
next
  case False
  let ?a = "layer_range (ov_active s) owner collection lo hi"
  let ?c = "layer_range (ov_committed s) owner collection lo hi"
  let ?b = "bt_range lo hi (contents owner collection)"
  let ?M = "bt_range lo hi (ov_contents contents s owner collection)"
  have "ov_merged_entries s owner collection lo hi limit
      = merge_hits limit ?a ?c (take (limit + tombs ?c + tombs ?a) ?b)"
    using False assms
    by (simp add: ov_merged_entries_def usize_saturating_add_def scan scan_fits_def min_def add.assoc
        flip: tombs_def)
  also have "\<dots> = merge_hits limit ?a ?c ?b" by (rule merge_hits_take) simp
  also have "\<dots> = take limit ?M"
  proof (rule merge_hits_override)
    show "map_of ?M k = override ?a ?c ?b k" for k
      by (simp add: override_def layer_range_def map_of_bt_range ov_contents_def layer_changes_def
          split: option.split)
  qed (simp_all add: layer_range_def sorted_bt_range)
  finally show ?thesis .
qed

lemma entry_value_contents:
  assumes "ov_base s = B"
  shows "ov_entry_value s owner collection order = bt_get (ov_contents contents s owner collection) order"
  using scan_point assms
  by (simp add: ov_entry_value_def ov_pre_active_entry_def layer_entry_changes ov_contents_def
      cong: option.case_cong)

lemma overlay_held_reservation:
  assumes "ov_base s = B"
  shows "ov_held_reservation s key tx = bt_get (ov_effective_holds s key) tx"
  using held assms
  by (simp add: ov_held_reservation_def ov_effective_holds_def layer_hold_def cong: option.case_cong)

end

subsection \<open>Collapsing the layers onto a plain store\<close>

lemma ms_views_frame [simp]:
  "ms_cells (ms_set_hold key tx h m) = ms_cells m" "ms_cells (ms_set_fee_hold key tx h m) = ms_cells m"
  "ms_cells (ms_withhold_credit key tx c m) = ms_cells m"
  "ms_entries (ms_set_hold key tx h m) = ms_entries m" "ms_entries (ms_set_fee_hold key tx h m) = ms_entries m"
  "ms_entries (ms_withhold_credit key tx c m) = ms_entries m"
  "ms_pending_deltas (ms_set_hold key tx h m) = ms_pending_deltas m"
  "ms_pending_deltas (ms_set_fee_hold key tx h m) = ms_pending_deltas m"
  "ms_pending_deltas (ms_withhold_credit key tx c m) = ms_pending_deltas m"
  "ms_held (ms_set_fee_hold key tx h m) = ms_held m" "ms_held (ms_withhold_credit key tx c m) = ms_held m"
  "ms_fee_held (ms_set_hold key tx h m) = ms_fee_held m" "ms_fee_held (ms_withhold_credit key tx c m) = ms_fee_held m"
  "ms_withheld (ms_set_hold key tx h m) = ms_withheld m" "ms_withheld (ms_set_fee_hold key tx h m) = ms_withheld m"
  by (simp_all add: ms_set_hold_def ms_set_fee_hold_def ms_withhold_credit_def split: option.split)

lemma collapse_cell_frame [simp]:
  "ms_entries (collapse_cell m e) = ms_entries m" "ms_pending_deltas (collapse_cell m e) = ms_pending_deltas m"
  "ms_held (collapse_cell m e) = ms_held m" "ms_fee_held (collapse_cell m e) = ms_fee_held m"
  "ms_withheld (collapse_cell m e) = ms_withheld m"
  by (induction m e rule: collapse_cell.induct) simp_all

lemma collapse_entry_frame [simp]:
  "ms_cells (collapse_entry on m x) = ms_cells m" "ms_pending_deltas (collapse_entry on m x) = ms_pending_deltas m"
  "ms_held (collapse_entry on m x) = ms_held m" "ms_fee_held (collapse_entry on m x) = ms_fee_held m"
  "ms_withheld (collapse_entry on m x) = ms_withheld m"
  by (induction on m x rule: collapse_entry.induct) simp_all

lemma fold2_unchanged:
  assumes "\<And>m k x. f (step k m x) = f m"
  shows "f (foldl (\<lambda>m (k, inner). foldl (step k) m (entries inner)) m xs) = f m"
  by (rule foldl_unchanged) (auto intro!: foldl_unchanged simp: assms split: prod.split)

text \<open>A nested fold, one map of changes per key, through a view of one key at a time.\<close>

lemma fold2_keyed:
  assumes step: "\<And>m k x k'. view (step k m x) k' = (if k' = k then g (view m k) x else view m k')"
  shows "view (foldl (\<lambda>m (k, inner). foldl (step k) m (entries inner)) m (entries n)) k =
    (case bt_get n k of None \<Rightarrow> view m k | Some inner \<Rightarrow> foldl g (view m k) (entries inner))"
proof -
  have inner: "view (foldl (step k) m xs) k' = (if k' = k then foldl g (view m k) xs else view m k')" for k m xs k'
    by (induction xs arbitrary: m) (simp_all add: step)
  show ?thesis
    using foldl_keyed [of view "\<lambda>m (k, inner). foldl (step k) m (entries inner)"
        "\<lambda>inner v. foldl g v (entries inner)" "entries n" m k]
    by (simp add: inner)
qed

lemma collapse_cells_view:
  "bt_get (ms_cells (collapse_layer layer m)) key =
    (case bt_get (ly_cells layer) key of Some change \<Rightarrow> change | None \<Rightarrow> bt_get (ms_cells m) key)"
proof -
  have "bt_get (ms_cells (collapse_cell s (k, x))) k' = (if k' = k then x else bt_get (ms_cells s) k')" for s k x k'
    by (cases x) simp_all
  from foldl_keyed [of "\<lambda>s. bt_get (ms_cells s)" collapse_cell "\<lambda>x _. x" "entries (ly_cells layer)" m key, OF this]
  show ?thesis
    by (simp add: collapse_layer_def Let_def case_prod_unfold foldl_unchanged [where f = ms_cells] split: option.split)
qed

lemma collapse_contents_view:
  "ms_contents (collapse_layer layer m) owner collection
    = apply_hold_changes (ms_contents m owner collection) (layer_changes layer owner collection)"
proof -
  have "bt_get_or bt_empty (ms_entries (collapse_entry on s x)) on' =
      (if on' = on then apply_hold_change (bt_get_or bt_empty (ms_entries s) on) x
       else bt_get_or bt_empty (ms_entries s) on')" for s on x on'
    by (cases x; cases "snd x"; cases "bt_get (ms_entries s) on") (auto simp: bt_get_or_def)
  from fold2_keyed [of "\<lambda>s. bt_get_or bt_empty (ms_entries s)" collapse_entry apply_hold_change, OF this]
  show ?thesis
    by (simp add: collapse_layer_def Let_def ms_contents_def layer_changes_def bt_get_or_def apply_hold_changes_def
        case_prod_unfold foldl_unchanged [where f = ms_entries] split: option.split)
qed

lemma collapse_holds_view:
  "ms_holds (collapse_layer layer m) key = layer_holds (ly_held layer) key (ms_holds m key)"
proof -
  have "ms_holds (case x of (tx, change) \<Rightarrow> ms_set_hold k tx change s) k' =
      (if k' = k then apply_hold_change (ms_holds s k) x else ms_holds s k')" for s k x k'
    by (cases x; cases "snd x"; cases "bt_get (ms_held s) k")
       (auto simp: ms_holds_def ms_set_hold_def bt_get_or_def)
  from fold2_keyed [of ms_holds "\<lambda>k m x. case x of (tx, change) \<Rightarrow> ms_set_hold k tx change m" apply_hold_change, OF this]
  show ?thesis
    by (simp add: collapse_layer_def Let_def layer_holds_def apply_hold_changes_def ms_holds_def
        case_prod_unfold foldl_unchanged [where f = ms_held] split: option.split)
qed

lemma foldl_members:
  "foldl (\<lambda>h x. fh_members_update (\<lambda>ms. apply_hold_change ms x) h) h xs
     = fh_members_update (\<lambda>ms. foldl apply_hold_change ms xs) h"
  by (induction xs arbitrary: h) simp_all

lemma collapse_fee_holds_view:
  "ms_fee_holds (collapse_layer layer m) key
     = fh_members_update (layer_holds (ly_fee_held layer) key) (ms_fee_holds m key)"
proof -
  have "ms_fee_holds (case x of (tx, change) \<Rightarrow> ms_set_fee_hold k tx change s) k' =
      (if k' = k then fh_members_update (\<lambda>ms. apply_hold_change ms x) (ms_fee_holds s k) else ms_fee_holds s k')"
    for s k x k'
    by (cases x; cases "snd x"; cases "bt_get (ms_fee_held s) k")
       (auto simp: ms_fee_holds_def ms_set_fee_hold_def bt_get_or_def fee_holds_default_def)
  from fold2_keyed [of ms_fee_holds "\<lambda>k m x. case x of (tx, change) \<Rightarrow> ms_set_fee_hold k tx change m"
      "\<lambda>h x. fh_members_update (\<lambda>ms. apply_hold_change ms x) h", OF this]
  show ?thesis
    by (simp add: collapse_layer_def Let_def layer_holds_def [abs_def] apply_hold_changes_def ms_fee_holds_def
        case_prod_unfold foldl_members foldl_unchanged [where f = ms_fee_held] split: option.split)
qed

lemma foldl_credits:
  "foldl (\<lambda>w x. wc_members_update (bt_insert (fst x) (snd x)) w) w xs
     = wc_members_update (\<lambda>ms. bt_extend ms xs) w"
  by (induction xs arbitrary: w) simp_all

lemma collapse_withheld_view:
  "ms_withheld_credits (collapse_layer layer m) key
     = wc_members_update (layer_withheld (ly_withheld layer) key) (ms_withheld_credits m key)"
proof -
  have "ms_withheld_credits (case x of (tx, c) \<Rightarrow> ms_withhold_credit k tx c s) k' =
      (if k' = k then wc_members_update (bt_insert (fst x) (snd x)) (ms_withheld_credits s k)
       else ms_withheld_credits s k')" for s k x k'
    by (cases x) (simp add: ms_withheld_credits_def ms_withhold_credit_def)
  from fold2_keyed [of ms_withheld_credits "\<lambda>k m x. case x of (tx, c) \<Rightarrow> ms_withhold_credit k tx c m"
      "\<lambda>w x. wc_members_update (bt_insert (fst x) (snd x)) w", OF this]
  show ?thesis
    by (simp add: collapse_layer_def Let_def layer_withheld_def [abs_def] ms_withheld_credits_def
        case_prod_unfold foldl_credits foldl_unchanged [where f = ms_withheld] split: option.split)
qed

lemma collapse_queue_view:
  "ms_queued (collapse_layer layer m) = extend_queue (ms_queued m) (entries (ly_pending_deltas layer))"
  by (simp add: collapse_layer_def Let_def ms_queued_def case_prod_unfold
      foldl_unchanged [where f = ms_pending_deltas])

lemma extend_queue_from_empty: "extend_queue bt_empty (entries q) = q"
  by (rule btmap_eqI) (simp split: option.split)

text \<open>The collapsed store and the overlay are one ledger.\<close>

lemma collapse_abs:
  assumes "ov_base s = memory_baseline m" "ms_pending_deltas m = bt_empty"
  shows "ledger_abs memory_ledger (ov_collapse_onto s m) = ledger_abs overlay_ledger s"
proof -
  note views = collapse_cells_view collapse_holds_view collapse_fee_holds_view collapse_withheld_view
  have base: "base_cell (ov_base s) = ms_cell m" "base_holds (ov_base s) = ms_holds m"
    "base_fee_holds (ov_base s) = ms_fee_holds m" "base_withheld_credits (ov_base s) = ms_withheld_credits m"
    using assms(1) by (simp_all add: memory_baseline_def)
  have "ms_cell (ov_collapse_onto s m) = ov_cell_value s"
    by (simp add: fun_eq_iff ms_cell_def ov_collapse_onto_def ov_cell_value_def base views cong: option.case_cong)
  moreover have holds: "ms_holds (ov_collapse_onto s m) = ov_effective_holds s"
    by (simp add: fun_eq_iff ov_collapse_onto_def ov_effective_holds_def base views)
  moreover have "ms_fee_holds (ov_collapse_onto s m) = ov_effective_fee_holds s"
    by (simp add: fun_eq_iff ov_collapse_onto_def ov_effective_fee_holds_def base views)
  moreover have "ms_withheld_credits (ov_collapse_onto s m) = ov_effective_withheld_credits s"
    by (simp add: fun_eq_iff ov_collapse_onto_def ov_effective_withheld_credits_def base views)
  moreover have "ms_held_reservation (ov_collapse_onto s m) = ov_held_reservation s"
    using mem.overlay_held_reservation [OF assms(1)] mem.held [of "ov_collapse_onto s m"] holds
    by (simp add: fun_eq_iff memory_baseline_def)
  moreover have "ms_queued (ov_collapse_onto s m) = ov_pending_map s"
    using assms(2)
    by (simp add: ov_collapse_onto_def collapse_queue_view ov_pending_map_def ms_queued_def [of m]
        extend_queue_from_empty)
  ultimately show ?thesis
    by (simp add: ledger_abs_def memory_ledger_def overlay_ledger_def memory_baseline_def overlay_baseline_def
        forget_entries_def)
qed

text \<open>C9 An overlay refines the store it collapses to. Any sequence of ledger calls (movements,
  reservation batches, settlements, releases, reductions, fee holds, withheld credits, queue folds)
  made on an overlay over a plain store gets, call by call, the replies the collapsed store gives,
  and the two end in the same ledger: the same cells, holds, fee holds, withheld credits and queue.\<close>

theorem overlay_refines_collapsed:
  assumes "ov_base s = memory_baseline m" "ms_pending_deltas m = bt_empty"
  shows "fst (al_run overlay_ledger cs s) = fst (al_run memory_ledger cs (ov_collapse_onto s m))
    \<and> ledger_abs overlay_ledger (snd (al_run overlay_ledger cs s))
        = ledger_abs memory_ledger (snd (al_run memory_ledger cs (ov_collapse_onto s m)))"
proof -
  have "map_prod id (ledger_abs overlay_ledger) (al_run overlay_ledger cs s)
      = map_prod id (ledger_abs memory_ledger) (al_run memory_ledger cs (ov_collapse_onto s m))"
    by (simp add: ol.abs_run ml.abs_run collapse_abs [OF assms])
  then show ?thesis by (metis fst_map_prod snd_map_prod id_apply)
qed

text \<open>C11 A scan of an overlay is the scan of the store it collapses to, over any interval and any
  limit the address width can hold beside the tombstones in the interval: layered writes shadow base
  entries, tombstones drop them without spending the limit, and the bounded base fetch is enough.\<close>

theorem overlay_scan_is_collapsed_scan:
  assumes "ov_base s = memory_baseline m" "scan_fits s owner collection lo hi limit"
  shows "ov_merged_entries s owner collection lo hi limit
    = ms_entries_in_range (ov_collapse_onto s m) owner collection lo hi limit"
proof -
  have "ms_contents (ov_collapse_onto s m) owner collection = ov_contents (ms_contents m) s owner collection"
    by (simp add: ov_collapse_onto_def ov_contents_def collapse_contents_view)
  then show ?thesis
    using mem.merged_entries_scan [OF assms] mem.scan [of "ov_collapse_onto s m" owner collection lo hi limit]
    by (simp add: memory_baseline_def)
qed

subsection \<open>Ending a transaction\<close>

text \<open>The steps a transaction and its settlement take on an overlay before it is merged or
  discarded: the working-store surface and the ledger's primitive changes. None reaches below
  the active layer.\<close>

inductive tx_step :: "OverlayStore \<Rightarrow> OverlayStore \<Rightarrow> bool" where
  step_read: "tx_step s (snd (ov_read key s))"
| step_write: "tx_step s (snd (ov_write key v s))"
| step_remove: "tx_step s (snd (ov_remove key s))"
| step_queue_delta: "tx_step s (snd (ov_queue_delta key op s))"
| step_entry_write: "tx_step s (snd (ov_entry_write owner collection order v s))"
| step_entry_remove: "tx_step s (snd (ov_entry_remove owner collection order s))"
| step_scan: "tx_step s (snd (ov_entries_in_range owner collection lo hi cap s))"
| step_hold_unjudged: "tx_step s (ov_hold_unjudged key tx amount s)"
| step_set_amount: "tx_step s (ov_set_amount key amount s)"
| step_set_hold: "tx_step s (ov_set_hold key tx h s)"
| step_set_fee_hold: "tx_step s (ov_set_fee_hold key tx h s)"
| step_withhold: "tx_step s (ov_withhold_credit key tx amount s)"
| step_note: "tx_step s (ov_record target k s)"

inductive_cases tx_stepE: "tx_step s s'"

lemmas tx_step_defs = ov_read_def ov_write_def ov_remove_def ov_queue_delta_def ov_entry_write_def
  ov_entry_remove_def ov_entries_in_range_def ov_hold_unjudged_def ov_set_amount_def ov_set_hold_def
  ov_set_fee_hold_def ov_withhold_credit_def ov_record_def put_cell_def put_entry_def

lemma tx_step_below: "tx_step s s' \<Longrightarrow> ov_base s' = ov_base s \<and> ov_committed s' = ov_committed s"
  by (induction rule: tx_step.induct) (simp_all add: tx_step_defs Let_def)

lemma tx_steps_below: "tx_step\<^sup>*\<^sup>* s s' \<Longrightarrow> ov_base s' = ov_base s \<and> ov_committed s' = ov_committed s"
  by (induction rule: rtranclp_induct) (auto dest: tx_step_below)


lemma layer_default_simps [simp]:
  "ly_cells layer_default = bt_empty" "ly_entries layer_default = bt_empty"
  "ly_pending_deltas layer_default = bt_empty" "ly_held layer_default = bt_empty"
  "ly_fee_held layer_default = bt_empty" "ly_withheld layer_default = bt_empty"
  by (simp_all add: layer_default_def)

lemma layer_holds_merge:
  "layer_holds bt_empty key (layer_holds (extend_nested c a) key h) = layer_holds a key (layer_holds c key h)"
  by (rule btmap_eqI) (auto simp: nested_extend_nested split: option.split)

lemma layer_withheld_merge:
  "layer_withheld bt_empty key (layer_withheld (extend_nested c a) key h) = layer_withheld a key (layer_withheld c key h)"
  by (rule btmap_eqI) (auto simp: nested_extend_nested split: option.split)

lemma layer_changes_merge:
  "bt_get (layer_changes (ov_committed (ov_merge_active s)) owner collection) order =
    (case bt_get (layer_changes (ov_active s) owner collection) order of
       Some change \<Rightarrow> Some change
     | None \<Rightarrow> bt_get (layer_changes (ov_committed s) owner collection) order)"
  by (simp add: layer_changes_def ov_merge_active_def Let_def nested_extend_nested cong: option.case_cong)

lemma tombs_card:
  "tombs (bt_range lo hi m) = card {k. lo \<le> k \<and> k \<le> hi \<and> bt_get m k = Some None}"
proof -
  let ?xs = "filter (\<lambda>(_, change). change = None) (bt_range lo hi m)"
  have "distinct (map fst ?xs)"
    using sorted_filter_entries [OF sorted_bt_range] by (rule strict_sorted_iff [THEN iffD1, THEN conjunct2])
  then have "length ?xs = card (set (map fst ?xs))" by (metis distinct_card length_map)
  moreover have "set (map fst ?xs) = {k. lo \<le> k \<and> k \<le> hi \<and> bt_get m k = Some None}"
    by (force simp: mem_bt_range)
  ultimately show ?thesis by (simp add: tombs_def)
qed

lemma scan_fits_merge: "scan_fits s owner collection lo hi limit \<Longrightarrow> scan_fits (ov_merge_active s) owner collection lo hi limit"
proof -
  let ?T = "\<lambda>layer. {k. lo \<le> k \<and> k \<le> hi \<and> bt_get (layer_changes layer owner collection) k = Some None}"
  have tombs: "tombs (layer_range layer owner collection lo hi) = card (?T layer)" for layer
    by (simp add: layer_range_def layer_changes_def [symmetric] tombs_card)
  have "?T (ov_committed (ov_merge_active s)) \<subseteq> ?T (ov_committed s) \<union> ?T (ov_active s)"
    by (auto simp: layer_changes_merge split: option.splits)
  then have "card (?T (ov_committed (ov_merge_active s))) \<le> card (?T (ov_committed s) \<union> ?T (ov_active s))"
    by (intro card_mono) simp_all
  also have "\<dots> \<le> card (?T (ov_committed s)) + card (?T (ov_active s))" by (rule card_Un_le)
  finally have "card (?T (ov_committed (ov_merge_active s))) \<le> card (?T (ov_committed s)) + card (?T (ov_active s))" .
  moreover have "card (?T (ov_active (ov_merge_active s))) = 0"
    by (simp add: layer_changes_def ov_merge_active_def Let_def)
  ultimately show "scan_fits s owner collection lo hi limit \<Longrightarrow> scan_fits (ov_merge_active s) owner collection lo hi limit"
    unfolding scan_fits_def tombs by linarith
qed

lemma contents_merge: "ov_contents contents (ov_merge_active s) owner collection = ov_contents contents s owner collection"
proof (rule btmap_eqI)
  fix order
  have "layer_changes (ov_active (ov_merge_active s)) owner collection = bt_empty"
    by (simp add: layer_changes_def ov_merge_active_def Let_def)
  then show "bt_get (ov_contents contents (ov_merge_active s) owner collection) order
      = bt_get (ov_contents contents s owner collection) order"
    by (simp add: ov_contents_def layer_changes_merge split: option.split)
qed

text \<open>C14 Merging the active layer changes nothing a reader can see. Over any base the code may stand
  on, each cell, hold, fee hold, withheld credit and the whole delta queue read the same before and
  after \<open>merge_active\<close>, and so does every scan the address width can hold.\<close>

theorem merge_active_preserves:
  assumes "baseline (ov_base s) contents"
    and "scan_fits s owner collection lo hi limit"
  shows "ledger_abs overlay_ledger (ov_merge_active s) = ledger_abs overlay_ledger s
    \<and> ov_merged_entries (ov_merge_active s) owner collection lo hi limit = ov_merged_entries s owner collection lo hi limit"
proof -
  have base: "ov_base (ov_merge_active s) = ov_base s" by (simp add: ov_merge_active_def Let_def)
  have "ov_cell_value (ov_merge_active s) = ov_cell_value s"
    by (auto simp: fun_eq_iff ov_cell_value_def ov_merge_active_def Let_def split: option.split)
  moreover have "ov_effective_holds (ov_merge_active s) = ov_effective_holds s"
    "ov_effective_fee_holds (ov_merge_active s) = ov_effective_fee_holds s"
    "ov_effective_withheld_credits (ov_merge_active s) = ov_effective_withheld_credits s"
    by (simp_all add: fun_eq_iff ov_effective_holds_def ov_effective_fee_holds_def ov_effective_withheld_credits_def
        ov_merge_active_def Let_def comp_def layer_holds_merge layer_withheld_merge)
  moreover have "ov_held_reservation (ov_merge_active s) = ov_held_reservation s"
    by (auto simp: fun_eq_iff ov_held_reservation_def layer_hold_def ov_merge_active_def Let_def
        nested_extend_nested split: option.split)
  moreover have "ov_pending_map (ov_merge_active s) = ov_pending_map s"
    by (simp add: ov_pending_map_def ov_merge_active_def Let_def)
  ultimately show ?thesis
    using baseline.merged_entries_scan [OF assms(1) refl assms(2)]
      baseline.merged_entries_scan [OF assms(1) base scan_fits_merge [OF assms(2)]]
    by (simp add: ledger_abs_def overlay_ledger_def overlay_baseline_def forget_entries_def contents_merge)
qed

subsection \<open>The ledger's promises, on the overlay\<close>

lemma al_base_overlay [simp]: "al_base overlay_ledger s = overlay_baseline s"
  and al_queued_overlay [simp]: "al_queued overlay_ledger s = ov_pending_map s"
  by (simp_all add: overlay_ledger_def)

lemma coherent_overlay: "baseline (ov_base s) contents \<Longrightarrow> coherent (overlay_baseline s)"
  using baseline.overlay_held_reservation [of "ov_base s" contents s]
  by (simp add: coherent_def overlay_baseline_def)

text \<open>C10 Reservations stay covered. Over any lawful base, if every cell of the overlay holds at least
  the sum of the reservations standing on it, then it still does after any sequence of movements,
  reservation batches, settlements, releases, reductions, fee holds and withheld credits, refused
  calls and batches that fail half way included.\<close>

theorem reservations_stay_covered:
  assumes "baseline (ov_base s) contents" "funded (overlay_baseline s)" "CommitDeltas \<notin> set cs"
  shows "funded (overlay_baseline (snd (al_run overlay_ledger cs s)))"
  using ol.funded_run(1) [of s cs] assms coherent_overlay [OF assms(1)] by simp

text \<open>C15 A reservation that was granted can be settled. In a covered ledger, settling a standing hold
  on a readable cell always succeeds: it answers the held amount, debits exactly it, and ends the hold.\<close>

theorem standing_hold_settles:
  assumes "baseline (ov_base s) contents" "funded (overlay_baseline s)"
    and "ov_held_reservation s key tx = Some a" "al_amount (overlay_baseline s) key = Ok st"
  shows "fst (al_settle overlay_ledger key tx s) = Ok a
    \<and> al_amount (overlay_baseline (snd (al_settle overlay_ledger key tx s))) key = Ok (st - a)
    \<and> ov_held_reservation (snd (al_settle overlay_ledger key tx s)) key tx = None"
proof -
  have "base_held_reservation (overlay_baseline s') = ov_held_reservation s'" for s'
    by (simp add: overlay_baseline_def)
  then show ?thesis
    using ol.settle_succeeds [of s key tx a st] assms coherent_overlay [OF assms(1)] by simp
qed

text \<open>C17 A reservation batch is judged the same in any order. For a batch with no transaction asking
  twice on one cell, every permutation of the requests gives the same verdicts (or the same error)
  and leaves the same ledger.\<close>

theorem judge_and_hold_any_order:
  assumes "mset reqs' = mset reqs" "distinct (map (\<lambda>(tx, key, _). (tx, key)) reqs)"
  shows "fst (al_judge_and_hold overlay_ledger reqs' s) = fst (al_judge_and_hold overlay_ledger reqs s)
    \<and> ledger_abs overlay_ledger (snd (al_judge_and_hold overlay_ledger reqs' s))
        = ledger_abs overlay_ledger (snd (al_judge_and_hold overlay_ledger reqs s))"
proof -
  have "map req_pair reqs = map (\<lambda>(tx, key, _). (tx, key)) reqs" by (auto simp: req_pair_def)
  with ol.judge_and_hold_mset [OF assms(1)] assms(2) show ?thesis by simp
qed

text \<open>C16 Folding the delta queue is all or nothing. A failing fold names a queued cell whose decode or
  fold fails with that error and leaves the overlay exactly as it was; a succeeding one empties the
  queue, moves every queued cell to its folded value, reports the cells in order, and touches no other
  amount and no hold.\<close>

theorem commit_deltas_all_or_nothing:
  "case al_commit_deltas overlay_ledger s of
     (Err e, s') \<Rightarrow> s' = s \<and> (\<exists>key ops. bt_get (ov_pending_map s) key = Some ops
        \<and> and_then (al_amount (overlay_baseline s) key) (\<lambda>before. map_err ModeErr (fold_deltas before ops)) = Err e)
   | (Ok applied, s') \<Rightarrow> ov_pending_map s' = bt_empty
        \<and> base_holds (overlay_baseline s') = base_holds (overlay_baseline s)
        \<and> map ad_key applied = bt_keys (ov_pending_map s)
        \<and> (\<forall>key. al_amount (overlay_baseline s') key =
             (case bt_get (ov_pending_map s) key of
                None \<Rightarrow> al_amount (overlay_baseline s) key
              | Some ops \<Rightarrow> and_then (al_amount (overlay_baseline s) key)
                  (\<lambda>before. map_err ModeErr (fold_deltas before ops))))"
  by (rule ol.commit_deltas_exact [unfolded al_base_overlay al_queued_overlay])


subsection \<open>Witnesses\<close>

definition demo_key :: SubstateKey where "demo_key = SubstateKey 7 1"

definition demo_memory :: MemoryStore where
  "demo_memory = ms_entry_write 7 9 4 [1] (ms_entry_write 7 9 2 [2] (ms_write demo_key (encode_amount 100) ms_new))"

definition demo_overlay :: OverlayStore where
  "demo_overlay =
    snd (ov_entry_write 7 9 3 [3] (snd (ov_entry_remove 7 9 2 (ov_new (memory_baseline demo_memory)))))"

lemma demo_base [simp]: "ov_base demo_overlay = memory_baseline demo_memory"
  by (simp add: demo_overlay_def tx_step_defs ov_new_def Let_def)

lemma demo_cell: "ov_cell_value demo_overlay demo_key = Some (encode_amount 100)"
  by (simp add: ov_cell_value_def demo_overlay_def tx_step_defs ov_new_def Let_def memory_baseline_def ms_cell_def
      demo_memory_def ms_write_def ms_entry_write_def)

lemma demo_holds: "ov_effective_holds demo_overlay key = bt_empty"
  "ov_effective_fee_holds demo_overlay key = fee_holds_default"
  "ov_effective_withheld_credits demo_overlay key = withheld_default"
  by (simp_all add: ov_effective_holds_def ov_effective_fee_holds_def ov_effective_withheld_credits_def
      layer_holds_def layer_withheld_def demo_overlay_def tx_step_defs ov_new_def Let_def
      memory_baseline_def ms_holds_def ms_fee_holds_def ms_withheld_credits_def demo_memory_def ms_write_def ms_entry_write_def
      ms_new_def fee_holds_default_def withheld_default_def)

lemma demo_amount: "al_amount (overlay_baseline demo_overlay) demo_key = Ok 100"
  by (simp add: al_amount_def overlay_baseline_def demo_cell decode_amount_def)

lemma demo_held: "held_sum (overlay_baseline demo_overlay) key = 0"
  "base_holds (overlay_baseline demo_overlay) key = bt_empty"
  by (simp_all add: held_sum_def overlay_baseline_def demo_holds)

lemma demo_funded: "funded (overlay_baseline demo_overlay)"
  by (simp add: funded_def demo_held)

lemma demo_scan: "scan_fits demo_overlay 7 9 0 10 2"
  by (simp add: scan_fits_def tombs_def layer_range_def bt_range_def demo_overlay_def tx_step_defs ov_new_def
      Let_def bt_entry_def bt_eval usize_max_def)

theorem overlay_refines_collapsed_witness:
  "fst (al_run memory_ledger [ApplyMovement demo_key 5 10 40] (ov_collapse_onto demo_overlay demo_memory))
     = [Moved (Ok 70)]"
proof -
  have "ms_pending_deltas demo_memory = bt_empty"
    by (simp add: demo_memory_def ms_write_def ms_entry_write_def ms_new_def)
  note run = overlay_refines_collapsed [OF demo_base this, of "[ApplyMovement demo_key 5 10 40]"]
  have "al_judge_movement (overlay_baseline demo_overlay) demo_key 5 10 40 = Ok 70"
    unfolding al_judge_movement_def demo_amount
    by (simp add: checked_add_def al_unpromised_def al_held_total_def overlay_baseline_def demo_holds
        bt_values_def fee_total_def fee_holds_default_def kept_from_def withheld_default_def)
  with run show ?thesis by (simp add: al_apply_movement_def)
qed

theorem overlay_scan_is_collapsed_scan_witness:
  "ms_entries_in_range (ov_collapse_onto demo_overlay demo_memory) 7 9 0 10 2
     = ov_merged_entries demo_overlay 7 9 0 10 2 \<and> scan_fits demo_overlay 7 9 0 10 2"
  using overlay_scan_is_collapsed_scan [OF demo_base demo_scan] demo_scan by simp


theorem merge_active_preserves_witness:
  "baseline (ov_base demo_overlay) (ms_contents demo_memory) \<and>
   ov_merged_entries (ov_merge_active demo_overlay) 7 9 0 10 2 = ov_merged_entries demo_overlay 7 9 0 10 2"
  using merge_active_preserves [OF _ demo_scan, of "ms_contents demo_memory"] mem.baseline_axioms [of demo_memory]
  by simp

theorem reservations_stay_covered_witness:
  "funded (overlay_baseline (snd (al_run overlay_ledger [JudgeAndHold [(1, demo_key, 60)], Settle demo_key 1] demo_overlay)))"
  by (rule reservations_stay_covered [of _ "ms_contents demo_memory"])
     (simp_all add: mem.baseline_axioms demo_funded)

theorem standing_hold_settles_witness:
  "fst (al_settle overlay_ledger demo_key 1 (ov_set_hold demo_key 1 (Some 60) demo_overlay)) = Ok 60"
proof -
  let ?s = "ov_set_hold demo_key 1 (Some 60) demo_overlay"
  have base: "baseline (ov_base ?s) (ms_contents demo_memory)"
    by (simp add: ov_set_hold_def mem.baseline_axioms)
  have amount: "al_amount (overlay_baseline ?s) demo_key = Ok 100"
    by (simp add: overlay_baseline_set_hold demo_amount)
  have "funded (overlay_baseline ?s)"
    by (simp add: funded_def overlay_baseline_set_hold held_sum_put_hold demo_held)
       (simp add: standing_def demo_amount)
  moreover have "ov_held_reservation ?s demo_key 1 = Some 60"
    by (simp add: ov_held_reservation_def layer_hold_def ov_set_hold_def)
  ultimately show ?thesis using standing_hold_settles [OF base _ _ amount] by blast
qed

theorem judge_and_hold_any_order_witness:
  "fst (al_judge_and_hold overlay_ledger [(2, demo_key, 50), (1, demo_key, 60)] demo_overlay)
     = fst (al_judge_and_hold overlay_ledger [(1, demo_key, 60), (2, demo_key, 50)] demo_overlay)"
  using judge_and_hold_any_order [of "[(2, demo_key, 50), (1, demo_key, 60)]" "[(1, demo_key, 60), (2, demo_key, 50)]"]
  by simp

end
