(* ===== verification/Merkle.thy ===== *)
theory Merkle
  imports Bytes
begin

unbundle bit_operations_syntax

text \<open>
  The hashing seam \<open>crates/hbor/src/hash.rs\<close> and the trees of \<open>crates/hbor/src/merkle.rs\<close>: the root over a list
  of leaves, the proof of one leaf, and its verification.

  The protocol hash is a parameter \<open>h\<close>. Soundness of a proof asks that \<open>h\<close> sends the queries the two sides
  make to distinct values; completeness asks nothing.
\<close>

section \<open>The hashing seam\<close>

datatype Hash32 = Hash32 (hash_bytes: bytes)

type_synonym Hasher = "bytes \<Rightarrow> bytes list \<Rightarrow> Hash32"

text \<open>The crate's own hasher for tests: four seeded FNV lanes over length-framed parts.\<close>

definition feed_byte :: "u8 \<Rightarrow> u64 \<Rightarrow> u64" where
  "feed_byte byte state = (state XOR ucast byte) * 0x100000001b3"

definition feed :: "bytes \<Rightarrow> u64 \<Rightarrow> u64" where
  "feed bs state = fold feed_byte (le_bytes (word_of_nat (length bs) :: u64) @ bs) state"

definition mix :: "u64 \<Rightarrow> u64" where
  "mix z =
    (let z = z XOR drop_bit 30 z;
         z = z * 0xbf58476d1ce4e5b9;
         z = z XOR drop_bit 27 z;
         z = z * 0x94d049bb133111eb
     in z XOR drop_bit 31 z)"

definition test_hash :: Hasher where
  "test_hash domain parts = Hash32 (concat (map (\<lambda>lane.
     le_bytes (mix (fold feed parts (feed domain
       (0xcbf29ce484222325 XOR word_of_nat lane * 0x9e3779b97f4a7c15))))) [0..<4]))"

section \<open>The tree\<close>

definition ascii :: "string \<Rightarrow> bytes" where
  "ascii s = map of_char s"

definition DOMAIN_LEAF :: bytes where "DOMAIN_LEAF = ascii ''hbor-merkle-leaf-v1''"

definition DOMAIN_NODE :: bytes where "DOMAIN_NODE = ascii ''hbor-merkle-node-v1''"

definition DOMAIN_PAD :: bytes where "DOMAIN_PAD = ascii ''hbor-merkle-pad-v1''"

definition DOMAIN_ROOT :: bytes where "DOMAIN_ROOT = ascii ''hbor-merkle-root-v1''"

record Proof =
  p_index :: nat
  p_leaf_count :: nat
  p_siblings :: "Hash32 list"

definition merkle_leaf :: "Hasher \<Rightarrow> bytes \<Rightarrow> Hash32" where
  "merkle_leaf h bs = h DOMAIN_LEAF [bs]"

definition merkle_node :: "Hasher \<Rightarrow> Hash32 \<Rightarrow> Hash32 \<Rightarrow> Hash32" where
  "merkle_node h left right = h DOMAIN_NODE [hash_bytes left, hash_bytes right]"

definition merkle_pad :: "Hasher \<Rightarrow> Hash32" where
  "merkle_pad h = h DOMAIN_PAD []"

definition merkle_finish :: "Hasher \<Rightarrow> bytes \<Rightarrow> Hash32 \<Rightarrow> nat \<Rightarrow> Hash32" where
  "merkle_finish h domain tree leaf_count =
    h DOMAIN_ROOT [domain, hash_bytes tree, le_bytes (word_of_nat leaf_count :: u64)]"

text \<open>\<open>as_chunks::<2>\<close>: the whole pairs.\<close>

fun as_pairs :: "'a list \<Rightarrow> ('a \<times> 'a) list" where
  "as_pairs (a # b # xs) = (a, b) # as_pairs xs"
| "as_pairs _ = []"

definition padded :: "Hasher \<Rightarrow> Hash32 list \<Rightarrow> Hash32 list" where
  "padded h level = (if odd (length level) then level @ [merkle_pad h] else level)"

definition level_up :: "Hasher \<Rightarrow> Hash32 list \<Rightarrow> Hash32 list" where
  "level_up h level = map (\<lambda>(l, r). merkle_node h l r) (as_pairs level)"

lemma length_as_pairs [simp]: "length (as_pairs xs) = length xs div 2"
  by (induction xs rule: as_pairs.induct) simp_all

lemma length_padded: "length (padded h level) = 2 * ((length level + 1) div 2)"
  by (auto simp: padded_def elim!: oddE evenE)

lemma length_level_up [simp]: "length (level_up h (padded h level)) = (length level + 1) div 2"
  by (simp add: level_up_def length_padded)

function root_loop :: "Hasher \<Rightarrow> Hash32 list \<Rightarrow> Hash32" where
  "root_loop h level = (if length level > 1 then root_loop h (level_up h (padded h level)) else level ! 0)"
  by pat_completeness auto

termination root_loop
  by (relation "measure (\<lambda>(_, level). length level)") auto

definition root_of :: "Hasher \<Rightarrow> bytes \<Rightarrow> bytes list \<Rightarrow> Hash32" where
  "root_of h domain chunks =
    (let level = map (merkle_leaf h) chunks
     in if level = [] then merkle_finish h domain (merkle_pad h) 0
        else merkle_finish h domain (root_loop h level) (length chunks))"

function prove_loop :: "Hasher \<Rightarrow> Hash32 list \<Rightarrow> nat \<Rightarrow> Hash32 list \<Rightarrow> Hash32 list" where
  "prove_loop h level position siblings =
    (if length level > 1
     then let level = padded h level
          in prove_loop h (level_up h level) (position div 2) (siblings @ [level ! (position XOR 1)])
     else siblings)"
  by pat_completeness auto

termination prove_loop
  by (relation "measure (\<lambda>(_, level, _, _). length level)") auto

definition prove :: "Hasher \<Rightarrow> bytes list \<Rightarrow> nat \<Rightarrow> Proof option" where
  "prove h chunks index =
    (if index \<ge> length chunks then None
     else Some \<lparr> p_index = index, p_leaf_count = length chunks,
            p_siblings = prove_loop h (map (merkle_leaf h) chunks) index [] \<rparr>)"

text \<open>The walk of \<open>verify\<close>: the hash reached and the siblings used, or None where they run out.\<close>

function verify_loop :: "Hasher \<Rightarrow> Hash32 list \<Rightarrow> Hash32 \<Rightarrow> nat \<Rightarrow> nat \<Rightarrow> nat \<Rightarrow> (Hash32 \<times> nat) option" where
  "verify_loop h siblings current position width used =
    (if width > 1
     then if used < length siblings
          then let sibling = siblings ! used;
                   current = (if even position then merkle_node h current sibling else merkle_node h sibling current)
               in verify_loop h siblings current (position div 2) ((width + 1) div 2) (used + 1)
          else None
     else Some (current, used))"
  by pat_completeness auto

termination verify_loop
  by (relation "measure (\<lambda>(_, _, _, _, width, _). width)") auto

definition verify :: "Hasher \<Rightarrow> bytes \<Rightarrow> Hash32 \<Rightarrow> bytes \<Rightarrow> Proof \<Rightarrow> bool" where
  "verify h domain root leaf_bytes proof =
    (if p_index proof \<ge> p_leaf_count proof then False
     else case verify_loop h (p_siblings proof) (merkle_leaf h leaf_bytes) (p_index proof) (p_leaf_count proof) 0 of
       None \<Rightarrow> False
     | Some (current, used) \<Rightarrow>
         used = length (p_siblings proof) \<and> merkle_finish h domain current (p_leaf_count proof) = root)"

declare root_loop.simps [simp del] prove_loop.simps [simp del] verify_loop.simps [simp del]


section \<open>A level and the one above\<close>

lemma nth_as_pairs: "i < length xs div 2 \<Longrightarrow> as_pairs xs ! i = (xs ! (2 * i), xs ! (2 * i + 1))"
proof (induction xs arbitrary: i rule: as_pairs.induct)
  case (1 a b xs)
  then show ?case by (cases i) simp_all
qed simp_all

lemma padded_nth: "i < length level \<Longrightarrow> padded h level ! i = level ! i"
  by (simp add: padded_def nth_append)

lemma sibling_at: "position XOR 1 = (if even position then position + 1 else position - 1)" for position :: nat
  by (simp add: xor_Suc_0_eq)

text \<open>The pair a position belongs to.\<close>

lemma pair_of:
  fixes h :: Hasher
  assumes "position < length level"
  defines "own \<equiv> level ! position" and "other \<equiv> padded h level ! (position XOR 1)"
  shows "as_pairs (padded h level) ! (position div 2) = (if even position then (own, other) else (other, own))"
proof -
  have "position div 2 < length (padded h level) div 2" unfolding length_padded using assms(1) by simp
  note pair = nth_as_pairs [OF this]
  show ?thesis
  proof (cases "even position")
    case True
    then have "2 * (position div 2) = position" by simp
    with pair True assms(1) show ?thesis by (simp add: own_def other_def sibling_at [simplified] padded_nth)
  next
    case False
    then have "2 * (position div 2) + 1 = position" "2 * (position div 2) = position - 1" by simp_all
    with pair False assms(1) show ?thesis by (simp only: own_def other_def sibling_at padded_nth if_False simp_thms)
  qed
qed

lemma parent_pair:
  "position < length level \<Longrightarrow> level_up h (padded h level) ! (position div 2) =
    (if even position then merkle_node h (level ! position) (padded h level ! (position XOR 1))
     else merkle_node h (padded h level ! (position XOR 1)) (level ! position))"
  by (simp add: level_up_def length_padded pair_of split_beta)

text \<open>The siblings from a leaf to the top.\<close>

function path :: "Hasher \<Rightarrow> Hash32 list \<Rightarrow> nat \<Rightarrow> Hash32 list" where
  "path h level position =
    (if length level > 1
     then padded h level ! (position XOR 1) # path h (level_up h (padded h level)) (position div 2)
     else [])"
  by pat_completeness auto

termination path
  by (relation "measure (\<lambda>(_, level, _). length level)") auto

declare path.simps [simp del]

lemma prove_loop_path: "prove_loop h level position siblings = siblings @ path h level position"
  by (induction h level position siblings rule: prove_loop.induct)
     (subst prove_loop.simps, subst path.simps, simp add: Let_def)

lemma walk_complete:
  "position < length level \<Longrightarrow> siblings = before @ path h level position \<Longrightarrow>
    verify_loop h siblings (level ! position) position (length level) (length before) =
      Some (root_loop h level, length siblings)"
proof (induction h level arbitrary: position before rule: root_loop.induct)
  case (1 h level)
  show ?case
  proof (cases "length level > 1")
    case True
    let ?up = "level_up h (padded h level)" and ?s = "padded h level ! (position XOR 1)"
    have path: "path h level position = ?s # path h ?up (position div 2)" using True by (simp add: path.simps [of h level])
    have at: "position div 2 < length ?up" using 1(2) by simp
    have "verify_loop h siblings (?up ! (position div 2)) (position div 2) (length ?up) (length (before @ [?s])) =
        Some (root_loop h ?up, length siblings)"
      by (rule 1(1) [OF True at]) (simp add: 1(3) path)
    moreover have "length before < length siblings" "siblings ! length before = ?s" by (simp_all add: 1(3) path)
    ultimately show ?thesis
      using True parent_pair [OF 1(2), of h] root_loop.simps [of h level]
      by (subst verify_loop.simps) (cases "even position"; simp add: Let_def)
  next
    case False
    then have "position = 0" "length level = 1" using 1(2) by simp_all
    then show ?thesis using 1(3) by (simp add: verify_loop.simps root_loop.simps path.simps)
  qed
qed

section \<open>Without collisions a walk pins the tree\<close>

type_synonym query = "bytes \<times> bytes list"

definition leaf_query :: "bytes \<Rightarrow> query" where "leaf_query bs = (DOMAIN_LEAF, [bs])"

definition node_query :: "Hash32 \<Rightarrow> Hash32 \<Rightarrow> query" where
  "node_query l r = (DOMAIN_NODE, [hash_bytes l, hash_bytes r])"

definition root_query :: "bytes \<Rightarrow> Hash32 \<Rightarrow> nat \<Rightarrow> query" where
  "root_query domain tree n = (DOMAIN_ROOT, [domain, hash_bytes tree, le_bytes (word_of_nat n :: u64)])"

text \<open>The queries a tree makes above its leaves, and the ones a walk makes.\<close>

function tree_queries :: "Hasher \<Rightarrow> Hash32 list \<Rightarrow> query list" where
  "tree_queries h level =
    (if length level > 1
     then map (\<lambda>(l, r). node_query l r) (as_pairs (padded h level)) @ tree_queries h (level_up h (padded h level))
     else [])"
  by pat_completeness auto

termination tree_queries
  by (relation "measure (\<lambda>(_, level). length level)") auto

declare tree_queries.simps [simp del]

fun walk_queries :: "Hasher \<Rightarrow> Hash32 list \<Rightarrow> Hash32 \<Rightarrow> nat \<Rightarrow> query list" where
  "walk_queries h (s # siblings) current position =
    (if even position then node_query current s else node_query s current) #
    walk_queries h siblings (if even position then merkle_node h current s else merkle_node h s current) (position div 2)"
| "walk_queries h [] current position = []"

definition root_queries :: "Hasher \<Rightarrow> bytes \<Rightarrow> bytes list \<Rightarrow> query list" where
  "root_queries h domain chunks =
    (let level = map (merkle_leaf h) chunks
     in map leaf_query chunks @ tree_queries h level @
        [root_query domain (if level = [] then merkle_pad h else root_loop h level) (length chunks)])"

definition verify_queries :: "Hasher \<Rightarrow> bytes \<Rightarrow> bytes \<Rightarrow> Proof \<Rightarrow> query list" where
  "verify_queries h domain leaf_bytes proof =
    leaf_query leaf_bytes # walk_queries h (p_siblings proof) (merkle_leaf h leaf_bytes) (p_index proof) @
    (case verify_loop h (p_siblings proof) (merkle_leaf h leaf_bytes) (p_index proof) (p_leaf_count proof) 0 of
       None \<Rightarrow> [] | Some (current, _) \<Rightarrow> [root_query domain current (p_leaf_count proof)])"

definition ask :: "Hasher \<Rightarrow> query \<Rightarrow> Hash32" where "ask h = (\<lambda>(d, parts). h d parts)"

lemma ask_queries [simp]:
  "ask h (leaf_query bs) = merkle_leaf h bs"
  "ask h (node_query l r) = merkle_node h l r"
  "ask h (root_query domain tree n) = merkle_finish h domain tree n"
  by (simp_all add: ask_def leaf_query_def node_query_def root_query_def merkle_leaf_def merkle_node_def merkle_finish_def)

lemma query_inject [simp]:
  "leaf_query a = leaf_query b \<longleftrightarrow> a = b"
  "node_query l r = node_query l' r' \<longleftrightarrow> l = l' \<and> r = r'"
  by (auto simp: leaf_query_def node_query_def Hash32.expand)

lemma root_query_inject:
  "n < 2 ^ 64 \<Longrightarrow> n' < 2 ^ 64 \<Longrightarrow>
    root_query d t n = root_query d' t' n' \<longleftrightarrow> d = d' \<and> t = t' \<and> n = n'"
proof -
  assume n: "n < 2 ^ 64" "n' < 2 ^ 64"
  have rt: "le_word (le_bytes w) = w" for w :: u64 by (rule le_word_le_bytes) simp
  have "n = n'" if "le_bytes (word_of_nat n :: u64) = le_bytes (word_of_nat n' :: u64)"
  proof -
    have "(word_of_nat n :: u64) = word_of_nat n'"
      using arg_cong [OF that, of "le_word :: bytes \<Rightarrow> u64"] by (simp only: rt)
    then have "unat (word_of_nat n :: u64) = unat (word_of_nat n' :: u64)" by (rule arg_cong)
    moreover have "unat (word_of_nat n :: u64) = n" "unat (word_of_nat n' :: u64) = n'"
      using n by (simp_all add: unat_of_nat)
    ultimately show ?thesis by (simp only:)
  qed
  then show ?thesis by (auto simp: root_query_def Hash32.expand)
qed

lemma pair_query:
  assumes "position < length level" "length level > 1"
  shows "(if even position then node_query (level ! position) (padded h level ! (position XOR 1))
     else node_query (padded h level ! (position XOR 1)) (level ! position)) \<in> set (tree_queries h level)"
proof -
  have "position div 2 < length (as_pairs (padded h level))" using assms(1) by (simp add: length_padded)
  then have "as_pairs (padded h level) ! (position div 2) \<in> set (as_pairs (padded h level))" by (rule nth_mem)
  then have "(\<lambda>(l, r). node_query l r) (as_pairs (padded h level) ! (position div 2)) \<in> set (tree_queries h level)"
    using assms(2) by (subst tree_queries.simps) auto
  then show ?thesis using pair_of [OF assms(1), of h] by (cases "even position") simp_all
qed

lemma walk_sound:
  "inj_on (ask h) (set (tree_queries h level) \<union> set (walk_queries h (drop used siblings) current position)) \<Longrightarrow>
    position < length level \<Longrightarrow> used \<le> length siblings \<Longrightarrow>
    verify_loop h siblings current position (length level) used = Some (root_loop h level, length siblings) \<Longrightarrow>
    current = level ! position \<and> drop used siblings = path h level position"
proof (induction h level arbitrary: position used current rule: root_loop.induct)
  case (1 h level)
  show ?case
  proof (cases "length level > 1")
    case True
    let ?up = "level_up h (padded h level)" and ?o = "padded h level ! (position XOR 1)"
    define q where "q = (\<lambda>own other. if even position then node_query own other else node_query other own)"
    have used: "used < length siblings" using 1(5) True by (subst (asm) verify_loop.simps) (simp split: if_splits)
    define s where "s = siblings ! used"
    have rest: "drop used siblings = s # drop (used + 1) siblings" using used by (simp add: s_def Cons_nth_drop_Suc)
    define c where "c = ask h (q current s)"
    have c: "c = (if even position then merkle_node h current s else merkle_node h s current)" by (simp add: c_def q_def)
    have walk: "walk_queries h (drop used siblings) current position =
        q current s # walk_queries h (drop (used + 1) siblings) c (position div 2)"
      unfolding rest by (simp add: q_def c)
    have tree: "set (tree_queries h ?up) \<subseteq> set (tree_queries h level)" using True by (subst (2) tree_queries.simps) simp
    have up: "c = ?up ! (position div 2) \<and> drop (used + 1) siblings = path h ?up (position div 2)"
    proof (rule 1(1) [OF True])
      show "inj_on (ask h) (set (tree_queries h ?up) \<union> set (walk_queries h (drop (used + 1) siblings) c (position div 2)))"
        by (rule inj_on_subset [OF 1(2)]) (use tree walk in auto)
      show "verify_loop h siblings c (position div 2) (length ?up) (used + 1) = Some (root_loop h ?up, length siblings)"
        using 1(5) True used root_loop.simps [of h level]
        by (subst (asm) verify_loop.simps) (cases "even position"; simp add: Let_def c s_def)
    qed (use 1(3) used in auto)
    then have "ask h (q current s) = ask h (q (level ! position) ?o)"
      using parent_pair [OF 1(3), of h] by (simp add: c_def q_def)
    moreover have "q (level ! position) ?o \<in> set (tree_queries h level)" using pair_query [OF 1(3) True, of h] unfolding q_def .
    ultimately have "q current s = q (level ! position) ?o" using inj_onD [OF 1(2)] walk by auto
    then have "current = level ! position" "s = ?o" by (auto simp: q_def split: if_splits)
    with up True rest show ?thesis by (simp add: path.simps [of h level])
  next
    case False
    with 1(3) have "position = 0" "length level = 1" by simp_all
    with 1(5) show ?thesis by (simp add: verify_loop.simps root_loop.simps path.simps)
  qed
qed

section \<open>Properties\<close>

text \<open>C36 Every leaf of every tree proves. For any hasher, domain, leaves and index, \<open>prove\<close> answers a proof exactly
  where the index names a leaf, and \<open>verify\<close> accepts the leaf's bytes with that proof against the root.\<close>

theorem merkle_complete:
  "case prove h chunks index of
     None \<Rightarrow> length chunks \<le> index
   | Some p \<Rightarrow> index < length chunks \<and> verify h domain (root_of h domain chunks) (chunks ! index) p"
proof (cases "index < length chunks")
  case True
  let ?level = "map (merkle_leaf h) chunks"
  have "verify_loop h (path h ?level index) (?level ! index) index (length ?level) (length ([] :: Hash32 list)) =
      Some (root_loop h ?level, length (path h ?level index))"
    by (rule walk_complete) (use True in simp_all)
  with True show ?thesis
    by (auto simp: prove_def verify_def root_of_def prove_loop_path Let_def)
qed (simp add: prove_def)

text \<open>C35 A proof that verifies proves the leaf. If the hasher sends the queries the root's builder and the verifier
  make to distinct hashes, and both leaf counts are machine words, then a proof accepted against the root of some leaves
  under a domain was checked under that very domain, names one of those leaves, shows that leaf's bytes, and is the
  proof \<open>prove\<close> gives: no other bytes, index, count or list of siblings is accepted.\<close>

theorem merkle_sound:
  assumes distinct: "inj_on (\<lambda>(d, parts). h d parts)
      (set (root_queries h domain chunks) \<union> set (verify_queries h domain' leaf_bytes p))"
    and words: "length chunks < 2 ^ 64" "p_leaf_count p < 2 ^ 64"
    and accepted: "verify h domain' (root_of h domain chunks) leaf_bytes p"
  shows "domain' = domain \<and> p_index p < length chunks \<and> leaf_bytes = chunks ! p_index p \<and>
    prove h chunks (p_index p) = Some p"
proof -
  let ?level = "map (merkle_leaf h) chunks" and ?walk = "walk_queries h (p_siblings p) (merkle_leaf h leaf_bytes) (p_index p)"
  have inj: "inj_on (ask h) (set (root_queries h domain chunks) \<union> set (verify_queries h domain' leaf_bytes p))"
    using distinct by (simp add: ask_def)
  obtain current where run: "p_index p < p_leaf_count p"
      "verify_loop h (p_siblings p) (merkle_leaf h leaf_bytes) (p_index p) (p_leaf_count p) 0 = Some (current, length (p_siblings p))"
      "merkle_finish h domain' current (p_leaf_count p) = root_of h domain chunks"
    using accepted by (auto simp: verify_def split: if_splits option.splits)
  define tree where "tree = (if ?level = [] then merkle_pad h else root_loop h ?level)"
  have "ask h (root_query domain' current (p_leaf_count p)) = ask h (root_query domain tree (length chunks))"
    using run(3) by (simp add: root_of_def tree_def Let_def split: if_splits)
  then have "root_query domain' current (p_leaf_count p) = root_query domain tree (length chunks)"
    by (rule inj_onD [OF inj]) (simp_all add: verify_queries_def run(2) root_queries_def tree_def Let_def)
  then have same: "domain' = domain" "current = tree" "p_leaf_count p = length chunks"
    using root_query_inject [OF words(2,1)] by simp_all
  with run(1) have at: "p_index p < length ?level" and tree: "tree = root_loop h ?level" by (auto simp: tree_def)
  have "merkle_leaf h leaf_bytes = ?level ! p_index p \<and> drop 0 (p_siblings p) = path h ?level (p_index p)"
  proof (rule walk_sound [OF _ at])
    show "inj_on (ask h) (set (tree_queries h ?level) \<union> set (walk_queries h (drop 0 (p_siblings p)) (merkle_leaf h leaf_bytes) (p_index p)))"
      by (rule inj_on_subset [OF inj]) (auto simp: root_queries_def verify_queries_def Let_def)
  qed (use run(2) same tree in simp_all)
  then have leaf: "ask h (leaf_query leaf_bytes) = ask h (leaf_query (chunks ! p_index p))" and path: "p_siblings p = path h ?level (p_index p)"
    using at by simp_all
  have "leaf_query leaf_bytes = leaf_query (chunks ! p_index p)"
    by (rule inj_onD [OF inj leaf]) (use at in \<open>auto simp: verify_queries_def root_queries_def Let_def\<close>)
  with same at path show ?thesis by (simp add: prove_def prove_loop_path)
qed

definition sample_hash :: Hasher where "sample_hash domain parts = Hash32 (concat (domain # parts))"

definition sample_proof :: Proof where
  "sample_proof = \<lparr> p_index = 1, p_leaf_count = 2, p_siblings = [merkle_leaf sample_hash [1]] \<rparr>"

lemmas sample_eval = sample_hash_def sample_proof_def merkle_leaf_def merkle_node_def merkle_finish_def
  DOMAIN_LEAF_def DOMAIN_NODE_def DOMAIN_ROOT_def ascii_def of_char_def le_bytes_def upt_rec [of _ "numeral _"]
  padded_def level_up_def Let_def

theorem merkle_sound_witness:
  "verify sample_hash [9] (root_of sample_hash [9] [[1], [2]]) [2] sample_proof \<and>
   prove sample_hash [[1], [2]] 1 = Some sample_proof"
proof -
  let ?h = sample_hash
  have root: "root_loop ?h (map (merkle_leaf ?h) [[1], [2]]) = merkle_node ?h (merkle_leaf ?h [1]) (merkle_leaf ?h [2])"
    by (simp add: root_loop.simps padded_def level_up_def)
  have walk: "verify_loop ?h [merkle_leaf ?h [1]] (merkle_leaf ?h [2]) 1 2 0 =
      Some (merkle_node ?h (merkle_leaf ?h [1]) (merkle_leaf ?h [2]), 1)"
    by (simp add: verify_loop.simps)
  have ok: "verify ?h [9] (root_of ?h [9] [[1], [2]]) [2] sample_proof"
    using root walk by (simp add: verify_def root_of_def sample_proof_def numeral_2_eq_2)
  have "inj_on (\<lambda>(d, parts). ?h d parts)
      (set (root_queries ?h [9] [[1], [2]]) \<union> set (verify_queries ?h [9] [2] sample_proof))"
    using root walk
    by (simp add: root_queries_def verify_queries_def tree_queries.simps padded_def sample_proof_def
        leaf_query_def node_query_def root_query_def numeral_2_eq_2 inj_on_def)
       (simp add: sample_eval)
  from merkle_sound [OF this _ _ ok] ok show ?thesis by (simp add: sample_proof_def)
qed

end
