(* ===== verification/Varint.thy ===== *)
theory Varint
  imports Bytes
begin

text \<open>
  \<open>crates/hbor/src/error.rs\<close> and \<open>crates/hbor/src/varint.rs\<close>: the failure vocabularies of
  the canonical encoding and its length field, a minimal LEB128 number of at most
  four bytes. A \<open>usize\<close> is a natural number here; every value that reaches an
  operation below is bounded by 28 bits. The lemmas show the written field reads
  back, and that a field that reads is the one field written for its value.
\<close>

unbundle bit_operations_syntax

datatype EncodeError =
    EncLengthTooLarge nat nat
  | EncBoundExceeded string nat nat
  | EncDepthExceeded nat

datatype DecodeError =
    UnexpectedEof nat nat
  | TrailingBytes nat
  | NonMinimalLength
  | LengthTooLarge
  | LengthExceedsInput nat nat
  | BoundExceeded nat nat
  | DepthExceeded nat
  | InvalidBool u8
  | InvalidDiscriminant u8
  | InvalidUtf8
  | FailedValidation string
  | UnsortedKeys

definition MAX_LENGTH :: nat where "MAX_LENGTH = 0x0FFFFFFF"

function encoded_len_loop :: "nat \<Rightarrow> nat \<Rightarrow> nat" where
  "encoded_len_loop len rest = (if rest > 0 then encoded_len_loop (len + 1) (drop_bit 7 rest) else len)"
  by pat_completeness auto

lemma drop_bit_7_less: "0 < (rest :: nat) \<Longrightarrow> drop_bit 7 rest < rest"
  by (simp add: drop_bit_eq_div)

termination encoded_len_loop
  by (relation "measure snd") (auto simp: drop_bit_7_less)

definition encoded_len :: "nat \<Rightarrow> nat" where
  "encoded_len v = encoded_len_loop 1 (drop_bit 7 v)"

function varint_loop :: "nat \<Rightarrow> u8 list \<Rightarrow> nat \<Rightarrow> u8 list \<times> nat" where
  "varint_loop rest out len =
    (let seven = word_of_nat (rest AND 0x7F) :: u8;
         rest' = drop_bit 7 rest;
         out' = out[len := (if rest' = 0 then seven else seven OR 0x80)]
     in if rest' = 0 then (out', len + 1) else varint_loop rest' out' (len + 1))"
  by pat_completeness auto

termination varint_loop
  by (relation "measure (\<lambda>(rest, _, _). rest)")
     (auto simp: drop_bit_eq_div intro: gr0I)

declare encoded_len_loop.simps [simp del] varint_loop.simps [simp del]

definition varint_encode :: "nat \<Rightarrow> (EncodeError, u8 list \<times> nat) result" where
  "varint_encode v =
    (if v > MAX_LENGTH then Err (EncLengthTooLarge v MAX_LENGTH)
     else Ok (varint_loop v [0, 0, 0, 0] 0))"

definition varint_write :: "u8 list \<Rightarrow> nat \<Rightarrow> (EncodeError, u8 list) result" where
  "varint_write buf v =
    and_then (varint_encode v) (\<lambda>(field, len).
      Ok (if len \<le> length field then buf @ take len field else buf))"

function varint_read_loop :: "u8 list \<Rightarrow> nat \<Rightarrow> nat \<Rightarrow> nat \<Rightarrow> (DecodeError, nat \<times> nat) result" where
  "varint_read_loop bs v shift consumed =
    (if consumed < length bs
     then (let byte = bs ! consumed;
               v' = v OR push_bit shift (unat (byte AND 0x7F)) in
           if byte < 0x80
           then (if byte = 0 \<and> shift \<noteq> 0 then Err NonMinimalLength else Ok (v', consumed + 1))
           else if shift + 7 \<ge> 28 then Err LengthTooLarge
           else varint_read_loop bs v' (shift + 7) (consumed + 1))
     else Err (UnexpectedEof 1 0))"
  by pat_completeness auto

termination varint_read_loop
  by (relation "measure (\<lambda>(_, _, shift, _). 28 - shift)") auto

declare varint_read_loop.simps [simp del]

definition varint_read :: "u8 list \<Rightarrow> (DecodeError, nat \<times> nat) result" where
  "varint_read bs = varint_read_loop bs 0 0 0"


subsection \<open>The field as a list of sevens\<close>

function leb :: "nat \<Rightarrow> u8 list" where
  "leb v = (if v < 128 then [word_of_nat v] else word_of_nat (v mod 128 + 128) # leb (v div 128))"
  by pat_completeness auto

termination leb
  by (relation "measure id") auto

declare leb.simps [simp del]

lemma leb_small: "v < 128 \<Longrightarrow> leb v = [word_of_nat v]"
  by (simp add: leb.simps)

lemma leb_big: "128 \<le> v \<Longrightarrow> leb v = word_of_nat (v mod 128 + 128) # leb (v div 128)"
  by (subst leb.simps) simp

lemma leb_nonempty [simp]: "leb v \<noteq> []" "0 < length (leb v)"
  by (subst leb.simps, simp)+

lemma low_and_high: "take_bit k (x :: 'a::len word) AND push_bit k y = 0"
  by (rule bit_eqI) (auto simp: bit_simps)

lemma seven_or: "word_of_nat (v mod 128) OR 0x80 = (word_of_nat (v mod 128 + 128) :: u8)"
proof -
  have low: "word_of_nat (v mod 128) = (take_bit 7 (word_of_nat v) :: u8)"
    by (simp add: take_bit_eq_mod word_arith_nat_mod unat_of_nat take_bit_nat_def mod_mod_cancel)
  have "(word_of_nat (v mod 128) :: u8) AND 0x80 = 0"
    using low_and_high [of 7 "word_of_nat v" "1 :: u8"] unfolding low by simp
  then show ?thesis by (simp add: disjunctive_add_eq_or [symmetric])
qed

lemma length_leb: "0 < k \<Longrightarrow> v < 128 ^ k \<Longrightarrow> length (leb v) \<le> k"
proof (induction v arbitrary: k rule: leb.induct)
  case (1 v)
  show ?case
  proof (cases "v < 128")
    case False
    then have "1 < k" using 1(2,3) by (cases k; cases "k - 1") auto
    then obtain j where k: "k = Suc j" "0 < j" by (cases k) auto
    with 1(3) have "v div 128 < 128 ^ j" by (simp add: less_mult_imp_div_less mult.commute)
    with 1(1) [OF False k(2)] False k show ?thesis by (simp add: leb_big)
  qed (use 1 in \<open>simp add: leb_small\<close>)
qed

lemma encoded_len_loop_leb: "0 < rest \<Longrightarrow> encoded_len_loop len rest = len + length (leb rest)"
proof (induction rest arbitrary: len rule: leb.induct)
  case (1 v)
  show ?case
  proof (cases "v < 128")
    case True
    then have "drop_bit 7 v = 0" by (simp add: drop_bit_eq_div)
    with True 1(2) show ?thesis
      by (simp add: leb_small encoded_len_loop.simps [of len] encoded_len_loop.simps [of _ 0])
  next
    case False
    then have "0 < v div 128" by (simp add: div_greater_zero_iff)
    with 1(1) [OF False, of "len + 1"] False 1(2) show ?thesis
      by (simp add: leb_big encoded_len_loop.simps [of len v] drop_bit_eq_div)
  qed
qed

lemma encoded_len_leb: "encoded_len v = length (leb v)"
proof (cases "v < 128")
  case True
  then have "drop_bit 7 v = 0" by (simp add: drop_bit_eq_div)
  with True show ?thesis by (simp add: encoded_len_def leb_small encoded_len_loop.simps)
next
  case False
  then show ?thesis by (simp add: encoded_len_def drop_bit_eq_div encoded_len_loop_leb div_greater_zero_iff leb_big)
qed

lemma varint_loop_leb:
  "len + length (leb rest) \<le> length out \<Longrightarrow>
   varint_loop rest out len
     = (take len out @ leb rest @ drop (len + length (leb rest)) out, len + length (leb rest))"
proof (induction rest arbitrary: out len rule: leb.induct)
  case (1 v)
  have mask: "v AND 0x7F = v mod 128"
    using take_bit_eq_mask [of 7 v] by (simp add: take_bit_eq_mod mask_eq_exp_minus_1)
  show ?case
  proof (cases "v < 128")
    case True
    then have "drop_bit 7 v = 0" by (simp add: drop_bit_eq_div)
    with True 1(2) mask show ?thesis
      by (simp add: varint_loop.simps [of v] leb_small upd_conv_take_nth_drop)
  next
    case False
    then have "drop_bit 7 v = v div 128" "drop_bit 7 v \<noteq> 0" by (simp_all add: drop_bit_eq_div div_eq_0_iff)
    with False 1(2) 1(1) [OF False, of "len + 1" "out[len := word_of_nat (v mod 128 + 128)]"] mask show ?thesis
      by (simp add: varint_loop.simps [of v] leb_big seven_or take_Suc_conv_app_nth)
  qed
qed

lemma MAX_LENGTH_less: "v \<le> MAX_LENGTH \<Longrightarrow> v < 128 ^ 4"
  by (simp add: MAX_LENGTH_def)

lemma varint_encode_leb:
  assumes "v \<le> MAX_LENGTH"
  shows "varint_encode v = Ok (leb v @ replicate (4 - length (leb v)) 0, length (leb v))"
proof -
  have "length (leb v) \<le> 4" using length_leb [of 4 v] MAX_LENGTH_less [OF assms] by simp
  moreover have "drop n [0, 0, 0, 0 :: u8] = replicate (4 - n) 0" for n
    using drop_replicate [of n 4 "0 :: u8"] by (simp add: numeral_eq_Suc)
  ultimately show ?thesis using assms by (simp add: varint_encode_def varint_loop_leb)
qed

lemma varint_write_leb: "v \<le> MAX_LENGTH \<Longrightarrow> varint_write buf v = Ok (buf @ leb v)"
  by (simp add: varint_write_def varint_encode_leb)

subsection \<open>Reading the field back\<close>

lemma byte_low: "unat ((b :: u8) AND 0x7F) = unat b mod 128"
proof -
  have "b AND 0x7F = take_bit 7 b" by (simp add: take_bit_eq_mask mask_eq_exp_minus_1)
  then have "unat (b AND 0x7F) = take_bit 7 (unat b)" by (simp only: unsigned_take_bit_eq)
  then show ?thesis by (simp add: take_bit_eq_mod)
qed

lemma byte_high: "(b :: u8) < 0x80 \<longleftrightarrow> unat b < 128"
  by (simp add: word_less_nat_alt)

lemma unat_low_byte: "n < 256 \<Longrightarrow> unat (word_of_nat n :: u8) = n"
  by (simp add: unat_of_nat take_bit_nat_eq_self)

text \<open>One step of the reader, over the naturals.\<close>

lemma varint_read_step:
  assumes "v < 2 ^ shift" "consumed < length bs"
  shows "varint_read_loop bs v shift consumed =
    (let byte = unat (bs ! consumed); v' = v + byte mod 128 * 2 ^ shift in
     if byte < 128 then (if byte = 0 \<and> shift \<noteq> 0 then Err NonMinimalLength else Ok (v', consumed + 1))
     else if 28 \<le> shift + 7 then Err LengthTooLarge
     else varint_read_loop bs v' (shift + 7) (consumed + 1))"
  using assms
  by (subst varint_read_loop.simps)
     (simp add: Let_def byte_low byte_high or_push_bit unat_eq_zero)

lemma shift_bound: "v < 2 ^ shift \<Longrightarrow> b < 128 \<Longrightarrow> v + b * 2 ^ shift < 2 ^ (shift + 7)" for v b :: nat
proof -
  assume "v < 2 ^ shift" "b < 128"
  then have "b * 2 ^ shift \<le> 127 * 2 ^ shift" by (intro mult_right_mono) simp_all
  then have "v + b * 2 ^ shift < 128 * 2 ^ shift" using \<open>v < 2 ^ shift\<close> by linarith
  then show ?thesis by (simp add: power_add mult.commute)
qed

lemma varint_read_leb:
  "drop consumed bs = leb w @ rest \<Longrightarrow> v < 2 ^ shift \<Longrightarrow> shift + 7 * length (leb w) \<le> 28 \<Longrightarrow>
   w \<noteq> 0 \<or> shift = 0 \<Longrightarrow>
   varint_read_loop bs v shift consumed = Ok (v + w * 2 ^ shift, consumed + length (leb w))"
proof (induction w arbitrary: v shift consumed rule: leb.induct)
  case (1 w)
  have len: "consumed < length bs" using 1(2) by (metis drop_eq_Nil2 leb_nonempty(1) not_less append_is_Nil_conv)
  have head: "bs ! consumed = hd (leb w)"
    using 1(2) len by (metis hd_append2 hd_drop_conv_nth leb_nonempty(1))
  show ?case
  proof (cases "w < 128")
    case True
    then show ?thesis using 1(3,5) len head
      by (auto simp: varint_read_step Let_def leb_small unat_low_byte)
  next
    case False
    let ?b = "w mod 128 + 128"
    have "bs ! consumed = word_of_nat ?b" using False head by (simp add: leb_big)
    then have b: "unat (bs ! consumed) = ?b" by (simp add: unat_low_byte del: of_nat_add)
    have tail: "drop (consumed + 1) bs = leb (w div 128) @ rest"
      using 1(2) False Cons_nth_drop_Suc [OF len] by (simp add: leb_big)
    have more: "shift + 7 + 7 * length (leb (w div 128)) \<le> 28" using 1(4) False by (simp add: leb_big)
    moreover have "7 \<le> 7 * length (leb (w div 128))" using leb_nonempty(1) [of "w div 128"] by (simp add: Suc_le_eq)
    ultimately have "\<not> 28 \<le> shift + 7" by linarith
    moreover have "w div 128 \<noteq> 0" using False by (simp add: div_eq_0_iff)
    moreover have "w mod 128 * 2 ^ shift + w div 128 * 2 ^ (shift + 7) = w * 2 ^ shift"
    proof -
      have "w * 2 ^ shift = (w mod 128 + w div 128 * 2 ^ 7) * 2 ^ shift" by simp
      then show ?thesis by (simp only: distrib_left power_add ac_simps)
    qed
    ultimately show ?thesis
      using 1(1) [OF False tail _ more] shift_bound [OF 1(3), of "w mod 128"] False 1(3) len b
      by (simp add: varint_read_step Let_def leb_big add.assoc mod_add_self2)
  qed
qed

lemma varint_read_written:
  "w \<le> MAX_LENGTH \<Longrightarrow> varint_read (leb w @ rest) = Ok (w, length (leb w))"
  using varint_read_leb [of 0 "leb w @ rest" w rest 0 0] length_leb [of 4 w] MAX_LENGTH_less [of w]
  by (simp add: varint_read_def)

text \<open>A field that reads is the one written for its value.\<close>

lemma varint_read_canonical:
  "varint_read_loop bs v shift consumed = Ok (r, c) \<Longrightarrow> v < 2 ^ shift \<Longrightarrow> 7 dvd shift \<Longrightarrow> shift < 28 \<Longrightarrow>
   \<exists>w. r = v + w * 2 ^ shift \<and> (w \<noteq> 0 \<or> shift = 0) \<and> c = consumed + length (leb w)
     \<and> take (length (leb w)) (drop consumed bs) = leb w \<and> r < 2 ^ 28"
proof (induction bs v shift consumed rule: varint_read_loop.induct)
  case (1 bs v shift consumed)
  have len: "consumed < length bs"
    using 1(2) by (rule contrapos_pp) (simp add: varint_read_loop.simps)
  define b where "b = unat (bs ! consumed)"
  have "shift + 7 \<le> 28" using 1(4,5) by (auto elim!: dvdE)
  note read = 1(2) [unfolded varint_read_step [OF 1(3) len] Let_def, folded b_def]
  have step: "drop consumed bs = word_of_nat b # drop (consumed + 1) bs"
    using len by (simp add: b_def Cons_nth_drop_Suc)
  show ?case
  proof (cases "b < 128")
    case True
    with read have r: "r = v + b * 2 ^ shift" "c = consumed + 1" "b \<noteq> 0 \<or> shift = 0"
      by (auto split: if_splits)
    have "r < 2 ^ (shift + 7)" using shift_bound [OF 1(3) True] r by simp
    also have "\<dots> \<le> 2 ^ 28" using \<open>shift + 7 \<le> 28\<close> by (intro power_increasing) simp_all
    finally show ?thesis using r step True by (intro exI [of _ b]) (simp add: leb_small)
  next
    case False
    define v' where "v' = v + b mod 128 * 2 ^ shift"
    have next': "varint_read_loop bs v' (shift + 7) (consumed + 1) = Ok (r, c)" "shift + 7 < 28"
      using read False by (auto simp: v'_def split: if_splits)
    have "v' < 2 ^ (shift + 7)" unfolding v'_def by (rule shift_bound [OF 1(3)]) simp
    moreover have "v OR push_bit shift (unat (bs ! consumed AND 0x7F)) = v'"
      by (simp add: v'_def byte_low or_push_bit 1(3) b_def)
    ultimately obtain w where w: "r = v' + w * 2 ^ (shift + 7)" "w \<noteq> 0" "c = consumed + 1 + length (leb w)"
      "take (length (leb w)) (drop (consumed + 1) bs) = leb w" "r < 2 ^ 28"
      using 1(1) [OF len refl refl] False next' 1(4) by (auto simp: byte_high b_def)
    define u where "u = b mod 128 + 128 * w"
    have "128 \<le> u" "u mod 128 = b mod 128" "u div 128 = w" using w(2) by (simp_all add: u_def)
    moreover have "b < 256" using unat_bound [of "bs ! consumed"] by (simp add: b_def)
    then have "b mod 128 + 128 = b" using False by (simp add: le_mod_geq)
    ultimately have "leb u = word_of_nat b # leb w" by (simp add: leb_big)
    moreover have "r = v + u * 2 ^ shift" by (simp add: w(1) v'_def u_def power_add algebra_simps)
    ultimately show ?thesis using w step \<open>128 \<le> u\<close> by (intro exI [of _ u]) simp
  qed
qed

lemma varint_read_Ok:
  assumes "varint_read bs = Ok (w, c)"
  shows "w \<le> MAX_LENGTH \<and> c = length (leb w) \<and> take c bs = leb w \<and> c \<le> length bs"
proof -
  from varint_read_canonical [OF assms [unfolded varint_read_def]]
  have *: "w < 2 ^ 28" "c = length (leb w)" "take (length (leb w)) bs = leb w" by auto
  from *(3) have "length (leb w) \<le> length bs" by (metis length_take min_def nat_le_linear)
  with * show ?thesis by (simp add: MAX_LENGTH_def)
qed

end
