(* ===== verification/Ops.thy ===== *)
theory Ops
  imports Prelude
begin

text \<open>
  Fallible operations on a mutable receiver: a method \<open>fn m(&mut self) -> Result<A, E>\<close>
  is a function from the state to its result and the state it leaves, the error
  path included. Sequencing is the \<open>?\<close> operator; the two loops are \<open>for\<close> over a
  slice and \<open>for\<close> over a count, each leaving at the first error.
\<close>

type_synonym ('s, 'e, 'a) op = "'s \<Rightarrow> ('e, 'a) result \<times> 's"

definition op_ok :: "'a \<Rightarrow> ('s, 'e, 'a) op" where
  "op_ok a s = (Ok a, s)"

definition op_err :: "'e \<Rightarrow> ('s, 'e, 'a) op" where
  "op_err e s = (Err e, s)"

definition op_then :: "('s, 'e, 'a) op \<Rightarrow> ('a \<Rightarrow> ('s, 'e, 'b) op) \<Rightarrow> ('s, 'e, 'b) op" where
  "op_then m f s = (case m s of (Ok a, s') \<Rightarrow> f a s' | (Err e, s') \<Rightarrow> (Err e, s'))"

definition op_map :: "('a \<Rightarrow> 'b) \<Rightarrow> ('s, 'e, 'a) op \<Rightarrow> ('s, 'e, 'b) op" where
  "op_map f m = op_then m (\<lambda>a. op_ok (f a))"

primrec op_each :: "('a \<Rightarrow> ('s, 'e, unit) op) \<Rightarrow> 'a list \<Rightarrow> ('s, 'e, unit) op" where
  "op_each f [] = op_ok ()"
| "op_each f (x # xs) = op_then (f x) (\<lambda>_. op_each f xs)"

primrec op_times :: "nat \<Rightarrow> ('s, 'e, 'a) op \<Rightarrow> ('s, 'e, 'a list) op" where
  "op_times 0 m = op_ok []"
| "op_times (Suc n) m = op_then m (\<lambda>a. op_then (op_times n m) (\<lambda>as. op_ok (a # as)))"

text \<open>A step that may also panic.\<close>

datatype 'e fault = Fault 'e | Panic

definition op_fault :: "('s, 'e, 'a) op \<Rightarrow> ('s, 'e fault, 'a) op" where
  "op_fault m s = (case m s of (Ok a, s') \<Rightarrow> (Ok a, s') | (Err e, s') \<Rightarrow> (Err (Fault e), s'))"

primrec op_list :: "('s, 'e, 'a) op list \<Rightarrow> ('s, 'e, 'a list) op" where
  "op_list [] = op_ok []"
| "op_list (m # ms) = op_then m (\<lambda>a. op_then (op_list ms) (\<lambda>as. op_ok (a # as)))"

lemma op_ok_eq [simp]: "op_ok a s = (r, s') \<longleftrightarrow> r = Ok a \<and> s' = s"
  by (auto simp: op_ok_def)

lemma op_err_eq [simp]: "op_err e s = (r, s') \<longleftrightarrow> r = Err e \<and> s' = s"
  by (auto simp: op_err_def)

lemma op_then_Ok:
  "op_then m f s = (Ok b, s'') \<longleftrightarrow> (\<exists>a s'. m s = (Ok a, s') \<and> f a s' = (Ok b, s''))"
  by (auto simp: op_then_def split: prod.splits result.splits)

lemma op_then_Err:
  "op_then m f s = (Err e, s'') \<longleftrightarrow>
     m s = (Err e, s'') \<or> (\<exists>a s'. m s = (Ok a, s') \<and> f a s' = (Err e, s''))"
  by (auto simp: op_then_def split: prod.splits result.splits)

lemma op_then_runs:
  "m s = (Ok a, s') \<Longrightarrow> op_then m f s = f a s'"
  "m s = (Err e, s') \<Longrightarrow> op_then m f s = (Err e, s')"
  by (simp_all add: op_then_def)

lemma op_map_Ok: "op_map f m s = (Ok b, s') \<longleftrightarrow> (\<exists>a. m s = (Ok a, s') \<and> b = f a)"
  by (auto simp: op_map_def op_then_Ok)

lemma op_then_assoc: "op_then (op_then m f) g = op_then m (\<lambda>a. op_then (f a) g)"
  by (rule ext) (auto simp: op_then_def split: prod.splits result.splits)

lemma op_then_ok_left [simp]: "op_then (op_ok a) f = f a"
  by (rule ext) (simp add: op_then_def op_ok_def)

lemma op_then_err_left [simp]: "op_then (op_err e) f = op_err e"
  by (rule ext) (simp add: op_then_def op_err_def)

lemma op_then_ok_right [simp]: "op_then m op_ok = m"
  by (rule ext) (auto simp: op_then_def op_ok_def split: prod.splits result.splits)

lemma op_times_length: "op_times n m s = (Ok xs, s') \<Longrightarrow> length xs = n"
  by (induction n arbitrary: s xs) (auto simp: op_then_Ok)

end
