(* ===== verification/Hbor.thy ===== *)
theory Hbor
  imports Varint Ops BTree
begin

text \<open>
  \<open>crates/hbor/src/{encode,decode,primitive,collection,bounded,lib}.rs\<close>: the encoder over
  its two sinks, the decoder, and the codecs of the scalar and variable-length
  types. A trait implementation is a function: \<open>encode\<close> takes the sink's methods,
  the value and the encoder, \<open>decode\<close> the decoder, and a generic implementation
  takes its elements' own.

  The wire form of a value is stated on its own, as the bytes a codec owes at a
  depth under a nesting cap, or the refusal. \<open>emits\<close> says an encode writes exactly
  it, on any sink; \<open>reads\<close> says a decode accepts exactly it. Every codec below is
  shown to do both, so decoding accepts the encoder's own bytes and nothing else.
\<close>

unbundle bit_operations_syntax

named_theorems emits_intros \<open>what each write emits\<close>
named_theorems reads_intros \<open>what each read accepts\<close>


section \<open>The encoder\<close>

record 's Sink =
  sk_write :: "bytes \<Rightarrow> 's \<Rightarrow> 's"
  sk_write_array :: "bytes \<Rightarrow> 's \<Rightarrow> 's"
  sk_written :: "'s \<Rightarrow> nat"

definition vec_sink :: "bytes Sink" where
  "vec_sink = \<lparr> sk_write = (\<lambda>bs buf. buf @ bs), sk_write_array = (\<lambda>bs buf. buf @ bs),
               sk_written = length \<rparr>"

definition USIZE_MAX :: nat where "USIZE_MAX = 2 ^ 64 - 1"

record Fixed =
  fx_buf :: bytes
  fx_at :: nat
  fx_overflowed :: bool

definition fixed_new :: "bytes \<Rightarrow> Fixed" where
  "fixed_new buf = \<lparr> fx_buf = buf, fx_at = 0, fx_overflowed = False \<rparr>"

definition fixed_written :: "Fixed \<Rightarrow> nat option" where
  "fixed_written fx = (if \<not> fx_overflowed fx then Some (fx_at fx) else None)"

definition fixed_slot :: "nat \<Rightarrow> Fixed \<Rightarrow> nat option" where
  "fixed_slot n fx =
    (let end = fx_at fx + n in
     if end \<le> USIZE_MAX then (if end \<le> length (fx_buf fx) then Some end else None) else None)"

definition fixed_write :: "bytes \<Rightarrow> Fixed \<Rightarrow> Fixed" where
  "fixed_write bs fx =
    (case fixed_slot (length bs) fx of
       Some end \<Rightarrow> fx\<lparr> fx_buf := take (fx_at fx) (fx_buf fx) @ bs @ drop end (fx_buf fx),
                       fx_at := fx_at fx + length bs \<rparr>
     | None \<Rightarrow> fx\<lparr> fx_overflowed := True \<rparr>)"

definition fixed_write_array :: "bytes \<Rightarrow> Fixed \<Rightarrow> Fixed" where
  "fixed_write_array bs fx =
    (case fixed_slot (length bs) fx of
       Some end \<Rightarrow> fx\<lparr> fx_buf := take (fx_at fx) (fx_buf fx) @ bs @ drop end (fx_buf fx),
                       fx_at := fx_at fx + length bs \<rparr>
     | None \<Rightarrow> fx\<lparr> fx_overflowed := True \<rparr>)"

definition fixed_sink :: "Fixed Sink" where
  "fixed_sink = \<lparr> sk_write = fixed_write, sk_write_array = fixed_write_array, sk_written = fx_at \<rparr>"

record 's Encoder =
  e_out :: 's
  e_depth :: nat
  e_max_depth :: nat

type_synonym 's enc_op = "('s Encoder, EncodeError, unit) op"

definition encoder_new :: "'s \<Rightarrow> nat \<Rightarrow> 's Encoder" where
  "encoder_new out max_depth = \<lparr> e_out = out, e_depth = 0, e_max_depth = max_depth \<rparr>"

definition write_u8 :: "'s Sink \<Rightarrow> u8 \<Rightarrow> 's enc_op" where
  "write_u8 S byte e = (Ok (), e\<lparr> e_out := sk_write_array S [byte] (e_out e) \<rparr>)"

definition write_fixed :: "'s Sink \<Rightarrow> bytes \<Rightarrow> 's enc_op" where
  "write_fixed S bs e = (Ok (), e\<lparr> e_out := sk_write S bs (e_out e) \<rparr>)"

definition write_array :: "'s Sink \<Rightarrow> bytes \<Rightarrow> 's enc_op" where
  "write_array S bs e = (Ok (), e\<lparr> e_out := sk_write_array S bs (e_out e) \<rparr>)"

definition write_len :: "'s Sink \<Rightarrow> nat \<Rightarrow> 's enc_op" where
  "write_len S len e =
    (case varint_encode len of
       Err er \<Rightarrow> (Err er, e)
     | Ok (field, written) \<Rightarrow>
         if written \<le> length field then write_fixed S (take written field) e else (Ok (), e))"

definition write_sized :: "'s Sink \<Rightarrow> bytes \<Rightarrow> 's enc_op" where
  "write_sized S bs = op_then (write_len S (length bs)) (\<lambda>_. write_fixed S bs)"

definition enc_descend :: "'s enc_op \<Rightarrow> 's enc_op" where
  "enc_descend w e =
    (if e_depth e \<ge> e_max_depth e then (Err (EncDepthExceeded (e_max_depth e)), e)
     else case w (e\<lparr> e_depth := e_depth e + 1 \<rparr>) of
            (r, e') \<Rightarrow> (r, e'\<lparr> e_depth := e_depth e' - 1 \<rparr>))"

definition enc_nested :: "('a \<Rightarrow> 's enc_op) \<Rightarrow> 'a \<Rightarrow> 's enc_op" where
  "enc_nested encode x = enc_descend (encode x)"

section \<open>The decoder\<close>

record Decoder =
  d_input :: bytes
  d_cursor :: nat
  d_depth :: nat
  d_max_depth :: nat

type_synonym 'a dec_op = "(Decoder, DecodeError, 'a) op"

definition decoder_new :: "bytes \<Rightarrow> nat \<Rightarrow> Decoder" where
  "decoder_new input max_depth =
    \<lparr> d_input = input, d_cursor = 0, d_depth = 0, d_max_depth = max_depth \<rparr>"

definition d_remaining :: "Decoder \<Rightarrow> nat" where
  "d_remaining d = length (d_input d) - d_cursor d"

definition d_consumed :: "nat \<Rightarrow> Decoder \<Rightarrow> bytes" where
  "d_consumed start d = take (d_cursor d - start) (drop start (d_input d))"

definition read_u8 :: "u8 dec_op" where
  "read_u8 d =
    (if d_cursor d < length (d_input d)
     then (Ok (d_input d ! d_cursor d), d\<lparr> d_cursor := d_cursor d + 1 \<rparr>)
     else (Err (UnexpectedEof 1 0), d))"

definition read_slice :: "nat \<Rightarrow> bytes dec_op" where
  "read_slice len d =
    (if d_remaining d < len then (Err (UnexpectedEof len (d_remaining d)), d)
     else (Ok (take len (drop (d_cursor d) (d_input d))), d\<lparr> d_cursor := d_cursor d + len \<rparr>))"

definition read_array :: "nat \<Rightarrow> bytes dec_op" where
  "read_array n = read_slice n"

text \<open>The caller owes a nonzero element width; the code asserts it, and every caller
  below is a codec whose element width the type level has refused at zero.\<close>

definition read_len :: "nat \<Rightarrow> nat dec_op" where
  "read_len min_element_len d =
    (case varint_read (drop (d_cursor d) (d_input d)) of
       Err er \<Rightarrow> (Err er, d)
     | Ok (v, consumed) \<Rightarrow>
         let d' = d\<lparr> d_cursor := d_cursor d + consumed \<rparr>;
             capacity = d_remaining d' div min_element_len
         in if v > capacity then (Err (LengthExceedsInput v capacity), d') else (Ok v, d'))"

definition dec_descend :: "'a dec_op \<Rightarrow> 'a dec_op" where
  "dec_descend r d =
    (if d_depth d \<ge> d_max_depth d then (Err (DepthExceeded (d_max_depth d)), d)
     else case r (d\<lparr> d_depth := d_depth d + 1 \<rparr>) of
            (x, d') \<Rightarrow> (x, d'\<lparr> d_depth := d_depth d' - 1 \<rparr>))"

definition dec_finish :: "Decoder \<Rightarrow> (DecodeError, unit) result" where
  "dec_finish d = (if d_remaining d > 0 then Err (TrailingBytes (d_remaining d)) else Ok ())"

definition DEFAULT_MAX_DEPTH :: nat where "DEFAULT_MAX_DEPTH = 64"

definition to_vec_with_depth :: "('a \<Rightarrow> bytes enc_op) \<Rightarrow> 'a \<Rightarrow> nat \<Rightarrow> (EncodeError, bytes) result" where
  "to_vec_with_depth encode x max_depth =
    (case encode x (encoder_new [] max_depth) of
       (Err er, _) \<Rightarrow> Err er
     | (Ok _, e) \<Rightarrow> Ok (e_out e))"

definition to_vec :: "('a \<Rightarrow> bytes enc_op) \<Rightarrow> 'a \<Rightarrow> (EncodeError, bytes) result" where
  "to_vec encode x = to_vec_with_depth encode x DEFAULT_MAX_DEPTH"

definition to_slice_infallible :: "('a \<Rightarrow> Fixed enc_op) \<Rightarrow> 'a \<Rightarrow> bytes \<Rightarrow> bytes" where
  "to_slice_infallible encode x out =
    (case encode x (encoder_new (fixed_new out) DEFAULT_MAX_DEPTH) of
       (Err _, _) \<Rightarrow> []
     | (Ok _, e) \<Rightarrow>
         case fixed_written (e_out e) of
           None \<Rightarrow> []
         | Some len \<Rightarrow> if len \<le> length (fx_buf (e_out e)) then take len (fx_buf (e_out e)) else [])"

definition from_slice_with_depth :: "'a dec_op \<Rightarrow> bytes \<Rightarrow> nat \<Rightarrow> (DecodeError, 'a) result" where
  "from_slice_with_depth decode bs max_depth =
    (case decode (decoder_new bs max_depth) of
       (Err er, _) \<Rightarrow> Err er
     | (Ok v, d) \<Rightarrow> map_res (\<lambda>_. v) (dec_finish d))"

definition from_slice :: "'a dec_op \<Rightarrow> bytes \<Rightarrow> (DecodeError, 'a) result" where
  "from_slice decode bs = from_slice_with_depth decode bs DEFAULT_MAX_DEPTH"


section \<open>The codecs\<close>

subsection \<open>Scalars, options, tuples\<close>

definition word_encode :: "'s Sink \<Rightarrow> 'w::len word \<Rightarrow> 's enc_op" where
  "word_encode S w = write_array S (le_bytes w)"

definition word_decode :: "'w::len word dec_op" where
  "word_decode = op_map le_word (read_array (LENGTH('w) div 8))"

definition bool_encode :: "'s Sink \<Rightarrow> bool \<Rightarrow> 's enc_op" where
  "bool_encode S b = write_u8 S (if b then 1 else 0)"

definition bool_decode :: "bool dec_op" where
  "bool_decode = op_then read_u8 (\<lambda>byte.
    if byte = 0 then op_ok False else if byte = 1 then op_ok True else op_err (InvalidBool byte))"

definition unit_encode :: "'s Sink \<Rightarrow> unit \<Rightarrow> 's enc_op" where
  "unit_encode S u = op_ok ()"

definition unit_decode :: "unit dec_op" where
  "unit_decode = op_ok ()"

definition option_encode :: "'s Sink \<Rightarrow> ('a \<Rightarrow> 's enc_op) \<Rightarrow> 'a option \<Rightarrow> 's enc_op" where
  "option_encode S encode x =
    (case x of None \<Rightarrow> write_u8 S 0
     | Some v \<Rightarrow> op_then (write_u8 S 1) (\<lambda>_. enc_nested encode v))"

definition option_decode :: "'a dec_op \<Rightarrow> 'a option dec_op" where
  "option_decode decode = op_then read_u8 (\<lambda>tag.
    if tag = 0 then op_ok None
    else if tag = 1 then op_map Some (dec_descend decode)
    else op_err (InvalidDiscriminant tag))"

definition array_encode :: "'s Sink \<Rightarrow> bytes \<Rightarrow> 's enc_op" where
  "array_encode S bs = write_array S bs"

definition array_decode :: "nat \<Rightarrow> bytes dec_op" where
  "array_decode n = read_array n"

definition pair_encode :: "('a \<Rightarrow> 's enc_op) \<Rightarrow> ('b \<Rightarrow> 's enc_op) \<Rightarrow> 'a \<times> 'b \<Rightarrow> 's enc_op" where
  "pair_encode enc_a enc_b x =
    op_then (enc_nested enc_a (fst x)) (\<lambda>_. enc_nested enc_b (snd x))"

definition pair_decode :: "'a dec_op \<Rightarrow> 'b dec_op \<Rightarrow> ('a \<times> 'b) dec_op" where
  "pair_decode dec_a dec_b =
    op_then (dec_descend dec_a) (\<lambda>a. op_map (Pair a) (dec_descend dec_b))"


subsection \<open>Sequences, text, sets and maps\<close>

definition vec_encode :: "'s Sink \<Rightarrow> ('a \<Rightarrow> 's enc_op) \<Rightarrow> 'a list \<Rightarrow> 's enc_op" where
  "vec_encode S encode xs =
    op_then (write_len S (length xs)) (\<lambda>_. enc_descend (op_each encode xs))"

definition vec_decode :: "nat \<Rightarrow> 'a dec_op \<Rightarrow> 'a list dec_op" where
  "vec_decode width decode =
    op_then (read_len width) (\<lambda>len. dec_descend (op_times len decode))"

text \<open>The well-formedness table of UTF-8, as \<open>core::str::from_utf8\<close> checks it.\<close>

definition utf8_tail :: "u8 \<Rightarrow> bool" where
  "utf8_tail b = (0x80 \<le> b \<and> b \<le> 0xBF)"

fun from_utf8 :: "bytes \<Rightarrow> bool" where
  "from_utf8 [] = True"
| "from_utf8 (a # r) =
    (if a < 0x80 then from_utf8 r
     else case r of [] \<Rightarrow> False | b # r2 \<Rightarrow>
       if 0xC2 \<le> a \<and> a \<le> 0xDF then utf8_tail b \<and> from_utf8 r2
       else case r2 of [] \<Rightarrow> False | c # r3 \<Rightarrow>
         if a = 0xE0 then 0xA0 \<le> b \<and> b \<le> 0xBF \<and> utf8_tail c \<and> from_utf8 r3
         else if a = 0xED then 0x80 \<le> b \<and> b \<le> 0x9F \<and> utf8_tail c \<and> from_utf8 r3
         else if 0xE1 \<le> a \<and> a \<le> 0xEF then utf8_tail b \<and> utf8_tail c \<and> from_utf8 r3
         else case r3 of [] \<Rightarrow> False | e # r4 \<Rightarrow>
           if a = 0xF0 then 0x90 \<le> b \<and> b \<le> 0xBF \<and> utf8_tail c \<and> utf8_tail e \<and> from_utf8 r4
           else if a = 0xF4 then 0x80 \<le> b \<and> b \<le> 0x8F \<and> utf8_tail c \<and> utf8_tail e \<and> from_utf8 r4
           else 0xF1 \<le> a \<and> a \<le> 0xF3 \<and> utf8_tail b \<and> utf8_tail c \<and> utf8_tail e \<and> from_utf8 r4)"

text \<open>A \<open>String\<close> is its bytes, UTF-8 by the type.\<close>

definition string_encode :: "'s Sink \<Rightarrow> bytes \<Rightarrow> 's enc_op" where
  "string_encode S bs = write_sized S bs"

definition string_decode :: "bytes dec_op" where
  "string_decode = op_then (read_len 1) (\<lambda>len. op_then (read_slice len) (\<lambda>bs.
    if from_utf8 bs then op_ok bs else op_err InvalidUtf8))"

definition bt_last :: "('k::linorder, 'v) btmap \<Rightarrow> ('k \<times> 'v) option" where
  "bt_last m = (if entries m = [] then None else Some (last (entries m)))"

definition btset_encode :: "'s Sink \<Rightarrow> ('a::linorder \<Rightarrow> 's enc_op) \<Rightarrow> 'a btset \<Rightarrow> 's enc_op" where
  "btset_encode S encode s =
    op_then (write_len S (bt_len s)) (\<lambda>_. enc_descend (op_each encode (bt_keys s)))"

primrec btset_loop :: "nat \<Rightarrow> 'a::linorder dec_op \<Rightarrow> 'a btset \<Rightarrow> 'a btset dec_op" where
  "btset_loop 0 decode out = op_ok out"
| "btset_loop (Suc n) decode out = op_then decode (\<lambda>x.
    if (case bt_last out of Some (l, _) \<Rightarrow> x \<le> l | None \<Rightarrow> False) then op_err UnsortedKeys
    else btset_loop n decode (bs_insert x out))"

definition btset_decode :: "nat \<Rightarrow> 'a::linorder dec_op \<Rightarrow> 'a btset dec_op" where
  "btset_decode width decode =
    op_then (read_len width) (\<lambda>len. dec_descend (btset_loop len decode bt_empty))"

definition btmap_encode ::
  "'s Sink \<Rightarrow> ('k::linorder \<Rightarrow> 's enc_op) \<Rightarrow> ('v \<Rightarrow> 's enc_op) \<Rightarrow> ('k, 'v) btmap \<Rightarrow> 's enc_op" where
  "btmap_encode S enc_k enc_v m =
    op_then (write_len S (bt_len m)) (\<lambda>_.
      enc_descend (op_each (\<lambda>(k, v). op_then (enc_k k) (\<lambda>_. enc_v v)) (entries m)))"

primrec btmap_loop ::
  "nat \<Rightarrow> 'k::linorder dec_op \<Rightarrow> 'v dec_op \<Rightarrow> ('k, 'v) btmap \<Rightarrow> ('k, 'v) btmap dec_op" where
  "btmap_loop 0 dec_k dec_v out = op_ok out"
| "btmap_loop (Suc n) dec_k dec_v out = op_then dec_k (\<lambda>k. op_then dec_v (\<lambda>v.
    if (case bt_last out of Some (l, _) \<Rightarrow> k \<le> l | None \<Rightarrow> False) then op_err UnsortedKeys
    else btmap_loop n dec_k dec_v (bt_insert k v out)))"

definition btmap_decode ::
  "nat \<Rightarrow> nat \<Rightarrow> 'k::linorder dec_op \<Rightarrow> 'v dec_op \<Rightarrow> ('k, 'v) btmap dec_op" where
  "btmap_decode width_k width_v dec_k dec_v =
    op_then (read_len (width_k + width_v)) (\<lambda>len.
      dec_descend (btmap_loop len dec_k dec_v bt_empty))"


subsection \<open>Length-capped reads\<close>

definition bounded_check :: "nat \<Rightarrow> nat \<Rightarrow> (DecodeError, nat) result" where
  "bounded_check claimed cap = (if claimed > cap then Err (BoundExceeded cap claimed) else Ok claimed)"

definition read_len_check :: "nat \<Rightarrow> nat \<Rightarrow> nat dec_op" where
  "read_len_check width cap = op_then (read_len width) (\<lambda>len.
    case bounded_check len cap of Ok n \<Rightarrow> op_ok n | Err er \<Rightarrow> op_err er)"

definition encode_bytes :: "'s Sink \<Rightarrow> bytes \<Rightarrow> 's enc_op" where
  "encode_bytes S bs =
    op_then (write_len S (length bs)) (\<lambda>_. enc_descend (write_fixed S bs))"

definition decode_bytes :: "bytes dec_op" where
  "decode_bytes = op_then (read_len 1) (\<lambda>len. dec_descend (read_slice len))"

definition decode_bounded_bytes :: "nat \<Rightarrow> bytes dec_op" where
  "decode_bounded_bytes cap = op_then (read_len_check 1 cap) (\<lambda>len. dec_descend (read_slice len))"

definition decode_bounded_vec :: "nat \<Rightarrow> 'a dec_op \<Rightarrow> nat \<Rightarrow> 'a list dec_op" where
  "decode_bounded_vec width decode cap =
    op_then (read_len_check width cap) (\<lambda>len. dec_descend (op_times len decode))"

definition decode_bounded_string :: "nat \<Rightarrow> bytes dec_op" where
  "decode_bounded_string cap = op_then (read_len_check 1 cap) (\<lambda>len. op_then (read_slice len) (\<lambda>bs.
    if from_utf8 bs then op_ok bs else op_err InvalidUtf8))"

definition decode_bounded_btree_set :: "nat \<Rightarrow> 'a::linorder dec_op \<Rightarrow> nat \<Rightarrow> 'a btset dec_op" where
  "decode_bounded_btree_set width decode cap =
    op_then (read_len_check width cap) (\<lambda>len. dec_descend (btset_loop len decode bt_empty))"

definition decode_bounded_btree_map ::
  "nat \<Rightarrow> nat \<Rightarrow> 'k::linorder dec_op \<Rightarrow> 'v dec_op \<Rightarrow> nat \<Rightarrow> ('k, 'v) btmap dec_op" where
  "decode_bounded_btree_map width_k width_v dec_k dec_v cap =
    op_then (read_len_check (width_k + width_v) cap) (\<lambda>len.
      dec_descend (btmap_loop len dec_k dec_v bt_empty))"

section \<open>The wire form\<close>

text \<open>The bytes a value owes at a depth under a cap, or the encoder's refusal.\<close>

type_synonym wire = "nat \<Rightarrow> nat \<Rightarrow> (EncodeError, bytes) result"

definition wire_lit :: "bytes \<Rightarrow> wire" where
  "wire_lit bs d m = Ok bs"

definition wire_seq :: "wire \<Rightarrow> wire \<Rightarrow> wire" where
  "wire_seq a b d m = and_then (a d m) (\<lambda>x. map_res (append x) (b d m))"

definition wire_nest :: "wire \<Rightarrow> wire" where
  "wire_nest w d m = (if d \<ge> m then Err (EncDepthExceeded m) else w (d + 1) m)"

definition wire_len :: "nat \<Rightarrow> wire" where
  "wire_len n d m = (if n > MAX_LENGTH then Err (EncLengthTooLarge n MAX_LENGTH) else Ok (leb n))"

primrec wire_each :: "('a \<Rightarrow> wire) \<Rightarrow> 'a list \<Rightarrow> wire" where
  "wire_each w [] = wire_lit []"
| "wire_each w (x # xs) = wire_seq (w x) (wire_each w xs)"

lemma wire_lit_Ok [simp]: "wire_lit bs d m = Ok b \<longleftrightarrow> b = bs"
  by (auto simp: wire_lit_def)

lemma wire_seq_Ok:
  "wire_seq u w d m = Ok b \<longleftrightarrow> (\<exists>x y. u d m = Ok x \<and> w d m = Ok y \<and> b = x @ y)"
  by (auto simp: wire_seq_def)

lemma wire_nest_Ok: "wire_nest w d m = Ok b \<longleftrightarrow> d < m \<and> w (d + 1) m = Ok b"
  by (auto simp: wire_nest_def)

lemma wire_len_Ok: "wire_len n d m = Ok b \<longleftrightarrow> n \<le> MAX_LENGTH \<and> b = leb n"
  by (auto simp: wire_len_def)

lemma wire_each_length:
  "wire_each w xs d m = Ok b \<Longrightarrow> (\<And>x c. x \<in> set xs \<Longrightarrow> w x d m = Ok c \<Longrightarrow> k \<le> length c) \<Longrightarrow>
   k * length xs \<le> length b"
proof (induction xs arbitrary: b)
  case (Cons x xs)
  from Cons.prems(1) obtain p q where pq: "w x d m = Ok p" "wire_each w xs d m = Ok q" "b = p @ q"
    by (auto simp: wire_seq_Ok)
  then have "k \<le> length p" "k * length xs \<le> length q" using Cons by auto
  with pq show ?case by simp
qed simp

lemma wire_each_bytes: "wire_each (\<lambda>x. wire_lit [x]) bs = wire_lit bs"
  by (induction bs) (auto simp: fun_eq_iff wire_seq_def wire_lit_def)


subsection \<open>Sinks\<close>

lemma encoder_unmoved: "\<exists>s. e = e\<lparr> e_out := s \<rparr>" "rep (e_out e) bs \<Longrightarrow> \<exists>s. e = e\<lparr> e_out := s \<rparr> \<and> rep s bs"
  for e :: "'s Encoder"
  by (rule exI [of _ "e_out e"], simp)+

text \<open>The contract of \<open>Sink\<close>: \<open>rep s bs\<close> says the sink \<open>s\<close> stands for the bytes \<open>bs\<close>
  written so far, and each write appends.\<close>

locale sink =
  fixes S :: "'s Sink" and rep :: "'s \<Rightarrow> bytes \<Rightarrow> bool"
  assumes rep_write: "rep s bs \<Longrightarrow> rep (sk_write S x s) (bs @ x)"
    and rep_write_array: "rep s bs \<Longrightarrow> rep (sk_write_array S x s) (bs @ x)"
begin

definition emits :: "'s enc_op \<Rightarrow> wire \<Rightarrow> bool" where
  "emits act w \<longleftrightarrow> (\<forall>e bs. rep (e_out e) bs \<longrightarrow>
    (case w (e_depth e) (e_max_depth e) of
       Ok b \<Rightarrow> \<exists>s. act e = (Ok (), e\<lparr> e_out := s \<rparr>) \<and> rep s (bs @ b)
     | Err er \<Rightarrow> \<exists>s. act e = (Err er, e\<lparr> e_out := s \<rparr>)))"

lemma emits_ok [emits_intros]: "emits (op_ok ()) (wire_lit [])"
  unfolding emits_def wire_lit_def by (auto simp: op_ok_def encoder_unmoved)

lemma emits_write_u8 [emits_intros]: "emits (write_u8 S b) (wire_lit [b])"
  unfolding emits_def wire_lit_def write_u8_def by (auto intro!: exI rep_write_array)

lemma emits_write_fixed [emits_intros]: "emits (write_fixed S b) (wire_lit b)"
  unfolding emits_def wire_lit_def write_fixed_def by (auto intro!: exI rep_write)

lemma emits_write_array [emits_intros]: "emits (write_array S b) (wire_lit b)"
  unfolding emits_def wire_lit_def write_array_def by (auto intro!: exI rep_write_array)

lemma emits_write_len [emits_intros]: "emits (write_len S n) (wire_len n)"
proof -
  have "write_len S n = (if n > MAX_LENGTH then op_err (EncLengthTooLarge n MAX_LENGTH) else write_fixed S (leb n))"
  proof (cases "n > MAX_LENGTH")
    case False
    then obtain field written where "varint_encode n = Ok (field, written)"
      "written \<le> length field" "take written field = leb n"
      using varint_encode_leb [of n] by (auto simp: not_less)
    with False show ?thesis by (auto simp: write_len_def fun_eq_iff)
  qed (auto simp: write_len_def varint_encode_def fun_eq_iff op_err_def)
  then show ?thesis
    using emits_write_fixed [of "leb n"]
    by (auto simp: emits_def wire_len_def wire_lit_def op_err_def encoder_unmoved split: if_splits)
qed

lemma emits_then [emits_intros]:
  assumes a: "emits a u" and b: "emits b w"
  shows "emits (op_then a (\<lambda>_. b)) (wire_seq u w)"
  unfolding emits_def
proof (intro allI impI)
  fix e :: "'s Encoder" and bs assume rep: "rep (e_out e) bs"
  show "case wire_seq u w (e_depth e) (e_max_depth e) of
       Ok c \<Rightarrow> \<exists>s. op_then a (\<lambda>_. b) e = (Ok (), e\<lparr> e_out := s \<rparr>) \<and> rep s (bs @ c)
     | Err er \<Rightarrow> \<exists>s. op_then a (\<lambda>_. b) e = (Err er, e\<lparr> e_out := s \<rparr>)"
  proof (cases "u (e_depth e) (e_max_depth e)")
    case (Ok x)
    then obtain s where s: "a e = (Ok (), e\<lparr> e_out := s \<rparr>)" "rep s (bs @ x)"
      using a rep unfolding emits_def by fastforce
    with b [unfolded emits_def, rule_format, of "e\<lparr> e_out := s \<rparr>" "bs @ x"] Ok
    show ?thesis by (auto simp: wire_seq_def op_then_runs split: result.splits)
  next
    case (Err er)
    then obtain s where "a e = (Err er, e\<lparr> e_out := s \<rparr>)"
      using a rep unfolding emits_def by fastforce
    with Err show ?thesis by (auto simp: wire_seq_def op_then_runs)
  qed
qed

lemma emits_descend [emits_intros]:
  assumes "emits a w" shows "emits (enc_descend a) (wire_nest w)"
  unfolding emits_def
proof (intro allI impI)
  fix e :: "'s Encoder" and bs assume rep: "rep (e_out e) bs"
  let ?e = "e\<lparr> e_depth := e_depth e + 1 \<rparr>"
  have "case w (e_depth e + 1) (e_max_depth e) of
       Ok b \<Rightarrow> \<exists>s. a ?e = (Ok (), ?e\<lparr> e_out := s \<rparr>) \<and> rep s (bs @ b)
     | Err er \<Rightarrow> \<exists>s. a ?e = (Err er, ?e\<lparr> e_out := s \<rparr>)"
    using assms [unfolded emits_def, rule_format, of ?e bs] rep by simp
  then show "case wire_nest w (e_depth e) (e_max_depth e) of
       Ok b \<Rightarrow> \<exists>s. enc_descend a e = (Ok (), e\<lparr> e_out := s \<rparr>) \<and> rep s (bs @ b)
     | Err er \<Rightarrow> \<exists>s. enc_descend a e = (Err er, e\<lparr> e_out := s \<rparr>)"
    by (cases e) (auto simp: wire_nest_def enc_descend_def split: result.splits)
qed

lemma emits_each [emits_intros]:
  "(\<And>x. x \<in> set xs \<Longrightarrow> emits (f x) (w x)) \<Longrightarrow> emits (op_each f xs) (wire_each w xs)"
  by (induction xs) (auto intro!: emits_intros)

end

interpretation vs: sink vec_sink "(=)"
  by unfold_locales (simp_all add: vec_sink_def)

definition fixed_rep :: "nat \<Rightarrow> Fixed \<Rightarrow> bytes \<Rightarrow> bool" where
  "fixed_rep n fx bs \<longleftrightarrow> length (fx_buf fx) = n \<and> fx_at fx \<le> n \<and> n \<le> USIZE_MAX \<and>
    (if fx_overflowed fx then n < length bs else fx_at fx = length bs \<and> take (fx_at fx) (fx_buf fx) = bs)"

lemma fixed_rep_write: "fixed_rep n fx bs \<Longrightarrow> fixed_rep n (fixed_write x fx) (bs @ x)"
  by (auto simp: fixed_rep_def fixed_write_def fixed_slot_def Let_def split: if_splits)

lemma fixed_write_array_eq: "fixed_write_array = fixed_write"
  by (simp add: fun_eq_iff fixed_write_array_def fixed_write_def)

interpretation fs: sink fixed_sink "fixed_rep n"
  by unfold_locales (simp_all add: fixed_sink_def fixed_write_array_eq fixed_rep_write)

lemma to_vec_emits:
  assumes "\<And>x. vs.emits (enc x) (w x)"
  shows "to_vec_with_depth enc x m = w x 0 m"
  using assms [of x, unfolded vs.emits_def, rule_format, of "encoder_new [] m" "[]"]
  by (auto simp: to_vec_with_depth_def encoder_new_def split: result.splits)

lemma to_slice_emits:
  assumes "\<And>x n. fs.emits n (enc x) (w x)" "length out \<le> USIZE_MAX"
  shows "to_slice_infallible enc x out =
    (case w x 0 DEFAULT_MAX_DEPTH of Ok b \<Rightarrow> if length b \<le> length out then b else [] | Err _ \<Rightarrow> [])"
proof -
  let ?e = "encoder_new (fixed_new out) DEFAULT_MAX_DEPTH"
  have "fixed_rep (length out) (e_out ?e) []"
    using assms(2) by (simp add: encoder_new_def fixed_new_def fixed_rep_def)
  from assms(1) [of "length out" x, unfolded fs.emits_def, rule_format, OF this] show ?thesis
    by (auto simp: to_slice_infallible_def encoder_new_def fixed_written_def fixed_rep_def split: result.splits if_splits)
qed


subsection \<open>Reading\<close>

definition in_bounds :: "Decoder \<Rightarrow> bool" where
  "in_bounds d = (d_cursor d \<le> length (d_input d))"

definition reads :: "'a dec_op \<Rightarrow> ('a \<Rightarrow> wire) \<Rightarrow> ('a \<Rightarrow> bool) \<Rightarrow> bool" where
  "reads act w valid \<longleftrightarrow> (\<forall>d v d'. in_bounds d \<longrightarrow>
    (act d = (Ok v, d') \<longleftrightarrow> valid v \<and>
      (\<exists>b rest. w v (d_depth d) (d_max_depth d) = Ok b \<and> drop (d_cursor d) (d_input d) = b @ rest \<and>
        d' = d\<lparr> d_cursor := d_cursor d + length b \<rparr>)))"

lemma readsI:
  assumes "\<And>d v d'. in_bounds d \<Longrightarrow> act d = (Ok v, d') \<Longrightarrow> valid v \<and>
      (\<exists>b rest. w v (d_depth d) (d_max_depth d) = Ok b \<and> drop (d_cursor d) (d_input d) = b @ rest \<and>
        d' = d\<lparr> d_cursor := d_cursor d + length b \<rparr>)"
    and "\<And>d v b rest. in_bounds d \<Longrightarrow> valid v \<Longrightarrow> w v (d_depth d) (d_max_depth d) = Ok b \<Longrightarrow>
      drop (d_cursor d) (d_input d) = b @ rest \<Longrightarrow> act d = (Ok v, d\<lparr> d_cursor := d_cursor d + length b \<rparr>)"
  shows "reads act w valid"
  unfolding reads_def using assms by blast

lemma readsD:
  assumes "reads act w valid" "act d = (Ok v, d')" "in_bounds d"
  obtains b rest where "valid v" "w v (d_depth d) (d_max_depth d) = Ok b"
    "drop (d_cursor d) (d_input d) = b @ rest" "d' = d\<lparr> d_cursor := d_cursor d + length b \<rparr>"
  using assms unfolding reads_def by blast

lemma readsR:
  assumes "reads act w valid" "in_bounds d" "valid v" "w v (d_depth d) (d_max_depth d) = Ok b"
    "drop (d_cursor d) (d_input d) = b @ rest"
  shows "act d = (Ok v, d\<lparr> d_cursor := d_cursor d + length b \<rparr>)"
  using assms unfolding reads_def by blast

lemma in_bounds_step:
  assumes "in_bounds d" "drop (d_cursor d) (d_input d) = b @ rest"
  shows "in_bounds (d\<lparr> d_cursor := d_cursor d + length b \<rparr>)"
    and "drop (d_cursor d + length b) (d_input d) = rest"
proof -
  have "length (d_input d) - d_cursor d = length b + length rest"
    using assms(2) by (metis length_append length_drop)
  with assms(1) show "in_bounds (d\<lparr> d_cursor := d_cursor d + length b \<rparr>)" by (simp add: in_bounds_def)
  have "drop (length b) (drop (d_cursor d) (d_input d)) = rest" by (simp add: assms(2))
  then show "drop (d_cursor d + length b) (d_input d) = rest" by (simp add: add.commute)
qed

lemma reads_weaken:
  "reads act w valid \<Longrightarrow> (\<And>v. valid v \<Longrightarrow> w v = w' v) \<Longrightarrow> (\<And>v. valid v = valid' v) \<Longrightarrow> reads act w' valid'"
  unfolding reads_def by metis

lemma reads_ok [reads_intros]: "reads (op_ok a) (\<lambda>_. wire_lit []) (\<lambda>v. v = a)"
  by (rule readsI) auto

lemma reads_err [reads_intros]: "reads (op_err er) w (\<lambda>_. False)"
  by (rule readsI) auto

lemma reads_u8 [reads_intros]: "reads read_u8 (\<lambda>b. wire_lit [b]) (\<lambda>_. True)"
proof (rule readsI)
  fix d :: Decoder and v d' assume "in_bounds d" "read_u8 d = (Ok v, d')"
  then show "True \<and> (\<exists>b rest. wire_lit [v] (d_depth d) (d_max_depth d) = Ok b \<and>
      drop (d_cursor d) (d_input d) = b @ rest \<and> d' = d\<lparr> d_cursor := d_cursor d + length b \<rparr>)"
    using Cons_nth_drop_Suc [of "d_cursor d" "d_input d"]
    by (auto simp: read_u8_def split: if_splits intro!: exI [of _ "drop (Suc (d_cursor d)) (d_input d)"])
next
  fix d :: Decoder and v b rest assume "wire_lit [v] (d_depth d) (d_max_depth d) = Ok b" "drop (d_cursor d) (d_input d) = b @ rest"
  then have *: "drop (d_cursor d) (d_input d) = v # rest" "b = [v]" by auto
  then have "d_cursor d < length (d_input d)" by (metis drop_all list.distinct(1) not_less)
  with * show "read_u8 d = (Ok v, d\<lparr> d_cursor := d_cursor d + length b \<rparr>)"
    using nth_via_drop [OF *(1)] by (simp add: read_u8_def)
qed

lemma reads_slice [reads_intros]: "reads (read_slice n) wire_lit (\<lambda>bs. length bs = n)"
proof (rule readsI)
  fix d :: Decoder and v d' assume "in_bounds d" "read_slice n d = (Ok v, d')"
  then show "length v = n \<and> (\<exists>b rest. wire_lit v (d_depth d) (d_max_depth d) = Ok b \<and>
      drop (d_cursor d) (d_input d) = b @ rest \<and> d' = d\<lparr> d_cursor := d_cursor d + length b \<rparr>)"
    by (auto simp: read_slice_def d_remaining_def in_bounds_def split: if_splits
        intro!: exI [of _ "drop n (drop (d_cursor d) (d_input d))"] simp del: drop_drop)
next
  fix d :: Decoder and v b rest
  assume "length v = n" "wire_lit v (d_depth d) (d_max_depth d) = Ok b" "drop (d_cursor d) (d_input d) = b @ rest"
  moreover from this have "length (d_input d) - d_cursor d = n + length rest"
    by (metis length_append length_drop wire_lit_Ok)
  ultimately show "read_slice n d = (Ok v, d\<lparr> d_cursor := d_cursor d + length b \<rparr>)"
    by (auto simp: read_slice_def d_remaining_def)
qed

lemma reads_then:
  assumes A: "reads A u valid_a" and B: "\<And>a. valid_a a \<Longrightarrow> reads (B a) (w a) (valid_b a)"
    and p: "\<And>a c. valid_a a \<Longrightarrow> valid_b a c \<Longrightarrow> p c = a"
  shows "reads (op_then A B) (\<lambda>c. wire_seq (u (p c)) (w (p c) c)) (\<lambda>c. valid_a (p c) \<and> valid_b (p c) c)"
proof (rule readsI)
  fix d :: Decoder and v d'' assume d: "in_bounds d" and run: "op_then A B d = (Ok v, d'')"
  then obtain a d' where "A d = (Ok a, d')" and b: "B a d' = (Ok v, d'')" by (auto simp: op_then_Ok)
  with A d obtain x r where x: "valid_a a" "u a (d_depth d) (d_max_depth d) = Ok x"
    "drop (d_cursor d) (d_input d) = x @ r" "d' = d\<lparr> d_cursor := d_cursor d + length x \<rparr>"
    by (elim readsD) auto
  note bounds = in_bounds_step [OF d x(3)]
  obtain y s where y: "valid_b a v" "w a v (d_depth d) (d_max_depth d) = Ok y" "r = y @ s"
    "d'' = d'\<lparr> d_cursor := d_cursor d' + length y \<rparr>"
    using readsD [OF B [OF x(1)] b] bounds x(4) by auto
  moreover have "p v = a" using p x(1) y(1) by blast
  ultimately show "(valid_a (p v) \<and> valid_b (p v) v) \<and>
      (\<exists>b rest. wire_seq (u (p v)) (w (p v) v) (d_depth d) (d_max_depth d) = Ok b \<and>
        drop (d_cursor d) (d_input d) = b @ rest \<and> d'' = d\<lparr> d_cursor := d_cursor d + length b \<rparr>)"
    using x by (intro conjI exI [of _ "x @ y"] exI [of _ s]) (auto simp: wire_seq_def)
next
  fix d :: Decoder and v b rest
  assume d: "in_bounds d" and v: "valid_a (p v) \<and> valid_b (p v) v"
    and "wire_seq (u (p v)) (w (p v) v) (d_depth d) (d_max_depth d) = Ok b"
    and rest: "drop (d_cursor d) (d_input d) = b @ rest"
  then obtain x y where xy: "u (p v) (d_depth d) (d_max_depth d) = Ok x"
    "w (p v) v (d_depth d) (d_max_depth d) = Ok y" "b = x @ y" by (auto simp: wire_seq_Ok)
  with rest have *: "drop (d_cursor d) (d_input d) = x @ (y @ rest)" by simp
  note bounds = in_bounds_step [OF d *]
  show "op_then A B d = (Ok v, d\<lparr> d_cursor := d_cursor d + length b \<rparr>)"
    using readsR [OF A d _ xy(1) *] v xy bounds
      readsR [OF B, of "p v" "d\<lparr> d_cursor := d_cursor d + length x \<rparr>" v y rest]
    by (simp add: op_then_runs add.assoc)
qed

lemma reads_map:
  assumes "reads A u valid" "\<And>a. valid a \<Longrightarrow> g (f a) = a"
  shows "reads (op_map f A) (\<lambda>c. u (g c)) (\<lambda>c. valid (g c) \<and> c = f (g c))"
  unfolding op_map_def
  by (rule reads_weaken [OF reads_then [OF assms(1) reads_ok, where p = g]])
     (auto simp: assms(2) fun_eq_iff wire_seq_def wire_lit_def and_then_def split: result.splits)

lemma reads_descend [reads_intros]:
  assumes "reads A u valid"
  shows "reads (dec_descend A) (\<lambda>v. wire_nest (u v)) valid"
proof (rule readsI)
  fix d :: Decoder and v d' assume d: "in_bounds d" and run: "dec_descend A d = (Ok v, d')"
  let ?d = "d\<lparr> d_depth := d_depth d + 1 \<rparr>"
  from run obtain d1 where d1: "A ?d = (Ok v, d1)" "d' = d1\<lparr> d_depth := d_depth d1 - 1 \<rparr>" "d_depth d < d_max_depth d"
    by (auto simp: dec_descend_def split: if_splits prod.splits)
  moreover have "in_bounds ?d" using d by (simp add: in_bounds_def)
  ultimately obtain b rest where "valid v" "u v (d_depth d + 1) (d_max_depth d) = Ok b"
    "drop (d_cursor d) (d_input d) = b @ rest" "d1 = ?d\<lparr> d_cursor := d_cursor d + length b \<rparr>"
    using readsD [OF assms d1(1)] by auto
  with d1(2,3) show "valid v \<and> (\<exists>b rest. wire_nest (u v) (d_depth d) (d_max_depth d) = Ok b \<and>
        drop (d_cursor d) (d_input d) = b @ rest \<and> d' = d\<lparr> d_cursor := d_cursor d + length b \<rparr>)"
    by (cases d) (auto simp: wire_nest_Ok)
next
  fix d :: Decoder and v b rest
  assume "in_bounds d" "valid v" "wire_nest (u v) (d_depth d) (d_max_depth d) = Ok b"
    "drop (d_cursor d) (d_input d) = b @ rest"
  moreover from this have "in_bounds (d\<lparr> d_depth := d_depth d + 1 \<rparr>)" by (simp add: in_bounds_def)
  ultimately show "dec_descend A d = (Ok v, d\<lparr> d_cursor := d_cursor d + length b \<rparr>)"
    using readsR [OF assms, of "d\<lparr> d_depth := d_depth d + 1 \<rparr>" v b rest]
    by (cases d) (auto simp: wire_nest_Ok dec_descend_def)
qed

lemma read_len_reads:
  assumes "read_len k d = (Ok n, d')"
  shows "\<exists>rest. n \<le> MAX_LENGTH \<and> drop (d_cursor d) (d_input d) = leb n @ rest \<and>
    d' = d\<lparr> d_cursor := d_cursor d + length (leb n) \<rparr>"
proof -
  from assms obtain c where c: "varint_read (drop (d_cursor d) (d_input d)) = Ok (n, c)"
    "d' = d\<lparr> d_cursor := d_cursor d + c \<rparr>"
    by (auto simp: read_len_def Let_def split: result.splits prod.splits if_splits)
  from varint_read_Ok [OF c(1)] c(2) show ?thesis
    by (metis append_take_drop_id)
qed

lemma read_len_written:
  assumes "in_bounds d" "n \<le> MAX_LENGTH" "drop (d_cursor d) (d_input d) = leb n @ rest" "0 < k" "k * n \<le> length rest"
  shows "read_len k d = (Ok n, d\<lparr> d_cursor := d_cursor d + length (leb n) \<rparr>)"
proof -
  let ?d = "d\<lparr> d_cursor := d_cursor d + length (leb n) \<rparr>"
  have "d_remaining ?d = length (drop (d_cursor d + length (leb n)) (d_input d))" by (simp add: d_remaining_def)
  then have "d_remaining ?d = length rest" by (simp only: in_bounds_step(2) [OF assms(1,3)])
  then have "n \<le> d_remaining ?d div k" using assms(4,5) by (simp add: less_eq_div_iff_mult_less_eq mult.commute)
  then show ?thesis using varint_read_written [OF assms(2), of rest] assms(3)
    by (simp add: read_len_def Let_def not_less)
qed

text \<open>A length field, then the content it measures: the length is the content's own, and the
  content is wide enough to pay for it.\<close>

lemma reads_sized:
  assumes B: "\<And>n. reads (B n) (w n) (valid n)" and p: "\<And>n v. valid n v \<Longrightarrow> p v = n"
    and wide: "\<And>n v d m b. valid n v \<Longrightarrow> w n v d m = Ok b \<Longrightarrow> k * n \<le> length b" and k: "0 < k"
  shows "reads (op_then (read_len k) B) (\<lambda>v. wire_seq (wire_len (p v)) (w (p v) v)) (\<lambda>v. valid (p v) v)"
proof (rule readsI)
  fix d :: Decoder and v d'' assume d: "in_bounds d" and run: "op_then (read_len k) B d = (Ok v, d'')"
  then obtain n d' where "read_len k d = (Ok n, d')" and b: "B n d' = (Ok v, d'')" by (auto simp: op_then_Ok)
  with read_len_reads obtain r where n: "n \<le> MAX_LENGTH" "drop (d_cursor d) (d_input d) = leb n @ r"
    "d' = d\<lparr> d_cursor := d_cursor d + length (leb n) \<rparr>" by blast
  note bounds = in_bounds_step [OF d n(2)]
  obtain y s where y: "valid n v" "w n v (d_depth d) (d_max_depth d) = Ok y" "r = y @ s"
    "d'' = d'\<lparr> d_cursor := d_cursor d' + length y \<rparr>"
    using readsD [OF B b] bounds n(3) by auto
  moreover have "p v = n" using p y(1) by blast
  ultimately show "valid (p v) v \<and>
      (\<exists>b rest. wire_seq (wire_len (p v)) (w (p v) v) (d_depth d) (d_max_depth d) = Ok b \<and>
        drop (d_cursor d) (d_input d) = b @ rest \<and> d'' = d\<lparr> d_cursor := d_cursor d + length b \<rparr>)"
    using n by (intro conjI exI [of _ "leb n @ y"] exI [of _ s]) (auto simp: wire_seq_def wire_len_def)
next
  fix d :: Decoder and v b rest
  assume d: "in_bounds d" and v: "valid (p v) v"
    and "wire_seq (wire_len (p v)) (w (p v) v) (d_depth d) (d_max_depth d) = Ok b"
    and rest: "drop (d_cursor d) (d_input d) = b @ rest"
  then obtain y where y: "p v \<le> MAX_LENGTH" "w (p v) v (d_depth d) (d_max_depth d) = Ok y" "b = leb (p v) @ y"
    by (auto simp: wire_seq_Ok wire_len_Ok)
  with rest have *: "drop (d_cursor d) (d_input d) = leb (p v) @ (y @ rest)" by simp
  note bounds = in_bounds_step [OF d *]
  have "read_len k d = (Ok (p v), d\<lparr> d_cursor := d_cursor d + length (leb (p v)) \<rparr>)"
    using read_len_written [OF d y(1) * k] wide [OF v y(2)] by simp
  then show "op_then (read_len k) B d = (Ok v, d\<lparr> d_cursor := d_cursor d + length b \<rparr>)"
    using readsR [OF B, of "d\<lparr> d_cursor := d_cursor d + length (leb (p v)) \<rparr>" "p v" v y rest] v y bounds
    by (simp add: op_then_runs add.assoc)
qed

subsection \<open>The wire forms of the codecs\<close>

definition word_wire :: "'w::len word \<Rightarrow> wire" where
  "word_wire w = wire_lit (le_bytes w)"

definition bool_wire :: "bool \<Rightarrow> wire" where
  "bool_wire b = wire_lit [if b then 1 else 0]"

definition unit_wire :: "unit \<Rightarrow> wire" where
  "unit_wire u = wire_lit []"

definition option_wire :: "('a \<Rightarrow> wire) \<Rightarrow> 'a option \<Rightarrow> wire" where
  "option_wire w x = (case x of None \<Rightarrow> wire_lit [0] | Some v \<Rightarrow> wire_seq (wire_lit [1]) (wire_nest (w v)))"

definition pair_wire :: "('a \<Rightarrow> wire) \<Rightarrow> ('b \<Rightarrow> wire) \<Rightarrow> 'a \<times> 'b \<Rightarrow> wire" where
  "pair_wire u w x = wire_seq (wire_nest (u (fst x))) (wire_nest (w (snd x)))"

definition vec_wire :: "('a \<Rightarrow> wire) \<Rightarrow> 'a list \<Rightarrow> wire" where
  "vec_wire w xs = wire_seq (wire_len (length xs)) (wire_nest (wire_each w xs))"

definition string_wire :: "bytes \<Rightarrow> wire" where
  "string_wire bs = wire_seq (wire_len (length bs)) (wire_lit bs)"

definition btset_wire :: "('a::linorder \<Rightarrow> wire) \<Rightarrow> 'a btset \<Rightarrow> wire" where
  "btset_wire w s = vec_wire w (bt_keys s)"

definition entry_wire :: "('k \<Rightarrow> wire) \<Rightarrow> ('v \<Rightarrow> wire) \<Rightarrow> 'k \<times> 'v \<Rightarrow> wire" where
  "entry_wire u w e = wire_seq (u (fst e)) (w (snd e))"

definition btmap_wire :: "('k::linorder \<Rightarrow> wire) \<Rightarrow> ('v \<Rightarrow> wire) \<Rightarrow> ('k, 'v) btmap \<Rightarrow> wire" where
  "btmap_wire u w m = vec_wire (entry_wire u w) (entries m)"

context sink
begin

lemma emits_word [emits_intros]: "emits (word_encode S v) (word_wire v)"
  unfolding word_encode_def word_wire_def by (intro emits_intros)

lemma emits_bool [emits_intros]: "emits (bool_encode S b) (bool_wire b)"
  unfolding bool_encode_def bool_wire_def by (intro emits_intros)

lemma emits_unit [emits_intros]: "emits (unit_encode S u) (unit_wire u)"
  unfolding unit_encode_def unit_wire_def by (intro emits_intros)

lemma emits_nested [emits_intros]: "emits (enc x) (w x) \<Longrightarrow> emits (enc_nested enc x) (wire_nest (w x))"
  unfolding enc_nested_def by (intro emits_intros)

lemma emits_option [emits_intros]:
  "(\<And>v. x = Some v \<Longrightarrow> emits (enc v) (w v)) \<Longrightarrow> emits (option_encode S enc x) (option_wire w x)"
  unfolding option_encode_def option_wire_def by (auto split: option.split intro!: emits_intros)

lemma emits_array [emits_intros]: "emits (array_encode S bs) (wire_lit bs)"
  unfolding array_encode_def by (intro emits_intros)

lemma emits_pair [emits_intros]:
  "emits (enc_a (fst x)) (u (fst x)) \<Longrightarrow> emits (enc_b (snd x)) (w (snd x)) \<Longrightarrow>
   emits (pair_encode enc_a enc_b x) (pair_wire u w x)"
  unfolding pair_encode_def pair_wire_def by (intro emits_intros)

lemma emits_vec [emits_intros]:
  "(\<And>x. x \<in> set xs \<Longrightarrow> emits (enc x) (w x)) \<Longrightarrow> emits (vec_encode S enc xs) (vec_wire w xs)"
  unfolding vec_encode_def vec_wire_def by (intro emits_intros)

lemma emits_string [emits_intros]: "emits (string_encode S bs) (string_wire bs)"
  unfolding string_encode_def string_wire_def write_sized_def by (intro emits_intros)

lemma emits_btset [emits_intros]:
  "(\<And>x. x \<in> set (bt_keys s) \<Longrightarrow> emits (enc x) (w x)) \<Longrightarrow> emits (btset_encode S enc s) (btset_wire w s)"
  unfolding btset_encode_def btset_wire_def vec_wire_def bt_len_def bt_keys_def length_map
  by (intro emits_intros)

lemma emits_btmap [emits_intros]:
  "(\<And>e. e \<in> set (entries m) \<Longrightarrow> emits (enc_k (fst e)) (u (fst e)) \<and> emits (enc_v (snd e)) (w (snd e))) \<Longrightarrow>
   emits (btmap_encode S enc_k enc_v m) (btmap_wire u w m)"
  unfolding btmap_encode_def btmap_wire_def vec_wire_def bt_len_def
  by (intro emits_intros) (auto simp: entry_wire_def intro!: emits_intros)

lemma emits_encode_bytes [emits_intros]: "emits (encode_bytes S bs) (vec_wire word_wire bs)"
proof -
  have "wire_each word_wire bs = wire_lit bs"
    using wire_each_bytes [of bs] by (simp add: word_wire_def [abs_def] le_bytes_def)
  then show ?thesis unfolding encode_bytes_def vec_wire_def by (auto intro!: emits_intros)
qed

end

lemma reads_array [reads_intros]: "reads (array_decode n) wire_lit (\<lambda>bs. length bs = n)"
  unfolding array_decode_def read_array_def by (rule reads_slice)

lemma reads_word:
  assumes "8 dvd LENGTH('w)"
  shows "reads (word_decode :: 'w::len word dec_op) word_wire (\<lambda>_. True)"
  unfolding word_decode_def read_array_def
  by (rule reads_weaken [OF reads_map [OF reads_slice, where g = le_bytes]])
     (auto simp: le_bytes_le_word le_word_le_bytes assms word_wire_def)

lemma reads_bool [reads_intros]: "reads bool_decode bool_wire (\<lambda>_. True)"
  unfolding bool_decode_def
proof (rule reads_weaken [OF reads_then [OF reads_u8, where p = "\<lambda>b. if b then 1 else 0"
        and w = "\<lambda>_ _. wire_lit []" and valid_b = "\<lambda>byte b. byte = (if b then 1 else 0)"]])
  show "reads (if byte = 0 then op_ok False else if byte = 1 then op_ok True else op_err (InvalidBool byte))
      (\<lambda>_. wire_lit []) (\<lambda>b. byte = (if b then 1 else 0))" for byte
    by (rule readsI) (auto split: if_splits)
qed (auto simp: bool_wire_def wire_seq_def wire_lit_def fun_eq_iff)

lemma reads_unit [reads_intros]: "reads unit_decode unit_wire (\<lambda>_. True)"
  unfolding unit_decode_def by (rule reads_weaken [OF reads_ok]) (simp_all add: unit_wire_def)

lemma reads_option [reads_intros]:
  assumes "reads dec w valid"
  shows "reads (option_decode dec) (option_wire w) (pred_option valid)"
  unfolding option_decode_def
proof (rule reads_weaken [OF reads_then [OF reads_u8,
        where p = "\<lambda>x. if x = None then 0 else 1"
        and w = "\<lambda>_ x. case x of None \<Rightarrow> wire_lit [] | Some v \<Rightarrow> wire_nest (w v)"
        and valid_b = "\<lambda>tag x. tag = (if x = None then 0 else 1) \<and> pred_option valid x"]])
  show "reads (if tag = 0 then op_ok None else if tag = 1 then op_map Some (dec_descend dec)
        else op_err (InvalidDiscriminant tag))
      (\<lambda>x. case x of None \<Rightarrow> wire_lit [] | Some v \<Rightarrow> wire_nest (w v))
      (\<lambda>x. tag = (if x = None then 0 else 1) \<and> pred_option valid x)" for tag
    using reads_map [OF reads_descend [OF assms], of the Some] unfolding reads_def
    by (auto split: option.splits)
qed (auto simp: option_wire_def wire_seq_def wire_lit_def fun_eq_iff split: option.splits)

lemma reads_entry [reads_intros]:
  assumes "reads dec_k u valid_k" "reads dec_v w valid_v"
  shows "reads (op_then dec_k (\<lambda>k. op_map (Pair k) dec_v)) (entry_wire u w)
    (\<lambda>e. valid_k (fst e) \<and> valid_v (snd e))"
  by (rule reads_weaken [OF reads_then [OF assms(1) reads_map [OF assms(2), where g = snd], where p = fst]])
     (auto simp: entry_wire_def)

lemma reads_pair [reads_intros]:
  assumes "reads dec_a u valid_a" "reads dec_b w valid_b"
  shows "reads (pair_decode dec_a dec_b) (pair_wire u w) (\<lambda>x. valid_a (fst x) \<and> valid_b (snd x))"
  unfolding pair_decode_def
  by (rule reads_weaken [OF reads_entry [OF assms [THEN reads_descend]]])
     (auto simp: entry_wire_def pair_wire_def)

lemma cons_tl: "c = a # tl c \<longleftrightarrow> c \<noteq> [] \<and> hd c = a"
  by (cases c) auto

lemma reads_times [reads_intros]:
  assumes "reads A w valid"
  shows "reads (op_times n A) (wire_each w) (\<lambda>xs. length xs = n \<and> list_all valid xs)"
proof (induction n)
  case 0
  then show ?case by (auto intro: reads_weaken [OF reads_ok])
next
  case (Suc n)
  have "op_times (Suc n) A = op_then A (\<lambda>a. op_map (Cons a) (op_times n A))"
    by (simp add: op_map_def)
  moreover have "reads (op_then A (\<lambda>a. op_map (Cons a) (op_times n A))) (wire_each w)
      (\<lambda>xs. length xs = Suc n \<and> list_all valid xs)"
    by (rule reads_weaken [OF reads_then [OF assms reads_map [OF Suc, where g = tl], where p = hd]])
       (auto simp: cons_tl length_Suc_conv neq_Nil_conv)
  ultimately show ?case by (simp only:)
qed

lemma entries_insert_last:
  "\<not> (case bt_last m of Some (l, _) \<Rightarrow> k \<le> l | None \<Rightarrow> False) \<Longrightarrow>
   entries (bt_insert k v m) = entries m @ [(k, v)]"
proof -
  have *: "sorted_wrt (<) (map fst xs) \<Longrightarrow> (xs \<noteq> [] \<Longrightarrow> fst (last xs) < k) \<Longrightarrow> ins_entry k v xs = xs @ [(k, v)]" for xs
  proof (induction k v xs rule: ins_entry.induct)
    case (2 k v k' v' xs)
    have "k' < k"
    proof (cases "xs = []")
      case False
      then have "k' < fst (last xs)" "fst (last xs) < k" using 2(2,3) by auto
      then show ?thesis by simp
    qed (use 2 in simp)
    with 2 show ?case by (auto split: if_splits)
  qed simp
  assume "\<not> (case bt_last m of Some (l, _) \<Rightarrow> k \<le> l | None \<Rightarrow> False)"
  then show ?thesis
    unfolding entries_insert by (intro * sorted_entries) (auto simp: bt_last_def split: prod.splits if_splits)
qed

lemma entries_ascend:
  assumes "entries m' = entries m @ (k, v) # es"
  shows "\<not> (case bt_last m of Some (l, _) \<Rightarrow> k \<le> l | None \<Rightarrow> False)"
proof (cases "entries m = []")
  case False
  then have "last (entries m) \<in> set (entries m)" by simp
  moreover have "\<forall>e \<in> set (entries m). fst e < k"
    using sorted_entries [of m'] by (auto simp: assms sorted_wrt_append)
  ultimately show ?thesis by (auto simp: bt_last_def not_le split: prod.splits)
qed (simp add: bt_last_def)

lemma drop_at: "xs = ys @ e # es \<Longrightarrow> drop (length ys) xs = e # es \<and> drop (Suc (length ys)) xs = es"
  by simp

lemma reads_btmap_loop:
  assumes "reads dec_k u valid_k" "reads dec_v w valid_v"
  shows "reads (btmap_loop n dec_k dec_v out)
    (\<lambda>m. wire_each (entry_wire u w) (drop (length (entries out)) (entries m)))
    (\<lambda>m. \<exists>es. entries m = entries out @ es \<and> length es = n \<and> list_all (\<lambda>e. valid_k (fst e) \<and> valid_v (snd e)) es)"
proof (induction n arbitrary: out)
  case 0
  have "m = out" if "entries m = entries out" for m using that by (simp add: entries_inject)
  then show ?case by (auto intro: reads_weaken [OF reads_ok])
next
  case (Suc n)
  let ?ok = "\<lambda>e. valid_k (fst e) \<and> valid_v (snd e)"
  let ?rest = "\<lambda>e m. \<exists>es. entries m = entries out @ e # es \<and> length es = n \<and> list_all ?ok es"
  let ?B = "\<lambda>(k, v). if (case bt_last out of Some (l, _) \<Rightarrow> k \<le> l | None \<Rightarrow> False) then op_err UnsortedKeys
    else btmap_loop n dec_k dec_v (bt_insert k v out)"
  have B: "reads (?B e) (\<lambda>m. wire_each (entry_wire u w) (drop (Suc (length (entries out))) (entries m))) (?rest e)" for e
  proof (cases e)
    case (Pair k v)
    show ?thesis
    proof (cases "case bt_last out of Some (l, _) \<Rightarrow> k \<le> l | None \<Rightarrow> False")
      case True
      then have "entries m \<noteq> entries out @ e # es" for m es
        using entries_ascend [of m out k v es] Pair by fastforce
      then show ?thesis using True Pair by (auto intro: reads_weaken [OF reads_err])
    next
      case False
      with Suc [of "bt_insert k v out"] Pair show ?thesis
        by (simp add: entries_insert_last [OF False])
    qed
  qed
  have "btmap_loop (Suc n) dec_k dec_v out = op_then (op_then dec_k (\<lambda>k. op_map (Pair k) dec_v)) ?B"
    by (simp add: op_then_assoc op_map_def)
  moreover have "reads (op_then (op_then dec_k (\<lambda>k. op_map (Pair k) dec_v)) ?B)
      (\<lambda>m. wire_each (entry_wire u w) (drop (length (entries out)) (entries m)))
      (\<lambda>m. \<exists>es. entries m = entries out @ es \<and> length es = Suc n \<and> list_all ?ok es)"
    by (rule reads_weaken [OF reads_then [OF reads_entry [OF assms] B,
            where p = "\<lambda>m. entries m ! length (entries out)"]])
       (auto simp: nth_append length_Suc_conv dest: drop_at)
  ultimately show ?case by (simp only:)
qed

lemma wire_seq_nil [simp]: "wire_seq a (wire_lit []) = a" "wire_seq (wire_lit []) a = a"
  by (auto simp: fun_eq_iff wire_seq_def wire_lit_def and_then_def map_res_def split: result.splits)

lemma btset_loop_eq: "btset_loop n dec out = btmap_loop n dec unit_decode out"
  by (induction n arbitrary: out) (simp_all add: unit_decode_def cong: if_cong)

lemma wire_each_keys: "wire_each (entry_wire w unit_wire) es = wire_each w (map fst es)"
  by (induction es) (simp_all add: entry_wire_def unit_wire_def)

lemma reads_capped:
  assumes B: "\<And>n. reads (B n) (w n) (valid n)" and p: "\<And>n v. valid n v \<Longrightarrow> p v = n"
    and wide: "\<And>n v d m b. valid n v \<Longrightarrow> w n v d m = Ok b \<Longrightarrow> k * n \<le> length b" and k: "0 < k"
  shows "reads (op_then (read_len_check k cap) B) (\<lambda>v. wire_seq (wire_len (p v)) (w (p v) v))
    (\<lambda>v. valid (p v) v \<and> p v \<le> cap)"
proof -
  let ?B = "\<lambda>n. if n > cap then op_err (BoundExceeded cap n) else B n"
  have B': "reads (?B n) (w n) (\<lambda>v. valid n v \<and> n \<le> cap)" for n
    by (cases "n > cap") (auto intro: reads_weaken [OF reads_err] reads_weaken [OF B])
  have "reads (op_then (read_len k) ?B) (\<lambda>v. wire_seq (wire_len (p v)) (w (p v) v)) (\<lambda>v. valid (p v) v \<and> p v \<le> cap)"
    by (rule reads_sized [OF B']) (use p wide k in auto)
  moreover have "op_then (read_len_check k cap) B = op_then (read_len k) ?B"
    unfolding read_len_check_def op_then_assoc
    by (rule arg_cong [of _ _ "op_then _"]) (simp add: fun_eq_iff bounded_check_def)
  ultimately show ?thesis by (simp only:)
qed

text \<open>The bodies behind a length, each accepted at its own length.\<close>

lemma body_vec:
  assumes "reads dec w valid" "\<And>v d m b. valid v \<Longrightarrow> w v d m = Ok b \<Longrightarrow> k \<le> length b"
  shows "reads (dec_descend (op_times n dec)) (\<lambda>xs. wire_nest (wire_each w xs))
      (\<lambda>xs. length xs = n \<and> list_all valid xs)"
    and "length xs = n \<and> list_all valid xs \<Longrightarrow> wire_nest (wire_each w xs) d m = Ok b \<Longrightarrow> k * n \<le> length b"
proof -
  show "reads (dec_descend (op_times n dec)) (\<lambda>xs. wire_nest (wire_each w xs))
      (\<lambda>xs. length xs = n \<and> list_all valid xs)"
    by (intro reads_intros assms(1))
  assume "length xs = n \<and> list_all valid xs" "wire_nest (wire_each w xs) d m = Ok b"
  then show "k * n \<le> length b"
    using wire_each_length [of w xs "d + 1" m b k] assms(2) by (force simp: wire_nest_Ok list_all_iff)
qed

lemma body_string:
  "reads (op_then (read_slice n) (\<lambda>bs. if from_utf8 bs then op_ok bs else op_err InvalidUtf8)) wire_lit
     (\<lambda>bs. length bs = n \<and> from_utf8 bs)"
proof -
  have "reads (if from_utf8 bs then op_ok bs else op_err InvalidUtf8) (\<lambda>_. wire_lit []) (\<lambda>v. v = bs \<and> from_utf8 bs)" for bs
    by (auto intro: reads_weaken [OF reads_ok] reads_weaken [OF reads_err])
  from reads_then [OF reads_slice this, where p = "\<lambda>v. v"] show ?thesis
    by (rule reads_weaken) auto
qed

lemma body_bytes:
  "reads (dec_descend (read_slice n)) (\<lambda>bs. wire_nest (wire_each word_wire bs)) (\<lambda>bs. length bs = n)"
proof -
  have "wire_each word_wire bs = wire_lit bs" for bs :: bytes
    using wire_each_bytes [of bs] by (simp add: word_wire_def [abs_def] le_bytes_def)
  then show ?thesis using reads_descend [OF reads_slice, of n] by simp
qed

lemma body_btmap:
  assumes "reads dec_k u valid_k" "reads dec_v w valid_v"
    "\<And>v d m b. valid_k v \<Longrightarrow> u v d m = Ok b \<Longrightarrow> j \<le> length b" "\<And>v d m b. valid_v v \<Longrightarrow> w v d m = Ok b \<Longrightarrow> k \<le> length b"
  shows "reads (dec_descend (btmap_loop n dec_k dec_v bt_empty))
      (\<lambda>m. wire_nest (wire_each (entry_wire u w) (entries m)))
      (\<lambda>m. length (entries m) = n \<and> list_all (\<lambda>e. valid_k (fst e) \<and> valid_v (snd e)) (entries m))"
    and "length (entries m) = n \<and> list_all (\<lambda>e. valid_k (fst e) \<and> valid_v (snd e)) (entries m) \<Longrightarrow>
      wire_nest (wire_each (entry_wire u w) (entries m)) d mx = Ok b \<Longrightarrow> (j + k) * n \<le> length b"
proof -
  show "reads (dec_descend (btmap_loop n dec_k dec_v bt_empty))
      (\<lambda>m. wire_nest (wire_each (entry_wire u w) (entries m)))
      (\<lambda>m. length (entries m) = n \<and> list_all (\<lambda>e. valid_k (fst e) \<and> valid_v (snd e)) (entries m))"
    by (rule reads_weaken [OF reads_descend [OF reads_btmap_loop [OF assms(1,2)]]]) auto
  assume "length (entries m) = n \<and> list_all (\<lambda>e. valid_k (fst e) \<and> valid_v (snd e)) (entries m)"
    "wire_nest (wire_each (entry_wire u w) (entries m)) d mx = Ok b"
  moreover have "j + k \<le> length c"
    if "valid_k (fst e)" "valid_v (snd e)" "entry_wire u w e d mx = Ok c" for e c d mx
  proof -
    from that(3) obtain x y where "u (fst e) d mx = Ok x" "w (snd e) d mx = Ok y" "c = x @ y"
      by (auto simp: entry_wire_def wire_seq_Ok)
    with assms(3) [OF that(1)] assms(4) [OF that(2)] show ?thesis by (simp add: add_mono)
  qed
  ultimately show "(j + k) * n \<le> length b"
    using wire_each_length [of "entry_wire u w" "entries m" "d + 1" mx b "j + k"]
    by (force simp: wire_nest_Ok list_all_iff)
qed

section \<open>The codec contract\<close>

text \<open>\<open>HborWidth\<close>, \<open>HborEncode\<close> and \<open>HborDecode\<close> together: the encode writes the wire form, the
  decode accepts exactly the wire forms of the type's values, and no wire form is
  narrower than the width the type states.\<close>

locale hbor =
  fixes width :: nat and enc :: "'a \<Rightarrow> bytes enc_op" and dec :: "'a dec_op"
    and w :: "'a \<Rightarrow> wire" and valid :: "'a \<Rightarrow> bool"
  assumes enc_emits: "vs.emits (enc v) (w v)"
    and dec_reads: "reads dec w valid"
    and wide: "valid v \<Longrightarrow> w v d m = Ok b \<Longrightarrow> width \<le> length b"
begin

lemma to_vec_wire: "to_vec_with_depth enc v m = w v 0 m"
  by (rule to_vec_emits) (rule enc_emits)

lemma dec_new:
  "dec (decoder_new bs m) = (Ok v, d) \<longleftrightarrow> valid v \<and> (\<exists>b rest. to_vec_with_depth enc v m = Ok b \<and> bs = b @ rest \<and>
     d = (decoder_new bs m)\<lparr> d_cursor := length b \<rparr>)"
  using dec_reads [unfolded reads_def, rule_format, of "decoder_new bs m" v d]
  by (simp add: in_bounds_def decoder_new_def to_vec_wire)

lemma accepts_iff:
  "from_slice_with_depth dec bs m = Ok v \<longleftrightarrow> valid v \<and> to_vec_with_depth enc v m = Ok bs"
proof
  assume "from_slice_with_depth dec bs m = Ok v"
  then obtain d where "dec (decoder_new bs m) = (Ok v, d)" "d_remaining d = 0"
    by (auto simp: from_slice_with_depth_def dec_finish_def split: prod.splits result.splits if_splits)
  then show "valid v \<and> to_vec_with_depth enc v m = Ok bs"
    unfolding dec_new by (auto simp: d_remaining_def decoder_new_def)
next
  assume "valid v \<and> to_vec_with_depth enc v m = Ok bs"
  then have "dec (decoder_new bs m) = (Ok v, (decoder_new bs m)\<lparr> d_cursor := length bs \<rparr>)"
    by (simp add: dec_new)
  then show "from_slice_with_depth dec bs m = Ok v"
    by (simp add: from_slice_with_depth_def dec_finish_def d_remaining_def decoder_new_def)
qed

lemma trailing_refused:
  assumes "valid v" "to_vec_with_depth enc v m = Ok bs" "rest \<noteq> []"
  shows "from_slice_with_depth dec (bs @ rest) m = Err (TrailingBytes (length rest))"
proof -
  have "dec (decoder_new (bs @ rest) m) = (Ok v, (decoder_new (bs @ rest) m)\<lparr> d_cursor := length bs \<rparr>)"
    using assms by (simp add: dec_new)
  with assms(3) show ?thesis
    by (simp add: from_slice_with_depth_def dec_finish_def d_remaining_def decoder_new_def)
qed

lemma prefix_free:
  assumes "valid v" "to_vec_with_depth enc v m = Ok b" "valid v'" "to_vec_with_depth enc v' m = Ok (b @ rest)"
  shows "v' = v \<and> rest = []"
proof -
  have "dec (decoder_new (b @ rest) m) = (Ok v, (decoder_new (b @ rest) m)\<lparr> d_cursor := length b \<rparr>)"
    and "dec (decoder_new (b @ rest) m) = (Ok v', (decoder_new (b @ rest) m)\<lparr> d_cursor := length (b @ rest) \<rparr>)"
    using assms by (simp_all add: dec_new)
  then have "v' = v" "length b = length (b @ rest)"
    by (auto simp: decoder_new_def)
  then show ?thesis by simp
qed

lemma truncated_refused:
  assumes "valid v" "to_vec_with_depth enc v m = Ok (bs @ rest)" "rest \<noteq> []"
  shows "\<exists>er. from_slice_with_depth dec bs m = Err er"
proof (cases "from_slice_with_depth dec bs m")
  case (Ok v')
  with assms prefix_free [of v' m bs v rest] show ?thesis by (simp add: accepts_iff)
qed simp

end


subsection \<open>Every codec meets it\<close>

lemma hbor_word: "8 dvd LENGTH('w) \<Longrightarrow>
    hbor (LENGTH('w) div 8) (word_encode vec_sink) (word_decode :: 'w::len word dec_op) word_wire (\<lambda>_. True)"
  by (rule hbor.intro [OF vs.emits_word reads_word]) (auto simp: word_wire_def)

lemma hbor_bool: "hbor 1 (bool_encode vec_sink) bool_decode bool_wire (\<lambda>_. True)"
  by (rule hbor.intro [OF vs.emits_bool reads_bool]) (auto simp: bool_wire_def)

lemma hbor_unit: "hbor 0 (unit_encode vec_sink) unit_decode unit_wire (\<lambda>_. True)"
  by (rule hbor.intro [OF vs.emits_unit reads_unit]) simp

lemma hbor_array: "hbor n (array_encode vec_sink) (array_decode n) wire_lit (\<lambda>bs. length bs = n)"
  by (rule hbor.intro [OF vs.emits_array reads_array]) auto

lemma hbor_string: "hbor 1 (string_encode vec_sink) string_decode string_wire from_utf8"
proof (rule hbor.intro [OF vs.emits_string])
  show "reads string_decode string_wire from_utf8"
    unfolding string_decode_def
    by (rule reads_weaken [OF reads_sized [OF body_string, where p = length]])
       (auto simp: string_wire_def)
qed (auto simp: string_wire_def wire_seq_Ok wire_len_Ok Suc_le_eq)

context hbor
begin

lemma option_codec: "hbor 1 (option_encode vec_sink enc) (option_decode dec) (option_wire w) (pred_option valid)"
  by (rule hbor.intro [OF vs.emits_option [OF enc_emits] reads_option [OF dec_reads]])
     (auto simp: option_wire_def wire_seq_Ok split: option.splits)

lemma vec_codec:
  assumes "0 < width"
  shows "hbor 1 (vec_encode vec_sink enc) (vec_decode width dec) (vec_wire w) (list_all valid)"
proof (rule hbor.intro [OF vs.emits_vec [OF enc_emits]])
  show "reads (vec_decode width dec) (vec_wire w) (list_all valid)"
    unfolding vec_decode_def
    by (rule reads_weaken [OF reads_sized [OF body_vec(1) [OF dec_reads], where p = length and k = width]])
       (use body_vec(2) [OF dec_reads] wide assms in \<open>auto simp: vec_wire_def\<close>)
qed (auto simp: vec_wire_def wire_seq_Ok wire_len_Ok Suc_le_eq)

lemma capped_vec_codec:
  assumes "0 < width"
  shows "hbor 1 (vec_encode vec_sink enc) (decode_bounded_vec width dec cap) (vec_wire w)
    (\<lambda>xs. list_all valid xs \<and> length xs \<le> cap)"
proof (rule hbor.intro [OF vs.emits_vec [OF enc_emits]])
  show "reads (decode_bounded_vec width dec cap) (vec_wire w) (\<lambda>xs. list_all valid xs \<and> length xs \<le> cap)"
    unfolding decode_bounded_vec_def
    by (rule reads_weaken [OF reads_capped [OF body_vec(1) [OF dec_reads], where p = length and k = width]])
       (use body_vec(2) [OF dec_reads] wide assms in \<open>auto simp: vec_wire_def\<close>)
qed (auto simp: vec_wire_def wire_seq_Ok wire_len_Ok Suc_le_eq)

end

lemma hbor_pair:
  assumes A: "hbor j enc_a dec_a u valid_a" and B: "hbor k enc_b dec_b w valid_b"
  shows "hbor (j + k) (pair_encode enc_a enc_b) (pair_decode dec_a dec_b) (pair_wire u w)
    (\<lambda>x. valid_a (fst x) \<and> valid_b (snd x))"
proof (rule hbor.intro [OF vs.emits_pair reads_pair])
  show "j + k \<le> length b" if "valid_a (fst v) \<and> valid_b (snd v)" "pair_wire u w v d m = Ok b" for v d m b
    using that hbor.wide [OF A] hbor.wide [OF B]
    by (fastforce simp: pair_wire_def wire_seq_Ok wire_nest_Ok intro: add_mono)
qed (use assms in \<open>auto dest: hbor.enc_emits hbor.dec_reads\<close>)

lemma hbor_btmap:
  assumes A: "hbor j enc_k dec_k u valid_k" and B: "hbor k enc_v dec_v w valid_v" and "0 < j + k"
  shows "hbor 1 (btmap_encode vec_sink enc_k enc_v) (btmap_decode j k dec_k dec_v) (btmap_wire u w)
      (\<lambda>m. list_all (\<lambda>e. valid_k (fst e) \<and> valid_v (snd e)) (entries m))" (is ?plain)
    and "hbor 1 (btmap_encode vec_sink enc_k enc_v) (decode_bounded_btree_map j k dec_k dec_v cap) (btmap_wire u w)
      (\<lambda>m. list_all (\<lambda>e. valid_k (fst e) \<and> valid_v (snd e)) (entries m) \<and> bt_len m \<le> cap)" (is ?capped)
proof -
  note laws = hbor.dec_reads [OF A] hbor.dec_reads [OF B] hbor.wide [OF A] hbor.wide [OF B]
  note bodies = body_btmap [OF laws]
  have emits: "vs.emits (btmap_encode vec_sink enc_k enc_v m) (btmap_wire u w m)" for m
    by (rule vs.emits_btmap) (simp add: hbor.enc_emits [OF A] hbor.enc_emits [OF B])
  have wide: "1 \<le> length b" if "btmap_wire u w m d mx = Ok b" for m d mx b
    using that by (auto simp: btmap_wire_def vec_wire_def wire_seq_Ok wire_len_Ok Suc_le_eq)
  have "reads (btmap_decode j k dec_k dec_v) (btmap_wire u w)
      (\<lambda>m. list_all (\<lambda>e. valid_k (fst e) \<and> valid_v (snd e)) (entries m))"
    unfolding btmap_decode_def
    by (rule reads_weaken [OF reads_sized [OF bodies(1), where p = "\<lambda>m. length (entries m)" and k = "j + k"]])
       (use bodies(2) assms(3) in \<open>auto simp: btmap_wire_def vec_wire_def\<close>)
  then show ?plain by (rule hbor.intro [OF emits]) (rule wide)
  have "reads (decode_bounded_btree_map j k dec_k dec_v cap) (btmap_wire u w)
      (\<lambda>m. list_all (\<lambda>e. valid_k (fst e) \<and> valid_v (snd e)) (entries m) \<and> bt_len m \<le> cap)"
    unfolding decode_bounded_btree_map_def
    by (rule reads_weaken [OF reads_capped [OF bodies(1), where p = "\<lambda>m. length (entries m)" and k = "j + k"]])
       (use bodies(2) assms(3) in \<open>auto simp: btmap_wire_def vec_wire_def bt_len_def\<close>)
  then show ?capped by (rule hbor.intro [OF emits]) (rule wide)
qed

lemma hbor_btset:
  assumes A: "hbor j enc dec w valid" and "0 < j"
  shows "hbor 1 (btset_encode vec_sink enc) (btset_decode j dec) (btset_wire w)
      (\<lambda>s. list_all valid (bt_keys s))" (is ?plain)
    and "hbor 1 (btset_encode vec_sink enc) (decode_bounded_btree_set j dec cap) (btset_wire w)
      (\<lambda>s. list_all valid (bt_keys s) \<and> bt_len s \<le> cap)" (is ?capped)
proof -
  note laws = hbor_btmap [OF A hbor_unit, simplified, OF assms(2)]
  have wire: "btmap_wire w unit_wire = btset_wire w"
    by (simp add: fun_eq_iff btmap_wire_def btset_wire_def vec_wire_def wire_each_keys bt_keys_def)
  have decs: "btmap_decode j 0 dec unit_decode = btset_decode j dec"
    "decode_bounded_btree_map j 0 dec unit_decode cap = decode_bounded_btree_set j dec cap"
    by (simp_all add: btmap_decode_def btset_decode_def decode_bounded_btree_map_def
        decode_bounded_btree_set_def btset_loop_eq)
  have valid: "(\<lambda>m. list_all (\<lambda>e. valid (fst e)) (entries m)) = (\<lambda>s. list_all valid (bt_keys s))"
    by (simp add: fun_eq_iff bt_keys_def list.pred_map comp_def)
  have emits: "vs.emits (btset_encode vec_sink enc s) (btset_wire w s)" for s
    by (rule vs.emits_btset) (rule hbor.enc_emits [OF A])
  show ?plain
    using hbor.dec_reads [OF laws(1)] hbor.wide [OF laws(1)]
    by (intro hbor.intro emits) (simp_all add: wire decs valid fun_cong [OF valid])
  show ?capped
    using hbor.dec_reads [OF laws(2) [where cap = cap]] hbor.wide [OF laws(2) [where cap = cap]]
    by (intro hbor.intro emits) (simp_all add: wire decs valid fun_cong [OF valid])
qed

lemma hbor_bytes:
  shows "hbor 1 (encode_bytes vec_sink) decode_bytes (vec_wire word_wire) (\<lambda>_. True)"
    and "hbor 1 (encode_bytes vec_sink) (decode_bounded_bytes cap) (vec_wire word_wire) (\<lambda>bs. length bs \<le> cap)"
proof -
  have wide: "n \<le> length b" if "length bs = n" "wire_nest (wire_each word_wire bs) d m = Ok b" for bs :: bytes and n d m b
    using wire_each_length [of word_wire bs "d + 1" m b 1] that
    by (auto simp: wire_nest_Ok word_wire_def)
  have one: "1 \<le> length b" if "vec_wire word_wire bs d m = Ok b" for bs :: bytes and d m b
    using that by (auto simp: vec_wire_def wire_seq_Ok wire_len_Ok Suc_le_eq)
  have "reads decode_bytes (vec_wire word_wire) (\<lambda>_. True)"
    unfolding decode_bytes_def
    by (rule reads_weaken [OF reads_sized [OF body_bytes, where p = length and k = 1]])
       (auto simp: vec_wire_def dest: wide [OF refl])
  then show "hbor 1 (encode_bytes vec_sink) decode_bytes (vec_wire word_wire) (\<lambda>_. True)"
    by (rule hbor.intro [OF vs.emits_encode_bytes]) (rule one)
  have "reads (decode_bounded_bytes cap) (vec_wire word_wire) (\<lambda>bs. length bs \<le> cap)"
    unfolding decode_bounded_bytes_def
    by (rule reads_weaken [OF reads_capped [OF body_bytes, where p = length and k = 1]])
       (auto simp: vec_wire_def dest: wide [OF refl])
  then show "hbor 1 (encode_bytes vec_sink) (decode_bounded_bytes cap) (vec_wire word_wire) (\<lambda>bs. length bs \<le> cap)"
    by (rule hbor.intro [OF vs.emits_encode_bytes]) (rule one)
qed

lemma hbor_capped_string:
  "hbor 1 (string_encode vec_sink) (decode_bounded_string cap) string_wire (\<lambda>bs. from_utf8 bs \<and> length bs \<le> cap)"
proof (rule hbor.intro [OF vs.emits_string])
  show "reads (decode_bounded_string cap) string_wire (\<lambda>bs. from_utf8 bs \<and> length bs \<le> cap)"
    unfolding decode_bounded_string_def
    by (rule reads_weaken [OF reads_capped [OF body_string, where p = length and k = 1]])
       (auto simp: string_wire_def)
qed (auto simp: string_wire_def wire_seq_Ok wire_len_Ok Suc_le_eq)

section \<open>The byte fast path\<close>

lemma op_each_bytes: "op_each (word_encode vec_sink) (bs :: bytes) e = write_fixed vec_sink bs e"
proof (induction bs arbitrary: e)
  case (Cons b bs)
  have "le_bytes b = [b]" by (simp add: le_bytes_def)
  with Cons show ?case
    by (simp add: op_then_def word_encode_def write_array_def write_fixed_def vec_sink_def)
qed (simp add: op_ok_def write_fixed_def vec_sink_def)

lemma op_times_bytes:
  assumes "in_bounds d" "n \<le> d_remaining d"
  shows "op_times n (word_decode :: u8 dec_op) d = read_slice n d"
proof -
  let ?bs = "take n (drop (d_cursor d) (d_input d))"
  have "wire_each word_wire ?bs = wire_lit ?bs"
    using wire_each_bytes [of ?bs] by (simp add: word_wire_def [abs_def] le_bytes_def)
  then have "op_times n (word_decode :: u8 dec_op) d = (Ok ?bs, d\<lparr> d_cursor := d_cursor d + length ?bs \<rparr>)"
    using assms by (intro readsR [OF reads_times [OF reads_word] assms(1), where rest = "drop n (drop (d_cursor d) (d_input d))"])
      (auto simp: d_remaining_def list_all_iff simp del: drop_drop)
  with assms show ?thesis by (simp add: read_slice_def d_remaining_def)
qed

lemma read_len_fits:
  assumes "read_len 1 d = (Ok n, d')" "in_bounds d"
  shows "n \<le> d_remaining d' \<and> in_bounds d'"
proof -
  from read_len_reads [OF assms(1)] have "in_bounds d'" using in_bounds_step(1) [OF assms(2)] by auto
  with assms(1) show ?thesis
    by (auto simp: read_len_def Let_def split: result.splits if_splits)
qed

text \<open>A byte sequence written in one copy is the one written element by element, and read in one
  copy is the one read element by element: the same bytes, the same value, the same
  errors, at every depth and from every position of a decoder.\<close>

theorem bytes_fast_path:
  "in_bounds d \<Longrightarrow>
   encode_bytes vec_sink bs e = vec_encode vec_sink (word_encode vec_sink) bs e \<and>
   decode_bytes d = vec_decode 1 (word_decode :: u8 dec_op) d"
proof
  assume d: "in_bounds d"
  show "encode_bytes vec_sink bs e = vec_encode vec_sink (word_encode vec_sink) bs e"
    unfolding encode_bytes_def vec_encode_def by (simp add: op_each_bytes [abs_def])
  show "decode_bytes d = vec_decode 1 (word_decode :: u8 dec_op) d"
  proof (cases "read_len 1 d")
    case (Pair r d')
    show ?thesis
    proof (cases r)
      case (Ok n)
      with read_len_fits Pair d have "n \<le> d_remaining d'" "in_bounds d'" by blast+
      then have "op_times n (word_decode :: u8 dec_op) (d'\<lparr> d_depth := d_depth d' + 1 \<rparr>)
          = read_slice n (d'\<lparr> d_depth := d_depth d' + 1 \<rparr>)"
        by (intro op_times_bytes) (simp_all add: in_bounds_def d_remaining_def)
      with Pair Ok show ?thesis by (simp add: decode_bytes_def vec_decode_def op_then_runs dec_descend_def)
    next
      case (Err er)
      with Pair show ?thesis by (simp add: decode_bytes_def vec_decode_def op_then_runs)
    qed
  qed
qed

theorem bytes_fast_path_witness:
  "in_bounds (decoder_new [2, 7, 9] 4) \<and>
   encode_bytes vec_sink [7, 9] (encoder_new [] 4) = vec_encode vec_sink (word_encode vec_sink) ([7, 9] :: bytes) (encoder_new [] 4) \<and>
   decode_bytes (decoder_new [2, 7, 9] 4) = vec_decode 1 (word_decode :: u8 dec_op) (decoder_new [2, 7, 9] 4)"
  using bytes_fast_path [of "decoder_new [2, 7, 9] 4" "[7, 9]" "encoder_new [] 4"]
  by (simp add: in_bounds_def decoder_new_def)

end
