(* ===== verification/Shape.thy ===== *)
theory Shape
  imports Hbor
begin

text \<open>
  \<open>crates/hbor/src/node.rs\<close>, \<open>name.rs\<close> and the value form of \<open>shape.rs\<close>: a type as a static
  tree, the three bounds folded off it, and the values a shape describes. The
  codec of the type a node describes is composed from the node the way the derive
  of \<open>crates/hbor-macros/src/codec.rs\<close> composes it from a declaration: a struct is its
  fields one level down, an enum its discriminant and then the variant's fields, a
  capped collection its length and its elements. So what is shown here holds of
  every derived type: its bytes stay inside the folded bounds, it nests no deeper
  than the folded depth, and decoding accepts exactly what encoding writes.
\<close>

section \<open>Names\<close>

definition MAX_NAME_BYTES :: nat where "MAX_NAME_BYTES = 64"

text \<open>\<open>Outside\<close> carries the first byte of the character the code reports.\<close>

datatype MalformedName = NameEmpty | NameTooLong nat | NameOutside u8 | NameLeadingDigit

definition is_ascii_digit :: "u8 \<Rightarrow> bool" where
  "is_ascii_digit b = (0x30 \<le> b \<and> b \<le> 0x39)"

definition is_ascii_alphanumeric :: "u8 \<Rightarrow> bool" where
  "is_ascii_alphanumeric b =
    (is_ascii_digit b \<or> (0x41 \<le> b \<and> b \<le> 0x5A) \<or> (0x61 \<le> b \<and> b \<le> 0x7A))"

primrec name_bytes :: "bytes \<Rightarrow> bool" where
  "name_bytes [] = True"
| "name_bytes (b # bs) = (if \<not> is_ascii_alphanumeric b \<and> b \<noteq> 0x5F then False else name_bytes bs)"

definition is_name :: "bytes \<Rightarrow> bool" where
  "is_name text =
    (if text = [] \<or> length text > MAX_NAME_BYTES \<or> is_ascii_digit (hd text) then False
     else name_bytes text)"

definition admissible :: "bytes \<Rightarrow> (MalformedName, unit) result" where
  "admissible text =
    (if is_name text then Ok ()
     else if text = [] then Err NameEmpty
     else if length text > MAX_NAME_BYTES then Err (NameTooLong (length text))
     else case find (\<lambda>b. \<not> is_ascii_alphanumeric b \<and> b \<noteq> 0x5F) text of
            Some outside \<Rightarrow> Err (NameOutside outside)
          | None \<Rightarrow> Err NameLeadingDigit)"

definition name_new :: "bytes \<Rightarrow> (MalformedName, bytes) result" where
  "name_new text = map_res (\<lambda>_. text) (admissible text)"

definition name_encode :: "'s Sink \<Rightarrow> bytes \<Rightarrow> 's enc_op" where
  "name_encode S text = write_sized S text"

definition name_decode :: "bytes dec_op" where
  "name_decode = op_then (decode_bounded_string MAX_NAME_BYTES) (\<lambda>text.
    case admissible text of Ok _ \<Rightarrow> op_ok text
    | Err _ \<Rightarrow> op_err (FailedValidation ''not a name the protocol spells''))"

lemma admissible_iff: "admissible text = Ok () \<longleftrightarrow> is_name text"
  by (auto simp: admissible_def split: option.splits)

lemma name_bytes_iff: "name_bytes bs \<longleftrightarrow> (\<forall>b \<in> set bs. is_ascii_alphanumeric b \<or> b = 0x5F)"
  by (induction bs) auto

lemma name_byte_less: "is_ascii_alphanumeric b \<or> b = 0x5F \<Longrightarrow> b < 0x80"
  by (auto simp: is_ascii_alphanumeric_def is_ascii_digit_def intro: order_le_less_trans)

lemma from_utf8_ascii: "(\<And>b. b \<in> set bs \<Longrightarrow> b < 0x80) \<Longrightarrow> from_utf8 bs"
  by (induction bs) auto

lemma is_name_text: "is_name text \<Longrightarrow> from_utf8 text \<and> length text \<le> MAX_NAME_BYTES"
  by (auto simp: is_name_def name_bytes_iff split: if_splits intro!: from_utf8_ascii name_byte_less)

lemma hbor_name: "hbor 1 (name_encode vec_sink) name_decode string_wire is_name"
proof (rule hbor.intro)
  show "vs.emits (name_encode vec_sink v) (string_wire v)" for v
    using vs.emits_string [of v] by (simp add: name_encode_def string_encode_def)
  have "reads (case admissible nm of Ok _ \<Rightarrow> op_ok nm
      | Err _ \<Rightarrow> op_err (FailedValidation ''not a name the protocol spells''))
      (\<lambda>_. wire_lit []) (\<lambda>v. v = nm \<and> is_name nm)" for nm
    using admissible_iff [of nm]
    by (cases "admissible nm") (auto intro: reads_weaken [OF reads_ok] reads_weaken [OF reads_err])
  from reads_then [OF hbor.dec_reads [OF hbor_capped_string] this, where p = "\<lambda>v. v"]
  show "reads name_decode string_wire is_name"
    unfolding name_decode_def by (rule reads_weaken) (auto dest: is_name_text)
qed (auto simp: string_wire_def wire_seq_Ok wire_len_Ok Suc_le_eq)


section \<open>The static tree\<close>

datatype ShapeNode =
    NBool | NU8 | NU16 | NU32 | NU64 | NU128 | NI8 | NI16 | NI32 | NI64 | NI128
  | NText nat
  | NByteArray nat
  | NSeq nat ShapeNode
  | NSet nat ShapeNode
  | NMap nat ShapeNode ShapeNode
  | NOption ShapeNode
  | NTuple "ShapeNode list"
  | NStruct "(bytes \<times> ShapeNode) list"
  | NEnum "(bytes \<times> u8 \<times> ShapeNode) list"
  | NNamed bytes ShapeNode

definition usize_add :: "nat \<Rightarrow> nat \<Rightarrow> nat" where
  "usize_add a b = min (a + b) USIZE_MAX"

definition usize_mul :: "nat \<Rightarrow> nat \<Rightarrow> nat" where
  "usize_mul a b = min (a * b) USIZE_MAX"

primrec min_encoded_len :: "ShapeNode \<Rightarrow> nat" where
  "min_encoded_len NBool = 1"
| "min_encoded_len NU8 = 1"
| "min_encoded_len NU16 = 2"
| "min_encoded_len NU32 = 4"
| "min_encoded_len NU64 = 8"
| "min_encoded_len NU128 = 16"
| "min_encoded_len NI8 = 1"
| "min_encoded_len NI16 = 2"
| "min_encoded_len NI32 = 4"
| "min_encoded_len NI64 = 8"
| "min_encoded_len NI128 = 16"
| "min_encoded_len (NText cap) = 1"
| "min_encoded_len (NByteArray width) = width"
| "min_encoded_len (NSeq cap element) = 1"
| "min_encoded_len (NSet cap element) = 1"
| "min_encoded_len (NMap cap key val) = 1"
| "min_encoded_len (NOption held) = 1"
| "min_encoded_len (NTuple elements) = foldl usize_add 0 (map min_encoded_len elements)"
| "min_encoded_len (NStruct members) = foldl usize_add 0 (map snd (map (map_prod id min_encoded_len) members))"
| "min_encoded_len (NEnum variants) =
    (let lightest = foldl (\<lambda>lightest v. if snd (snd v) < lightest then snd (snd v) else lightest) USIZE_MAX
                      (map (map_prod id (map_prod id min_encoded_len)) variants)
     in if variants = [] then 1 else usize_add lightest 1)"
| "min_encoded_len (NNamed name shape) = min_encoded_len shape"

definition opt_sum :: "nat option list \<Rightarrow> nat option" where
  "opt_sum xs = foldl (\<lambda>sum x. case sum of None \<Rightarrow> None | Some s \<Rightarrow> map_option (usize_add s) x) (Some 0) xs"

definition opt_widest :: "nat option list \<Rightarrow> nat option" where
  "opt_widest xs = foldl (\<lambda>widest x. case widest of None \<Rightarrow> None
     | Some w \<Rightarrow> map_option (\<lambda>most. if most > w then most else w) x) (Some 0) xs"

text \<open>\<open>None\<close> is the panic of a run over an element that occupies no bytes, a compile error in
  the \<open>const\<close> context the fold is evaluated in.\<close>

primrec max_encoded_len :: "ShapeNode \<Rightarrow> nat option" where
  "max_encoded_len NBool = Some 1"
| "max_encoded_len NU8 = Some 1"
| "max_encoded_len NU16 = Some 2"
| "max_encoded_len NU32 = Some 4"
| "max_encoded_len NU64 = Some 8"
| "max_encoded_len NU128 = Some 16"
| "max_encoded_len NI8 = Some 1"
| "max_encoded_len NI16 = Some 2"
| "max_encoded_len NI32 = Some 4"
| "max_encoded_len NI64 = Some 8"
| "max_encoded_len NI128 = Some 16"
| "max_encoded_len (NText cap) = Some (usize_add (encoded_len cap) cap)"
| "max_encoded_len (NByteArray width) = Some width"
| "max_encoded_len (NSeq cap element) =
    (if min_encoded_len element > 0
     then map_option (\<lambda>most. usize_add (encoded_len cap) (usize_mul cap most)) (max_encoded_len element)
     else None)"
| "max_encoded_len (NSet cap element) =
    (if min_encoded_len element > 0
     then map_option (\<lambda>most. usize_add (encoded_len cap) (usize_mul cap most)) (max_encoded_len element)
     else None)"
| "max_encoded_len (NMap cap key val) =
    (if usize_add (min_encoded_len key) (min_encoded_len val) > 0
     then case max_encoded_len key of None \<Rightarrow> None
          | Some k \<Rightarrow> map_option (\<lambda>v. usize_add (encoded_len cap) (usize_mul cap (usize_add k v))) (max_encoded_len val)
     else None)"
| "max_encoded_len (NOption held) = map_option (\<lambda>most. usize_add most 1) (max_encoded_len held)"
| "max_encoded_len (NTuple elements) = opt_sum (map max_encoded_len elements)"
| "max_encoded_len (NStruct members) = opt_sum (map snd (map (map_prod id max_encoded_len) members))"
| "max_encoded_len (NEnum variants) =
    map_option (\<lambda>widest. usize_add widest 1)
      (opt_widest (map (snd \<circ> snd) (map (map_prod id (map_prod id max_encoded_len)) variants)))"
| "max_encoded_len (NNamed name shape) = max_encoded_len shape"

definition deepest_of :: "nat list \<Rightarrow> nat" where
  "deepest_of xs = foldl (\<lambda>deepest depth. if depth > deepest then depth else deepest) 0 xs"

primrec max_depth :: "ShapeNode \<Rightarrow> nat" where
  "max_depth NBool = 0"
| "max_depth NU8 = 0"
| "max_depth NU16 = 0"
| "max_depth NU32 = 0"
| "max_depth NU64 = 0"
| "max_depth NU128 = 0"
| "max_depth NI8 = 0"
| "max_depth NI16 = 0"
| "max_depth NI32 = 0"
| "max_depth NI64 = 0"
| "max_depth NI128 = 0"
| "max_depth (NText cap) = 0"
| "max_depth (NByteArray width) = 0"
| "max_depth (NSeq cap element) = max_depth element + 1"
| "max_depth (NSet cap element) = max_depth element + 1"
| "max_depth (NMap cap key val) =
    (if max_depth key > max_depth val then max_depth key + 1 else max_depth val + 1)"
| "max_depth (NOption held) = max_depth held + 1"
| "max_depth (NTuple elements) =
    (if elements = [] then 0 else deepest_of (map max_depth elements) + 1)"
| "max_depth (NStruct members) =
    (if members = [] then 0 else deepest_of (map snd (map (map_prod id max_depth) members)) + 1)"
| "max_depth (NEnum variants) =
    deepest_of (map (snd \<circ> snd) (map (map_prod id (map_prod id max_depth)) variants))"
| "max_depth (NNamed name shape) = max_depth shape"


section \<open>Values and their codec\<close>

datatype ShapeValue =
    VBool bool
  | VU8 "8 word" | VU16 "16 word" | VU32 "32 word" | VU64 "64 word" | VU128 "128 word"
  | VI8 "8 word" | VI16 "16 word" | VI32 "32 word" | VI64 "64 word" | VI128 "128 word"
  | VText bytes
  | VByteArray bytes
  | VSeq "ShapeValue list"
  | VSet "ShapeValue list"
  | VMap "(ShapeValue \<times> ShapeValue) list"
  | VOption "ShapeValue option"
  | VTuple "ShapeValue list"
  | VStruct "(bytes \<times> ShapeValue) list"
  | VVariant bytes u8 ShapeValue

text \<open>A derived struct or tuple: each field one level down, in declaration order. A value of
  another form is not one the type holds, and writes nothing.\<close>

fun encode_fields :: "('a \<Rightarrow> 's enc_op) list \<Rightarrow> 'a list \<Rightarrow> 's enc_op" where
  "encode_fields (f # fs) (v # vs) = op_then (enc_nested f v) (\<lambda>_. encode_fields fs vs)"
| "encode_fields _ _ = op_ok ()"

primrec decode_fields :: "'a dec_op list \<Rightarrow> 'a list dec_op" where
  "decode_fields [] = op_ok []"
| "decode_fields (f # fs) = op_then (dec_descend f) (\<lambda>v. op_map (Cons v) (decode_fields fs))"

fun variant_at :: "u8 \<Rightarrow> ('n \<times> u8 \<times> 'c) list \<Rightarrow> ('n \<times> 'c) option" where
  "variant_at tag [] = None"
| "variant_at tag ((name, disc, c) # vs) = (if disc = tag then Some (name, c) else variant_at tag vs)"

text \<open>The ordered collections of a type whose order is \<open>le\<close>: an element at or below the last one read
  is refused.\<close>

primrec ascending_loop :: "nat \<Rightarrow> ('a \<Rightarrow> 'a \<Rightarrow> bool) \<Rightarrow> 'a dec_op \<Rightarrow> 'a list \<Rightarrow> 'a list dec_op" where
  "ascending_loop 0 le decode out = op_ok out"
| "ascending_loop (Suc n) le decode out = op_then decode (\<lambda>x.
    if out \<noteq> [] \<and> le x (last out) then op_err UnsortedKeys
    else ascending_loop n le decode (out @ [x]))"

definition entry_encode :: "('k \<Rightarrow> 's enc_op) \<Rightarrow> ('v \<Rightarrow> 's enc_op) \<Rightarrow> 'k \<times> 'v \<Rightarrow> 's enc_op" where
  "entry_encode enc_k enc_v e = op_then (enc_k (fst e)) (\<lambda>_. enc_v (snd e))"

definition entry_decode :: "'k dec_op \<Rightarrow> 'v dec_op \<Rightarrow> ('k \<times> 'v) dec_op" where
  "entry_decode dec_k dec_v = op_then dec_k (\<lambda>k. op_map (Pair k) dec_v)"

primrec node_encode :: "'s Sink \<Rightarrow> ShapeNode \<Rightarrow> ShapeValue \<Rightarrow> 's enc_op" where
  "node_encode S NBool = (\<lambda>v. case v of VBool b \<Rightarrow> bool_encode S b | _ \<Rightarrow> op_ok ())"
| "node_encode S NU8 = (\<lambda>v. case v of VU8 w \<Rightarrow> word_encode S w | _ \<Rightarrow> op_ok ())"
| "node_encode S NU16 = (\<lambda>v. case v of VU16 w \<Rightarrow> word_encode S w | _ \<Rightarrow> op_ok ())"
| "node_encode S NU32 = (\<lambda>v. case v of VU32 w \<Rightarrow> word_encode S w | _ \<Rightarrow> op_ok ())"
| "node_encode S NU64 = (\<lambda>v. case v of VU64 w \<Rightarrow> word_encode S w | _ \<Rightarrow> op_ok ())"
| "node_encode S NU128 = (\<lambda>v. case v of VU128 w \<Rightarrow> word_encode S w | _ \<Rightarrow> op_ok ())"
| "node_encode S NI8 = (\<lambda>v. case v of VI8 w \<Rightarrow> word_encode S w | _ \<Rightarrow> op_ok ())"
| "node_encode S NI16 = (\<lambda>v. case v of VI16 w \<Rightarrow> word_encode S w | _ \<Rightarrow> op_ok ())"
| "node_encode S NI32 = (\<lambda>v. case v of VI32 w \<Rightarrow> word_encode S w | _ \<Rightarrow> op_ok ())"
| "node_encode S NI64 = (\<lambda>v. case v of VI64 w \<Rightarrow> word_encode S w | _ \<Rightarrow> op_ok ())"
| "node_encode S NI128 = (\<lambda>v. case v of VI128 w \<Rightarrow> word_encode S w | _ \<Rightarrow> op_ok ())"
| "node_encode S (NText cap) = (\<lambda>v. case v of VText bs \<Rightarrow> string_encode S bs | _ \<Rightarrow> op_ok ())"
| "node_encode S (NByteArray n) = (\<lambda>v. case v of VByteArray bs \<Rightarrow> array_encode S bs | _ \<Rightarrow> op_ok ())"
| "node_encode S (NSeq cap element) = (\<lambda>v. case v of VSeq xs \<Rightarrow> vec_encode S (node_encode S element) xs
    | _ \<Rightarrow> op_ok ())"
| "node_encode S (NSet cap element) = (\<lambda>v. case v of VSet xs \<Rightarrow> vec_encode S (node_encode S element) xs
    | _ \<Rightarrow> op_ok ())"
| "node_encode S (NMap cap key val) = (\<lambda>v. case v of
      VMap es \<Rightarrow> vec_encode S (entry_encode (node_encode S key) (node_encode S val)) es | _ \<Rightarrow> op_ok ())"
| "node_encode S (NOption held) = (\<lambda>v. case v of VOption x \<Rightarrow> option_encode S (node_encode S held) x
    | _ \<Rightarrow> op_ok ())"
| "node_encode S (NTuple elements) = (\<lambda>v. case v of
      VTuple vs \<Rightarrow> encode_fields (map (node_encode S) elements) vs | _ \<Rightarrow> op_ok ())"
| "node_encode S (NStruct members) = (\<lambda>v. case v of
      VStruct vs \<Rightarrow> encode_fields (map snd (map (map_prod id (node_encode S)) members)) (map snd vs)
    | _ \<Rightarrow> op_ok ())"
| "node_encode S (NEnum variants) = (\<lambda>v. case v of
      VVariant name tag c \<Rightarrow>
        (case variant_at tag (map (map_prod id (map_prod id (node_encode S))) variants) of
           Some (_, enc) \<Rightarrow> op_then (write_u8 S tag) (\<lambda>_. enc c)
         | None \<Rightarrow> op_ok ())
    | _ \<Rightarrow> op_ok ())"
| "node_encode S (NNamed name shape) = node_encode S shape"

primrec node_decode :: "(ShapeNode \<Rightarrow> ShapeValue \<Rightarrow> ShapeValue \<Rightarrow> bool) \<Rightarrow> ShapeNode \<Rightarrow> ShapeValue dec_op" where
  "node_decode le NBool = op_map VBool bool_decode"
| "node_decode le NU8 = op_map VU8 word_decode"
| "node_decode le NU16 = op_map VU16 word_decode"
| "node_decode le NU32 = op_map VU32 word_decode"
| "node_decode le NU64 = op_map VU64 word_decode"
| "node_decode le NU128 = op_map VU128 word_decode"
| "node_decode le NI8 = op_map VI8 word_decode"
| "node_decode le NI16 = op_map VI16 word_decode"
| "node_decode le NI32 = op_map VI32 word_decode"
| "node_decode le NI64 = op_map VI64 word_decode"
| "node_decode le NI128 = op_map VI128 word_decode"
| "node_decode le (NText cap) = op_map VText (decode_bounded_string cap)"
| "node_decode le (NByteArray n) = op_map VByteArray (array_decode n)"
| "node_decode le (NSeq cap element) =
    op_map VSeq (decode_bounded_vec (min_encoded_len element) (node_decode le element) cap)"
| "node_decode le (NSet cap element) =
    op_map VSet (op_then (read_len_check (min_encoded_len element) cap) (\<lambda>len.
      dec_descend (ascending_loop len (le element) (node_decode le element) [])))"
| "node_decode le (NMap cap key val) =
    op_map VMap (op_then (read_len_check (min_encoded_len key + min_encoded_len val) cap) (\<lambda>len.
      dec_descend (ascending_loop len (\<lambda>a b. le key (fst a) (fst b))
        (entry_decode (node_decode le key) (node_decode le val)) [])))"
| "node_decode le (NOption held) = op_map VOption (option_decode (node_decode le held))"
| "node_decode le (NTuple elements) = op_map VTuple (decode_fields (map (node_decode le) elements))"
| "node_decode le (NStruct members) =
    op_map (\<lambda>vs. VStruct (zip (map fst members) vs))
      (decode_fields (map snd (map (map_prod id (node_decode le)) members)))"
| "node_decode le (NEnum variants) = op_then read_u8 (\<lambda>tag.
    case variant_at tag (map (map_prod id (map_prod id (node_decode le))) variants) of
      None \<Rightarrow> op_err (InvalidDiscriminant tag)
    | Some (name, dec) \<Rightarrow> op_map (VVariant name tag) dec)"
| "node_decode le (NNamed name shape) = node_decode le shape"

subsection \<open>The wire form of a shaped value\<close>

fun fields_wire :: "('a \<Rightarrow> wire) list \<Rightarrow> 'a list \<Rightarrow> wire" where
  "fields_wire (f # fs) (v # vs) = wire_seq (wire_nest (f v)) (fields_wire fs vs)"
| "fields_wire _ _ = wire_lit []"

primrec node_wire :: "ShapeNode \<Rightarrow> ShapeValue \<Rightarrow> wire" where
  "node_wire NBool = (\<lambda>v. case v of VBool b \<Rightarrow> bool_wire b | _ \<Rightarrow> wire_lit [])"
| "node_wire NU8 = (\<lambda>v. case v of VU8 w \<Rightarrow> word_wire w | _ \<Rightarrow> wire_lit [])"
| "node_wire NU16 = (\<lambda>v. case v of VU16 w \<Rightarrow> word_wire w | _ \<Rightarrow> wire_lit [])"
| "node_wire NU32 = (\<lambda>v. case v of VU32 w \<Rightarrow> word_wire w | _ \<Rightarrow> wire_lit [])"
| "node_wire NU64 = (\<lambda>v. case v of VU64 w \<Rightarrow> word_wire w | _ \<Rightarrow> wire_lit [])"
| "node_wire NU128 = (\<lambda>v. case v of VU128 w \<Rightarrow> word_wire w | _ \<Rightarrow> wire_lit [])"
| "node_wire NI8 = (\<lambda>v. case v of VI8 w \<Rightarrow> word_wire w | _ \<Rightarrow> wire_lit [])"
| "node_wire NI16 = (\<lambda>v. case v of VI16 w \<Rightarrow> word_wire w | _ \<Rightarrow> wire_lit [])"
| "node_wire NI32 = (\<lambda>v. case v of VI32 w \<Rightarrow> word_wire w | _ \<Rightarrow> wire_lit [])"
| "node_wire NI64 = (\<lambda>v. case v of VI64 w \<Rightarrow> word_wire w | _ \<Rightarrow> wire_lit [])"
| "node_wire NI128 = (\<lambda>v. case v of VI128 w \<Rightarrow> word_wire w | _ \<Rightarrow> wire_lit [])"
| "node_wire (NText cap) = (\<lambda>v. case v of VText bs \<Rightarrow> string_wire bs | _ \<Rightarrow> wire_lit [])"
| "node_wire (NByteArray n) = (\<lambda>v. case v of VByteArray bs \<Rightarrow> wire_lit bs | _ \<Rightarrow> wire_lit [])"
| "node_wire (NSeq cap element) = (\<lambda>v. case v of VSeq xs \<Rightarrow> vec_wire (node_wire element) xs | _ \<Rightarrow> wire_lit [])"
| "node_wire (NSet cap element) = (\<lambda>v. case v of VSet xs \<Rightarrow> vec_wire (node_wire element) xs | _ \<Rightarrow> wire_lit [])"
| "node_wire (NMap cap key val) = (\<lambda>v. case v of
      VMap es \<Rightarrow> vec_wire (entry_wire (node_wire key) (node_wire val)) es | _ \<Rightarrow> wire_lit [])"
| "node_wire (NOption held) = (\<lambda>v. case v of VOption x \<Rightarrow> option_wire (node_wire held) x | _ \<Rightarrow> wire_lit [])"
| "node_wire (NTuple elements) = (\<lambda>v. case v of
      VTuple vs \<Rightarrow> fields_wire (map node_wire elements) vs | _ \<Rightarrow> wire_lit [])"
| "node_wire (NStruct members) = (\<lambda>v. case v of
      VStruct vs \<Rightarrow> fields_wire (map snd (map (map_prod id node_wire) members)) (map snd vs) | _ \<Rightarrow> wire_lit [])"
| "node_wire (NEnum variants) = (\<lambda>v. case v of
      VVariant name tag c \<Rightarrow>
        (case variant_at tag (map (map_prod id (map_prod id node_wire)) variants) of
           Some (_, w) \<Rightarrow> wire_seq (wire_lit [tag]) (w c)
         | None \<Rightarrow> wire_lit [])
    | _ \<Rightarrow> wire_lit [])"
| "node_wire (NNamed name shape) = node_wire shape"

text \<open>The values of a node; \<open>chk\<close> is what a reader holds the members of a set and the keys of a map to.\<close>

primrec node_valid :: "(ShapeNode \<Rightarrow> ShapeValue list \<Rightarrow> bool) \<Rightarrow> ShapeNode \<Rightarrow> ShapeValue \<Rightarrow> bool" where
  "node_valid chk NBool = (\<lambda>v. case v of VBool b \<Rightarrow> True | _ \<Rightarrow> False)"
| "node_valid chk NU8 = (\<lambda>v. case v of VU8 w \<Rightarrow> True | _ \<Rightarrow> False)"
| "node_valid chk NU16 = (\<lambda>v. case v of VU16 w \<Rightarrow> True | _ \<Rightarrow> False)"
| "node_valid chk NU32 = (\<lambda>v. case v of VU32 w \<Rightarrow> True | _ \<Rightarrow> False)"
| "node_valid chk NU64 = (\<lambda>v. case v of VU64 w \<Rightarrow> True | _ \<Rightarrow> False)"
| "node_valid chk NU128 = (\<lambda>v. case v of VU128 w \<Rightarrow> True | _ \<Rightarrow> False)"
| "node_valid chk NI8 = (\<lambda>v. case v of VI8 w \<Rightarrow> True | _ \<Rightarrow> False)"
| "node_valid chk NI16 = (\<lambda>v. case v of VI16 w \<Rightarrow> True | _ \<Rightarrow> False)"
| "node_valid chk NI32 = (\<lambda>v. case v of VI32 w \<Rightarrow> True | _ \<Rightarrow> False)"
| "node_valid chk NI64 = (\<lambda>v. case v of VI64 w \<Rightarrow> True | _ \<Rightarrow> False)"
| "node_valid chk NI128 = (\<lambda>v. case v of VI128 w \<Rightarrow> True | _ \<Rightarrow> False)"
| "node_valid chk (NText cap) = (\<lambda>v. case v of VText bs \<Rightarrow> from_utf8 bs \<and> length bs \<le> cap | _ \<Rightarrow> False)"
| "node_valid chk (NByteArray n) = (\<lambda>v. case v of VByteArray bs \<Rightarrow> length bs = n | _ \<Rightarrow> False)"
| "node_valid chk (NSeq cap element) = (\<lambda>v. case v of
      VSeq xs \<Rightarrow> list_all (node_valid chk element) xs \<and> length xs \<le> cap | _ \<Rightarrow> False)"
| "node_valid chk (NSet cap element) = (\<lambda>v. case v of
      VSet xs \<Rightarrow> list_all (node_valid chk element) xs \<and> chk element xs \<and> length xs \<le> cap | _ \<Rightarrow> False)"
| "node_valid chk (NMap cap key val) = (\<lambda>v. case v of
      VMap es \<Rightarrow> list_all (\<lambda>e. node_valid chk key (fst e) \<and> node_valid chk val (snd e)) es \<and>
        chk key (map fst es) \<and> length es \<le> cap
    | _ \<Rightarrow> False)"
| "node_valid chk (NOption held) = (\<lambda>v. case v of VOption x \<Rightarrow> pred_option (node_valid chk held) x | _ \<Rightarrow> False)"
| "node_valid chk (NTuple elements) = (\<lambda>v. case v of
      VTuple vs \<Rightarrow> list_all2 (\<lambda>P. P) (map (node_valid chk) elements) vs | _ \<Rightarrow> False)"
| "node_valid chk (NStruct members) = (\<lambda>v. case v of
      VStruct vs \<Rightarrow> map fst vs = map fst members \<and>
        list_all2 (\<lambda>P. P) (map snd (map (map_prod id (node_valid chk)) members)) (map snd vs)
    | _ \<Rightarrow> False)"
| "node_valid chk (NEnum variants) = (\<lambda>v. case v of
      VVariant name tag c \<Rightarrow>
        (case variant_at tag (map (map_prod id (map_prod id (node_valid chk))) variants) of
           Some (declared, P) \<Rightarrow> name = declared \<and> P c
         | None \<Rightarrow> False)
    | _ \<Rightarrow> False)"
| "node_valid chk (NNamed name shape) = node_valid chk shape"

definition ascending :: "('a \<Rightarrow> 'a \<Rightarrow> bool) \<Rightarrow> 'a list \<Rightarrow> bool" where
  "ascending le xs = successively (\<lambda>a b. \<not> le b a) xs"

text \<open>Induction over a node, with the members of a struct and the variants of an enum by their pairs
  and triples.\<close>

lemma node_induct [case_names Leaf Text ByteArray Seq Set Map Option Tuple Struct Enum Named]:
  assumes leaf: "\<And>n. n \<in> {NBool, NU8, NU16, NU32, NU64, NU128, NI8, NI16, NI32, NI64, NI128} \<Longrightarrow> P n"
    and tx: "\<And>cap. P (NText cap)" and arr: "\<And>k. P (NByteArray k)"
    and seq: "\<And>cap n. P n \<Longrightarrow> P (NSeq cap n)" and set: "\<And>cap n. P n \<Longrightarrow> P (NSet cap n)"
    and map: "\<And>cap k n. P k \<Longrightarrow> P n \<Longrightarrow> P (NMap cap k n)" and opt: "\<And>n. P n \<Longrightarrow> P (NOption n)"
    and tup: "\<And>ns. (\<And>n. n \<in> set ns \<Longrightarrow> P n) \<Longrightarrow> P (NTuple ns)"
    and str: "\<And>ms. (\<And>name n. (name, n) \<in> set ms \<Longrightarrow> P n) \<Longrightarrow> P (NStruct ms)"
    and enm: "\<And>vs. (\<And>name tag n. (name, tag, n) \<in> set vs \<Longrightarrow> P n) \<Longrightarrow> P (NEnum vs)"
    and nam: "\<And>name n. P n \<Longrightarrow> P (NNamed name n)"
  shows "P n"
proof (induction n)
  case (NStruct ms)
  then show ?case by (intro str) (force simp: prod_set_defs)
next
  case (NEnum vs)
  then show ?case by (intro enm) (force simp: prod_set_defs)
qed (auto intro: leaf tx arr seq set map opt tup nam)

lemma members_map: "map snd (map (map_prod id f) ms) = map f (map snd ms)"
  by simp

lemma variant_at_map [simp]:
  "variant_at tag (map (map_prod id (map_prod id f)) vs) = map_option (map_prod id f) (variant_at tag vs)"
  by (induction tag vs rule: variant_at.induct) auto

lemma variant_at_mem: "variant_at tag vs = Some (name, c) \<Longrightarrow> (name, tag, c) \<in> set vs"
  by (induction tag vs rule: variant_at.induct) (auto split: if_splits)

lemma node_valid_iff:
  "node_valid chk NBool c \<longleftrightarrow> (\<exists>b. c = VBool b)"
  "node_valid chk NU8 c \<longleftrightarrow> (\<exists>w. c = VU8 w)"
  "node_valid chk NU16 c \<longleftrightarrow> (\<exists>w. c = VU16 w)"
  "node_valid chk NU32 c \<longleftrightarrow> (\<exists>w. c = VU32 w)"
  "node_valid chk NU64 c \<longleftrightarrow> (\<exists>w. c = VU64 w)"
  "node_valid chk NU128 c \<longleftrightarrow> (\<exists>w. c = VU128 w)"
  "node_valid chk NI8 c \<longleftrightarrow> (\<exists>w. c = VI8 w)"
  "node_valid chk NI16 c \<longleftrightarrow> (\<exists>w. c = VI16 w)"
  "node_valid chk NI32 c \<longleftrightarrow> (\<exists>w. c = VI32 w)"
  "node_valid chk NI64 c \<longleftrightarrow> (\<exists>w. c = VI64 w)"
  "node_valid chk NI128 c \<longleftrightarrow> (\<exists>w. c = VI128 w)"
  "node_valid chk (NText cap) c \<longleftrightarrow> (\<exists>bs. c = VText bs \<and> from_utf8 bs \<and> length bs \<le> cap)"
  "node_valid chk (NByteArray width) c \<longleftrightarrow> (\<exists>bs. c = VByteArray bs \<and> length bs = width)"
  "node_valid chk (NSeq cap n) c \<longleftrightarrow> (\<exists>xs. c = VSeq xs \<and> list_all (node_valid chk n) xs \<and> length xs \<le> cap)"
  "node_valid chk (NSet cap n) c \<longleftrightarrow>
    (\<exists>xs. c = VSet xs \<and> list_all (node_valid chk n) xs \<and> chk n xs \<and> length xs \<le> cap)"
  "node_valid chk (NMap cap k n) c \<longleftrightarrow>
    (\<exists>es. c = VMap es \<and> list_all (\<lambda>e. node_valid chk k (fst e) \<and> node_valid chk n (snd e)) es \<and>
      chk k (map fst es) \<and> length es \<le> cap)"
  "node_valid chk (NOption n) c \<longleftrightarrow> (\<exists>x. c = VOption x \<and> pred_option (node_valid chk n) x)"
  "node_valid chk (NTuple ns) c \<longleftrightarrow> (\<exists>vs. c = VTuple vs \<and> list_all2 (\<lambda>P. P) (map (node_valid chk) ns) vs)"
  "node_valid chk (NStruct ms) c \<longleftrightarrow> (\<exists>vs. c = VStruct vs \<and> map fst vs = map fst ms \<and>
    list_all2 (\<lambda>P. P) (map (node_valid chk) (map snd ms)) (map snd vs))"
  "node_valid chk (NEnum variants) c \<longleftrightarrow> (\<exists>name tag x n. c = VVariant name tag x \<and>
    variant_at tag variants = Some (name, n) \<and> node_valid chk n x)"
  by (auto split: ShapeValue.splits option.splits)

context sink
begin

lemma emits_fields:
  "(\<And>n x. n \<in> set ns \<Longrightarrow> emits (f n x) (g n x)) \<Longrightarrow>
   emits (encode_fields (map f ns) vs) (fields_wire (map g ns) vs)"
proof (induction ns arbitrary: vs)
  case (Cons n ns)
  then show ?case by (cases vs) (auto intro!: emits_intros)
qed (auto intro: emits_intros)

lemma emits_entry [emits_intros]:
  "emits (enc_k (fst e)) (u (fst e)) \<Longrightarrow> emits (enc_v (snd e)) (w (snd e)) \<Longrightarrow>
   emits (entry_encode enc_k enc_v e) (entry_wire u w e)"
  unfolding entry_encode_def entry_wire_def by (intro emits_intros)

lemma emits_node: "emits (node_encode S n v) (node_wire n v)"
proof (induction n arbitrary: v rule: node_induct)
  case (Tuple ns)
  then show ?case by (auto split: ShapeValue.split intro!: emits_intros emits_fields)
next
  case (Struct ms)
  then show ?case
    unfolding node_encode.simps node_wire.simps members_map
    by (auto split: ShapeValue.split intro!: emits_intros emits_fields)
next
  case (Enum vs)
  then show ?case
    by (auto split: ShapeValue.split option.split intro!: emits_intros dest: variant_at_mem)
qed (auto split: ShapeValue.split intro!: emits_intros)

end

subsection \<open>What a node's decode accepts\<close>

lemma reads_con:
  assumes "reads A u V" and inj: "\<And>a a'. f a = f a' \<Longrightarrow> a = a'" and W: "\<And>a. W (f a) = u a"
    and V': "\<And>c. V' c \<longleftrightarrow> (\<exists>a. c = f a \<and> V a)"
  shows "reads (op_map f A) W V'"
proof -
  have g: "inv f (f a) = a" for a using inj by (auto simp: inj_def intro: inv_f_f)
  show ?thesis by (rule reads_weaken [OF reads_map [OF assms(1), where g = "inv f"]]) (auto simp: g W [symmetric] V')
qed

lemma reads_fields:
  "(\<And>n. n \<in> set ns \<Longrightarrow> reads (f n) (g n) (V n)) \<Longrightarrow>
   reads (decode_fields (map f ns)) (fields_wire (map g ns)) (\<lambda>vs. list_all2 (\<lambda>P. P) (map V ns) vs)"
proof (induction ns)
  case Nil
  then show ?case by (auto intro: reads_weaken [OF reads_ok])
next
  case (Cons n ns)
  have "reads (op_then (dec_descend (f n)) (\<lambda>v. op_map (Cons v) (decode_fields (map f ns))))
      (fields_wire (map g (n # ns))) (\<lambda>vs. list_all2 (\<lambda>P. P) (map V (n # ns)) vs)"
    by (rule reads_weaken [OF reads_then [OF reads_descend [OF Cons.prems]
            reads_map [OF Cons.IH [OF Cons.prems], where g = tl], where p = hd]])
       (auto simp: cons_tl neq_Nil_conv list_all2_Cons1)
  then show ?case by simp
qed

lemma ascending_snoc:
  "ascending le (out @ [x]) \<longleftrightarrow> ascending le out \<and> \<not> (out \<noteq> [] \<and> le x (last out))"
  by (auto simp: ascending_def successively_append_iff)

lemma ascending_prefix: "ascending le (out @ es) \<Longrightarrow> ascending le out"
  by (auto simp: ascending_def successively_append_iff)

lemma reads_ascending:
  assumes A: "reads A w valid"
  shows "ascending le out \<Longrightarrow> reads (ascending_loop n le A out) (\<lambda>xs. wire_each w (drop (length out) xs))
    (\<lambda>xs. \<exists>es. xs = out @ es \<and> length es = n \<and> list_all valid es \<and> ascending le xs)"
proof (induction n arbitrary: out)
  case 0
  then show ?case by (auto intro: reads_weaken [OF reads_ok])
next
  case (Suc n)
  let ?rest = "\<lambda>x xs. \<exists>es. xs = out @ x # es \<and> length es = n \<and> list_all valid es \<and> ascending le xs"
  let ?B = "\<lambda>x. if out \<noteq> [] \<and> le x (last out) then op_err UnsortedKeys else ascending_loop n le A (out @ [x])"
  have B: "reads (?B x) (\<lambda>xs. wire_each w (drop (Suc (length out)) xs)) (?rest x)" for x
  proof (cases "out \<noteq> [] \<and> le x (last out)")
    case True
    then have "\<not> ascending le (out @ x # es)" for es
      using ascending_prefix [of le "out @ [x]" es] by (auto simp: ascending_snoc)
    then show ?thesis unfolding if_P [OF True] by (auto intro: reads_weaken [OF reads_err])
  next
    case False
    then have "ascending le (out @ [x])" using Suc.prems by (simp add: ascending_snoc)
    from Suc.IH [OF this] False show ?thesis by (simp add: if_not_P)
  qed
  have "reads (op_then A ?B) (\<lambda>xs. wire_each w (drop (length out) xs))
      (\<lambda>xs. \<exists>es. xs = out @ es \<and> length es = Suc n \<and> list_all valid es \<and> ascending le xs)"
    by (rule reads_weaken [OF reads_then [OF A B, where p = "\<lambda>xs. xs ! length out"]])
       (auto simp: length_Suc_conv dest: drop_at)
  then show ?case by simp
qed

text \<open>On a type of the code's own order the loop is the one over \<open>BTreeMap\<close>.\<close>

lemma btmap_loop_ascending:
  "op_map entries (btmap_loop n dec_k dec_v out)
     = ascending_loop n (\<lambda>a b. fst a \<le> fst b) (entry_decode dec_k dec_v) (entries out)"
proof (induction n arbitrary: out)
  case (Suc n)
  have "(case bt_last out of Some (l, _) \<Rightarrow> k \<le> l | None \<Rightarrow> False) \<longleftrightarrow> entries out \<noteq> [] \<and> k \<le> fst (last (entries out))" for k
    by (auto simp: bt_last_def split: prod.splits)
  with Suc show ?case
    by (auto simp: op_map_def op_then_assoc entry_decode_def entries_insert_last fun_eq_iff
        intro!: arg_cong2 [where f = "op_then _"] cong: if_cong split: if_splits)
qed (simp add: op_map_def)

lemma foldl_usize_add_le: "foldl usize_add a xs \<le> a + sum_list xs"
proof (induction xs arbitrary: a)
  case (Cons x xs)
  have "foldl usize_add (usize_add a x) xs \<le> usize_add a x + sum_list xs" by (rule Cons)
  also have "\<dots> \<le> a + x + sum_list xs" by (simp add: usize_add_def)
  finally show ?case by (simp add: add.assoc)
qed simp

lemma foldl_lightest_le:
  "foldl (\<lambda>l v. if f v < l then f v else l) (a :: nat) vs \<le> a \<and>
   (\<forall>v \<in> set vs. foldl (\<lambda>l v. if f v < l then f v else l) a vs \<le> f v)"
proof (induction vs arbitrary: a)
  case (Cons v vs)
  show ?case using Cons [of "if f v < a then f v else a"] by (auto split: if_splits)
qed simp

lemma fields_length:
  "(\<And>n v d m b. n \<in> set ns \<Longrightarrow> V n v \<Longrightarrow> w n v d m = Ok b \<Longrightarrow> k n \<le> length b) \<Longrightarrow>
   list_all2 (\<lambda>P. P) (map V ns) vs \<Longrightarrow> fields_wire (map w ns) vs d m = Ok b \<Longrightarrow>
   sum_list (map k ns) \<le> length b"
proof (induction ns arbitrary: vs b)
  case (Cons n ns)
  from Cons.prems(2) obtain v vs' where vs: "vs = v # vs'" "V n v" "list_all2 (\<lambda>P. P) (map V ns) vs'"
    by (auto simp: list_all2_Cons1)
  with Cons.prems(3) obtain x y where b: "w n v (d + 1) m = Ok x" "fields_wire (map w ns) vs' d m = Ok y" "b = x @ y"
    by (auto simp: wire_seq_Ok wire_nest_Ok)
  have "k n \<le> length x" using Cons.prems(1) vs(2) b(1) by simp
  moreover have "sum_list (map k ns) \<le> length y"
    by (rule Cons.IH [OF _ vs(3) b(2)]) (simp add: Cons.prems(1))
  ultimately show ?case by (simp add: b(3))
qed simp

lemma length_wire_len: "wire_seq (wire_len n) w d m = Ok b \<Longrightarrow> 1 \<le> length b"
  by (auto simp: wire_seq_Ok wire_len_Ok Suc_le_eq)

lemma node_wide: "node_valid chk n v \<Longrightarrow> node_wire n v d m = Ok b \<Longrightarrow> min_encoded_len n \<le> length b"
proof (induction n arbitrary: v d m b rule: node_induct)
  case (Leaf n)
  then show ?case by (auto simp: bool_wire_def word_wire_def split: ShapeValue.splits)
next
  case (Tuple ns)
  then obtain vs where vs: "v = VTuple vs" by (auto split: ShapeValue.splits)
  have "sum_list (map min_encoded_len ns) \<le> length b"
    using Tuple vs by (intro fields_length [of ns "node_valid chk" node_wire min_encoded_len vs d m]) auto
  then show ?case using foldl_usize_add_le [of 0 "map min_encoded_len ns"] by simp
next
  case (Struct ms)
  then obtain vs where vs: "v = VStruct vs" by (auto split: ShapeValue.splits)
  have "sum_list (map min_encoded_len (map snd ms)) \<le> length b"
    using Struct vs unfolding node_valid.simps node_wire.simps members_map
    by (intro fields_length [of "map snd ms" "node_valid chk" node_wire min_encoded_len "map snd vs" d m]) auto
  then show ?case
    using foldl_usize_add_le [of 0 "map min_encoded_len (map snd ms)"]
    unfolding min_encoded_len.simps members_map by simp
next
  case (Enum vs)
  then obtain name tag c n where c: "v = VVariant name tag c" "variant_at tag vs = Some (name, n)" "node_valid chk n c"
    by (auto split: ShapeValue.splits option.splits)
  with Enum.prems obtain x where x: "node_wire n c d m = Ok x" "length b = Suc (length x)"
    by (auto simp: wire_seq_Ok)
  have mem: "(name, tag, n) \<in> set vs" using variant_at_mem [OF c(2)] .
  have "foldl (\<lambda>l v. if snd (snd v) < l then snd (snd v) else l) USIZE_MAX
      (map (map_prod id (map_prod id min_encoded_len)) vs) \<le> min_encoded_len n"
    using foldl_lightest_le [of "\<lambda>v. snd (snd v)" USIZE_MAX "map (map_prod id (map_prod id min_encoded_len)) vs"] mem
    by force
  also have "\<dots> \<le> length x" by (rule Enum.IH [OF mem c(3) x(1)])
  finally show ?case using mem by (auto simp: Let_def usize_add_def x(2))
qed (auto simp: string_wire_def vec_wire_def option_wire_def wire_seq_Ok wire_len_Ok Suc_le_eq
       split: ShapeValue.splits option.splits)

lemma body_ascending:
  assumes "reads A w valid"
  shows "reads (dec_descend (ascending_loop n le A [])) (\<lambda>xs. wire_nest (wire_each w xs))
    (\<lambda>xs. length xs = n \<and> list_all valid xs \<and> ascending le xs)"
proof -
  have "ascending le []" by (simp add: ascending_def)
  from reads_descend [OF reads_ascending [OF assms this]] show ?thesis by (rule reads_weaken) auto
qed

lemma reads_collection:
  assumes "reads A w valid" "\<And>v d m b. valid v \<Longrightarrow> w v d m = Ok b \<Longrightarrow> k \<le> length b" "0 < k"
  shows "reads (op_then (read_len_check k cap) (\<lambda>len. dec_descend (ascending_loop len le A [])))
    (vec_wire w) (\<lambda>xs. list_all valid xs \<and> ascending le xs \<and> length xs \<le> cap)"
  by (rule reads_weaken [OF reads_capped [OF body_ascending [OF assms(1)], where p = length and k = k]])
     (use body_vec(2) [OF assms(1,2)] assms(3) in \<open>auto simp: vec_wire_def\<close>)

lemma opt_sum_Some:
  "opt_sum xs = Some s \<longleftrightarrow> (\<exists>ys. xs = map Some ys \<and> s = foldl usize_add 0 ys)"
proof -
  have none: "foldl (\<lambda>sum x. case sum of None \<Rightarrow> None | Some s \<Rightarrow> map_option (usize_add s) x) None xs = None" for xs
    by (induction xs) auto
  have "foldl (\<lambda>sum x. case sum of None \<Rightarrow> None | Some s \<Rightarrow> map_option (usize_add s) x) (Some a) xs = Some s
      \<longleftrightarrow> (\<exists>ys. xs = map Some ys \<and> s = foldl usize_add a ys)" for a
  proof (induction xs arbitrary: a)
    case (Cons x xs)
    then show ?case by (cases x) (auto simp: none Cons_eq_map_conv)
  qed auto
  then show ?thesis by (simp add: opt_sum_def)
qed

lemma opt_widest_Some:
  "opt_widest xs = Some s \<Longrightarrow> \<forall>x \<in> set xs. \<exists>y. x = Some y \<and> y \<le> s"
proof -
  let ?f = "\<lambda>widest x. case widest of None \<Rightarrow> None | Some w \<Rightarrow> map_option (\<lambda>most. if most > w then most else w) x"
  have none: "foldl ?f None xs = None" for xs :: "nat option list" by (induction xs) auto
  have "foldl ?f (Some a) xs = Some s \<Longrightarrow> a \<le> s \<and> (\<forall>x \<in> set xs. \<exists>y. x = Some y \<and> y \<le> s)" for a
  proof (induction xs arbitrary: a)
    case (Cons x xs)
    show ?case
    proof (cases x)
      case (Some y)
      with Cons.prems Cons.IH [of "if y > a then y else a"] show ?thesis by (auto split: if_splits)
    qed (use Cons.prems none in auto)
  qed simp
  then show "opt_widest xs = Some s \<Longrightarrow> \<forall>x \<in> set xs. \<exists>y. x = Some y \<and> y \<le> s" by (auto simp: opt_widest_def)
qed

lemma opt_sum_mem: "opt_sum xs = Some s \<Longrightarrow> None \<notin> set xs"
  by (auto simp: opt_sum_Some)

lemma max_encoded_len_members:
  "max_encoded_len (NTuple ns) = Some most \<Longrightarrow> n \<in> set ns \<Longrightarrow> max_encoded_len n \<noteq> None"
  "max_encoded_len (NStruct ms) = Some most \<Longrightarrow> n \<in> snd ` set ms \<Longrightarrow> max_encoded_len n \<noteq> None"
  "max_encoded_len (NEnum vs) = Some most \<Longrightarrow> (name, tag, n) \<in> set vs \<Longrightarrow> max_encoded_len n \<noteq> None"
proof -
  show "max_encoded_len (NTuple ns) = Some most \<Longrightarrow> n \<in> set ns \<Longrightarrow> max_encoded_len n \<noteq> None"
    by (force dest: opt_sum_mem)
  show "max_encoded_len (NStruct ms) = Some most \<Longrightarrow> n \<in> snd ` set ms \<Longrightarrow> max_encoded_len n \<noteq> None"
    unfolding max_encoded_len.simps members_map by (force dest: opt_sum_mem)
  assume "max_encoded_len (NEnum vs) = Some most" "(name, tag, n) \<in> set vs"
  then show "max_encoded_len n \<noteq> None"
    by (force dest!: opt_widest_Some)
qed

lemma zip_names: "length names = length vs \<Longrightarrow> vs = zip names (map snd vs) \<longleftrightarrow> map fst vs = names"
  by (metis length_map map_fst_zip zip_map_fst_snd)

lemma reads_node:
  "max_encoded_len n = Some most \<Longrightarrow>
   reads (node_decode le n) (node_wire n) (node_valid (\<lambda>n. ascending (le n)) n)"
proof (induction n arbitrary: most rule: node_induct)
  case (Leaf n)
  show ?case
    by (insert Leaf, elim insertE emptyE)
       (auto intro!: reads_con [OF reads_bool] reads_con [OF reads_word] simp: node_valid_iff simp del: node_valid.simps)
next
  case (Text cap)
  show ?case
    by (auto intro!: reads_con [OF hbor.dec_reads [OF hbor_capped_string]] simp: node_valid_iff simp del: node_valid.simps)
next
  case (ByteArray k)
  show ?case by (auto intro!: reads_con [OF reads_array] simp: node_valid_iff simp del: node_valid.simps)
next
  case (Seq cap n)
  then obtain m where "max_encoded_len n = Some m" "0 < min_encoded_len n" by (auto split: if_splits)
  then have "hbor (min_encoded_len n) (node_encode vec_sink n) (node_decode le n) (node_wire n)
      (node_valid (\<lambda>n. ascending (le n)) n)"
    by (intro hbor.intro vs.emits_node Seq.IH [of m]) (auto intro: node_wide)
  from hbor.dec_reads [OF hbor.capped_vec_codec [OF this]] \<open>0 < min_encoded_len n\<close> show ?case
    by (auto intro!: reads_con simp: node_valid_iff simp del: node_valid.simps)
next
  case (Set cap n)
  then obtain m where "max_encoded_len n = Some m" "0 < min_encoded_len n" by (auto split: if_splits)
  then show ?case
    by (auto intro!: reads_con [OF reads_collection [OF Set.IH node_wide]] simp: node_valid_iff simp del: node_valid.simps)
next
  case (Map cap k n)
  then obtain m m' where m: "max_encoded_len k = Some m" "max_encoded_len n = Some m'"
    "0 < min_encoded_len k + min_encoded_len n"
    by (auto simp: usize_add_def split: if_splits option.splits)
  let ?ok = "node_valid (\<lambda>n. ascending (le n))"
  have entry: "reads (entry_decode (node_decode le k) (node_decode le n)) (entry_wire (node_wire k) (node_wire n))
      (\<lambda>e. ?ok k (fst e) \<and> ?ok n (snd e))"
    unfolding entry_decode_def by (rule reads_entry [OF Map.IH(1) [OF m(1)] Map.IH(2) [OF m(2)]])
  have wide: "min_encoded_len k + min_encoded_len n \<le> length b"
    if "?ok k (fst e) \<and> ?ok n (snd e)" "entry_wire (node_wire k) (node_wire n) e d m = Ok b" for e d m b
    using that by (fastforce simp: entry_wire_def wire_seq_Ok intro: add_mono node_wide)
  have asc: "ascending (\<lambda>a b. le k (fst a) (fst b)) es = ascending (le k) (map fst es)" for es :: "(ShapeValue \<times> ShapeValue) list"
    by (simp add: ascending_def successively_map)
  show ?case unfolding node_decode.simps
    by (rule reads_con [OF reads_collection [OF entry wide m(3)]]) (auto simp: asc simp: node_valid_iff simp del: node_valid.simps)
next
  case (Option n)
  then obtain m where "max_encoded_len n = Some m" by auto
  then show ?case by (auto intro!: reads_con [OF reads_option [OF Option.IH]] simp: node_valid_iff simp del: node_valid.simps)
next
  case (Tuple ns)
  then have "reads (node_decode le n) (node_wire n) (node_valid (\<lambda>n. ascending (le n)) n)" if "n \<in> set ns" for n
    using max_encoded_len_members(1) [OF Tuple.prems that] Tuple.IH [OF that] by auto
  then have "reads (decode_fields (map (node_decode le) ns)) (fields_wire (map node_wire ns))
      (\<lambda>vs. list_all2 (\<lambda>P. P) (map (node_valid (\<lambda>n. ascending (le n))) ns) vs)"
    by (rule reads_fields)
  then show ?case unfolding node_decode.simps
    by (rule reads_con) (auto simp: node_valid_iff simp del: node_valid.simps)
next
  case (Struct ms)
  then have "reads (node_decode le n) (node_wire n) (node_valid (\<lambda>n. ascending (le n)) n)" if "n \<in> set (map snd ms)" for n
    using max_encoded_len_members(2) [OF Struct.prems, of n] that by fastforce
  then have members: "reads (decode_fields (map (node_decode le) (map snd ms))) (fields_wire (map node_wire (map snd ms)))
      (\<lambda>vs. list_all2 (\<lambda>P. P) (map (node_valid (\<lambda>n. ascending (le n))) (map snd ms)) vs)"
    by (rule reads_fields)
  show ?case
    unfolding node_decode.simps node_wire.simps members_map
    by (rule reads_weaken [OF reads_map [OF members, where g = "\<lambda>v. case v of VStruct vs \<Rightarrow> map snd vs | _ \<Rightarrow> []"]])
       (auto simp: node_valid_iff zip_names simp del: node_valid.simps dest: list_all2_lengthD
         split: ShapeValue.splits)
next
  case (Enum vs)
  let ?ok = "node_valid (\<lambda>n. ascending (le n))"
  let ?w = "\<lambda>tag c. case c of VVariant _ _ x \<Rightarrow>
    (case variant_at tag vs of Some (_, n) \<Rightarrow> node_wire n x | None \<Rightarrow> wire_lit []) | _ \<Rightarrow> wire_lit []"
  let ?valid = "\<lambda>tag c. \<exists>name n x. c = VVariant name tag x \<and> variant_at tag vs = Some (name, n) \<and> ?ok n x"
  have content: "reads (case variant_at tag (map (map_prod id (map_prod id (node_decode le))) vs) of
      None \<Rightarrow> op_err (InvalidDiscriminant tag) | Some (name, dec) \<Rightarrow> op_map (VVariant name tag) dec)
      (?w tag) (?valid tag)" for tag
  proof (cases "variant_at tag vs")
    case (Some at)
    obtain name n where at: "at = (name, n)" by (cases at)
    have "reads (node_decode le n) (node_wire n) (?ok n)"
      using max_encoded_len_members(3) [OF Enum.prems variant_at_mem] Enum.IH [OF variant_at_mem] Some at by fastforce
    then have "reads (op_map (VVariant name tag) (node_decode le n)) (?w tag) (?valid tag)"
      by (rule reads_con) (use Some at in auto)
    moreover have "(case variant_at tag (map (map_prod id (map_prod id (node_decode le))) vs) of
        None \<Rightarrow> op_err (InvalidDiscriminant tag) | Some (name, dec) \<Rightarrow> op_map (VVariant name tag) dec)
      = op_map (VVariant name tag) (node_decode le n)" using Some at by simp
    ultimately show ?thesis by (simp only:)
  qed (auto intro: reads_weaken [OF reads_err])
  show ?case unfolding node_decode.simps
    by (rule reads_weaken [OF reads_then [OF reads_u8 content,
            where p = "\<lambda>c. case c of VVariant _ tag _ \<Rightarrow> tag | _ \<Rightarrow> 0"]])
       (auto simp: node_valid_iff simp del: node_valid.simps split: ShapeValue.splits)
next
  case (Named name n)
  then show ?case by simp
qed

lemma hbor_node:
  assumes "max_encoded_len n = Some most"
  shows "hbor (min_encoded_len n) (node_encode vec_sink n) (node_decode le n) (node_wire n)
    (node_valid (\<lambda>n. ascending (le n)) n)"
  by (rule hbor.intro [OF vs.emits_node reads_node [OF assms] node_wide])


subsection \<open>The folded bounds\<close>

lemma length_leb_mono: "a \<le> b \<Longrightarrow> length (leb a) \<le> length (leb b)"
proof (induction b arbitrary: a rule: leb.induct)
  case (1 b)
  show ?case
  proof (cases "a < 128")
    case True
    then show ?thesis using leb_nonempty(1) [of b] by (simp add: leb_small Suc_le_eq)
  next
    case False
    then have "length (leb (a div 128)) \<le> length (leb (b div 128))"
      using 1 by (intro 1(1)) (simp_all add: div_le_mono)
    with False 1(2) show ?thesis by (simp add: leb_big)
  qed
qed

lemma sat_add: "min x USIZE_MAX \<le> a \<Longrightarrow> min y USIZE_MAX \<le> b \<Longrightarrow> min (x + y) USIZE_MAX \<le> usize_add a b"
  by (auto simp: usize_add_def min_def split: if_splits)

lemma sat_mul:
  "n \<le> cap \<Longrightarrow> (\<And>x. x \<in> set xs \<Longrightarrow> min x USIZE_MAX \<le> most) \<Longrightarrow> length xs = n \<Longrightarrow>
   min (sum_list xs) USIZE_MAX \<le> usize_mul cap most"
proof (cases "most < USIZE_MAX")
  case True
  assume "n \<le> cap" "\<And>x. x \<in> set xs \<Longrightarrow> min x USIZE_MAX \<le> most" "length xs = n"
  then have "x \<le> most" if "x \<in> set xs" for x using True that by (force simp: min_def split: if_splits)
  then have "sum_list xs \<le> length xs * most" using sum_list_mono [of xs "\<lambda>x. x" "\<lambda>_. most"]
    by (simp add: sum_list_triv)
  also have "\<dots> \<le> cap * most" using \<open>n \<le> cap\<close> \<open>length xs = n\<close> by simp
  finally show ?thesis by (auto simp: usize_mul_def)
next
  case False
  assume "n \<le> cap" "length xs = n"
  show ?thesis
  proof (cases "cap = 0")
    case False
    then have "USIZE_MAX \<le> cap * most" using \<open>\<not> most < USIZE_MAX\<close>
      by (metis mult_le_mono Suc_leI mult_1 neq0_conv not_less One_nat_def)
    then show ?thesis by (simp add: usize_mul_def)
  qed (use \<open>n \<le> cap\<close> \<open>length xs = n\<close> in simp)
qed

lemma sat_sum: "list_all2 (\<lambda>x k. min x USIZE_MAX \<le> k) xs ks \<Longrightarrow> min a USIZE_MAX \<le> c \<Longrightarrow>
    min (a + sum_list xs) USIZE_MAX \<le> foldl usize_add c ks"
proof (induction xs ks arbitrary: a c rule: list_all2_induct)
  case (Cons x xs k ks)
  have "min (a + x + sum_list xs) USIZE_MAX \<le> foldl usize_add (usize_add c k) ks"
    by (rule Cons.IH) (intro sat_add Cons)
  then show ?case by (simp add: add.assoc)
qed simp

lemma wire_each_chunks:
  "wire_each w xs d m = Ok b \<Longrightarrow> \<exists>cs. length cs = length xs \<and> b = concat cs \<and>
     (\<forall>i < length xs. w (xs ! i) d m = Ok (cs ! i))"
proof (induction xs arbitrary: b)
  case (Cons x xs)
  then obtain p q where "w x d m = Ok p" "wire_each w xs d m = Ok q" "b = p @ q" by (auto simp: wire_seq_Ok)
  with Cons.IH [OF this(2)] obtain cs where "length cs = length xs" "q = concat cs"
    "\<forall>i < length xs. w (xs ! i) d m = Ok (cs ! i)" by auto
  with \<open>w x d m = Ok p\<close> \<open>b = p @ q\<close> show ?case by (intro exI [of _ "p # cs"]) (auto simp: nth_Cons')
qed simp

lemma vec_wire_most:
  assumes "vec_wire w xs d m = Ok b" "length xs \<le> cap"
    and "\<And>x d m c. x \<in> set xs \<Longrightarrow> w x d m = Ok c \<Longrightarrow> min (length c) USIZE_MAX \<le> most"
  shows "min (length b) USIZE_MAX \<le> usize_add (encoded_len cap) (usize_mul cap most)"
proof -
  from assms(1) obtain c where c: "wire_each w xs (d + 1) m = Ok c" "b = leb (length xs) @ c"
    by (auto simp: vec_wire_def wire_seq_Ok wire_len_Ok wire_nest_Ok)
  from wire_each_chunks [OF c(1)] obtain cs where cs: "length cs = length xs" "c = concat cs"
    "\<forall>i < length xs. w (xs ! i) (d + 1) m = Ok (cs ! i)" by auto
  have "min (sum_list (map length cs)) USIZE_MAX \<le> usize_mul cap most"
    by (rule sat_mul [OF assms(2)]) (use cs assms(3) in \<open>force simp: in_set_conv_nth\<close>)+
  moreover have "min (length (leb (length xs))) USIZE_MAX \<le> encoded_len cap"
    using length_leb_mono [OF assms(2)] by (simp add: encoded_len_leb min.coboundedI1)
  ultimately show ?thesis using sat_add by (simp add: c(2) cs(2) length_concat)
qed

lemma fields_wire_chunks:
  "list_all2 (\<lambda>P. P) (map V ns) vs \<Longrightarrow> fields_wire (map w ns) vs d m = Ok b \<Longrightarrow>
   \<exists>cs. b = concat cs \<and> list_all2 (\<lambda>n c. \<exists>v. V n v \<and> w n v (d + 1) m = Ok c) ns cs"
proof (induction ns arbitrary: vs b)
  case (Cons n ns)
  from Cons.prems(1) obtain v vs' where vs: "vs = v # vs'" "V n v" "list_all2 (\<lambda>P. P) (map V ns) vs'"
    by (auto simp: list_all2_Cons1)
  with Cons.prems(2) obtain x y where b: "w n v (d + 1) m = Ok x" "fields_wire (map w ns) vs' d m = Ok y" "b = x @ y"
    by (auto simp: wire_seq_Ok wire_nest_Ok)
  with Cons.IH [OF vs(3) b(2)] obtain cs where "y = concat cs"
    "list_all2 (\<lambda>n c. \<exists>v. V n v \<and> w n v (d + 1) m = Ok c) ns cs" by auto
  with vs b show ?case by (intro exI [of _ "x # cs"]) auto
qed simp

lemma fields_most:
  assumes "list_all2 (\<lambda>P. P) (map V ns) vs" "fields_wire (map w ns) vs d m = Ok b" "map k ns = map Some ys"
    and "\<And>n v d m c y. n \<in> set ns \<Longrightarrow> V n v \<Longrightarrow> w n v d m = Ok c \<Longrightarrow> k n = Some y \<Longrightarrow> min (length c) USIZE_MAX \<le> y"
  shows "min (length b) USIZE_MAX \<le> foldl usize_add 0 ys"
proof -
  from fields_wire_chunks [OF assms(1,2)] obtain cs where cs: "b = concat cs"
    "list_all2 (\<lambda>n c. \<exists>v. V n v \<and> w n v (d + 1) m = Ok c) ns cs" by auto
  have len: "length ys = length ns" using assms(3) by (metis length_map)
  have "list_all2 (\<lambda>x y. min x USIZE_MAX \<le> y) (map length cs) ys"
  proof (rule list_all2_all_nthI)
    show "length (map length cs) = length ys" using cs(2) len by (simp add: list_all2_lengthD)
    fix i assume "i < length (map length cs)"
    then have i: "i < length ns" "i < length cs" using cs(2) by (simp_all add: list_all2_lengthD)
    then have "k (ns ! i) = Some (ys ! i)" using assms(3) len by (metis nth_map)
    with list_all2_nthD [OF cs(2) i(1)] show "min (map length cs ! i) USIZE_MAX \<le> ys ! i"
      using assms(4) [OF nth_mem [OF i(1)]] i by auto
  qed
  from sat_sum [OF this, of 0 0] show ?thesis by (simp add: cs(1) length_concat)
qed

lemma node_most:
  "node_valid chk n v \<Longrightarrow> node_wire n v d m = Ok b \<Longrightarrow> max_encoded_len n = Some most \<Longrightarrow>
   min (length b) USIZE_MAX \<le> most"
proof (induction n arbitrary: v d m b most rule: node_induct)
  case (Leaf n)
  then show ?case by (auto simp: bool_wire_def word_wire_def split: ShapeValue.splits)
next
  case (Text cap)
  then obtain bs where bs: "v = VText bs" "length bs \<le> cap" "b = leb (length bs) @ bs"
    by (auto simp: string_wire_def wire_seq_Ok wire_len_Ok split: ShapeValue.splits)
  have "min (length (leb (length bs))) USIZE_MAX \<le> encoded_len cap"
    using length_leb_mono [OF bs(2)] by (simp add: encoded_len_leb min.coboundedI1)
  moreover have "min (length bs) USIZE_MAX \<le> cap" using bs(2) by simp
  ultimately show ?case using Text.prems(3) sat_add bs(3) by auto
next
  case (Seq cap n)
  then obtain xs y where xs: "v = VSeq xs" "list_all (node_valid chk n) xs" "length xs \<le> cap"
    "max_encoded_len n = Some y" "most = usize_add (encoded_len cap) (usize_mul cap y)"
    by (auto split: ShapeValue.splits if_splits)
  then show ?case using Seq.prems(2) Seq.IH
    by (auto intro!: vec_wire_most simp: list_all_iff)
next
  case (Set cap n)
  then obtain xs y where xs: "v = VSet xs" "list_all (node_valid chk n) xs" "length xs \<le> cap"
    "max_encoded_len n = Some y" "most = usize_add (encoded_len cap) (usize_mul cap y)"
    by (auto split: ShapeValue.splits if_splits)
  then show ?case using Set.prems(2) Set.IH
    by (auto intro!: vec_wire_most simp: list_all_iff)
next
  case (Map cap k n)
  then obtain es y z where es: "v = VMap es" "list_all (\<lambda>e. node_valid chk k (fst e) \<and> node_valid chk n (snd e)) es"
    "length es \<le> cap" "max_encoded_len k = Some y" "max_encoded_len n = Some z"
    "most = usize_add (encoded_len cap) (usize_mul cap (usize_add y z))"
    by (auto split: ShapeValue.splits if_splits option.splits)
  have "min (length c) USIZE_MAX \<le> usize_add y z"
    if "e \<in> set es" "entry_wire (node_wire k) (node_wire n) e d m = Ok c" for e d m c
  proof -
    from that(2) obtain p q where "node_wire k (fst e) d m = Ok p" "node_wire n (snd e) d m = Ok q" "c = p @ q"
      by (auto simp: entry_wire_def wire_seq_Ok)
    with Map.IH es that(1) show ?thesis by (auto simp: list_all_iff intro!: sat_add)
  qed
  then show ?case using Map.prems(2) es by (auto intro!: vec_wire_most)
next
  case (Option n)
  then obtain x y where x: "v = VOption x" "pred_option (node_valid chk n) x" "max_encoded_len n = Some y"
    "most = usize_add y 1" by (auto split: ShapeValue.splits)
  show ?case
  proof (cases x)
    case None
    with x Option.prems(2) show ?thesis by (auto simp: option_wire_def usize_add_def)
  next
    case (Some u)
    with x Option.prems(2) obtain c where "node_wire n u (d + 1) m = Ok c" "b = 1 # c"
      by (auto simp: option_wire_def wire_seq_Ok wire_nest_Ok)
    with Option.IH [of u "d + 1" m c y] x Some sat_add [of "length c" y 1 1] show ?thesis by auto
  qed
next
  case (Tuple ns)
  then obtain vs ys where "v = VTuple vs" "list_all2 (\<lambda>P. P) (map (node_valid chk) ns) vs"
    "map max_encoded_len ns = map Some ys" "most = foldl usize_add 0 ys"
    by (auto simp: opt_sum_Some split: ShapeValue.splits)
  then show ?case using Tuple fields_most [of "node_valid chk" ns vs node_wire d m b max_encoded_len ys]
    by auto
next
  case (Struct ms)
  then obtain vs ys where "v = VStruct vs" "list_all2 (\<lambda>P. P) (map (node_valid chk) (map snd ms)) (map snd vs)"
    "map max_encoded_len (map snd ms) = map Some ys" "most = foldl usize_add 0 ys"
    unfolding node_valid.simps max_encoded_len.simps members_map
    by (auto simp: opt_sum_Some split: ShapeValue.splits)
  then show ?case
    using Struct fields_most [of "node_valid chk" "map snd ms" "map snd vs" node_wire d m b max_encoded_len ys]
    unfolding node_wire.simps members_map by fastforce
next
  case (Enum vs)
  then obtain name tag c n w where c: "v = VVariant name tag c" "variant_at tag vs = Some (name, n)" "node_valid chk n c"
    "opt_widest (map (snd \<circ> snd) (map (map_prod id (map_prod id max_encoded_len)) vs)) = Some w" "most = usize_add w 1"
    by (auto split: ShapeValue.splits option.splits)
  with Enum.prems obtain x where x: "node_wire n c d m = Ok x" "b = tag # x" by (auto simp: wire_seq_Ok)
  from opt_widest_Some [OF c(4)] variant_at_mem [OF c(2)]
  obtain y where "max_encoded_len n = Some y" "y \<le> w" by force
  with Enum.IH [OF variant_at_mem [OF c(2)] c(3) x(1)] x(2) sat_add [of "length x" w 1 1] c(5) show ?case by auto
qed (auto split: ShapeValue.splits)

text \<open>A cap is held at compile time to a length the wire can carry.\<close>

primrec node_expressible :: "ShapeNode \<Rightarrow> bool" where
  "node_expressible NBool = True"
| "node_expressible NU8 = True"
| "node_expressible NU16 = True"
| "node_expressible NU32 = True"
| "node_expressible NU64 = True"
| "node_expressible NU128 = True"
| "node_expressible NI8 = True"
| "node_expressible NI16 = True"
| "node_expressible NI32 = True"
| "node_expressible NI64 = True"
| "node_expressible NI128 = True"
| "node_expressible (NText cap) = (cap \<le> MAX_LENGTH)"
| "node_expressible (NByteArray width) = True"
| "node_expressible (NSeq cap element) = (cap \<le> MAX_LENGTH \<and> node_expressible element)"
| "node_expressible (NSet cap element) = (cap \<le> MAX_LENGTH \<and> node_expressible element)"
| "node_expressible (NMap cap key val) = (cap \<le> MAX_LENGTH \<and> node_expressible key \<and> node_expressible val)"
| "node_expressible (NOption held) = node_expressible held"
| "node_expressible (NTuple elements) = list_all id (map node_expressible elements)"
| "node_expressible (NStruct members) = list_all id (map snd (map (map_prod id node_expressible) members))"
| "node_expressible (NEnum variants) =
    list_all (\<lambda>v. snd (snd v)) (map (map_prod id (map_prod id node_expressible)) variants)"
| "node_expressible (NNamed name shape) = node_expressible shape"

lemma deepest_of_ge: "x \<in> set xs \<Longrightarrow> x \<le> deepest_of xs"
proof -
  have "a \<le> foldl (\<lambda>deepest depth. if depth > deepest then depth else deepest) a xs \<and>
    (\<forall>x \<in> set xs. x \<le> foldl (\<lambda>deepest depth. if depth > deepest then depth else deepest) a xs)" for a :: nat
  proof (induction xs arbitrary: a)
    case (Cons x xs)
    show ?case using Cons [of "if x > a then x else a"] by (auto split: if_splits)
  qed simp
  then show "x \<in> set xs \<Longrightarrow> x \<le> deepest_of xs" by (simp add: deepest_of_def)
qed

lemma wire_seq_total: "\<exists>x. u d m = Ok x \<Longrightarrow> \<exists>y. w d m = Ok y \<Longrightarrow> \<exists>b. wire_seq u w d m = Ok b"
  by (auto simp: wire_seq_Ok)

lemma wire_each_total: "(\<And>x. x \<in> set xs \<Longrightarrow> \<exists>b. w x d m = Ok b) \<Longrightarrow> \<exists>b. wire_each w xs d m = Ok b"
proof (induction xs)
  case (Cons x xs)
  then show ?case unfolding wire_each.simps by (intro wire_seq_total) auto
qed simp

lemma vec_wire_total:
  "length xs \<le> MAX_LENGTH \<Longrightarrow> d < m \<Longrightarrow> (\<And>x. x \<in> set xs \<Longrightarrow> \<exists>b. w x (d + 1) m = Ok b) \<Longrightarrow>
   \<exists>b. vec_wire w xs d m = Ok b"
  unfolding vec_wire_def
  by (intro wire_seq_total) (auto simp: wire_len_Ok wire_nest_Ok intro: wire_each_total [of xs w "Suc d" m])

lemma fields_wire_total:
  "(\<And>n v. n \<in> set ns \<Longrightarrow> V n v \<Longrightarrow> \<exists>b. w n v (d + 1) m = Ok b) \<Longrightarrow> list_all2 (\<lambda>P. P) (map V ns) vs \<Longrightarrow>
   ns = [] \<or> d < m \<Longrightarrow> \<exists>b. fields_wire (map w ns) vs d m = Ok b"
proof (induction ns arbitrary: vs)
  case (Cons n ns)
  from Cons.prems(2) obtain v vs' where vs: "vs = v # vs'" "V n v" "list_all2 (\<lambda>P. P) (map V ns) vs'"
    by (auto simp: list_all2_Cons1)
  have "\<exists>b. wire_nest (w n v) d m = Ok b" using Cons.prems(1,3) vs(2) by (simp add: wire_nest_Ok)
  moreover have "\<exists>b. fields_wire (map w ns) vs' d m = Ok b"
    by (rule Cons.IH) (use Cons.prems(1,3) vs(3) in auto)
  ultimately show ?case unfolding vs(1) list.map fields_wire.simps by (rule wire_seq_total)
qed simp

lemma node_total:
  "node_valid chk n v \<Longrightarrow> node_expressible n \<Longrightarrow> d + max_depth n \<le> m \<Longrightarrow> \<exists>b. node_wire n v d m = Ok b"
proof (induction n arbitrary: v d rule: node_induct)
  case (Leaf n)
  then show ?case by (auto simp: bool_wire_def word_wire_def split: ShapeValue.splits)
next
  case (Text cap)
  then show ?case
    by (auto simp: string_wire_def wire_len_Ok split: ShapeValue.splits intro!: wire_seq_total)
next
  case (Seq cap n)
  then show ?case by (auto simp: list_all_iff split: ShapeValue.splits intro!: vec_wire_total)
next
  case (Set cap n)
  then show ?case by (auto simp: list_all_iff split: ShapeValue.splits intro!: vec_wire_total)
next
  case (Map cap k n)
  then obtain es where es: "v = VMap es" "length es \<le> cap"
    "list_all (\<lambda>e. node_valid chk k (fst e) \<and> node_valid chk n (snd e)) es" by (auto split: ShapeValue.splits)
  have "\<exists>b. entry_wire (node_wire k) (node_wire n) e (d + 1) m = Ok b" if "e \<in> set es" for e
    unfolding entry_wire_def
    by (intro wire_seq_total Map.IH) (use es(3) that Map.prems(2,3) in \<open>auto simp: list_all_iff split: if_splits\<close>)
  then show ?case using es Map.prems(2,3) by (auto split: if_splits intro!: vec_wire_total)
next
  case (Option n)
  then show ?case
    by (auto simp: option_wire_def wire_nest_Ok split: ShapeValue.splits option.splits intro!: wire_seq_total)
next
  case (Tuple ns)
  then obtain vs where vs: "v = VTuple vs" "list_all2 (\<lambda>P. P) (map (node_valid chk) ns) vs"
    by (auto split: ShapeValue.splits)
  have "\<exists>b. node_wire n x (d + 1) m = Ok b" if "n \<in> set ns" "node_valid chk n x" for n x
    using deepest_of_ge [of "max_depth n" "map max_depth ns"] that Tuple.prems(2,3)
    by (intro Tuple.IH) (auto simp: list_all_iff split: if_splits)
  from fields_wire_total [of ns "node_valid chk" node_wire d m vs, OF this vs(2)] vs(1) Tuple.prems(3)
  show ?case by (auto split: if_splits)
next
  case (Struct ms)
  then obtain vs where vs: "v = VStruct vs" "list_all2 (\<lambda>P. P) (map (node_valid chk) (map snd ms)) (map snd vs)"
    unfolding node_valid.simps members_map by (auto split: ShapeValue.splits)
  have "\<exists>b. node_wire n x (d + 1) m = Ok b" if "n \<in> set (map snd ms)" "node_valid chk n x" for n x
  proof -
    have "max_depth n \<le> deepest_of (map max_depth (map snd ms))" using that(1) by (intro deepest_of_ge) auto
    then show ?thesis
      using that Struct.prems(2,3) unfolding node_expressible.simps max_depth.simps members_map
      by (auto simp: list_all_iff split: if_splits intro!: Struct.IH)
  qed
  from fields_wire_total [of "map snd ms" "node_valid chk" node_wire d m "map snd vs", OF this vs(2)] vs(1) Struct.prems(3)
  show ?case unfolding node_wire.simps members_map by (auto split: if_splits)
next
  case (Enum vs)
  then obtain name tag c n where c: "v = VVariant name tag c" "variant_at tag vs = Some (name, n)" "node_valid chk n c"
    by (auto split: ShapeValue.splits option.splits)
  note mem = variant_at_mem [OF c(2)]
  have "max_depth n \<le> max_depth (NEnum vs)"
    unfolding max_depth.simps by (rule deepest_of_ge) (use mem in force)
  moreover have "node_expressible n" using Enum.prems(2) mem by (force simp: list_all_iff)
  ultimately have "\<exists>b. node_wire n c d m = Ok b" using Enum.IH [OF mem c(3)] Enum.prems(3) by auto
  with c show ?case by (auto intro!: wire_seq_total)
qed (auto split: ShapeValue.splits)

lemma node_to_vec: "to_vec_with_depth (node_encode vec_sink n) v m = node_wire n v 0 m"
  by (rule to_vec_emits) (rule vs.emits_node)

interpretation nm: hbor 1 "name_encode vec_sink" name_decode string_wire is_name
  by (rule hbor_name)

text \<open>Evaluating a concrete node.\<close>

lemmas node_eval =
  encoded_len_leb leb_small usize_add_def usize_mul_def USIZE_MAX_def opt_sum_def opt_widest_def deepest_of_def
  node_to_vec option_wire_def vec_wire_def string_wire_def word_wire_def bool_wire_def wire_seq_def wire_nest_def
  wire_len_def wire_lit_def le_bytes_def ascending_def DEFAULT_MAX_DEPTH_def MAX_LENGTH_def


section \<open>Derived codecs\<close>





text \<open>C23 The constants folded off a type's shape bound every encoding of it. For a type whose caps the wire
  can express, nesting within the default cap, and whose widest bound has not
  saturated: every value encodes, the encoding is at least the folded minimum and at
  most the folded maximum, and encoding into a caller's buffer of that maximum
  succeeds with exactly the bytes the growing encoder writes.\<close>

theorem folded_bounds_hold:
  "max_encoded_len n = Some most \<Longrightarrow> most < USIZE_MAX \<Longrightarrow> node_expressible n \<Longrightarrow> max_depth n \<le> DEFAULT_MAX_DEPTH \<Longrightarrow>
   node_valid chk n v \<Longrightarrow> most \<le> length out \<Longrightarrow> length out \<le> USIZE_MAX \<Longrightarrow>
   \<exists>b. to_vec (node_encode vec_sink n) v = Ok b \<and> min_encoded_len n \<le> length b \<and> length b \<le> most \<and>
     to_slice_infallible (node_encode fixed_sink n) v out = b"
proof -
  assume a: "max_encoded_len n = Some most" "most < USIZE_MAX" "node_expressible n" "max_depth n \<le> DEFAULT_MAX_DEPTH"
    "node_valid chk n v" "most \<le> length out" "length out \<le> USIZE_MAX"
  from node_total [OF a(5,3), of 0] a(4) obtain b where b: "node_wire n v 0 DEFAULT_MAX_DEPTH = Ok b" by auto
  have most: "length b \<le> most" using node_most [OF a(5) b a(1)] a(2) by (auto simp: min_def split: if_splits)
  have "to_slice_infallible (node_encode fixed_sink n) v out = b"
    using to_slice_emits [of "node_encode fixed_sink n" "node_wire n" out v] fs.emits_node b most a(6,7) by simp
  with most b node_wide [OF a(5) b] show ?thesis by (simp add: to_vec_def node_to_vec)
qed

theorem folded_bounds_hold_witness:
  "\<exists>b. to_vec (node_encode vec_sink (NOption NU16)) (VOption (Some (VU16 5))) = Ok b \<and>
     min_encoded_len (NOption NU16) \<le> length b \<and> length b \<le> 3 \<and>
     to_slice_infallible (node_encode fixed_sink (NOption NU16)) (VOption (Some (VU16 5))) [0, 0, 0, 0] = b"
  by (rule folded_bounds_hold [of "NOption NU16" 3 "\<lambda>_ _. True"]) (simp_all add: node_eval)

end
