(* ===== verification/Cells.thy ===== *)
theory Cells
  imports Merkle Shape Writes
begin

text \<open>
  The kernel cell families of \<open>crates/effects/src/cells.rs\<close> and the keys that name them
  (\<open>crates/effects/src/types.rs\<close>): nullifier and committed markers, escrow records, their consumers' answers and fee
  holds, each with its key, its committed bytes and its reading, and the one classifier of crossing leaves.

  A cell's bytes are the derived encoding of its shape; reading them back decodes that shape and holds every
  address to its class, as the codecs of the address types do.
\<close>

section \<open>Keys\<close>

type_synonym SlotId = "16 word"
type_synonym IntentHash = hash32

definition be_bytes :: "'w::len word \<Rightarrow> bytes" where
  "be_bytes w = rev (le_bytes w)"

definition be_word :: "bytes \<Rightarrow> 'w::len word" where
  "be_word bs = le_word (rev bs)"

definition DOMAIN_CHILD :: bytes where "DOMAIN_CHILD = ascii ''hyperscale-vm/child-key''"

definition DOMAIN_COLLECTION :: bytes where "DOMAIN_COLLECTION = ascii ''hyperscale-vm/collection-id''"

definition DOMAIN_ORDER :: bytes where "DOMAIN_ORDER = ascii ''hyperscale-vm/order-key''"

definition slot_digest :: "Hasher \<Rightarrow> bytes \<Rightarrow> Address \<Rightarrow> SlotId \<Rightarrow> bytes list \<Rightarrow> u128" where
  "slot_digest h domain owner slot material =
    be_word (take 16 (hash_bytes (h domain (be_bytes owner # le_bytes slot # material))))"

definition child_key :: "Hasher \<Rightarrow> Address \<Rightarrow> SlotId \<Rightarrow> bytes list \<Rightarrow> SubstateKey" where
  "child_key h owner slot material = SubstateKey owner (slot_digest h DOMAIN_CHILD owner slot material)"

definition collection_id :: "Hasher \<Rightarrow> Address \<Rightarrow> SlotId \<Rightarrow> bytes list \<Rightarrow> CollectionId" where
  "collection_id h owner slot material = slot_digest h DOMAIN_COLLECTION owner slot material"

definition order_key :: "Hasher \<Rightarrow> Address \<Rightarrow> SlotId \<Rightarrow> bytes list \<Rightarrow> u128" where
  "order_key h owner slot material = slot_digest h DOMAIN_ORDER owner slot material"

definition SWEEP_BUCKET_SHIFT :: nat where "SWEEP_BUCKET_SHIFT = 16"

definition bucket_of :: "u64 \<Rightarrow> u32" where
  "bucket_of expiry_ms = (if unat (drop_bit SWEEP_BUCKET_SHIFT expiry_ms) < 2 ^ 32
     then ucast (drop_bit SWEEP_BUCKET_SHIFT expiry_ms) else - 1)"

definition claimed_by :: "LocalKey \<Rightarrow> u32" where
  "claimed_by local = be_word (take 4 (be_bytes local))"

definition bucketed_child_key :: "Hasher \<Rightarrow> Address \<Rightarrow> SlotId \<Rightarrow> u32 \<Rightarrow> bytes list \<Rightarrow> SubstateKey" where
  "bucketed_child_key h owner slot bucket material =
    (let key = child_key h owner slot material
     in SubstateKey (sk_owner key) (be_word (be_bytes bucket @ drop 4 (be_bytes (sk_local key)))))"

definition NULLIFIER_SLOT :: SlotId where "NULLIFIER_SLOT = 0xFFFF"
definition ESCROW_RECORD_SLOT :: SlotId where "ESCROW_RECORD_SLOT = 0xFFFD"
definition CROSSING_CLAIM_SLOT :: SlotId where "CROSSING_CLAIM_SLOT = 0xFFFB"
definition CROSSING_DECLINE_SLOT :: SlotId where "CROSSING_DECLINE_SLOT = 0xFFFA"
definition COMMITTED_TX_SLOT :: SlotId where "COMMITTED_TX_SLOT = 0xFFFC"
definition FEE_HOLD_SLOT :: SlotId where "FEE_HOLD_SLOT = 0xFFF6"
definition FEE_HOLD_TOTAL_SLOT :: SlotId where "FEE_HOLD_TOTAL_SLOT = 0xFFF5"

definition nullifier_key :: "Hasher \<Rightarrow> Address \<Rightarrow> IntentHash \<Rightarrow> u64 \<Rightarrow> SubstateKey" where
  "nullifier_key h account intent expiry_ms =
    bucketed_child_key h account NULLIFIER_SLOT (bucket_of expiry_ms) [be_bytes intent, le_bytes expiry_ms]"

definition committed_tx_key :: "Hasher \<Rightarrow> Address \<Rightarrow> TxHash \<Rightarrow> u64 \<Rightarrow> SubstateKey" where
  "committed_tx_key h owner tx expiry_ms =
    bucketed_child_key h owner COMMITTED_TX_SLOT (bucket_of expiry_ms) [be_bytes tx, le_bytes expiry_ms]"

definition answer_key :: "Hasher \<Rightarrow> Address \<Rightarrow> SlotId \<Rightarrow> IntentHash \<Rightarrow> u32 \<Rightarrow> u32 \<Rightarrow> SubstateKey" where
  "answer_key h owner slot intent local output =
    child_key h owner slot [be_bytes intent, le_bytes local, le_bytes output]"

definition escrow_record_key :: "Hasher \<Rightarrow> Address \<Rightarrow> IntentHash \<Rightarrow> u32 \<Rightarrow> u32 \<Rightarrow> SubstateKey" where
  "escrow_record_key h owner intent local output =
    child_key h owner ESCROW_RECORD_SLOT [be_bytes intent, le_bytes local, le_bytes output]"

definition fee_hold_key :: "Hasher \<Rightarrow> SubstateKey \<Rightarrow> TxHash \<Rightarrow> SubstateKey" where
  "fee_hold_key h vault tx = child_key h (sk_owner vault) FEE_HOLD_SLOT [be_bytes (sk_local vault), be_bytes tx]"

definition fee_hold_total_key :: "Hasher \<Rightarrow> SubstateKey \<Rightarrow> SubstateKey" where
  "fee_hold_total_key h vault = child_key h (sk_owner vault) FEE_HOLD_TOTAL_SLOT [be_bytes (sk_local vault)]"

section \<open>Values\<close>

datatype Kind = Escrowed | Owed

datatype Terms = TEscrowed SubstateKey | TOwed

fun terms_kind :: "Terms \<Rightarrow> Kind" where
  "terms_kind (TEscrowed credit) = Escrowed"
| "terms_kind TOwed = Owed"

record CrossingCell =
  cc_resource :: ResourceAddr
  cc_amount :: u128
  cc_intent :: IntentHash
  cc_local :: u32
  cc_output :: u32
  cc_validity_end_ms :: u64
  cc_tx :: TxHash
  cc_consumer :: Address
  cc_terms :: Terms

datatype Marked = MSpent IntentHash | MCommitted

record Marker =
  mk_tx :: TxHash
  mk_expiry_ms :: u64
  mk_marks :: Marked

definition ARTIFACT_GRACE_MS :: u64 where "ARTIFACT_GRACE_MS = 144000"
definition COMMITTED_GRACE_MS :: u64 where "COMMITTED_GRACE_MS = 264000"

fun marked_expiry_ms :: "Marked \<Rightarrow> u64 \<Rightarrow> u64" where
  "marked_expiry_ms (MSpent _) validity_end_ms = saturating_add validity_end_ms ARTIFACT_GRACE_MS"
| "marked_expiry_ms MCommitted validity_end_ms = saturating_add validity_end_ms COMMITTED_GRACE_MS"

definition marker_of :: "TxHash \<Rightarrow> u64 \<Rightarrow> Marked \<Rightarrow> Marker" where
  "marker_of tx validity_end_ms marks =
    \<lparr> mk_tx = tx, mk_expiry_ms = marked_expiry_ms marks validity_end_ms, mk_marks = marks \<rparr>"

definition marker_key :: "Hasher \<Rightarrow> Address \<Rightarrow> Marker \<Rightarrow> SubstateKey" where
  "marker_key h owner m =
    (case mk_marks m of
       MSpent intent \<Rightarrow> nullifier_key h owner intent (mk_expiry_ms m)
     | MCommitted \<Rightarrow> committed_tx_key h owner (mk_tx m) (mk_expiry_ms m))"

datatype Answered = Taken | Never

fun answered_slot :: "Answered \<Rightarrow> SlotId" where
  "answered_slot Taken = CROSSING_CLAIM_SLOT"
| "answered_slot Never = CROSSING_DECLINE_SLOT"

record CrossingAnswer =
  ca_tx :: TxHash
  ca_intent :: IntentHash
  ca_local :: u32
  ca_output :: u32
  ca_producer :: Address
  ca_answered :: Answered
  ca_validity_end_ms :: u64
  ca_seen :: bool

record CrossingId =
  ci_producer :: Address
  ci_consumer :: Address
  ci_intent :: IntentHash
  ci_local :: u32
  ci_output :: u32

record Crossing =
  cr_id :: CrossingId
  cr_kind :: Kind

record FeeHold =
  fh_vault :: LocalKey
  fh_tx :: TxHash
  fh_fee :: u128

datatype CrossingLeaf = LeafRecord Crossing CrossingCell | LeafAnswer CrossingId CrossingAnswer

definition of_record :: "Address \<Rightarrow> CrossingCell \<Rightarrow> CrossingId" where
  "of_record owner c = \<lparr> ci_producer = owner, ci_consumer = cc_consumer c, ci_intent = cc_intent c,
     ci_local = cc_local c, ci_output = cc_output c \<rparr>"

definition of_answer :: "Address \<Rightarrow> CrossingAnswer \<Rightarrow> CrossingId" where
  "of_answer owner a = \<lparr> ci_producer = ca_producer a, ci_consumer = owner, ci_intent = ca_intent a,
     ci_local = ca_local a, ci_output = ca_output a \<rparr>"

definition record_key :: "Hasher \<Rightarrow> CrossingId \<Rightarrow> SubstateKey" where
  "record_key h i = escrow_record_key h (ci_producer i) (ci_intent i) (ci_local i) (ci_output i)"

definition id_answer_key :: "Hasher \<Rightarrow> CrossingId \<Rightarrow> Answered \<Rightarrow> SubstateKey" where
  "id_answer_key h i answered =
    answer_key h (ci_consumer i) (answered_slot answered) (ci_intent i) (ci_local i) (ci_output i)"

definition id_cell :: "CrossingId \<Rightarrow> TxHash \<Rightarrow> ResourceAddr \<Rightarrow> u128 \<Rightarrow> u64 \<Rightarrow> Terms \<Rightarrow> CrossingCell" where
  "id_cell i tx resource amt validity_end_ms terms =
    \<lparr> cc_resource = resource, cc_amount = amt, cc_intent = ci_intent i, cc_local = ci_local i, cc_output = ci_output i,
      cc_validity_end_ms = validity_end_ms, cc_tx = tx, cc_consumer = ci_consumer i, cc_terms = terms \<rparr>"

definition id_answer :: "CrossingId \<Rightarrow> TxHash \<Rightarrow> Answered \<Rightarrow> u64 \<Rightarrow> CrossingAnswer" where
  "id_answer i tx answered validity_end_ms =
    \<lparr> ca_tx = tx, ca_intent = ci_intent i, ca_local = ci_local i, ca_output = ci_output i, ca_producer = ci_producer i,
      ca_answered = answered, ca_validity_end_ms = validity_end_ms, ca_seen = True \<rparr>"

definition unseen_never :: "CrossingId \<Rightarrow> TxHash \<Rightarrow> u64 \<Rightarrow> CrossingAnswer" where
  "unseen_never i tx validity_end_ms = (id_answer i tx Never validity_end_ms)\<lparr> ca_seen := False \<rparr>"

definition seen_now :: "CrossingAnswer \<Rightarrow> CrossingAnswer" where
  "seen_now a = a\<lparr> ca_seen := True \<rparr>"


section \<open>Committed bytes\<close>

text \<open>The shapes the derive gives the four values. An address is its thirty-two bytes; the class it must carry is
  checked on the way in.\<close>

abbreviation hash_node :: ShapeNode where "hash_node \<equiv> NByteArray 32"

abbreviation key_node :: ShapeNode where
  "key_node \<equiv> NStruct [(ascii ''owner'', hash_node), (ascii ''local'', NByteArray 16)]"

definition terms_node :: ShapeNode where
  "terms_node = NEnum [(ascii ''Escrowed'', 0, NStruct [(ascii ''credit'', key_node)]), (ascii ''Owed'', 1, NTuple [])]"

definition crossing_node :: ShapeNode where
  "crossing_node = NStruct [(ascii ''resource'', hash_node), (ascii ''amount'', NU128), (ascii ''intent'', hash_node),
     (ascii ''local'', NU32), (ascii ''output'', NU32), (ascii ''validity_end_ms'', NU64), (ascii ''tx'', hash_node),
     (ascii ''consumer'', hash_node), (ascii ''terms'', terms_node)]"

definition marked_node :: ShapeNode where
  "marked_node = NEnum [(ascii ''Spent'', 0, NTuple [hash_node]), (ascii ''Committed'', 1, NTuple [])]"

definition marker_node :: ShapeNode where
  "marker_node = NStruct [(ascii ''tx'', hash_node), (ascii ''expiry_ms'', NU64), (ascii ''marks'', marked_node)]"

definition answered_node :: ShapeNode where
  "answered_node = NEnum [(ascii ''Taken'', 0, NTuple []), (ascii ''Never'', 1, NTuple [])]"

definition answer_node :: ShapeNode where
  "answer_node = NStruct [(ascii ''tx'', hash_node), (ascii ''intent'', hash_node), (ascii ''local'', NU32),
     (ascii ''output'', NU32), (ascii ''producer'', hash_node), (ascii ''answered'', answered_node),
     (ascii ''validity_end_ms'', NU64), (ascii ''seen'', NBool)]"

definition fee_hold_node :: ShapeNode where
  "fee_hold_node = NStruct [(ascii ''vault'', NByteArray 16), (ascii ''tx'', hash_node), (ascii ''fee'', NU128)]"

text \<open>A value as the derive lays it out, and the parts of one laid out so.\<close>

definition v_array :: "'w::len word \<Rightarrow> ShapeValue" where
  "v_array w = VByteArray (be_bytes w)"

fun v_word :: "ShapeValue \<Rightarrow> 'w::len word" where
  "v_word (VByteArray bs) = be_word bs"
| "v_word (VU32 w) = ucast w"
| "v_word (VU64 w) = ucast w"
| "v_word (VU128 w) = ucast w"
| "v_word _ = 0"

fun v_member :: "nat \<Rightarrow> ShapeValue \<Rightarrow> ShapeValue" where
  "v_member i (VStruct vs) = snd (vs ! i)"
| "v_member i (VTuple vs) = vs ! i"
| "v_member i v = v"

fun v_tag :: "ShapeValue \<Rightarrow> u8" where
  "v_tag (VVariant _ t _) = t"
| "v_tag _ = 0"

fun v_content :: "ShapeValue \<Rightarrow> ShapeValue" where
  "v_content (VVariant _ _ c) = c"
| "v_content v = v"

fun v_bool :: "ShapeValue \<Rightarrow> bool" where
  "v_bool (VBool b) = b"
| "v_bool _ = False"

definition key_value :: "SubstateKey \<Rightarrow> ShapeValue" where
  "key_value k = VStruct [(ascii ''owner'', v_array (sk_owner k)), (ascii ''local'', v_array (sk_local k))]"

definition key_of :: "ShapeValue \<Rightarrow> SubstateKey" where
  "key_of v = SubstateKey (v_word (v_member 0 v)) (v_word (v_member 1 v))"

fun terms_value :: "Terms \<Rightarrow> ShapeValue" where
  "terms_value (TEscrowed credit) = VVariant (ascii ''Escrowed'') 0 (VStruct [(ascii ''credit'', key_value credit)])"
| "terms_value TOwed = VVariant (ascii ''Owed'') 1 (VTuple [])"

definition terms_of :: "ShapeValue \<Rightarrow> Terms" where
  "terms_of v = (if v_tag v = 0 then TEscrowed (key_of (v_member 0 (v_content v))) else TOwed)"

definition crossing_value :: "CrossingCell \<Rightarrow> ShapeValue" where
  "crossing_value c = VStruct [(ascii ''resource'', v_array (cc_resource c)), (ascii ''amount'', VU128 (cc_amount c)),
     (ascii ''intent'', v_array (cc_intent c)), (ascii ''local'', VU32 (cc_local c)), (ascii ''output'', VU32 (cc_output c)),
     (ascii ''validity_end_ms'', VU64 (cc_validity_end_ms c)), (ascii ''tx'', v_array (cc_tx c)),
     (ascii ''consumer'', v_array (cc_consumer c)), (ascii ''terms'', terms_value (cc_terms c))]"

definition crossing_of :: "ShapeValue \<Rightarrow> CrossingCell" where
  "crossing_of v = \<lparr> cc_resource = v_word (v_member 0 v), cc_amount = v_word (v_member 1 v), cc_intent = v_word (v_member 2 v),
     cc_local = v_word (v_member 3 v), cc_output = v_word (v_member 4 v), cc_validity_end_ms = v_word (v_member 5 v),
     cc_tx = v_word (v_member 6 v), cc_consumer = v_word (v_member 7 v), cc_terms = terms_of (v_member 8 v) \<rparr>"

fun marked_value :: "Marked \<Rightarrow> ShapeValue" where
  "marked_value (MSpent intent) = VVariant (ascii ''Spent'') 0 (VTuple [v_array intent])"
| "marked_value MCommitted = VVariant (ascii ''Committed'') 1 (VTuple [])"

definition marked_of :: "ShapeValue \<Rightarrow> Marked" where
  "marked_of v = (if v_tag v = 0 then MSpent (v_word (v_member 0 (v_content v))) else MCommitted)"

definition marker_value :: "Marker \<Rightarrow> ShapeValue" where
  "marker_value m = VStruct [(ascii ''tx'', v_array (mk_tx m)), (ascii ''expiry_ms'', VU64 (mk_expiry_ms m)),
     (ascii ''marks'', marked_value (mk_marks m))]"

definition marker_of_value :: "ShapeValue \<Rightarrow> Marker" where
  "marker_of_value v = \<lparr> mk_tx = v_word (v_member 0 v), mk_expiry_ms = v_word (v_member 1 v),
     mk_marks = marked_of (v_member 2 v) \<rparr>"

fun answered_value :: "Answered \<Rightarrow> ShapeValue" where
  "answered_value Taken = VVariant (ascii ''Taken'') 0 (VTuple [])"
| "answered_value Never = VVariant (ascii ''Never'') 1 (VTuple [])"

definition answer_value :: "CrossingAnswer \<Rightarrow> ShapeValue" where
  "answer_value a = VStruct [(ascii ''tx'', v_array (ca_tx a)), (ascii ''intent'', v_array (ca_intent a)),
     (ascii ''local'', VU32 (ca_local a)), (ascii ''output'', VU32 (ca_output a)),
     (ascii ''producer'', v_array (ca_producer a)), (ascii ''answered'', answered_value (ca_answered a)),
     (ascii ''validity_end_ms'', VU64 (ca_validity_end_ms a)), (ascii ''seen'', VBool (ca_seen a))]"

definition answer_of :: "ShapeValue \<Rightarrow> CrossingAnswer" where
  "answer_of v = \<lparr> ca_tx = v_word (v_member 0 v), ca_intent = v_word (v_member 1 v), ca_local = v_word (v_member 2 v),
     ca_output = v_word (v_member 3 v), ca_producer = v_word (v_member 4 v),
     ca_answered = (if v_tag (v_member 5 v) = 0 then Taken else Never),
     ca_validity_end_ms = v_word (v_member 6 v), ca_seen = v_bool (v_member 7 v) \<rparr>"

definition fee_hold_value :: "FeeHold \<Rightarrow> ShapeValue" where
  "fee_hold_value f = VStruct [(ascii ''vault'', v_array (fh_vault f)), (ascii ''tx'', v_array (fh_tx f)),
     (ascii ''fee'', VU128 (fh_fee f))]"

definition fee_hold_of :: "ShapeValue \<Rightarrow> FeeHold" where
  "fee_hold_of v = \<lparr> fh_vault = v_word (v_member 0 v), fh_tx = v_word (v_member 1 v), fh_fee = v_word (v_member 2 v) \<rparr>"


text \<open>What a decoder of each value holds its addresses to.\<close>

definition ResourceAddr_admits :: "Address \<Rightarrow> bool" where
  "ResourceAddr_admits a \<longleftrightarrow> address_class a = Some Resource \<or> address_class a = Some Restricted"

fun terms_held :: "Terms \<Rightarrow> bool" where
  "terms_held (TEscrowed credit) \<longleftrightarrow> address_class (sk_owner credit) \<noteq> None"
| "terms_held TOwed \<longleftrightarrow> True"

definition crossing_held :: "CrossingCell \<Rightarrow> bool" where
  "crossing_held c \<longleftrightarrow> ResourceAddr_admits (cc_resource c) \<and> address_class (cc_consumer c) \<noteq> None \<and> terms_held (cc_terms c)"

definition answer_held :: "CrossingAnswer \<Rightarrow> bool" where
  "answer_held a \<longleftrightarrow> address_class (ca_producer a) \<noteq> None"

definition unordered :: "ShapeNode \<Rightarrow> ShapeValue \<Rightarrow> ShapeValue \<Rightarrow> bool" where
  "unordered n a b = False"

definition cell_bytes :: "ShapeNode \<Rightarrow> ('a \<Rightarrow> ShapeValue) \<Rightarrow> 'a \<Rightarrow> (EncodeError, bytes) result" where
  "cell_bytes n value_of c = to_vec (node_encode vec_sink n) (value_of c)"

definition cell_read :: "ShapeNode \<Rightarrow> (ShapeValue \<Rightarrow> 'a) \<Rightarrow> ('a \<Rightarrow> bool) \<Rightarrow> bytes \<Rightarrow> 'a option" where
  "cell_read n of_value held bs =
    (case from_slice (node_decode unordered n) bs of
       Err _ \<Rightarrow> None
     | Ok v \<Rightarrow> if held (of_value v) then Some (of_value v) else None)"

definition crossing_to_bytes :: "CrossingCell \<Rightarrow> (EncodeError, bytes) result" where
  "crossing_to_bytes = cell_bytes crossing_node crossing_value"

definition crossing_from_bytes :: "bytes \<Rightarrow> CrossingCell option" where
  "crossing_from_bytes = cell_read crossing_node crossing_of crossing_held"

definition marker_to_bytes :: "Marker \<Rightarrow> (EncodeError, bytes) result" where
  "marker_to_bytes = cell_bytes marker_node marker_value"

definition marker_from_bytes :: "bytes \<Rightarrow> Marker option" where
  "marker_from_bytes = cell_read marker_node marker_of_value (\<lambda>_. True)"

definition answer_to_bytes :: "CrossingAnswer \<Rightarrow> (EncodeError, bytes) result" where
  "answer_to_bytes = cell_bytes answer_node answer_value"

definition answer_from_bytes :: "bytes \<Rightarrow> CrossingAnswer option" where
  "answer_from_bytes = cell_read answer_node answer_of answer_held"

definition fee_hold_to_bytes :: "FeeHold \<Rightarrow> (EncodeError, bytes) result" where
  "fee_hold_to_bytes = cell_bytes fee_hold_node fee_hold_value"

definition fee_hold_from_bytes :: "bytes \<Rightarrow> FeeHold option" where
  "fee_hold_from_bytes = cell_read fee_hold_node fee_hold_of (\<lambda>_. True)"

definition hold_vault :: "FeeHold \<Rightarrow> Address \<Rightarrow> SubstateKey" where
  "hold_vault f owner = SubstateKey owner (fh_vault f)"

definition hold_key :: "Hasher \<Rightarrow> FeeHold \<Rightarrow> Address \<Rightarrow> SubstateKey" where
  "hold_key h f owner = fee_hold_key h (hold_vault f owner) (fh_tx f)"

definition answer_values :: "CrossingId \<Rightarrow> TxHash \<Rightarrow> u64 \<Rightarrow> Answered \<Rightarrow> (EncodeError, bytes list) result" where
  "answer_values i tx validity_end_ms answered =
    and_then (answer_to_bytes (id_answer i tx answered validity_end_ms)) (\<lambda>seen.
      case answered of
        Taken \<Rightarrow> Ok [seen]
      | Never \<Rightarrow> map_res (\<lambda>unseen. [seen, unseen]) (answer_to_bytes (unseen_never i tx validity_end_ms)))"

definition answered_by :: "CrossingId \<Rightarrow> TxHash \<Rightarrow> u64 \<Rightarrow> Answered \<Rightarrow> bytes \<Rightarrow> (EncodeError, bool) result" where
  "answered_by i tx validity_end_ms answered val =
    map_res (list_ex (\<lambda>held. held = val)) (answer_values i tx validity_end_ms answered)"

definition crossing_leaf_read :: "Hasher \<Rightarrow> SubstateKey \<Rightarrow> bytes \<Rightarrow> CrossingLeaf option" where
  "crossing_leaf_read h key val =
    (let answer_arm =
       (case answer_from_bytes val of
          None \<Rightarrow> None
        | Some answer \<Rightarrow>
            (let i = of_answer (sk_owner key) answer
             in if id_answer_key h i (ca_answered answer) = key then Some (LeafAnswer i answer) else None))
     in case crossing_from_bytes val of
       None \<Rightarrow> answer_arm
     | Some cell \<Rightarrow>
         (let i = of_record (sk_owner key) cell
          in if record_key h i = key then Some (LeafRecord \<lparr> cr_id = i, cr_kind = terms_kind (cc_terms cell) \<rparr> cell)
             else answer_arm))"


section \<open>Cells read back\<close>

text \<open>A family laid out by a shape: the layout lies in the shape, and reading the layout back is inverse to it.\<close>

locale cell_family =
  fixes node :: ShapeNode and value_of :: "'a \<Rightarrow> ShapeValue" and of_value :: "ShapeValue \<Rightarrow> 'a"
  assumes bounded: "\<exists>most. max_encoded_len node = Some most"
    and shallow: "max_depth node \<le> DEFAULT_MAX_DEPTH"
    and expressible: "node_expressible node"
    and lies: "node_valid chk node (value_of c)"
    and of_value_of: "of_value (value_of c) = c"
    and value_of_of: "node_valid chk node v \<Longrightarrow> value_of (of_value v) = v"
begin

lemma encodes: "\<exists>bs. cell_bytes node value_of c = Ok bs"
  using node_total [OF lies expressible, of 0 DEFAULT_MAX_DEPTH] shallow
  by (auto simp: cell_bytes_def to_vec_def node_to_vec)

lemma read_iff: "cell_read node of_value held bs = Some c \<longleftrightarrow> held c \<and> cell_bytes node value_of c = Ok bs"
proof -
  obtain most where most: "max_encoded_len node = Some most" using bounded by blast
  have acc: "from_slice (node_decode unordered node) bs = Ok v \<longleftrightarrow>
      node_valid (\<lambda>n. ascending (unordered n)) node v \<and> to_vec (node_encode vec_sink node) v = Ok bs" for v
    unfolding from_slice_def to_vec_def by (rule hbor.accepts_iff [OF hbor_node [OF most]])
  show ?thesis
  proof (cases "from_slice (node_decode unordered node) bs")
    case (Ok v)
    with acc have v: "node_valid (\<lambda>n. ascending (unordered n)) node v" "to_vec (node_encode vec_sink node) v = Ok bs" by auto
    have "c = of_value v" if "cell_bytes node value_of c = Ok bs"
      using acc [of "value_of c"] that Ok lies of_value_of by (auto simp: cell_bytes_def)
    with v Ok value_of_of [OF v(1)] show ?thesis by (auto simp: cell_read_def cell_bytes_def)
  next
    case (Err er)
    with acc [of "value_of c"] lies show ?thesis by (auto simp: cell_read_def cell_bytes_def)
  qed
qed

end

lemma be_word_be_bytes [simp]: "8 dvd LENGTH('w) \<Longrightarrow> be_word (be_bytes w) = (w :: 'w::len word)"
  by (simp add: be_word_def be_bytes_def le_word_le_bytes)

lemma be_bytes_be_word [simp]: "length bs = LENGTH('w) div 8 \<Longrightarrow> be_bytes (be_word bs :: 'w::len word) = bs"
  by (simp add: be_word_def be_bytes_def le_bytes_le_word)

lemma length_be_bytes [simp]: "length (be_bytes (w :: 'w::len word)) = LENGTH('w) div 8"
  by (simp add: be_bytes_def)

lemmas layout = v_array_def crossing_value_def crossing_of_def
  marker_value_def marker_of_value_def answer_value_def answer_of_def fee_hold_value_def fee_hold_of_def
  crossing_node_def marker_node_def answer_node_def fee_hold_node_def

lemmas part_layout = key_value_def key_of_def terms_of_def marked_of_def terms_node_def marked_node_def answered_node_def

lemma terms_layout [simp]:
  "terms_of (terms_value t) = t" "node_valid chk terms_node (terms_value t)"
  by (cases t; simp add: part_layout v_array_def)+

lemma terms_layout_inv: "node_valid chk terms_node v \<Longrightarrow> terms_value (terms_of v) = v"
  by (auto simp: part_layout v_array_def node_valid_iff simp del: node_valid.simps split: if_splits)

lemma marked_layout [simp]:
  "marked_of (marked_value t) = t" "node_valid chk marked_node (marked_value t)"
  by (cases t; simp add: part_layout v_array_def)+

lemma marked_layout_inv: "node_valid chk marked_node v \<Longrightarrow> marked_value (marked_of v) = v"
  by (auto simp: part_layout v_array_def node_valid_iff list_all2_Cons1 simp del: node_valid.simps split: if_splits)

interpretation crossing: cell_family crossing_node crossing_value crossing_of
proof
  show "\<exists>most. max_encoded_len crossing_node = Some most" by (simp add: layout part_layout node_eval)
  show "max_depth crossing_node \<le> DEFAULT_MAX_DEPTH" by (simp add: layout part_layout node_eval)
  show "node_expressible crossing_node" by (simp add: layout part_layout node_eval)
  show "node_valid chk crossing_node (crossing_value c)" for chk c by (simp add: layout)
  show "crossing_of (crossing_value c) = c" for c by (simp add: layout)
  show "crossing_value (crossing_of v) = v" if "node_valid chk crossing_node v" for chk v
    using that unfolding layout by (auto simp: node_valid_iff terms_layout_inv simp del: node_valid.simps)
qed


interpretation marker: cell_family marker_node marker_value marker_of_value
proof
  show "\<exists>most. max_encoded_len marker_node = Some most" by (simp add: layout part_layout node_eval)
  show "max_depth marker_node \<le> DEFAULT_MAX_DEPTH" by (simp add: layout part_layout node_eval)
  show "node_expressible marker_node" by (simp add: layout part_layout node_eval)
  show "node_valid chk marker_node (marker_value c)" for chk c by (simp add: layout)
  show "marker_of_value (marker_value c) = c" for c by (simp add: layout)
  show "marker_value (marker_of_value v) = v" if "node_valid chk marker_node v" for chk v
    using that unfolding layout by (auto simp: node_valid_iff marked_layout_inv simp del: node_valid.simps)
qed

interpretation answer: cell_family answer_node answer_value answer_of
proof
  show "\<exists>most. max_encoded_len answer_node = Some most" by (simp add: layout part_layout node_eval)
  show "max_depth answer_node \<le> DEFAULT_MAX_DEPTH" by (simp add: layout part_layout node_eval)
  show "node_expressible answer_node" by (simp add: layout part_layout node_eval)
  show "node_valid chk answer_node (answer_value c)" for chk c by (cases "ca_answered c") (simp_all add: layout part_layout)
  show "answer_of (answer_value c) = c" for c by (cases "ca_answered c") (simp_all add: layout part_layout)
  show "answer_value (answer_of v) = v" if "node_valid chk answer_node v" for chk v
    using that unfolding layout part_layout by (auto simp: node_valid_iff simp del: node_valid.simps split: if_splits)
qed

interpretation fee_hold: cell_family fee_hold_node fee_hold_value fee_hold_of
proof
  show "\<exists>most. max_encoded_len fee_hold_node = Some most" by (simp add: layout part_layout node_eval)
  show "max_depth fee_hold_node \<le> DEFAULT_MAX_DEPTH" by (simp add: layout part_layout node_eval)
  show "node_expressible fee_hold_node" by (simp add: layout part_layout node_eval)
  show "node_valid chk fee_hold_node (fee_hold_value c)" for chk c by (simp add: layout)
  show "fee_hold_of (fee_hold_value c) = c" for c by (simp add: layout)
  show "fee_hold_value (fee_hold_of v) = v" if "node_valid chk fee_hold_node v" for chk v
    using that unfolding layout by (auto simp: node_valid_iff simp del: node_valid.simps)
qed

lemma crossing_not_answer:
  assumes "cell_bytes crossing_node crossing_value c = Ok bs" "cell_bytes answer_node answer_value a = Ok bs'"
  shows "length bs > length bs'"
proof -
  have "min_encoded_len crossing_node \<le> length bs"
    using assms(1) node_wide [OF crossing.lies, of c] by (simp add: cell_bytes_def to_vec_def node_to_vec)
  moreover have "max_encoded_len answer_node = Some 114" by (simp add: layout part_layout node_eval)
  with node_most [OF answer.lies, of a 0 DEFAULT_MAX_DEPTH bs'] assms(2) have "min (length bs') USIZE_MAX \<le> 114"
    by (simp add: cell_bytes_def to_vec_def node_to_vec del: node_encode.simps)
  ultimately show ?thesis by (simp add: layout part_layout node_eval min_def split: if_splits)
qed


lemmas cell_io = crossing_to_bytes_def crossing_from_bytes_def marker_to_bytes_def marker_from_bytes_def
  answer_to_bytes_def answer_from_bytes_def fee_hold_to_bytes_def fee_hold_from_bytes_def

lemma crossing_read_iff: "crossing_from_bytes bs = Some c \<longleftrightarrow> crossing_held c \<and> crossing_to_bytes c = Ok bs"
  unfolding cell_io by (rule crossing.read_iff)

lemma answer_read_iff: "answer_from_bytes bs = Some a \<longleftrightarrow> answer_held a \<and> answer_to_bytes a = Ok bs"
  unfolding cell_io by (rule answer.read_iff)

lemma answer_encodes: "\<exists>bs. answer_to_bytes a = Ok bs"
  unfolding cell_io by (rule answer.encodes)

lemma answer_bytes_inj: "answer_to_bytes a = Ok bs \<Longrightarrow> answer_to_bytes b = Ok bs \<Longrightarrow> a = b"
  unfolding cell_io using answer.read_iff [of "\<lambda>_. True" bs] by (metis option.inject)

lemma not_both: "crossing_from_bytes bs = Some c \<Longrightarrow> answer_from_bytes bs = None"
  using crossing_not_answer unfolding cell_io crossing.read_iff
  by (cases "cell_read answer_node answer_of answer_held bs") (fastforce simp: answer.read_iff)+

section \<open>Properties of the kernel cells\<close>

text \<open>C39 The classifier of crossing leaves is exact. Whatever the hasher, a leaf is read as a record exactly where its
  value is the encoding of a well-formed record whose own edge, under the key's owner as its producer, derives that key,
  with the kind its terms say; and as an answer exactly where its value is the encoding of a well-formed answer whose edge, under
  the key's owner as its consumer, derives that key in the answer's own role. No value is both, so the order the two
  are tried in decides nothing.\<close>

theorem crossing_leaf_exact:
  "crossing_leaf_read h key val = Some leaf \<longleftrightarrow>
    (case leaf of
       LeafRecord crossing cell \<Rightarrow>
         crossing_held cell \<and> crossing_to_bytes cell = Ok val \<and> cr_id crossing = of_record (sk_owner key) cell \<and>
         cr_kind crossing = terms_kind (cc_terms cell) \<and> record_key h (cr_id crossing) = key
     | LeafAnswer i answer \<Rightarrow>
         answer_held answer \<and> answer_to_bytes answer = Ok val \<and> i = of_answer (sk_owner key) answer \<and>
         id_answer_key h i (ca_answered answer) = key)"
proof -
  have arms: "crossing_held c \<and> crossing_to_bytes c = Ok val \<and> P \<longleftrightarrow> crossing_from_bytes val = Some c \<and> P"
    "answer_held a \<and> answer_to_bytes a = Ok val \<and> P \<longleftrightarrow> answer_from_bytes val = Some a \<and> P" for c a P
    by (simp_all add: crossing_read_iff answer_read_iff)
  have "crossing_from_bytes val = None \<or> answer_from_bytes val = None" using not_both by (cases "crossing_from_bytes val") auto
  then show ?thesis unfolding arms
    by (cases "crossing_from_bytes val"; cases "answer_from_bytes val"; cases leaf)
       (auto simp: crossing_leaf_read_def Let_def)
qed

text \<open>C40 An answer's bytes say whose answer it is. \<open>answered_by\<close> never fails, and holds of a value exactly where the value
  is the encoding of an answer on this edge, in this role, of this transaction and its validity end, seen or, for
  a decline only, unseen.\<close>

theorem answered_by_exact:
  "\<exists>verdict. answered_by i tx validity_end_ms answered val = Ok verdict \<and>
    (verdict \<longleftrightarrow> (\<exists>a. answer_to_bytes a = Ok val \<and> of_answer (ci_consumer i) a = i \<and> ca_tx a = tx \<and>
       ca_validity_end_ms a = validity_end_ms \<and> ca_answered a = answered \<and> (ca_seen a \<or> answered = Never)))"
proof -
  let ?s = "id_answer i tx answered validity_end_ms" and ?u = "unseen_never i tx validity_end_ms"
  have shape: "of_answer (ci_consumer i) a = i \<and> ca_tx a = tx \<and> ca_validity_end_ms a = validity_end_ms \<and>
      ca_answered a = answered \<and> (ca_seen a \<or> answered = Never) \<longleftrightarrow> a = ?s \<or> answered = Never \<and> a = ?u" for a
    by (cases a; cases i) (auto simp: id_answer_def unseen_never_def of_answer_def)
  obtain s u where "answer_to_bytes ?s = Ok s" "answer_to_bytes ?u = Ok u" using answer_encodes by metis
  then show ?thesis unfolding shape
    by (cases answered) (auto simp: answered_by_def answer_values_def)
qed

text \<open>The cells a crossing writes describe themselves: at the keys the crossing derives, its record and its answers are
  classified as that crossing, whatever the hasher. Markers and fee holds read back as written.\<close>

lemma marker_read_iff: "marker_from_bytes bs = Some m \<longleftrightarrow> marker_to_bytes m = Ok bs"
  unfolding cell_io marker.read_iff by simp

lemma fee_hold_read_iff: "fee_hold_from_bytes bs = Some f \<longleftrightarrow> fee_hold_to_bytes f = Ok bs"
  unfolding cell_io fee_hold.read_iff by simp

lemma crossing_cells_self_describing:
  assumes "crossing_held (id_cell i tx resource amt validity_end_ms terms)" "address_class (ci_producer i) \<noteq> None"
  shows "\<exists>r a. crossing_to_bytes (id_cell i tx resource amt validity_end_ms terms) = Ok r \<and>
    crossing_leaf_read h (record_key h i) r
      = Some (LeafRecord \<lparr> cr_id = i, cr_kind = terms_kind terms \<rparr> (id_cell i tx resource amt validity_end_ms terms)) \<and>
    answer_to_bytes (id_answer i tx answered validity_end_ms) = Ok a \<and>
    crossing_leaf_read h (id_answer_key h i answered) a = Some (LeafAnswer i (id_answer i tx answered validity_end_ms))"
proof -
  let ?c = "id_cell i tx resource amt validity_end_ms terms" and ?a = "id_answer i tx answered validity_end_ms"
  obtain r where r: "crossing_to_bytes ?c = Ok r" unfolding cell_io using crossing.encodes by blast
  obtain a where a: "answer_to_bytes ?a = Ok a" using answer_encodes by blast
  have i: "of_record (sk_owner (record_key h i)) ?c = i" "of_answer (sk_owner (id_answer_key h i answered)) ?a = i" "ca_answered ?a = answered"
    "cc_terms ?c = terms"
    by (simp_all add: of_record_def of_answer_def record_key_def escrow_record_key_def child_key_def id_answer_key_def
        answer_key_def id_cell_def id_answer_def)
  have held: "answer_held ?a" using assms(2) by (simp add: answer_held_def id_answer_def)
  from r a not_both [of r ?c] assms(1) held have "crossing_from_bytes r = Some ?c" "answer_from_bytes a = Some ?a"
    by (auto simp: crossing_read_iff answer_read_iff)
  moreover from this(2) not_both have "crossing_from_bytes a = None" by fastforce
  ultimately show ?thesis using r a i by (simp add: crossing_leaf_read_def Let_def)
qed

end
