(* ===== verification/Supply.thy ===== *)
theory Supply
  imports DeltaModes Ops
begin

text \<open>
  \<open>crates/kernel/src/supply.rs\<close>: what one transaction brought into and out of existence, per resource.
\<close>

record SupplyDelta =
  sd_minted :: "(ResourceAddr, u128) btmap"
  sd_burned :: "(ResourceAddr, u128) btmap"

definition supply_default :: SupplyDelta where
  "supply_default = \<lparr> sd_minted = bt_empty, sd_burned = bt_empty \<rparr>"

definition supply_is_empty :: "SupplyDelta \<Rightarrow> bool" where
  "supply_is_empty s \<longleftrightarrow> bt_is_empty (sd_minted s) \<and> bt_is_empty (sd_burned s)"

definition minted :: "SupplyDelta \<Rightarrow> ResourceAddr \<Rightarrow> u128" where
  "minted s resource = bt_get_or 0 (sd_minted s) resource"

definition burned :: "SupplyDelta \<Rightarrow> ResourceAddr \<Rightarrow> u128" where
  "burned s resource = bt_get_or 0 (sd_burned s) resource"

definition supply_resources :: "SupplyDelta \<Rightarrow> ResourceAddr list" where
  "supply_resources s = bt_keys (bt_extend (bs_of_list (bt_keys (sd_minted s))) (map (\<lambda>r. (r, ())) (bt_keys (sd_burned s))))"

text \<open>A running total per resource, with the error its owner reports on overflow: the \<open>add\<close> of the supply and of the
  escrow ledger.\<close>

definition total_add :: "ModeError \<Rightarrow> ResourceAddr \<Rightarrow> u128 \<Rightarrow> ((ResourceAddr, u128) btmap, ModeError, unit) op" where
  "total_add overflow resource amt into =
    (if amt = 0 then (Ok (), into)
     else (case checked_add (bt_get_or 0 into resource) amt of
       Some slot \<Rightarrow> (Ok (), bt_insert resource slot into)
     | None \<Rightarrow> (Err overflow, into)))"

definition supply_mint :: "ResourceAddr \<Rightarrow> u128 \<Rightarrow> (SupplyDelta, ModeError, unit) op" where
  "supply_mint resource amt s =
    (case total_add SupplyOutOfBounds resource amt (sd_minted s) of (r, m) \<Rightarrow> (r, s\<lparr> sd_minted := m \<rparr>))"

definition supply_burn :: "ResourceAddr \<Rightarrow> u128 \<Rightarrow> (SupplyDelta, ModeError, unit) op" where
  "supply_burn resource amt s =
    (case total_add SupplyOutOfBounds resource amt (sd_burned s) of (r, m) \<Rightarrow> (r, s\<lparr> sd_burned := m \<rparr>))"

section \<open>Totals\<close>

lemma total_add_Ok:
  assumes "total_add er resource amt m = (Ok u, m')"
  shows "unat (bt_get_or 0 m' r) = unat (bt_get_or 0 m r) + (if r = resource then unat amt else 0)"
  using assms by (auto simp: total_add_def arith_unat split: if_splits option.splits)

lemma total_add_keys:
  assumes "total_add er resource amt m = (Ok u, m')"
  shows "bt_contains m' r \<longleftrightarrow> bt_contains m r \<or> r = resource \<and> amt \<noteq> 0"
  using assms by (auto simp: total_add_def split: if_splits option.splits)

lemma mem_supply_resources: "r \<in> set (supply_resources s) \<longleftrightarrow> bt_contains (sd_minted s) r \<or> bt_contains (sd_burned s) r"
proof -
  have "bt_contains (bt_extend m (map (\<lambda>r. (r, ())) rs)) r \<longleftrightarrow> bt_contains m r \<or> r \<in> set rs" for m :: "ResourceAddr btset" and rs
    by (induction rs arbitrary: m) auto
  then show ?thesis by (auto simp: supply_resources_def)
qed

lemma distinct_supply_resources: "distinct (supply_resources s)"
  by (simp add: supply_resources_def bt_keys_def)

lemma supply_untouched: "r \<notin> set (supply_resources s) \<Longrightarrow> minted s r = 0 \<and> burned s r = 0"
  by (auto simp: mem_supply_resources minted_def burned_def bt_get_or_def bt_contains_def split: option.split)

lemma supply_mint_Ok:
  assumes "supply_mint resource amt s = (Ok u, s')"
  shows "unat (minted s' r) = unat (minted s r) + (if r = resource then unat amt else 0)" "burned s' r = burned s r"
  using assms total_add_Ok [of SupplyOutOfBounds resource amt "sd_minted s" "()"]
  by (auto simp: supply_mint_def minted_def burned_def split: prod.splits)

lemma supply_burn_Ok:
  assumes "supply_burn resource amt s = (Ok u, s')"
  shows "unat (burned s' r) = unat (burned s r) + (if r = resource then unat amt else 0)" "minted s' r = minted s r"
  using assms total_add_Ok [of SupplyOutOfBounds resource amt "sd_burned s" "()"]
  by (auto simp: supply_burn_def minted_def burned_def split: prod.splits)

end
