(* ===== verification/Escrow.thy ===== *)
theory Escrow
  imports Cells Supply
begin

text \<open>
  \<open>crates/kernel/src/escrow.rs\<close>: what an execution issued and claimed across a shard boundary, and the plan
  that says which of a manifest's nodes it runs and what happens at each edge between them.
\<close>

section \<open>The escrow ledger\<close>

record Crossed =
  x_resource :: ResourceAddr
  x_amount :: u128

record EscrowDelta =
  ed_issued_at :: "(u32 \<times> u32, Crossed) btmap"
  ed_claimed :: "(ResourceAddr, u128) btmap"

definition escrow_default :: EscrowDelta where
  "escrow_default = \<lparr> ed_issued_at = bt_empty, ed_claimed = bt_empty \<rparr>"

definition escrow_is_empty :: "EscrowDelta \<Rightarrow> bool" where
  "escrow_is_empty e \<longleftrightarrow> bt_is_empty (ed_issued_at e) \<and> bt_is_empty (ed_claimed e)"

definition issued :: "EscrowDelta \<Rightarrow> ResourceAddr \<Rightarrow> u128" where
  "issued e resource =
    foldl (\<lambda>total crossed. saturating_add total (x_amount crossed)) 0
      (filter (\<lambda>crossed. x_resource crossed = resource) (bt_values (ed_issued_at e)))"

definition claimed :: "EscrowDelta \<Rightarrow> ResourceAddr \<Rightarrow> u128" where
  "claimed e resource = bt_get_or 0 (ed_claimed e) resource"

definition escrow_resources :: "EscrowDelta \<Rightarrow> ResourceAddr list" where
  "escrow_resources e =
    bt_keys (bt_extend (bs_of_list (map x_resource (filter (\<lambda>crossed. x_amount crossed > 0) (bt_values (ed_issued_at e)))))
      (map (\<lambda>r. (r, ())) (bt_keys (ed_claimed e))))"

definition issues :: "EscrowDelta \<Rightarrow> ((u32 \<times> u32) \<times> Crossed) list" where
  "issues e = entries (ed_issued_at e)"

definition escrow_issue :: "u32 \<Rightarrow> u32 \<Rightarrow> Crossed \<Rightarrow> (EscrowDelta, ModeError, unit) op" where
  "escrow_issue node output crossed e =
    (case checked_add (issued e (x_resource crossed)) (x_amount crossed) of
       None \<Rightarrow> (Err EscrowOverflow, e)
     | Some _ \<Rightarrow> (Ok (), e\<lparr> ed_issued_at := bt_insert (node, output) crossed (ed_issued_at e) \<rparr>))"

definition escrow_claim :: "Crossed \<Rightarrow> (EscrowDelta, ModeError, unit) op" where
  "escrow_claim crossed e =
    (case total_add EscrowOverflow (x_resource crossed) (x_amount crossed) (ed_claimed e) of
       (r, m) \<Rightarrow> (r, e\<lparr> ed_claimed := m \<rparr>))"

section \<open>The leg plan\<close>

record Departure =
  dp_record :: SubstateKey
  dp_crossing :: Crossing
  dp_validity_end_ms :: u64

record Arrival =
  ar_crossed :: Crossed
  ar_claim :: SubstateKey
  ar_crossing :: Crossing
  ar_never :: "SubstateKey option"
  ar_validity_end_ms :: u64

datatype NodeAction = Run | Elsewhere

datatype EdgeAction = Departs Departure | Arrives Arrival

record LegPlan =
  lp_nodes :: "NodeAction list"
  lp_edges :: "(u32 \<times> u32, EdgeAction) btmap"

datatype PlanFault =
    NoSuchNode u32
  | EdgeTwice u32 u32
  | ArrivesHere u32 u32
  | DepartsElsewhere u32 u32
  | TooWide

definition plan_whole :: "nat \<Rightarrow> LegPlan" where
  "plan_whole nodes = \<lparr> lp_nodes = replicate nodes Run, lp_edges = bt_empty \<rparr>"

definition plan_action :: "LegPlan \<Rightarrow> u32 \<Rightarrow> NodeAction" where
  "plan_action p node = (if unat node < length (lp_nodes p) then lp_nodes p ! unat node else Run)"

definition plan_runs :: "LegPlan \<Rightarrow> u32 \<Rightarrow> bool" where
  "plan_runs p node \<longleftrightarrow> plan_action p node = Run"

definition plan_is_whole :: "LegPlan \<Rightarrow> bool" where
  "plan_is_whole p \<longleftrightarrow> list_all (\<lambda>action. action = Run) (lp_nodes p)"

definition arrival :: "LegPlan \<Rightarrow> u32 \<Rightarrow> u32 \<Rightarrow> Arrival option" where
  "arrival p node output = (case bt_get (lp_edges p) (node, output) of Some (Arrives a) \<Rightarrow> Some a | _ \<Rightarrow> None)"

definition departure :: "LegPlan \<Rightarrow> u32 \<Rightarrow> u32 \<Rightarrow> Departure option" where
  "departure p node output = (case bt_get (lp_edges p) (node, output) of Some (Departs d) \<Rightarrow> Some d | _ \<Rightarrow> None)"

definition plan_records :: "LegPlan \<Rightarrow> SubstateKey list" where
  "plan_records p = List.map_filter (\<lambda>action. case action of Departs d \<Rightarrow> Some (dp_record d) | Arrives _ \<Rightarrow> None) (bt_values (lp_edges p))"

definition plan_arrivals :: "LegPlan \<Rightarrow> Arrival list" where
  "plan_arrivals p = List.map_filter (\<lambda>action. case action of Arrives a \<Rightarrow> Some a | Departs _ \<Rightarrow> None) (bt_values (lp_edges p))"

definition plan_claims :: "LegPlan \<Rightarrow> SubstateKey list" where
  "plan_claims p = List.map_filter (\<lambda>action. case action of Arrives a \<Rightarrow> Some (ar_claim a) | Departs _ \<Rightarrow> None) (bt_values (lp_edges p))"

definition plan_nevers :: "LegPlan \<Rightarrow> SubstateKey list" where
  "plan_nevers p = List.map_filter (\<lambda>action. case action of Arrives a \<Rightarrow> ar_never a | Departs _ \<Rightarrow> None) (bt_values (lp_edges p))"

definition plan_skip :: "u32 \<Rightarrow> (LegPlan, PlanFault, unit) op" where
  "plan_skip node p =
    (if unat node < length (lp_nodes p) then (Ok (), p\<lparr> lp_nodes := (lp_nodes p)[unat node := Elsewhere] \<rparr>)
     else (Err (NoSuchNode node), p))"

definition plan_act :: "u32 \<Rightarrow> u32 \<Rightarrow> EdgeAction \<Rightarrow> (LegPlan, PlanFault, unit) op" where
  "plan_act node output action p =
    (if \<not> unat node < length (lp_nodes p) then (Err (NoSuchNode node), p)
     else if bt_contains (lp_edges p) (node, output) then (Err (EdgeTwice node output), p)
     else if bt_len (lp_edges p) \<ge> MAX_CROSSINGS_PER_TX then (Err TooWide, p)
     else (Ok (), p\<lparr> lp_edges := bt_insert (node, output) action (lp_edges p) \<rparr>))"

definition plan_arrives :: "u32 \<Rightarrow> u32 \<Rightarrow> Arrival \<Rightarrow> (LegPlan, PlanFault, unit) op" where
  "plan_arrives node output a p =
    (if plan_action p node = Run then (Err (ArrivesHere node output), p) else plan_act node output (Arrives a) p)"

definition plan_departs :: "u32 \<Rightarrow> u32 \<Rightarrow> Departure \<Rightarrow> (LegPlan, PlanFault, unit) op" where
  "plan_departs node output d p =
    (if plan_action p node = Elsewhere then (Err (DepartsElsewhere node output), p) else plan_act node output (Departs d) p)"

end
