(* ===== verification/Capability.thy ===== *)
theory Capability
  imports Overlay Escrow
begin

text \<open>
  What a session may act through: the capabilities a declared access materializes into
  (\<open>crates/kernel/src/session/materialize.rs\<close>), the one table of what each grants
  (\<open>crates/kernel/src/session/grants.rs\<close>) and the owner sets that scope an execution
  (\<open>crates/kernel/src/locality.rs\<close>).
\<close>

section \<open>Owner sets\<close>

datatype OwnerSet = Whole | Spanning "Address \<Rightarrow> bool"

fun owner_covers :: "OwnerSet \<Rightarrow> Address \<Rightarrow> bool" where
  "owner_covers Whole owner = True"
| "owner_covers (Spanning covers) owner = covers owner"

fun owner_is_whole :: "OwnerSet \<Rightarrow> bool" where
  "owner_is_whole Whole = True"
| "owner_is_whole (Spanning _) = False"

section \<open>Capabilities\<close>

record Interval =
  iv_width :: u32
  iv_owner :: Address
  iv_collection :: CollectionId
  iv_lo :: u128
  iv_hi :: u128
  iv_cap :: u32

definition iv_holds :: "Interval \<Rightarrow> u128 \<Rightarrow> bool" where
  "iv_holds i order \<longleftrightarrow> iv_lo i \<le> order \<and> order \<le> iv_hi i"

datatype Capability =
    CapRead SubstateKey
  | CapWrite SubstateKey
  | CapAmount SubstateKey Moves
  | CapAmountRead SubstateKey
  | CapDelta SubstateKey Moves
  | CapReserve SubstateKey u128
  | CapRangeRead Interval
  | CapRangeWrite Interval
  | CapInstances Interval Moves

datatype Settlement = Immediate SubstateKey | Queued SubstateKey

fun cap_key :: "Capability \<Rightarrow> SubstateKey option" where
  "cap_key (CapRead key) = Some key"
| "cap_key (CapWrite key) = Some key"
| "cap_key (CapAmount key _) = Some key"
| "cap_key (CapAmountRead key) = Some key"
| "cap_key (CapDelta key _) = Some key"
| "cap_key (CapReserve key _) = Some key"
| "cap_key (CapRangeRead _) = None"
| "cap_key (CapRangeWrite _) = None"
| "cap_key (CapInstances _ _) = None"

fun cap_owner :: "Capability \<Rightarrow> Address" where
  "cap_owner (CapRead key) = sk_owner key"
| "cap_owner (CapWrite key) = sk_owner key"
| "cap_owner (CapAmount key _) = sk_owner key"
| "cap_owner (CapAmountRead key) = sk_owner key"
| "cap_owner (CapDelta key _) = sk_owner key"
| "cap_owner (CapReserve key _) = sk_owner key"
| "cap_owner (CapRangeRead i) = iv_owner i"
| "cap_owner (CapRangeWrite i) = iv_owner i"
| "cap_owner (CapInstances i _) = iv_owner i"

fun cap_interval :: "Capability \<Rightarrow> Interval option" where
  "cap_interval (CapRangeRead i) = Some i"
| "cap_interval (CapRangeWrite i) = Some i"
| "cap_interval (CapInstances i _) = Some i"
| "cap_interval _ = None"

fun cap_settlement :: "Capability \<Rightarrow> Settlement option" where
  "cap_settlement (CapAmount key _) = Some (Immediate key)"
| "cap_settlement (CapDelta key _) = Some (Queued key)"
| "cap_settlement _ = None"

section \<open>What a capability grants\<close>

datatype Op =
    OpRead | OpWrite | OpClear | OpSeal | OpOpenSeal | OpBalance | OpTake | OpPut | OpReservedAmount | OpTakeReserved
  | OpReadEntries | OpWriteEntries | OpFileInstances | OpTakeInstances

fun grants :: "Capability \<Rightarrow> Op \<Rightarrow> bool" where
  "grants held OpRead = (case held of CapRead _ \<Rightarrow> True | CapWrite _ \<Rightarrow> True | _ \<Rightarrow> False)"
| "grants held OpWrite = (case held of CapWrite _ \<Rightarrow> True | _ \<Rightarrow> False)"
| "grants held OpClear = (case held of CapWrite _ \<Rightarrow> True | _ \<Rightarrow> False)"
| "grants held OpSeal = (case held of CapWrite _ \<Rightarrow> True | _ \<Rightarrow> False)"
| "grants held OpOpenSeal = (case held of CapWrite _ \<Rightarrow> True | _ \<Rightarrow> False)"
| "grants held OpBalance = (case held of CapAmount _ _ \<Rightarrow> True | CapAmountRead _ \<Rightarrow> True | _ \<Rightarrow> False)"
| "grants held OpTake = (case held of CapAmount _ moves \<Rightarrow> debits moves | CapDelta _ moves \<Rightarrow> debits moves | _ \<Rightarrow> False)"
| "grants held OpPut = (case held of CapAmount _ moves \<Rightarrow> credits moves | CapDelta _ moves \<Rightarrow> credits moves | _ \<Rightarrow> False)"
| "grants held OpReservedAmount = (case held of CapReserve _ _ \<Rightarrow> True | _ \<Rightarrow> False)"
| "grants held OpTakeReserved = (case held of CapReserve _ _ \<Rightarrow> True | _ \<Rightarrow> False)"
| "grants held OpReadEntries =
    (case held of CapRangeRead _ \<Rightarrow> True | CapRangeWrite _ \<Rightarrow> True | CapInstances _ _ \<Rightarrow> True | _ \<Rightarrow> False)"
| "grants held OpWriteEntries = (case held of CapRangeWrite _ \<Rightarrow> True | _ \<Rightarrow> False)"
| "grants held OpFileInstances = (case held of CapInstances _ moves \<Rightarrow> credits moves | _ \<Rightarrow> False)"
| "grants held OpTakeInstances = (case held of CapInstances _ moves \<Rightarrow> debits moves | _ \<Rightarrow> False)"

section \<open>From a declared access to its capability\<close>

datatype Contents = LeafOf SubstateKey | EntriesOf Address CollectionId

fun contents_of :: "EffectTarget \<Rightarrow> Contents" where
  "contents_of (Point key) = LeafOf key"
| "contents_of (Entry owner collection _) = EntriesOf owner collection"
| "contents_of (RangeT owner collection _ _ _) = EntriesOf owner collection"

fun interval_of :: "EffectTarget \<Rightarrow> u32 \<Rightarrow> Interval option" where
  "interval_of (Point _) width = None"
| "interval_of (Entry owner collection order) width =
    Some \<lparr> iv_width = width, iv_owner = owner, iv_collection = collection, iv_lo = order, iv_hi = order, iv_cap = 1 \<rparr>"
| "interval_of (RangeT owner collection lo hi cap) width =
    Some \<lparr> iv_width = width, iv_owner = owner, iv_collection = collection, iv_lo = lo, iv_hi = hi, iv_cap = cap \<rparr>"

datatype MaterializeError =
    Unsupported Effect
  | M_ConditionUnmet EffectTarget Presence "u32 option"
  | NotSignedIn Address
  | ConditionUnanswerable "u32 option"
  | M_Infeasible SubstateKey u128
  | SelfConflicting SubstateKey
  | M_UndenominatedMovement SubstateKey
  | MixedContents EffectTarget
  | HeldMismatch SubstateKey
  | ConditionStraddlesScope "u32 option"
  | M_Store StoreError

definition capability_for :: "Effect \<Rightarrow> bool \<Rightarrow> u32 \<Rightarrow> (MaterializeError, Capability) result" where
  "capability_for effect denominated width =
    (case (eff_target effect, eff_mode effect) of
       (Point key, Read) \<Rightarrow> Ok (if denominated then CapAmountRead key else CapRead key)
     | (Point key, Write moves) \<Rightarrow> Ok (if denominated then CapAmount key moves else CapWrite key)
     | (Point key, Delta moves) \<Rightarrow> if denominated then Ok (CapDelta key moves) else Err (M_UndenominatedMovement key)
     | (Point key, Reserve amt) \<Rightarrow> if denominated then Ok (CapReserve key amt) else Err (M_UndenominatedMovement key)
     | (target, Read) \<Rightarrow> map_res CapRangeRead (ok_or (Unsupported effect) (interval_of target width))
     | (target, Write moves) \<Rightarrow>
         map_res (\<lambda>i. if denominated then CapInstances i moves else CapRangeWrite i)
           (ok_or (Unsupported effect) (interval_of target width))
     | _ \<Rightarrow> Err (Unsupported effect))"

section \<open>A capability stays inside its declaration\<close>

text \<open>The declared kind behind a capability and the target it was declared on, up to the interval's own bounds.\<close>

fun cap_kind :: "Capability \<Rightarrow> ModeKind" where
  "cap_kind (CapRead _) = KRead"
| "cap_kind (CapWrite _) = KWrite"
| "cap_kind (CapAmount _ _) = KWrite"
| "cap_kind (CapAmountRead _) = KRead"
| "cap_kind (CapDelta _ _) = KDelta"
| "cap_kind (CapReserve _ _) = KReserve"
| "cap_kind (CapRangeRead _) = KRead"
| "cap_kind (CapRangeWrite _) = KWrite"
| "cap_kind (CapInstances _ _) = KWrite"

text \<open>Everything the kernel does on a capability's behalf: its own cell, or a scan or a change inside its interval, at
  the kinds its declared kind permits.\<close>

fun within :: "Capability \<Rightarrow> Access \<Rightarrow> bool" where
  "within cap a \<longleftrightarrow>
    (permits (cap_kind cap) (acc_kind a) \<or> cap_key cap \<noteq> None \<and> cap_kind cap = KWrite \<and> acc_kind a = KDelta) \<and>
    (case acc_target a of
       Point key \<Rightarrow> cap_key cap = Some key
     | Entry owner collection order \<Rightarrow>
         (case cap_interval cap of None \<Rightarrow> False
          | Some i \<Rightarrow> iv_owner i = owner \<and> iv_collection i = collection \<and> iv_holds i order)
     | RangeT owner collection lo hi cap' \<Rightarrow>
         (case cap_interval cap of None \<Rightarrow> False
          | Some i \<Rightarrow> iv_owner i = owner \<and> iv_collection i = collection \<and>
              (iv_lo i = lo \<and> iv_hi i = hi \<and> cap' = iv_cap i \<or>
               iv_lo i \<le> lo \<and> lo \<le> hi \<and> hi \<le> iv_hi i \<and> cap' = 1 \<and> iv_cap i \<noteq> 0)))"

lemma capability_kind:
  "capability_for e d w = Ok cap \<Longrightarrow> cap_kind cap = kind (eff_mode e)"
  by (auto simp: capability_for_def split: EffectTarget.splits Mode.splits if_splits)

lemma capability_within:
  assumes "capability_for e d w = Ok cap" "within cap a"
  shows "target_covers (eff_target e) (acc_target a) \<and> (permits (kind (eff_mode e)) (acc_kind a) \<or> exclusive_movement e a)"
proof
  from assms show "permits (kind (eff_mode e)) (acc_kind a) \<or> exclusive_movement e a"
    using capability_kind [OF assms(1)]
    by (auto simp: capability_for_def exclusive_movement_def split: EffectTarget.splits Mode.splits if_splits)
  have "c \<noteq> 0 \<Longrightarrow> 1 \<le> c" for c :: u32 by (simp add: word_le_nat_alt unat_gt_0 Suc_le_eq)
  with assms show "target_covers (eff_target e) (acc_target a)"
    by (auto simp: capability_for_def iv_holds_def split: EffectTarget.splits Mode.splits if_splits)
qed

end
