(* ===== verification/Limbs.thy ===== *)
theory Limbs
  imports Bytes
begin

unbundle bit_operations_syntax

text \<open>
  The limb arithmetic at the bottom of \<open>crates/types/src/math.rs\<close>: a wide unsigned integer is an
  array of 64-bit limbs, least significant first. Each routine is the source's loop over the
  limbs; the lemmas give what each computes on the number the limbs spell.
\<close>

type_synonym limbs = "u64 list"

datatype Ordering = Less | Equal | Greater


section \<open>The routines\<close>

definition overflowing_add :: "u64 \<Rightarrow> u64 \<Rightarrow> u64 \<times> bool" where
  "overflowing_add a b = (a + b, a + b < a)"

definition overflowing_sub :: "u64 \<Rightarrow> u64 \<Rightarrow> u64 \<times> bool" where
  "overflowing_sub a b = (a - b, a < b)"

fun add_loop :: "limbs \<Rightarrow> limbs \<Rightarrow> u64 \<Rightarrow> limbs \<times> u64" where
  "add_loop (x # xs) (y # ys) carry =
    (let (partial, first) = overflowing_add x y;
         (out, second) = overflowing_add partial carry;
         (rest, carry') = add_loop xs ys (if first \<or> second then 1 else 0)
     in (out # rest, carry'))"
| "add_loop _ _ carry = ([], carry)"

definition add_limbs :: "limbs \<Rightarrow> limbs \<Rightarrow> limbs \<times> bool" where
  "add_limbs a b = (let (out, carry) = add_loop a b 0 in (out, carry \<noteq> 0))"

fun sub_loop :: "limbs \<Rightarrow> limbs \<Rightarrow> u64 \<Rightarrow> limbs \<times> u64" where
  "sub_loop (x # xs) (y # ys) borrow =
    (let (partial, first) = overflowing_sub x y;
         (out, second) = overflowing_sub partial borrow;
         (rest, borrow') = sub_loop xs ys (if first \<or> second then 1 else 0)
     in (out # rest, borrow'))"
| "sub_loop _ _ borrow = ([], borrow)"

text \<open>\<open>sub_limbs\<close> and \<open>sub_limbs_wide\<close> are one loop at two widths.\<close>

definition sub_limbs :: "limbs \<Rightarrow> limbs \<Rightarrow> limbs \<times> bool" where
  "sub_limbs a b = (let (out, borrow) = sub_loop a b 0 in (out, borrow \<noteq> 0))"

fun mul_row :: "u64 \<Rightarrow> limbs \<Rightarrow> nat \<Rightarrow> limbs \<Rightarrow> u128 \<Rightarrow> limbs \<times> u128" where
  "mul_row x [] at out carry = (out, carry)"
| "mul_row x (y # ys) at out carry =
    (let sum = ucast x * ucast y + ucast (out ! at) + carry
     in mul_row x ys (at + 1) (out[at := ucast sum]) (drop_bit 64 sum))"

fun mul_rows :: "limbs \<Rightarrow> limbs \<Rightarrow> nat \<Rightarrow> limbs \<Rightarrow> limbs" where
  "mul_rows [] b i out = out"
| "mul_rows (x # xs) b i out =
    (let (out', carry) = mul_row x b i out 0 in mul_rows xs b (i + 1) (out'[i + 4 := ucast carry]))"

definition mul_limbs :: "limbs \<Rightarrow> limbs \<Rightarrow> limbs" where
  "mul_limbs a b = mul_rows a b 0 (replicate 8 0)"

fun shl_loop :: "limbs \<Rightarrow> u64 \<Rightarrow> limbs" where
  "shl_loop [] carry = []"
| "shl_loop (x # xs) carry = (push_bit 1 x OR carry) # shl_loop xs (drop_bit 63 x)"

definition shl_one :: "limbs \<Rightarrow> limbs" where
  "shl_one a = shl_loop a 0"

definition shl_limbs :: "limbs \<Rightarrow> nat \<Rightarrow> limbs" where
  "shl_limbs a bits =
    (if bits \<ge> 256 then replicate 4 0
     else let whole = bits div 64; part = bits mod 64
          in map (\<lambda>i. if i < whole then 0
                      else push_bit part (a ! (i - whole)) OR
                        (if part = 0 \<or> i = whole then 0 else drop_bit (64 - part) (a ! (i - whole - 1))))
               [0..<4])"

definition shr_limbs :: "limbs \<Rightarrow> nat \<Rightarrow> limbs" where
  "shr_limbs a bits =
    (if bits \<ge> 256 then replicate 4 0
     else let whole = bits div 64; part = bits mod 64
          in map (\<lambda>i. if i + whole < 4
                      then drop_bit part (a ! (i + whole)) OR
                        (if part = 0 \<or> i + whole + 1 \<ge> 4 then 0 else push_bit (64 - part) (a ! (i + whole + 1)))
                      else 0)
               [0..<4])"

fun cmp_loop :: "limbs \<Rightarrow> limbs \<Rightarrow> Ordering" where
  "cmp_loop (x # xs) (y # ys) = (if x < y then Less else if x > y then Greater else cmp_loop xs ys)"
| "cmp_loop _ _ = Equal"

definition cmp_limbs :: "limbs \<Rightarrow> limbs \<Rightarrow> Ordering" where
  "cmp_limbs a b = cmp_loop (rev a) (rev b)"


section \<open>The number limbs spell\<close>

definition limb_base :: nat where "limb_base = 2 ^ 64"

lemma unat_base: "unat (x :: u64) < limb_base"
  using unat_bound [of x] by (simp add: limb_base_def)

lemma limb_base_pos: "0 < limb_base"
  by (simp add: limb_base_def)

primrec limbs_val :: "limbs \<Rightarrow> nat" where
  "limbs_val [] = 0"
| "limbs_val (x # xs) = unat x + limb_base * limbs_val xs"

lemma digit_bound: "x < b \<Longrightarrow> y < c \<Longrightarrow> x + b * y < b * c" for x y b c :: nat
proof -
  assume "x < b" "y < c"
  then have "x + b * y < b * Suc y" by simp
  also have "\<dots> \<le> b * c" using \<open>y < c\<close> by (intro mult_left_mono) simp_all
  finally show ?thesis .
qed

lemma limbs_val_bound: "limbs_val xs < limb_base ^ length xs"
  by (induction xs) (simp_all add: digit_bound unat_base)

lemma limbs_val_append: "limbs_val (xs @ ys) = limbs_val xs + limb_base ^ length xs * limbs_val ys"
  by (induction xs) (simp_all add: algebra_simps)

lemma limbs_val_replicate [simp]: "limbs_val (replicate n 0) = 0"
  by (induction n) simp_all

lemma limbs_val_inj: "length xs = length ys \<Longrightarrow> limbs_val xs = limbs_val ys \<Longrightarrow> xs = ys"
proof (induction xs ys rule: list_induct2)
  case (Cons x xs y ys)
  have "unat x = limbs_val (x # xs) mod limb_base" by (simp add: unat_base)
  also have "\<dots> = limbs_val (y # ys) mod limb_base" by (simp only: Cons.prems)
  also have "\<dots> = unat y" by (simp add: unat_base)
  finally have head: "unat x = unat y" .
  with Cons.prems have "limb_base * limbs_val xs = limb_base * limbs_val ys" by simp
  then have "limbs_val xs = limbs_val ys" using limb_base_pos by simp
  with Cons.IH head show ?case by (simp only: word_unat_eq_iff [of x y] list.inject)
qed simp

lemma limbs_val_zero: "limbs_val xs = 0 \<longleftrightarrow> xs = replicate (length xs) 0"
  using limb_base_pos by (induction xs) (auto simp: unat_eq_zero)

lemma overflowing_add_val:
  "unat (fst (overflowing_add a b)) + (if snd (overflowing_add a b) then limb_base else 0) = unat a + unat b"
proof (cases "unat a + unat b < limb_base")
  case True
  then show ?thesis by (simp add: overflowing_add_def limb_base_def word_less_nat_alt unat_add_lem [THEN iffD1])
next
  case False
  then have "unat (a + b) = unat a + unat b - limb_base"
    using unat_base [of a] unat_base [of b] by (simp add: limb_base_def unat_word_ariths mod_if)
  with False unat_base [of a] unat_base [of b] show ?thesis by (simp add: overflowing_add_def word_less_nat_alt)
qed

lemma overflowing_sub_val:
  "unat (fst (overflowing_sub a b)) + unat b = unat a + (if snd (overflowing_sub a b) then limb_base else 0)"
proof (cases "a < b")
  case True
  then have "unat (a - b) = unat a + limb_base - unat b"
    using unat_base [of b] by (simp add: limb_base_def unat_sub_if' word_less_nat_alt)
  with True unat_base [of b] show ?thesis by (simp add: overflowing_sub_def)
next
  case False
  then show ?thesis by (simp add: overflowing_sub_def unat_sub_if' word_less_nat_alt not_less)
qed

lemma unat_flag [simp]: "unat (if f then 1 else 0 :: u64) = (if f then 1 else 0)"
  by simp

lemma add_loop_val:
  "length xs = length ys \<Longrightarrow> unat c \<le> 1 \<Longrightarrow> add_loop xs ys c = (out, c') \<Longrightarrow>
   length out = length xs \<and> unat c' \<le> 1 \<and> limbs_val out + limb_base ^ length xs * unat c' = limbs_val xs + limbs_val ys + unat c"
proof (induction xs ys arbitrary: c out c' rule: list_induct2)
  case (Cons x xs y ys)
  obtain p f where p: "overflowing_add x y = (p, f)" by fastforce
  obtain s g where s: "overflowing_add p c = (s, g)" by fastforce
  obtain rest where r: "add_loop xs ys (if f \<or> g then 1 else 0) = (rest, c')" "out = s # rest"
    using Cons.prems(2) p s by (auto split: prod.splits)
  define k :: nat where "k = (if f \<or> g then 1 else 0)"
  have head: "unat s + limb_base * k = unat x + unat y + unat c"
    using overflowing_add_val [of x y] overflowing_add_val [of p c] p s Cons.prems(1)
      unat_base [of x] unat_base [of y] unat_base [of s] by (auto simp: k_def split: if_splits)
  have "length rest = length xs \<and> unat c' \<le> 1 \<and>
      limbs_val rest + limb_base ^ length xs * unat c' = limbs_val xs + limbs_val ys + k"
    using Cons.IH [OF _ r(1)] by (simp add: k_def)
  then have tail: "length rest = length xs" "unat c' \<le> 1"
    "limbs_val rest + limb_base ^ length xs * unat c' = limbs_val xs + limbs_val ys + k" by simp_all
  have "limbs_val out + limb_base ^ length (x # xs) * unat c' = unat s + limb_base * (limbs_val rest + limb_base ^ length xs * unat c')"
    by (simp add: r(2) algebra_simps)
  also have "\<dots> = unat s + limb_base * k + limb_base * (limbs_val xs + limbs_val ys)"
    unfolding tail(3) by (simp add: algebra_simps)
  also have "\<dots> = unat x + unat y + unat c + limb_base * (limbs_val xs + limbs_val ys)" by (simp only: head)
  finally show ?case using tail(1,2) r(2) by (simp add: algebra_simps)
qed simp

lemma sub_loop_val:
  "length xs = length ys \<Longrightarrow> unat c \<le> 1 \<Longrightarrow> sub_loop xs ys c = (out, c') \<Longrightarrow>
   length out = length xs \<and> unat c' \<le> 1 \<and> limbs_val out + limbs_val ys + unat c = limbs_val xs + limb_base ^ length xs * unat c'"
proof (induction xs ys arbitrary: c out c' rule: list_induct2)
  case (Cons x xs y ys)
  obtain p f where p: "overflowing_sub x y = (p, f)" by fastforce
  obtain s g where s: "overflowing_sub p c = (s, g)" by fastforce
  obtain rest where r: "sub_loop xs ys (if f \<or> g then 1 else 0) = (rest, c')" "out = s # rest"
    using Cons.prems(2) p s by (auto split: prod.splits)
  define k :: nat where "k = (if f \<or> g then 1 else 0)"
  have head: "unat s + unat y + unat c = unat x + limb_base * k"
    using overflowing_sub_val [of x y] overflowing_sub_val [of p c] p s Cons.prems(1)
      unat_base [of x] unat_base [of y] unat_base [of s] unat_base [of p] by (auto simp: k_def split: if_splits)
  have "length rest = length xs \<and> unat c' \<le> 1 \<and>
      limbs_val rest + limbs_val ys + k = limbs_val xs + limb_base ^ length xs * unat c'"
    using Cons.IH [OF _ r(1)] by (simp add: k_def)
  then have tail: "length rest = length xs" "unat c' \<le> 1"
    "limbs_val rest + limbs_val ys + k = limbs_val xs + limb_base ^ length xs * unat c'" by simp_all
  have "limbs_val out + limbs_val (y # ys) + unat c + limb_base * k =
      (unat s + unat y + unat c) + limb_base * (limbs_val rest + limbs_val ys + k)"
    by (simp add: r(2) algebra_simps)
  also have "\<dots> = limbs_val (x # xs) + limb_base ^ length (x # xs) * unat c' + limb_base * k"
    unfolding head tail(3) by (simp add: algebra_simps)
  finally show ?case using tail r(2) by simp
qed simp

lemma add_limbs_val:
  assumes "length a = length b" "add_limbs a b = (out, c)"
  shows "length out = length a \<and> limbs_val out + (if c then limb_base ^ length a else 0) = limbs_val a + limbs_val b"
  using assms add_loop_val [OF assms(1), of 0]
  by (force simp: add_limbs_def Let_def le_Suc_eq unat_eq_zero split: prod.splits)

lemma sub_limbs_val:
  assumes "length a = length b" "sub_limbs a b = (out, c)"
  shows "length out = length a \<and> limbs_val out + limbs_val b = limbs_val a + (if c then limb_base ^ length a else 0)"
  using assms sub_loop_val [OF assms(1), of 0]
  by (force simp: sub_limbs_def Let_def le_Suc_eq unat_eq_zero split: prod.splits)


lemma cmp_loop_digits:
  "length xs = length ys \<Longrightarrow> cmp_loop (rev xs @ us) (rev ys @ vs) =
    (if limbs_val xs < limbs_val ys then Less else if limbs_val xs > limbs_val ys then Greater else cmp_loop us vs)"
proof (induction xs ys arbitrary: us vs rule: list_induct2)
  case (Cons x xs y ys)
  have less: "unat a + limb_base * m < unat b + limb_base * n" if "m < n" for a b :: u64 and m n
  proof -
    have "unat a + limb_base * m < limb_base * Suc m" using unat_base [of a] by simp
    also have "\<dots> \<le> limb_base * n" using that by (intro mult_left_mono) simp_all
    finally show ?thesis by simp
  qed
  consider "limbs_val xs < limbs_val ys" | "limbs_val ys < limbs_val xs" | "limbs_val xs = limbs_val ys" by linarith
  then show ?case
    using Cons.IH less [of "limbs_val xs" "limbs_val ys" x y] less [of "limbs_val ys" "limbs_val xs" y x]
    by cases (auto simp: word_less_nat_alt)
qed simp

lemma cmp_limbs_val:
  "length a = length b \<Longrightarrow> cmp_limbs a b =
    (if limbs_val a < limbs_val b then Less else if limbs_val a > limbs_val b then Greater else Equal)"
  using cmp_loop_digits [of a b "[]" "[]"] by (simp add: cmp_limbs_def)

lemma unat_push_bit: "k \<le> 64 \<Longrightarrow> unat (push_bit k x :: u64) = push_bit k (take_bit (64 - k) (unat x))"
  by (simp add: unsigned_push_bit_eq take_bit_push_bit)

lemma unat_drop_bit: "unat (drop_bit k x :: u64) = unat x div 2 ^ k"
  by (subst unat_drop_bit_eq) (rule drop_bit_eq_div)

text \<open>A limb shifted up with the bits that arrive below it.\<close>

lemma shifted_limb:
  assumes "k \<le> 64" "unat c < 2 ^ k"
  shows "unat (push_bit k x OR c :: u64) = 2 ^ k * (unat x mod 2 ^ (64 - k)) + unat c"
proof -
  have "unat (c OR push_bit k x) = unat c OR push_bit k (take_bit (64 - k) (unat x))"
    by (simp only: unsigned_or_eq unat_push_bit [OF assms(1)])
  also have "\<dots> = unat c + take_bit (64 - k) (unat x) * 2 ^ k" by (rule or_push_bit [OF assms(2)])
  finally show ?thesis by (simp add: or.commute [of "push_bit k x" c] take_bit_eq_mod mult.commute add.commute)
qed

lemma shl_limb:
  assumes "unat c \<le> 1"
  shows "unat (push_bit 1 x OR c :: u64) + limb_base * unat (drop_bit 63 x) = 2 * unat x + unat c"
proof -
  have "unat (push_bit 1 x OR c) = 2 * (unat x mod 2 ^ 63) + unat c" using shifted_limb [of 1 c x] assms by simp
  moreover have "limb_base * unat (drop_bit 63 x) = 2 * (2 ^ 63 * (unat x div 2 ^ 63))"
    by (simp add: limb_base_def unat_drop_bit)
  ultimately show ?thesis using mult_div_mod_eq [of "2 ^ 63" "unat x"] by linarith
qed

lemma shl_loop_val:
  "unat c \<le> 1 \<Longrightarrow> length (shl_loop xs c) = length xs \<and>
   (\<exists>k. limbs_val (shl_loop xs c) + limb_base ^ length xs * k = 2 * limbs_val xs + unat c)"
proof (induction xs arbitrary: c)
  case Nil
  then show ?case by (intro conjI exI [of _ "unat c"]) simp_all
next
  case (Cons x xs)
  have "unat (drop_bit 63 x) \<le> 1" using unat_bound [of x] by (simp add: unat_drop_bit less_mult_imp_div_less flip: less_Suc_eq_le)
  from Cons.IH [OF this] obtain k where
    k: "limbs_val (shl_loop xs (drop_bit 63 x)) + limb_base ^ length xs * k = 2 * limbs_val xs + unat (drop_bit 63 x)"
    and len: "length (shl_loop xs (drop_bit 63 x)) = length xs" by blast
  have "limbs_val (shl_loop (x # xs) c) + limb_base ^ length (x # xs) * k =
      unat (push_bit 1 x OR c) + limb_base * (limbs_val (shl_loop xs (drop_bit 63 x)) + limb_base ^ length xs * k)"
    by (simp add: algebra_simps)
  also have "\<dots> = (unat (push_bit 1 x OR c) + limb_base * unat (drop_bit 63 x)) + limb_base * (2 * limbs_val xs)"
    unfolding k by (simp add: algebra_simps)
  also have "\<dots> = 2 * limbs_val (x # xs) + unat c" unfolding shl_limb [OF Cons.prems] by (simp add: algebra_simps)
  finally show ?case using len by auto
qed

lemma shl_one_val: "length (shl_one a) = length a" "limbs_val (shl_one a) = 2 * limbs_val a mod limb_base ^ length a"
proof -
  obtain k where k: "limbs_val (shl_one a) + limb_base ^ length a * k = 2 * limbs_val a" and len: "length (shl_one a) = length a"
    using shl_loop_val [of 0 a] by (auto simp: shl_one_def)
  then have "2 * limbs_val a mod limb_base ^ length a = limbs_val (shl_one a) mod limb_base ^ length a"
    by (metis mod_mult_self2)
  with len limbs_val_bound [of "shl_one a"] show "limbs_val (shl_one a) = 2 * limbs_val a mod limb_base ^ length a" by simp
qed (use shl_loop_val [of 0 a] in \<open>simp add: shl_one_def\<close>)


lemma limbs_val_update:
  "i < length xs \<Longrightarrow> limbs_val (xs[i := v]) + limb_base ^ i * unat (xs ! i) = limbs_val xs + limb_base ^ i * unat v"
proof (induction xs arbitrary: i)
  case (Cons x xs)
  show ?case
  proof (cases i)
    case (Suc j)
    with Cons.IH [of j] Cons.prems have
      "limb_base * (limbs_val (xs[j := v]) + limb_base ^ j * unat (xs ! j)) = limb_base * (limbs_val xs + limb_base ^ j * unat v)"
      by simp
    with Suc show ?thesis by (simp add: algebra_simps)
  qed simp
qed simp

text \<open>One column of the schoolbook product fits the double limb.\<close>

lemma column_fits: "x < b \<Longrightarrow> y < b \<Longrightarrow> o' < b \<Longrightarrow> c < b \<Longrightarrow> x * y + o' + c < b * b" for x y b o' c :: nat
proof -
  assume "x < b" "y < b" "o' < b" "c < b"
  then obtain n where n: "b = Suc n" "x \<le> n" "y \<le> n" "o' \<le> n" "c \<le> n" by (cases b) auto
  then have "x * y + o' + c \<le> n * n + n + n" by (intro add_mono mult_le_mono)
  with n(1) show ?thesis by simp
qed

lemma column_split:
  fixes x y o' :: u64
  assumes "unat carry < limb_base"
  defines "tot \<equiv> ucast x * ucast y + ucast o' + carry :: u128"
  shows "unat (ucast tot :: u64) + limb_base * unat (drop_bit 64 tot) = unat (x :: u64) * unat (y :: u64) + unat (o' :: u64) + unat carry"
    and "unat (drop_bit 64 tot) < limb_base"
proof -
  have fits: "unat x * unat y + unat o' + unat carry < limb_base * limb_base"
    by (rule column_fits) (simp_all add: unat_base assms(1))
  have up: "unat (ucast a :: u128) = unat a" for a :: u64
    using unat_base [of a] by (simp add: unsigned_ucast_eq take_bit_nat_eq_self limb_base_def)
  have tot: "unat tot = unat x * unat y + unat o' + unat carry"
    using fits by (simp add: tot_def unat_word_ariths up limb_base_def)
  have low: "unat (ucast tot :: u64) = unat tot mod limb_base" by (simp add: unsigned_ucast_eq limb_base_def take_bit_eq_mod)
  have high: "unat (drop_bit 64 tot) = unat tot div limb_base"
    by (subst unat_drop_bit_eq) (simp add: drop_bit_eq_div limb_base_def)
  show "unat (ucast tot :: u64) + limb_base * unat (drop_bit 64 tot) = unat x * unat y + unat o' + unat carry"
    unfolding low high tot by (rule mod_mult_div_eq)
  show "unat (drop_bit 64 tot) < limb_base" unfolding high tot using fits by (rule less_mult_imp_div_less)
qed

lemma mul_row_val:
  "at + length ys \<le> length out \<Longrightarrow> unat carry < limb_base \<Longrightarrow> mul_row x ys at out carry = (out', carry') \<Longrightarrow>
   length out' = length out \<and> unat carry' < limb_base \<and> (\<forall>j \<ge> at + length ys. out' ! j = out ! j) \<and>
   limbs_val out' + limb_base ^ (at + length ys) * unat carry' = limbs_val out + limb_base ^ at * (unat x * limbs_val ys + unat carry)"
proof (induction ys arbitrary: at out carry)
  case (Cons y ys)
  define tot where "tot = (ucast x * ucast y + ucast (out ! at) + carry :: u128)"
  define mid where "mid = out[at := ucast tot]"
  have run: "mul_row x ys (at + 1) mid (drop_bit 64 tot) = (out', carry')"
    using Cons.prems(3) by (simp add: Let_def tot_def mid_def)
  note col = column_split [OF Cons.prems(2), of x y "out ! at", folded tot_def]
  have step: "limbs_val mid + limb_base ^ at * unat (out ! at) = limbs_val out + limb_base ^ at * unat (ucast tot :: u64)"
    unfolding mid_def by (rule limbs_val_update) (use Cons.prems(1) in simp)
  from Cons.IH [OF _ col(2) run] Cons.prems(1) have tail: "length out' = length mid" "unat carry' < limb_base"
    "\<forall>j \<ge> at + 1 + length ys. out' ! j = mid ! j"
    "limbs_val out' + limb_base ^ (at + 1 + length ys) * unat carry' =
      limbs_val mid + limb_base ^ (at + 1) * (unat x * limbs_val ys + unat (drop_bit 64 tot))"
    by (simp_all add: mid_def)
  have "limb_base ^ at * (unat x * limbs_val (y # ys) + unat carry) + limb_base ^ at * unat (out ! at) =
      limb_base ^ at * (unat x * unat y + unat (out ! at) + unat carry) + limb_base ^ (at + 1) * (unat x * limbs_val ys)"
    by (simp add: algebra_simps)
  also have "\<dots> = limb_base ^ at * unat (ucast tot :: u64) + limb_base ^ (at + 1) * (unat x * limbs_val ys + unat (drop_bit 64 tot))"
    unfolding col(1) [symmetric] by (simp add: algebra_simps)
  finally have "limbs_val out' + limb_base ^ (at + length (y # ys)) * unat carry' =
      limbs_val out + limb_base ^ at * (unat x * limbs_val (y # ys) + unat carry)"
    using tail(4) step by simp
  with tail show ?case by (auto simp: mid_def)
qed simp


lemma mul_rows_val:
  "length b = 4 \<Longrightarrow> i + length xs + 4 \<le> length out \<Longrightarrow> (\<forall>j \<ge> i + 4. j < length out \<longrightarrow> out ! j = 0) \<Longrightarrow>
   length (mul_rows xs b i out) = length out \<and>
   limbs_val (mul_rows xs b i out) = limbs_val out + limb_base ^ i * limbs_val xs * limbs_val b"
proof (induction xs arbitrary: i out)
  case (Cons x xs)
  obtain out' carry where row: "mul_row x b i out 0 = (out', carry)" by fastforce
  have "i + length b \<le> length out" "unat (0 :: u128) < limb_base" using Cons.prems limb_base_pos by simp_all
  note val = mul_row_val [OF this row]
  define mid where "mid = out'[i + 4 := ucast carry]"
  have "unat (ucast carry :: u64) = unat carry"
    using val by (simp add: unsigned_ucast_eq take_bit_nat_eq_self limb_base_def)
  moreover have "out' ! (i + 4) = 0" using val Cons.prems by simp
  ultimately have mid: "limbs_val mid = limbs_val out' + limb_base ^ (i + 4) * unat carry"
    using limbs_val_update [of "i + 4" out' "ucast carry"] val Cons.prems(2) by (simp add: mid_def)
  have "limbs_val mid = limbs_val out + limb_base ^ i * unat x * limbs_val b"
    using val mid Cons.prems(1) by simp
  moreover have "length (mul_rows xs b (i + 1) mid) = length mid \<and>
      limbs_val (mul_rows xs b (i + 1) mid) = limbs_val mid + limb_base ^ (i + 1) * limbs_val xs * limbs_val b"
    by (rule Cons.IH) (use Cons.prems val in \<open>auto simp: mid_def nth_list_update\<close>)
  ultimately show ?case using val by (simp add: row mid_def [symmetric] algebra_simps) (simp add: mid_def)
qed simp

lemma mul_limbs_val:
  assumes "length a = 4" "length b = 4"
  shows "length (mul_limbs a b) = 8 \<and> limbs_val (mul_limbs a b) = limbs_val a * limbs_val b"
  using mul_rows_val [of b 0 a "replicate 8 0"] assms by (simp add: mul_limbs_def)

subsection \<open>Shifts by any number of bits\<close>

fun shr_part :: "nat \<Rightarrow> limbs \<Rightarrow> limbs" where
  "shr_part p [] = []"
| "shr_part p [x] = [drop_bit p x]"
| "shr_part p (x # y # xs) = (drop_bit p x OR (if p = 0 then 0 else push_bit (64 - p) y)) # shr_part p (y # xs)"

lemma length_shr_part [simp]: "length (shr_part p xs) = length xs"
  by (induction p xs rule: shr_part.induct) simp_all

lemma split_base: "p \<le> 64 \<Longrightarrow> limb_base = 2 ^ p * 2 ^ (64 - p)"
  by (simp add: limb_base_def power_add [symmetric])

lemma shr_part_val: "p < 64 \<Longrightarrow> limbs_val (shr_part p xs) = limbs_val xs div 2 ^ p"
proof (induction p xs rule: shr_part.induct)
  case (2 p x)
  then show ?case by (simp add: unat_drop_bit)
next
  case (3 p x y xs)
  let ?v = "limbs_val xs"
  have base: "limb_base = 2 ^ p * 2 ^ (64 - p)" using 3(2) by (intro split_base) simp
  have limb: "unat (drop_bit p x OR (if p = 0 then 0 else push_bit (64 - p) y)) = unat x div 2 ^ p + 2 ^ (64 - p) * (unat y mod 2 ^ p)"
  proof (cases "p = 0")
    case False
    have "unat x < 2 ^ p * 2 ^ (64 - p)" using unat_base [of x] base by simp
    then have "unat (drop_bit p x) < 2 ^ (64 - p)" by (simp add: unat_drop_bit less_mult_imp_div_less mult.commute)
    from shifted_limb [OF _ this, of y] False 3(2) show ?thesis by (simp add: unat_drop_bit or.commute [of "drop_bit p x"])
  qed (simp add: unat_drop_bit)
  have part: "(unat x + 2 ^ p * t) div 2 ^ p = unat x div 2 ^ p + t" for t by simp
  have "limbs_val (x # y # xs) = unat x + 2 ^ p * (2 ^ (64 - p) * limbs_val (y # xs))"
    by (simp only: limbs_val.simps(2) [of x] base mult.assoc)
  then have "limbs_val (x # y # xs) div 2 ^ p = unat x div 2 ^ p + 2 ^ (64 - p) * limbs_val (y # xs)"
    by (simp only: part)
  also have "limbs_val (y # xs) = unat y mod 2 ^ p + 2 ^ p * (limbs_val (y # xs) div 2 ^ p)"
  proof -
    have "limbs_val (y # xs) mod 2 ^ p = (unat y + 2 ^ p * (2 ^ (64 - p) * limbs_val xs)) mod 2 ^ p"
      by (simp only: limbs_val.simps base mult.assoc)
    also have "\<dots> = unat y mod 2 ^ p" by (rule mod_mult_self2)
    finally show ?thesis using mod_mult_div_eq [of "limbs_val (y # xs)" "2 ^ p"] by simp
  qed
  finally have "limbs_val (x # y # xs) div 2 ^ p =
      unat x div 2 ^ p + 2 ^ (64 - p) * (unat y mod 2 ^ p) + limb_base * (limbs_val (y # xs) div 2 ^ p)"
    by (simp add: base algebra_simps)
  with limb 3(1) [OF 3(2)] show ?case by simp
qed simp

lemma four_limbs:
  "[0..<4] = [0, 1, 2, 3 :: nat]" "replicate 2 (0 :: u64) = [0, 0]" "replicate 3 (0 :: u64) = [0, 0, 0]"
  by (simp_all add: upt_rec numeral_eq_Suc)

lemma four_zeros: "replicate 4 (0 :: u64) = [0, 0, 0, 0]"
  by (simp add: numeral_eq_Suc)

lemma shr_limbs_part:
  assumes "length a = 4" "bits < 256"
  shows "shr_limbs a bits = shr_part (bits mod 64) (drop (bits div 64) a) @ replicate (bits div 64) 0"
proof -
  obtain x y z u where a: "a = [x, y, z, u]" using assms(1) by (auto simp: numeral_eq_Suc length_Suc_conv)
  have "bits div 64 < 4" using assms(2) by (simp add: less_mult_imp_div_less)
  then consider "bits div 64 = 0" | "bits div 64 = 1" | "bits div 64 = 2" | "bits div 64 = 3" by linarith
  then show ?thesis
    by cases (use assms(2) a in \<open>simp_all add: shr_limbs_def Let_def four_limbs\<close>)
qed

lemma shr_limbs_val:
  assumes "length a = 4" "bits < 256"
  shows "length (shr_limbs a bits) = 4 \<and> limbs_val (shr_limbs a bits) = limbs_val a div 2 ^ bits"
proof -
  let ?w = "bits div 64" and ?p = "bits mod 64"
  have w: "?w < 4" using assms(2) by (simp add: less_mult_imp_div_less)
  have "limbs_val (take ?w a) < limb_base ^ ?w" using limbs_val_bound [of "take ?w a"] w assms(1) by simp
  moreover have "limbs_val a = limbs_val (take ?w a) + limb_base ^ ?w * limbs_val (drop ?w a)"
    using limbs_val_append [of "take ?w a" "drop ?w a"] w assms(1) by simp
  ultimately have "limbs_val a div limb_base ^ ?w = limbs_val (drop ?w a)" using limb_base_pos by simp
  moreover have "(2 :: nat) ^ bits = limb_base ^ ?w * 2 ^ ?p"
    by (simp only: limb_base_def power_mult [symmetric] power_add [symmetric] mult_div_mod_eq)
  ultimately have "limbs_val a div 2 ^ bits = limbs_val (drop ?w a) div 2 ^ ?p" by (simp add: div_mult2_eq)
  then show ?thesis using w assms(1)
    by (simp add: shr_limbs_part [OF assms] limbs_val_append shr_part_val)
qed

fun shl_part :: "nat \<Rightarrow> limbs \<Rightarrow> u64 \<Rightarrow> limbs" where
  "shl_part p [] c = []"
| "shl_part p (x # xs) c = (push_bit p x OR c) # shl_part p xs (if p = 0 then 0 else drop_bit (64 - p) x)"

lemma length_shl_part [simp]: "length (shl_part p xs c) = length xs"
  by (induction p xs c rule: shl_part.induct) simp_all

lemma shl_part_val:
  "p < 64 \<Longrightarrow> unat c < 2 ^ p \<Longrightarrow> \<exists>k. limbs_val (shl_part p xs c) + limb_base ^ length xs * k = 2 ^ p * limbs_val xs + unat c"
proof (induction p xs c rule: shl_part.induct)
  case (1 p c)
  then show ?case by (intro exI [of _ "unat c"]) simp
next
  case (2 p x xs c)
  let ?c = "if p = 0 then 0 else drop_bit (64 - p) x"
  have base: "limb_base = 2 ^ p * 2 ^ (64 - p)" using 2(2) by (intro split_base) simp
  have carry: "unat ?c = unat x div 2 ^ (64 - p)"
    using unat_base [of x] by (auto simp: unat_drop_bit limb_base_def)
  have "unat x < 2 ^ p * 2 ^ (64 - p)" using unat_base [of x] base by simp
  then have "unat ?c < 2 ^ p" unfolding carry by (rule less_mult_imp_div_less)
  from 2(1) [OF 2(2) this] obtain k where
    k: "limbs_val (shl_part p xs ?c) + limb_base ^ length xs * k = 2 ^ p * limbs_val xs + unat ?c" by blast
  have head: "unat (push_bit p x OR c) + limb_base * unat ?c = 2 ^ p * unat x + unat c"
  proof -
    have "unat (push_bit p x OR c) = 2 ^ p * (unat x mod 2 ^ (64 - p)) + unat c"
      by (rule shifted_limb) (use 2(2,3) in simp_all)
    moreover have "limb_base * unat ?c = 2 ^ p * (2 ^ (64 - p) * (unat x div 2 ^ (64 - p)))"
      by (simp only: carry base mult.assoc)
    moreover have "2 ^ p * (unat x mod 2 ^ (64 - p)) + 2 ^ p * (2 ^ (64 - p) * (unat x div 2 ^ (64 - p))) = 2 ^ p * unat x"
      by (simp only: distrib_left [symmetric] mod_mult_div_eq)
    ultimately show ?thesis by linarith
  qed
  have "limbs_val (shl_part p (x # xs) c) + limb_base ^ length (x # xs) * k =
      unat (push_bit p x OR c) + limb_base * (limbs_val (shl_part p xs ?c) + limb_base ^ length xs * k)"
    by (simp add: algebra_simps)
  also have "\<dots> = (unat (push_bit p x OR c) + limb_base * unat ?c) + limb_base * (2 ^ p * limbs_val xs)"
    unfolding k by (simp only: algebra_simps)
  also have "\<dots> = 2 ^ p * limbs_val (x # xs) + unat c" unfolding head by (simp add: algebra_simps)
  finally show ?case by blast
qed

lemma shl_limbs_part:
  assumes "length a = 4" "bits < 256"
  shows "shl_limbs a bits = replicate (bits div 64) 0 @ take (4 - bits div 64) (shl_part (bits mod 64) a 0)"
proof -
  obtain x y z u where a: "a = [x, y, z, u]" using assms(1) by (auto simp: numeral_eq_Suc length_Suc_conv)
  have "bits div 64 < 4" using assms(2) by (simp add: less_mult_imp_div_less)
  then consider "bits div 64 = 0" | "bits div 64 = 1" | "bits div 64 = 2" | "bits div 64 = 3" by linarith
  then show ?thesis
    by cases (use assms(2) a in \<open>simp_all add: shl_limbs_def Let_def four_limbs\<close>)
qed

lemma shl_limbs_val:
  assumes "length a = 4" "bits < 256" "limbs_val a * 2 ^ bits < limb_base ^ 4"
  shows "length (shl_limbs a bits) = 4 \<and> limbs_val (shl_limbs a bits) = limbs_val a * 2 ^ bits"
proof -
  let ?w = "bits div 64" and ?p = "bits mod 64"
  have w: "?w < 4" using assms(2) by (simp add: less_mult_imp_div_less)
  have bits: "(2 :: nat) ^ bits = limb_base ^ ?w * 2 ^ ?p"
    by (simp only: limb_base_def power_mult [symmetric] power_add [symmetric] mult_div_mod_eq)
  obtain k where k: "limbs_val (shl_part ?p a 0) + limb_base ^ 4 * k = 2 ^ ?p * limbs_val a"
    using shl_part_val [of ?p 0 a] assms(1) by auto
  let ?s = "shl_part ?p a 0"
  have "limb_base ^ ?w * (2 ^ ?p * limbs_val a) < limb_base ^ 4" using assms(3) by (simp add: bits ac_simps)
  also have "limb_base ^ 4 = limb_base ^ ?w * limb_base ^ (4 - ?w)" using w by (simp add: power_add [symmetric])
  finally have less: "2 ^ ?p * limbs_val a < limb_base ^ (4 - ?w)" by simp
  also have "limb_base ^ (4 - ?w) \<le> limb_base ^ 4" using limb_base_pos by (intro power_increasing) simp_all
  finally have "k = 0" using k by (cases k) auto
  with k have all: "limbs_val ?s = 2 ^ ?p * limbs_val a" by simp
  have "limbs_val ?s = limbs_val (take (4 - ?w) ?s) + limb_base ^ (4 - ?w) * limbs_val (drop (4 - ?w) ?s)"
    using limbs_val_append [of "take (4 - ?w) ?s" "drop (4 - ?w) ?s"] w assms(1) by simp
  with all less have "limbs_val (drop (4 - ?w) ?s) = 0" "limbs_val (take (4 - ?w) ?s) = 2 ^ ?p * limbs_val a"
    by (cases "limbs_val (drop (4 - ?w) ?s)"; simp)+
  then show ?thesis using w assms(1)
    by (simp add: shl_limbs_part [OF assms(1,2)] limbs_val_append bits ac_simps)
qed

end
