(* ===== verification/WideMath.thy ===== *)
theory WideMath
  imports Limbs Outcome
begin

text \<open>
  Wide integer arithmetic (\<open>crates/types/src/math.rs\<close>): 256-bit values with a 512-bit
  intermediate, binary long division, the digit-by-digit square root, Stein's greatest
  common divisor, and the fraction and fixed-point operations over them. Each result is
  shown to be the exact one over the natural numbers.
\<close>

section \<open>The values\<close>

datatype Rounding = Down | Up

datatype MathError = DivideByZero | WideOverflow

definition math_abort :: "MathError \<Rightarrow> AbortReason" where
  "math_abort e = (case e of DivideByZero \<Rightarrow> A_MathDivideByZero | WideOverflow \<Rightarrow> A_MathOverflow)"

datatype U256 = U256 (u256_limbs: limbs)

definition U256_ZERO :: U256 where "U256_ZERO = U256 [0, 0, 0, 0]"

definition U256_ONE :: U256 where "U256_ONE = U256 [1, 0, 0, 0]"

definition from_u128 :: "u128 \<Rightarrow> U256" where
  "from_u128 n = U256 [ucast n, ucast (drop_bit 64 n), 0, 0]"

definition to_u128 :: "U256 \<Rightarrow> u128 option" where
  "to_u128 a = (let l = u256_limbs a in
     if l ! 2 = 0 \<and> l ! 3 = 0 then Some (ucast (l ! 0) OR push_bit 64 (ucast (l ! 1))) else None)"

definition u256_is_zero :: "U256 \<Rightarrow> bool" where
  "u256_is_zero a = (u256_limbs a = [0, 0, 0, 0])"

definition u256_checked_add :: "U256 \<Rightarrow> U256 \<Rightarrow> U256 option" where
  "u256_checked_add a b = (let (out, carry) = add_limbs (u256_limbs a) (u256_limbs b) in
     if carry then None else Some (U256 out))"

definition u256_checked_sub :: "U256 \<Rightarrow> U256 \<Rightarrow> U256 option" where
  "u256_checked_sub a b = (let (out, borrow) = sub_limbs (u256_limbs a) (u256_limbs b) in
     if borrow then None else Some (U256 out))"

datatype U512 = U512 (u512_limbs: limbs)

definition widening_mul :: "U256 \<Rightarrow> U256 \<Rightarrow> U512" where
  "widening_mul a b = U512 (mul_limbs (u256_limbs a) (u256_limbs b))"

text \<open>\<open>u64::trailing_zeros\<close>.\<close>

definition limb_trailing_zeros :: "u64 \<Rightarrow> nat" where
  "limb_trailing_zeros x = length (takeWhile (\<lambda>i. \<not> bit x i) [0..<64])"

fun trailing_loop :: "limbs \<Rightarrow> nat \<Rightarrow> nat" where
  "trailing_loop [] i = 256"
| "trailing_loop (x # xs) i = (if x \<noteq> 0 then i * 64 + limb_trailing_zeros x else trailing_loop xs (i + 1))"

definition u256_trailing_zeros :: "U256 \<Rightarrow> nat" where
  "u256_trailing_zeros a = trailing_loop (u256_limbs a) 0"

definition u256_shr :: "U256 \<Rightarrow> nat \<Rightarrow> U256" where
  "u256_shr a bits = U256 (shr_limbs (u256_limbs a) bits)"

definition u256_cmp :: "U256 \<Rightarrow> U256 \<Rightarrow> Ordering" where
  "u256_cmp a b = cmp_limbs (u256_limbs a) (u256_limbs b)"

definition from_u256 :: "U256 \<Rightarrow> U512" where
  "from_u256 a = U512 (u256_limbs a @ [0, 0, 0, 0])"

definition u512_split :: "U512 \<Rightarrow> U256 \<times> bool" where
  "u512_split n = (let l = u512_limbs n; high = l ! 4 OR l ! 5 OR l ! 6 OR l ! 7 in (U256 (take 4 l), high \<noteq> 0))"

definition u512_narrow :: "U512 \<Rightarrow> U256 option" where
  "u512_narrow n = (case u512_split n of (low, False) \<Rightarrow> Some low | (_, True) \<Rightarrow> None)"

definition u512_bit :: "U512 \<Rightarrow> nat \<Rightarrow> bool" where
  "u512_bit n index = (drop_bit (index mod 64) (u512_limbs n ! (index div 64)) AND 1 = 1)"

definition u512_cmp :: "U512 \<Rightarrow> U512 \<Rightarrow> Ordering" where
  "u512_cmp a b = cmp_limbs (u512_limbs a) (u512_limbs b)"


section \<open>Long division and the square root\<close>

text \<open>The low limb with bits set in it.\<close>

definition set_low :: "u64 \<Rightarrow> limbs \<Rightarrow> limbs" where
  "set_low v l = l[0 := l ! 0 OR v]"

definition div_step :: "U512 \<Rightarrow> U256 \<Rightarrow> nat \<Rightarrow> limbs \<times> limbs \<Rightarrow> limbs \<times> limbs" where
  "div_step n divisor index st =
    (let (quotient, remainder) = st;
         carried = (drop_bit 63 (remainder ! 3) = 1);
         shifted = shl_one remainder;
         remainder' = (if u512_bit n index then set_low 1 shifted else shifted)
     in if carried \<or> cmp_limbs remainder' (u256_limbs divisor) \<noteq> Less
        then (quotient[index div 64 := quotient ! (index div 64) OR push_bit (index mod 64) 1],
              fst (sub_limbs remainder' (u256_limbs divisor)))
        else (quotient, remainder'))"

text \<open>The bits from the highest down: \<open>Suc i\<close> bits are left when bit \<open>i\<close> is next.\<close>

primrec div_loop :: "U512 \<Rightarrow> U256 \<Rightarrow> nat \<Rightarrow> limbs \<times> limbs \<Rightarrow> limbs \<times> limbs" where
  "div_loop n divisor 0 st = st"
| "div_loop n divisor (Suc i) st = div_loop n divisor i (div_step n divisor i st)"

text \<open>None where the source asserts.\<close>

definition div_rem :: "U512 \<Rightarrow> U256 \<Rightarrow> (U512 \<times> U256) option" where
  "div_rem n divisor =
    (if u256_is_zero divisor then None
     else let (quotient, remainder) = div_loop n divisor 512 (replicate 8 0, [0, 0, 0, 0])
          in Some (U512 quotient, U256 remainder))"

definition isqrt_step :: "U512 \<Rightarrow> nat \<Rightarrow> limbs \<times> limbs \<Rightarrow> limbs \<times> limbs" where
  "isqrt_step n shift st =
    (let (root, remainder) = st;
         remainder = shl_one (shl_one remainder);
         remainder = set_low (if u512_bit n (shift + 1) then 2 else 0) remainder;
         remainder = set_low (if u512_bit n shift then 1 else 0) remainder;
         root = shl_one root;
         trial = set_low 1 (shl_one (u512_limbs (from_u256 (U256 root))))
     in if cmp_limbs remainder trial \<noteq> Less
        then (set_low 1 root, fst (sub_limbs remainder trial))
        else (root, remainder))"

text \<open>256 steps; with \<open>Suc k\<close> of them left the step is number \<open>255 - k\<close>.\<close>

primrec isqrt_loop :: "U512 \<Rightarrow> nat \<Rightarrow> limbs \<times> limbs \<Rightarrow> limbs \<times> limbs" where
  "isqrt_loop n 0 st = st"
| "isqrt_loop n (Suc k) st = isqrt_loop n k (isqrt_step n (510 - (255 - k) * 2) st)"

definition isqrt :: "U512 \<Rightarrow> U256" where
  "isqrt n = U256 (fst (isqrt_loop n 256 ([0, 0, 0, 0], replicate 8 0)))"

section \<open>The operations of the interface\<close>

text \<open>None where a division by zero would panic; \<open>mul_div_exact\<close> below shows it does not.\<close>

definition mul_div :: "U256 \<Rightarrow> U256 \<Rightarrow> U256 \<Rightarrow> Rounding \<Rightarrow> (MathError, U256) result option" where
  "mul_div a b c rounding =
    (if u256_is_zero c then Some (Err DivideByZero)
     else case div_rem (widening_mul a b) c of
       None \<Rightarrow> None
     | Some (wide, remainder) \<Rightarrow>
         Some (and_then (ok_or WideOverflow (u512_narrow wide)) (\<lambda>narrow.
           case rounding of
             Down \<Rightarrow> Ok narrow
           | Up \<Rightarrow> if u256_is_zero remainder then Ok narrow
                   else ok_or WideOverflow (u256_checked_add narrow U256_ONE))))"

definition geometric_mean :: "U256 \<Rightarrow> U256 \<Rightarrow> U256" where
  "geometric_mean a b = isqrt (widening_mul a b)"

text \<open>The loop of \<open>gcd\<close>; None where it would not end.\<close>

partial_function (option) gcd_loop :: "U256 \<Rightarrow> U256 \<Rightarrow> U256 option" where
  "gcd_loop a b =
    (let (a, b) = (if u256_cmp a b = Greater then (b, a) else (a, b));
         b = U256 (fst (sub_limbs (u256_limbs b) (u256_limbs a)))
     in if u256_is_zero b then Some a else gcd_loop a (u256_shr b (u256_trailing_zeros b)))"

definition u256_gcd :: "U256 \<Rightarrow> U256 \<Rightarrow> U256 option" where
  "u256_gcd a b =
    (if u256_is_zero a then Some b
     else if u256_is_zero b then Some a
     else let shift = min (u256_trailing_zeros a) (u256_trailing_zeros b)
          in map_option (\<lambda>g. U256 (shl_limbs (u256_limbs g) shift))
               (gcd_loop (u256_shr a (u256_trailing_zeros a)) (u256_shr b (u256_trailing_zeros b))))"

definition reduced :: "U256 \<Rightarrow> U256 \<Rightarrow> U256 option" where
  "reduced a divisor = map_option (\<lambda>(q, _). case u512_narrow q of Some v \<Rightarrow> v | None \<Rightarrow> a) (div_rem (from_u256 a) divisor)"

definition reduce_pair :: "U256 \<Rightarrow> U256 \<Rightarrow> (U256 \<times> U256) option" where
  "reduce_pair a b = Option.bind (u256_gcd a b) (\<lambda>divisor.
     if u256_is_zero divisor \<or> divisor = U256_ONE then Some (a, b)
     else Option.bind (reduced a divisor) (\<lambda>a'. map_option (Pair a') (reduced b divisor)))"

definition fraction_compose ::
  "U256 \<Rightarrow> U256 \<Rightarrow> U256 \<Rightarrow> U256 \<Rightarrow> (MathError, U256 \<times> U256) result option" where
  "fraction_compose an ad bn bd =
    (if u256_is_zero ad \<or> u256_is_zero bd then Some (Err DivideByZero)
     else case (u512_narrow (widening_mul an bn), u512_narrow (widening_mul ad bd)) of
       (Some num, Some den) \<Rightarrow> Some (Ok (num, den))
     | _ \<Rightarrow>
         Option.bind (reduce_pair an bd) (\<lambda>(an, bd).
         Option.bind (reduce_pair bn ad) (\<lambda>(bn, ad).
         Some (and_then (ok_or WideOverflow (u512_narrow (widening_mul an bn))) (\<lambda>num.
           map_res (Pair num) (ok_or WideOverflow (u512_narrow (widening_mul ad bd))))))))"

definition fraction_cmp :: "U256 \<Rightarrow> U256 \<Rightarrow> U256 \<Rightarrow> U256 \<Rightarrow> (MathError, Ordering) result" where
  "fraction_cmp an ad bn bd =
    (if u256_is_zero ad \<or> u256_is_zero bd then Err DivideByZero
     else Ok (u512_cmp (widening_mul an bd) (widening_mul bn ad)))"

definition FIXED_SCALE :: U256 where
  "FIXED_SCALE = from_u128 1000000000000000000000000000000000000"

lemma half_less: "remaining \<noteq> 0 \<Longrightarrow> unat (drop_bit 1 remaining) < unat remaining" for remaining :: u32
  by (subst unat_drop_bit_eq) (simp add: drop_bit_eq_div unat_gt_0)

function fixed_pow_loop :: "U256 \<Rightarrow> U256 \<Rightarrow> u32 \<Rightarrow> Rounding \<Rightarrow> (MathError, U256) result option" where
  "fixed_pow_loop result factor remaining rounding =
    (if remaining = 0 then Some (Ok result)
     else case (if remaining AND 1 = 1 then mul_div result factor FIXED_SCALE rounding else Some (Ok result)) of
       None \<Rightarrow> None
     | Some (Err e) \<Rightarrow> Some (Err e)
     | Some (Ok result) \<Rightarrow>
         let remaining' = drop_bit 1 remaining
         in if remaining' = 0 then Some (Ok result)
            else case mul_div factor factor FIXED_SCALE rounding of
              None \<Rightarrow> None
            | Some (Err e) \<Rightarrow> Some (Err e)
            | Some (Ok factor) \<Rightarrow> fixed_pow_loop result factor remaining' rounding)"
  by pat_completeness auto

termination fixed_pow_loop
  by (relation "measure (\<lambda>(_, _, remaining, _). unat remaining)") (auto intro: half_less [simplified])

declare fixed_pow_loop.simps [simp del]

definition fixed_pow :: "U256 \<Rightarrow> u32 \<Rightarrow> Rounding \<Rightarrow> (MathError, U256) result option" where
  "fixed_pow base exp rounding = fixed_pow_loop FIXED_SCALE base exp rounding"

section \<open>What the values spell\<close>

definition u256_wf :: "U256 \<Rightarrow> bool" where
  "u256_wf a \<longleftrightarrow> length (u256_limbs a) = 4"

definition u256_val :: "U256 \<Rightarrow> nat" where
  "u256_val a = limbs_val (u256_limbs a)"

definition u512_wf :: "U512 \<Rightarrow> bool" where
  "u512_wf n \<longleftrightarrow> length (u512_limbs n) = 8"

definition u512_val :: "U512 \<Rightarrow> nat" where
  "u512_val n = limbs_val (u512_limbs n)"

lemma wide_base: "limb_base ^ 4 = 2 ^ 256" "limb_base ^ 8 = 2 ^ 512"
  by (simp_all add: limb_base_def)

lemma u256_bound: "u256_wf a \<Longrightarrow> u256_val a < limb_base ^ 4"
  using limbs_val_bound [of "u256_limbs a"] by (simp add: u256_wf_def u256_val_def)

lemma u256_zero_one [simp]:
  "u256_wf U256_ZERO" "u256_val U256_ZERO = 0" "u256_wf U256_ONE" "u256_val U256_ONE = 1"
  by (simp_all add: u256_wf_def u256_val_def U256_ZERO_def U256_ONE_def)

lemma u256_is_zero_val: "u256_wf a \<Longrightarrow> u256_is_zero a \<longleftrightarrow> u256_val a = 0"
  by (simp add: u256_wf_def u256_val_def u256_is_zero_def limbs_val_zero four_zeros)

lemma u256_eqI: "u256_wf a \<Longrightarrow> u256_wf b \<Longrightarrow> u256_val a = u256_val b \<Longrightarrow> a = b"
  by (cases a, cases b) (auto simp: u256_wf_def u256_val_def intro: limbs_val_inj)

lemma u256_checked_add_val:
  assumes "u256_wf a" "u256_wf b"
  shows "u256_checked_add a b = None \<longleftrightarrow> limb_base ^ 4 \<le> u256_val a + u256_val b"
    and "u256_checked_add a b = Some c \<Longrightarrow> u256_wf c \<and> u256_val c = u256_val a + u256_val b"
proof -
  obtain out carry where run: "add_limbs (u256_limbs a) (u256_limbs b) = (out, carry)" by fastforce
  note val = add_limbs_val [OF _ run] and bound = limbs_val_bound [of out]
  show "u256_checked_add a b = None \<longleftrightarrow> limb_base ^ 4 \<le> u256_val a + u256_val b"
    using val bound assms run by (auto simp: u256_checked_add_def u256_wf_def u256_val_def split: if_splits)
  show "u256_checked_add a b = Some c \<Longrightarrow> u256_wf c \<and> u256_val c = u256_val a + u256_val b"
    using val assms run by (auto simp: u256_checked_add_def u256_wf_def u256_val_def split: if_splits)
qed

lemma u256_checked_sub_val:
  assumes "u256_wf a" "u256_wf b"
  shows "u256_checked_sub a b = None \<longleftrightarrow> u256_val a < u256_val b"
    and "u256_checked_sub a b = Some c \<Longrightarrow> u256_wf c \<and> u256_val c = u256_val a - u256_val b"
proof -
  obtain out borrow where run: "sub_limbs (u256_limbs a) (u256_limbs b) = (out, borrow)" by fastforce
  note val = sub_limbs_val [OF _ run] and bound = limbs_val_bound [of out]
  show "u256_checked_sub a b = None \<longleftrightarrow> u256_val a < u256_val b"
    using val bound assms run by (auto simp: u256_checked_sub_def u256_wf_def u256_val_def split: if_splits)
  show "u256_checked_sub a b = Some c \<Longrightarrow> u256_wf c \<and> u256_val c = u256_val a - u256_val b"
    using val assms run by (auto simp: u256_checked_sub_def u256_wf_def u256_val_def split: if_splits)
qed

lemma widening_mul_val:
  "u256_wf a \<Longrightarrow> u256_wf b \<Longrightarrow> u512_wf (widening_mul a b) \<and> u512_val (widening_mul a b) = u256_val a * u256_val b"
  using mul_limbs_val by (simp add: u256_wf_def u256_val_def u512_wf_def u512_val_def widening_mul_def)

lemma u256_cmp_val:
  "u256_wf a \<Longrightarrow> u256_wf b \<Longrightarrow> u256_cmp a b =
    (if u256_val a < u256_val b then Less else if u256_val a > u256_val b then Greater else Equal)"
  by (simp add: u256_cmp_def u256_wf_def u256_val_def cmp_limbs_val)

lemma from_u256_val: "u256_wf a \<Longrightarrow> u512_wf (from_u256 a) \<and> u512_val (from_u256 a) = u256_val a"
  by (simp add: from_u256_def u256_wf_def u256_val_def u512_wf_def u512_val_def limbs_val_append)

lemma u512_narrow_val:
  assumes "u512_wf n"
  shows "u512_narrow n = None \<longleftrightarrow> limb_base ^ 4 \<le> u512_val n"
    and "u512_narrow n = Some a \<Longrightarrow> u256_wf a \<and> u256_val a = u512_val n"
proof -
  obtain low high where n: "u512_limbs n = low @ high" "length low = 4" "length high = 4"
    using assms by (intro that [of "take 4 (u512_limbs n)" "drop 4 (u512_limbs n)"]) (simp_all add: u512_wf_def)
  obtain x y z u where high: "high = [x, y, z, u]" using n(3) by (auto simp: numeral_eq_Suc length_Suc_conv)
  have zero: "x OR y OR z OR u = 0 \<longleftrightarrow> limbs_val high = 0"
    using limb_base_pos by (auto simp: high or_eq_0_iff unat_eq_zero)
  have val: "u512_val n = limbs_val low + limb_base ^ 4 * limbs_val high"
    by (simp add: u512_val_def n limbs_val_append)
  have split: "u512_split n = (U256 low, limbs_val high \<noteq> 0)"
    using n zero by (simp add: u512_split_def high nth_append Let_def)
  show "u512_narrow n = None \<longleftrightarrow> limb_base ^ 4 \<le> u512_val n"
    using limbs_val_bound [of low] n(2) by (cases "limbs_val high") (auto simp: u512_narrow_def split val)
  show "u512_narrow n = Some a \<Longrightarrow> u256_wf a \<and> u256_val a = u512_val n"
    by (auto simp: u512_narrow_def split val u256_wf_def u256_val_def n split: bool.splits)
qed

section \<open>Long division\<close>

lemma limb_at: "i < length xs \<Longrightarrow> limbs_val xs div limb_base ^ i mod limb_base = unat (xs ! i)"
proof (induction xs arbitrary: i)
  case (Cons x xs)
  show ?case
  proof (cases i)
    case 0
    then show ?thesis by (simp add: unat_base)
  next
    case (Suc j)
    have "(unat x + limb_base * limbs_val xs) div limb_base = limbs_val xs" using unat_base [of x] limb_base_pos by simp
    with Suc Cons show ?thesis by (simp add: div_mult2_eq)
  qed
qed simp

lemma power_index: "(2 :: nat) ^ i = limb_base ^ (i div 64) * 2 ^ (i mod 64)"
  by (simp only: limb_base_def power_mult [symmetric] power_add [symmetric] mult_div_mod_eq)

lemma limb_bits: "i < length xs \<Longrightarrow> unat (xs ! i) = take_bit 64 (drop_bit (64 * i) (limbs_val xs))"
  using limb_at [of i xs] by (simp add: limb_base_def take_bit_eq_mod drop_bit_eq_div power_mult)

lemma u512_bit_val:
  assumes "u512_wf n" "i < 512"
  shows "u512_bit n i \<longleftrightarrow> odd (u512_val n div 2 ^ i)"
proof -
  let ?w = "i div 64" and ?p = "i mod 64"
  have w: "?w < length (u512_limbs n)" using assms by (simp add: u512_wf_def less_mult_imp_div_less)
  have "u512_bit n i \<longleftrightarrow> bit (u512_limbs n ! ?w) ?p" by (simp add: u512_bit_def bit_iff_and_drop_bit_eq_1)
  also have "\<dots> \<longleftrightarrow> bit (unat (u512_limbs n ! ?w)) ?p" by (simp add: bit_unsigned_iff)
  also have "\<dots> \<longleftrightarrow> bit (u512_val n) (64 * ?w + ?p)"
    by (simp add: limb_bits [OF w] bit_take_bit_iff bit_drop_bit_eq u512_val_def)
  finally show ?thesis by (simp add: bit_iff_odd)
qed

text \<open>Setting a bit no larger bit of the number stands under.\<close>

lemma or_clear_bits:
  assumes "k \<le> 64" "2 ^ k dvd unat x" "unat v < 2 ^ k"
  shows "unat (x OR v :: u64) = unat x + unat v"
proof -
  obtain y where y: "unat x = y * 2 ^ k" using assms(2) by (auto simp: dvd_def mult.commute)
  have "unat (v OR x) = unat v OR push_bit k y" by (simp only: unsigned_or_eq y push_bit_eq_mult)
  also have "\<dots> = unat v + unat x" using or_push_bit [OF assms(3), of y] y by simp
  finally show ?thesis by (simp add: or.commute [of x v])
qed

lemma low_limb_dvd:
  assumes "xs \<noteq> []" "k \<le> 64" "2 ^ k dvd limbs_val xs"
  shows "2 ^ k dvd unat (xs ! 0)"
proof -
  obtain x ys where xs: "xs = x # ys" using assms(1) by (cases xs) auto
  have "(2 :: nat) ^ k dvd limb_base" unfolding limb_base_def using assms(2) by (rule le_imp_power_dvd)
  then have "2 ^ k dvd limb_base * limbs_val ys" by simp
  with assms(3) xs show ?thesis by (simp add: dvd_add_left_iff)
qed

lemma set_low_val:
  assumes "xs \<noteq> []" "k \<le> 64" "2 ^ k dvd limbs_val xs" "unat v < 2 ^ k"
  shows "length (set_low v xs) = length xs" "limbs_val (set_low v xs) = limbs_val xs + unat v"
  using limbs_val_update [of 0 xs "xs ! 0 OR v"] or_clear_bits [OF assms(2) low_limb_dvd [OF assms(1-3)] assms(4)] assms(1)
  by (simp_all add: set_low_def)

lemma set_bit_val:
  assumes "i div 64 < length xs" "2 ^ Suc i dvd limbs_val xs"
  shows "limbs_val (xs[i div 64 := xs ! (i div 64) OR push_bit (i mod 64) 1]) = limbs_val xs + 2 ^ i"
proof -
  let ?w = "i div 64" and ?p = "i mod 64"
  obtain m where m: "limbs_val xs = 2 ^ Suc i * m" using assms(2) by (auto simp: dvd_def)
  have "limbs_val xs div limb_base ^ ?w = 2 ^ Suc ?p * m"
    using limb_base_pos by (simp add: m power_index [of i] div_mult_self1_is_m ac_simps)
  then have "unat (xs ! ?w) = 2 ^ Suc ?p * m mod limb_base" using limb_at [OF assms(1)] by simp
  moreover have "(2 :: nat) ^ Suc ?p dvd limb_base" unfolding limb_base_def by (rule le_imp_power_dvd) simp
  ultimately have "2 ^ Suc ?p dvd unat (xs ! ?w)" by (simp only: dvd_mod_iff dvd_triv_left)
  moreover have one: "unat (push_bit ?p 1 :: u64) = 2 ^ ?p"
    using unat_push_bit [of ?p 1] by (simp add: take_bit_of_1 push_bit_eq_mult del: push_bit_of_1)
  ultimately have "unat (xs ! ?w OR push_bit ?p 1) = unat (xs ! ?w) + 2 ^ ?p"
    using or_clear_bits [of "Suc ?p" "xs ! ?w" "push_bit ?p 1"] by simp
  with limbs_val_update [OF assms(1), of "xs ! ?w OR push_bit ?p 1"] show ?thesis
    by (simp add: power_index [of i] algebra_simps)
qed

lemma top_bit:
  assumes "length xs = 4"
  shows "drop_bit 63 (xs ! 3) = 1 \<longleftrightarrow> limb_base ^ 4 \<le> 2 * limbs_val xs"
proof -
  obtain x y z u where xs: "xs = [x, y, z, u]" using assms by (auto simp: numeral_eq_Suc length_Suc_conv)
  have val: "limbs_val xs = limbs_val [x, y, z] + limb_base ^ 3 * unat u"
    using limbs_val_append [of "[x, y, z]" "[u]"] by (simp add: xs numeral_eq_Suc)
  have low: "limbs_val [x, y, z] < limb_base ^ 3" using limbs_val_bound [of "[x, y, z]"] by (simp add: numeral_eq_Suc)
  have half: "limb_base ^ 4 = 2 * (limb_base ^ 3 * 2 ^ 63)" by (simp add: limb_base_def)
  have "drop_bit 63 u = 1 \<longleftrightarrow> unat u div 2 ^ 63 = 1" by (simp add: word_unat_eq_iff unat_drop_bit)
  also have "\<dots> \<longleftrightarrow> 2 ^ 63 \<le> unat u"
    using unat_base [of u] by (auto simp: limb_base_def div_nat_eqI)
  also have "\<dots> \<longleftrightarrow> limb_base ^ 3 * 2 ^ 63 \<le> limbs_val xs"
  proof
    assume "2 ^ 63 \<le> unat u"
    then have "limb_base ^ 3 * 2 ^ 63 \<le> limb_base ^ 3 * unat u" by (rule mult_left_mono) simp
    then show "limb_base ^ 3 * 2 ^ 63 \<le> limbs_val xs" unfolding val by (rule trans_le_add2)
  next
    assume "limb_base ^ 3 * 2 ^ 63 \<le> limbs_val xs"
    also have "\<dots> < limb_base ^ 3 * Suc (unat u)" unfolding val using low by simp
    finally have "2 ^ 63 < Suc (unat u)" by (simp only: mult_less_cancel1)
    then show "2 ^ 63 \<le> unat u" by simp
  qed
  finally have "drop_bit 63 u = 1 \<longleftrightarrow> limb_base ^ 3 * 2 ^ 63 \<le> limbs_val xs" .
  moreover have "limb_base ^ 4 \<le> 2 * limbs_val xs \<longleftrightarrow> limb_base ^ 3 * 2 ^ 63 \<le> limbs_val xs"
    unfolding half by (intro iffI; linarith)
  moreover have "xs ! 3 = u" by (simp add: xs)
  ultimately show ?thesis by (simp only:)
qed

definition div_inv :: "nat \<Rightarrow> nat \<Rightarrow> nat \<Rightarrow> limbs \<times> limbs \<Rightarrow> bool" where
  "div_inv N D i st \<longleftrightarrow> length (fst st) = 8 \<and> length (snd st) = 4 \<and> limbs_val (snd st) < D \<and>
     (\<exists>m. limbs_val (fst st) = 2 ^ i * m \<and> N div 2 ^ i = m * D + limbs_val (snd st))"

lemma halves: "x = 2 * (x div 2) + of_bool (odd x)" for x :: nat
  by (cases "even x") (auto elim!: evenE oddE)

lemma double_mod: "x < b \<Longrightarrow> 2 * x mod b + (if b \<le> 2 * x then b else 0) = 2 * x" for x b :: nat
  by (auto simp: mod_if)

text \<open>Bringing the next bit down: the remainder doubled, the bit below it, and the carry past the width.\<close>

lemma bring_down:
  assumes "length r = 4" "r' = (if b then set_low 1 (shl_one r) else shl_one r)"
  shows "length r' = 4" "limbs_val r' + (if drop_bit 63 (r ! 3) = 1 then limb_base ^ 4 else 0) = 2 * limbs_val r + of_bool b"
proof -
  have "limbs_val r < limb_base ^ 4" using limbs_val_bound [of r] assms(1) by simp
  then have shl: "limbs_val (shl_one r) + (if drop_bit 63 (r ! 3) = 1 then limb_base ^ 4 else 0) = 2 * limbs_val r"
    using shl_one_val(2) [of r] assms(1) top_bit [OF assms(1)] double_mod [of "limbs_val r" "limb_base ^ 4"] by simp
  have base: "even (limb_base ^ 4)" by (simp add: limb_base_def)
  have "even (limbs_val (shl_one r) + (if drop_bit 63 (r ! 3) = 1 then limb_base ^ 4 else 0))" unfolding shl by simp
  with base have "even (limbs_val (shl_one r))" by (cases "drop_bit 63 (r ! 3) = 1") simp_all
  moreover have "shl_one r \<noteq> []" using shl_one_val(1) [of r] assms(1) by (cases "shl_one r") auto
  ultimately have "length (set_low 1 (shl_one r)) = 4 \<and> limbs_val (set_low 1 (shl_one r)) = limbs_val (shl_one r) + 1"
    using set_low_val [of "shl_one r" 1 1] shl_one_val(1) [of r] assms(1) by auto
  with shl assms shl_one_val(1) [of r]
  show "length r' = 4" "limbs_val r' + (if drop_bit 63 (r ! 3) = 1 then limb_base ^ 4 else 0) = 2 * limbs_val r + of_bool b"
    by (auto split: if_splits)
qed

lemma div_step_inv:
  assumes n: "u512_wf n" and c: "u256_wf c" and i: "i < 512"
    and inv: "div_inv (u512_val n) (u256_val c) (Suc i) (q, r)"
  shows "div_inv (u512_val n) (u256_val c) i (div_step n c i (q, r))"
proof -
  define r' where "r' = (if u512_bit n i then set_low 1 (shl_one r) else shl_one r)"
  let ?carried = "drop_bit 63 (r ! 3) = 1" and ?D = "u256_val c" and ?N = "u512_val n"
  from inv obtain m where len: "length q = 8" "length r = 4" and r: "limbs_val r < ?D"
    and m: "limbs_val q = 2 ^ Suc i * m" "?N div 2 ^ Suc i = m * ?D + limbs_val r" by (auto simp: div_inv_def)
  note down = bring_down [OF len(2) r'_def]
  have D: "?D < limb_base ^ 4" by (rule u256_bound [OF c])
  have next_: "?N div 2 ^ i = (2 * m) * ?D + (2 * limbs_val r + of_bool (u512_bit n i))"
  proof -
    have "?N div 2 ^ i = 2 * (?N div 2 ^ Suc i) + of_bool (odd (?N div 2 ^ i))"
      unfolding power_Suc2 div_mult2_eq by (rule halves)
    with m(2) u512_bit_val [OF n i] show ?thesis by (simp add: algebra_simps)
  qed
  have less: "2 * limbs_val r + of_bool (u512_bit n i) < 2 * ?D" using r by simp
  have cmp: "cmp_limbs r' (u256_limbs c) = Less \<longleftrightarrow> limbs_val r' < ?D"
    using cmp_limbs_val [of r' "u256_limbs c"] down(1) c by (simp add: u256_wf_def u256_val_def)
  have step: "div_step n c i (q, r) = (if ?carried \<or> \<not> limbs_val r' < ?D
      then (q[i div 64 := q ! (i div 64) OR push_bit (i mod 64) 1], fst (sub_limbs r' (u256_limbs c))) else (q, r'))"
    by (simp only: div_step_def Let_def prod.case r'_def [symmetric] cmp)
  show ?thesis
  proof (cases "?carried \<or> \<not> limbs_val r' < ?D")
    case True
    obtain out borrow where sub: "sub_limbs r' (u256_limbs c) = (out, borrow)" by fastforce
    have out: "length out = 4" "limbs_val out + ?D = limbs_val r' + (if borrow then limb_base ^ 4 else 0)"
      using sub_limbs_val [OF _ sub] down(1) c by (auto simp: u256_wf_def u256_val_def)
    have "limbs_val out < limb_base ^ 4" using limbs_val_bound [of out] out(1) by simp
    then have sum: "limbs_val out + ?D = 2 * limbs_val r + of_bool (u512_bit n i)"
      using True out(2) down(2) less D by (auto split: if_splits)
    have "limbs_val (q[i div 64 := q ! (i div 64) OR push_bit (i mod 64) 1]) = limbs_val q + 2 ^ i"
      by (rule set_bit_val) (use len(1) i m(1) in \<open>auto simp: less_mult_imp_div_less\<close>)
    then have "limbs_val (q[i div 64 := q ! (i div 64) OR push_bit (i mod 64) 1]) = 2 ^ i * (2 * m + 1)"
      using m(1) by (simp add: algebra_simps)
    moreover have "?N div 2 ^ i = (2 * m + 1) * ?D + limbs_val out" using next_ sum by (simp add: algebra_simps)
    ultimately show ?thesis using True sub out(1) len(1) sum less
      unfolding div_inv_def by (auto simp: step simp del: mult_Suc_right push_bit_of_1 intro!: exI [of _ "2 * m + 1"])
  next
    case False
    then have "limbs_val r' = 2 * limbs_val r + of_bool (u512_bit n i)" using down(2) by simp
    with False next_ m(1) len(1) down(1) show ?thesis
      by (auto simp: step div_inv_def intro!: exI [of _ "2 * m"])
  qed
qed

lemma div_loop_inv:
  "u512_wf n \<Longrightarrow> u256_wf c \<Longrightarrow> i \<le> 512 \<Longrightarrow> div_inv (u512_val n) (u256_val c) i st \<Longrightarrow>
   div_inv (u512_val n) (u256_val c) 0 (div_loop n c i st)"
proof (induction i arbitrary: st)
  case (Suc i)
  then show ?case using div_step_inv [of n c i "fst st" "snd st"] by simp
qed simp

lemma div_rem_val:
  assumes "u512_wf n" "u256_wf c" "0 < u256_val c"
  shows "\<exists>q r. div_rem n c = Some (q, r) \<and> u512_wf q \<and> u512_val q = u512_val n div u256_val c \<and>
    u256_wf r \<and> u256_val r = u512_val n mod u256_val c"
proof -
  have "u512_val n < 2 ^ 512" using limbs_val_bound [of "u512_limbs n"] assms(1) wide_base(2) by (simp add: u512_wf_def u512_val_def)
  then have "div_inv (u512_val n) (u256_val c) 512 (replicate 8 0, [0, 0, 0, 0])"
    using assms(3) by (simp add: div_inv_def)
  from div_loop_inv [OF assms(1,2) order_refl this] obtain q r where
    run: "div_loop n c 512 (replicate 8 0, [0, 0, 0, 0]) = (q, r)" and inv: "div_inv (u512_val n) (u256_val c) 0 (q, r)"
    by (metis surj_pair)
  then have "u512_val n = limbs_val q * u256_val c + limbs_val r" "limbs_val r < u256_val c" "length q = 8" "length r = 4"
    by (auto simp: div_inv_def)
  then show ?thesis using assms(2,3)
    by (simp add: div_rem_def run u256_is_zero_val u512_wf_def u512_val_def u256_wf_def u256_val_def)
qed

section \<open>The square root\<close>

definition isqrt_inv :: "nat \<Rightarrow> nat \<Rightarrow> limbs \<times> limbs \<Rightarrow> bool" where
  "isqrt_inv N k st \<longleftrightarrow> length (fst st) = 4 \<and> length (snd st) = 8 \<and> limbs_val (fst st) < 2 ^ (256 - k) \<and>
     limbs_val (fst st) * limbs_val (fst st) + limbs_val (snd st) = N div 4 ^ k \<and>
     limbs_val (snd st) \<le> 2 * limbs_val (fst st)"

lemma shl_one_fits:
  assumes "2 * limbs_val xs < limb_base ^ length xs"
  shows "limbs_val (shl_one xs) = 2 * limbs_val xs"
  using shl_one_val(2) [of xs] assms by simp

lemma two_bits:
  "N div 4 ^ k = 4 * (N div 4 ^ Suc k) + 2 * of_bool (odd (N div 2 ^ (2 * k + 1))) + of_bool (odd (N div 2 ^ (2 * k)))" for N :: nat
proof -
  have four: "(4 :: nat) ^ k = 2 ^ (2 * k)" by (simp add: power_mult)
  have "N div 4 ^ Suc k = N div 4 ^ k div 2 div 2" by (simp add: div_mult2_eq [symmetric] mult.commute)
  moreover have "N div 2 ^ (2 * k + 1) = N div 4 ^ k div 2" by (simp add: four div_mult2_eq [symmetric] mult.commute)
  ultimately show ?thesis using halves [of "N div 4 ^ k"] halves [of "N div 4 ^ k div 2"] by (simp add: four)
qed

lemma isqrt_step_inv:
  assumes n: "u512_wf n" and k: "k < 256" and inv: "isqrt_inv (u512_val n) (Suc k) (root, rem)"
  shows "isqrt_inv (u512_val n) k (isqrt_step n (2 * k) (root, rem))"
proof -
  let ?N = "u512_val n" and ?r = "limbs_val root" and ?e = "limbs_val rem"
  let ?b1 = "u512_bit n (2 * k + 1)" and ?b0 = "u512_bit n (2 * k)"
  from inv have len: "length root = 4" "length rem = 8" and r: "?r < 2 ^ (256 - Suc k)"
    and sq: "?r * ?r + ?e = ?N div 4 ^ Suc k" and e: "?e \<le> 2 * ?r" by (auto simp: isqrt_inv_def)
  have r2: "2 * ?r < 2 ^ (256 - k)" using r k by (simp add: Suc_diff_Suc [symmetric])
  also have "(2 :: nat) ^ (256 - k) \<le> 2 ^ 256" by (rule power_increasing) simp_all
  finally have r4: "2 * ?r < limb_base ^ 4" unfolding wide_base .
  have e8: "4 * ?e < limb_base ^ 8" "4 * ?r < limb_base ^ 8" using e r4 by (simp_all add: limb_base_def)
  define r1 where "r1 = shl_one (shl_one rem)"
  define rem2 where "rem2 = set_low (if ?b1 then 2 else 0) r1"
  define rem3 where "rem3 = set_low (if ?b0 then 1 else 0) rem2"
  have "limbs_val (shl_one rem) = 2 * ?e" by (rule shl_one_fits) (use e8 len in simp)
  then have r1: "length r1 = 8" "limbs_val r1 = 4 * ?e"
    using shl_one_val(1) [of "shl_one rem"] shl_one_val(1) [of rem] shl_one_fits [of "shl_one rem"] e8 len by (simp_all add: r1_def)
  then have "r1 \<noteq> []" by auto
  from set_low_val [OF this, of 2 "if ?b1 then 2 else 0"] r1 have rem2: "length rem2 = 8" "limbs_val rem2 = 4 * ?e + 2 * of_bool ?b1"
    by (simp_all add: rem2_def)
  then have "rem2 \<noteq> []" by auto
  from set_low_val [OF this, of 1 "if ?b0 then 1 else 0"] rem2
  have rem3: "length rem3 = 8" "limbs_val rem3 = 4 * ?e + 2 * of_bool ?b1 + of_bool ?b0"
    by (simp_all add: rem3_def)
  define root2 where "root2 = shl_one root"
  have root2: "length root2 = 4" "limbs_val root2 = 2 * ?r"
    using shl_one_val(1) [of root] shl_one_fits [of root] r4 len by (simp_all add: root2_def)
  define trial where "trial = set_low 1 (shl_one (u512_limbs (from_u256 (U256 root2))))"
  have "length (root2 @ [0, 0, 0, 0]) = 8" "limbs_val (root2 @ [0, 0, 0, 0]) = 2 * ?r"
    using root2 by (simp_all add: limbs_val_append)
  then have "length (shl_one (root2 @ [0, 0, 0, 0])) = 8" "limbs_val (shl_one (root2 @ [0, 0, 0, 0])) = 4 * ?r"
    using shl_one_val(1) [of "root2 @ [0, 0, 0, 0]"] shl_one_fits [of "root2 @ [0, 0, 0, 0]"] e8 by simp_all
  with set_low_val [of "shl_one (root2 @ [0, 0, 0, 0])" 1 1] have trial: "length trial = 8" "limbs_val trial = 4 * ?r + 1"
    by (fastforce simp: trial_def from_u256_def)+
  have two: "?N div 4 ^ k = 4 * (?r * ?r + ?e) + 2 * of_bool ?b1 + of_bool ?b0"
    using two_bits [of ?N k] u512_bit_val [OF n, of "2 * k"] u512_bit_val [OF n, of "2 * k + 1"] k sq by simp
  have step: "isqrt_step n (2 * k) (root, rem) =
      (if cmp_limbs rem3 trial \<noteq> Less then (set_low 1 root2, fst (sub_limbs rem3 trial)) else (root2, rem3))"
    by (simp only: isqrt_step_def Let_def prod.case r1_def [symmetric] rem2_def [symmetric] rem3_def [symmetric]
        root2_def [symmetric] trial_def [symmetric])
  have cmp: "cmp_limbs rem3 trial = Less \<longleftrightarrow> limbs_val rem3 < limbs_val trial" using cmp_limbs_val rem3 trial by simp
  show ?thesis
  proof (cases "cmp_limbs rem3 trial = Less")
    case True
    then show ?thesis using step cmp rem3 trial root2 two r2 by (simp add: isqrt_inv_def)
  next
    case False
    obtain out borrow where sub: "sub_limbs rem3 trial = (out, borrow)" by fastforce
    have "length out = 8" "limbs_val out + limbs_val trial = limbs_val rem3"
      using sub_limbs_val [OF _ sub] limbs_val_bound [of out] rem3 trial False cmp by (auto split: if_splits)
    moreover have "length (set_low 1 root2) = 4" "limbs_val (set_low 1 root2) = 2 * ?r + 1"
      using set_low_val [of root2 1 1] root2 by fastforce+
    moreover have "2 * ?r + 1 < 2 ^ (256 - k)" using r k by (simp add: Suc_diff_Suc [symmetric])
    moreover have "2 * of_bool ?b1 + of_bool ?b0 \<le> (3 :: nat)" by simp
    ultimately show ?thesis using step False sub rem3 trial two e
      by (simp add: isqrt_inv_def algebra_simps)
  qed
qed

lemma isqrt_loop_inv:
  "u512_wf n \<Longrightarrow> k \<le> 256 \<Longrightarrow> isqrt_inv (u512_val n) k st \<Longrightarrow> isqrt_inv (u512_val n) 0 (isqrt_loop n k st)"
proof (induction k arbitrary: st)
  case (Suc k)
  have "510 - (255 - k) * 2 = 2 * k" using Suc.prems(2) by simp
  with isqrt_step_inv [of n k "fst st" "snd st"] Suc show ?case by simp
qed simp

lemma isqrt_val:
  assumes "u512_wf n"
  shows "u256_wf (isqrt n) \<and> (u256_val (isqrt n))\<^sup>2 \<le> u512_val n \<and> u512_val n < (u256_val (isqrt n) + 1)\<^sup>2"
proof -
  have "u512_val n < 2 ^ 512" using limbs_val_bound [of "u512_limbs n"] assms wide_base(2) by (simp add: u512_wf_def u512_val_def)
  then have "isqrt_inv (u512_val n) 256 ([0, 0, 0, 0], replicate 8 0)" by (simp add: isqrt_inv_def)
  from isqrt_loop_inv [OF assms order_refl this] obtain r e where
    "isqrt_loop n 256 ([0, 0, 0, 0], replicate 8 0) = (r, e)" "isqrt_inv (u512_val n) 0 (r, e)"
    by (metis surj_pair)
  then show ?thesis by (auto simp: isqrt_inv_def isqrt_def u256_wf_def u256_val_def power2_eq_square algebra_simps)
qed

section \<open>The greatest common divisor\<close>

lemma low_bits_dvd: "(\<And>j. j < k \<Longrightarrow> \<not> bit x j) \<Longrightarrow> 2 ^ k dvd x" for x :: nat
proof -
  assume "\<And>j. j < k \<Longrightarrow> \<not> bit x j"
  then have "take_bit k x = 0" by (intro bit_eqI) (auto simp: bit_take_bit_iff)
  then show ?thesis by (simp add: take_bit_eq_mod mod_eq_0_iff_dvd)
qed

lemma limb_trailing_zeros_val:
  assumes "x \<noteq> 0"
  shows "limb_trailing_zeros x < 64" "2 ^ limb_trailing_zeros x dvd unat x" "odd (unat x div 2 ^ limb_trailing_zeros x)"
proof -
  let ?k = "limb_trailing_zeros x"
  obtain i where i: "i < 64" "bit x i" using assms by (auto simp: bit_eq_iff dest: bit_imp_le_length)
  have below: "\<not> bit x j" if "j < ?k" for j
  proof -
    have "takeWhile (\<lambda>i. \<not> bit x i) [0..<64] ! j = [0..<64] ! j"
      using that unfolding limb_trailing_zeros_def by (rule takeWhile_nth)
    moreover have "?k \<le> 64" unfolding limb_trailing_zeros_def using length_takeWhile_le [of _ "[0..<64]"] by simp
    ultimately have "j \<in> set (takeWhile (\<lambda>i. \<not> bit x i) [0..<64])"
      using that nth_mem [of j "takeWhile (\<lambda>i. \<not> bit x i) [0..<64]"] by (simp add: limb_trailing_zeros_def)
    then show ?thesis by (rule set_takeWhileD [THEN conjunct2])
  qed
  then show less: "?k < 64" using i by (meson not_le order_less_le_trans)
  then have "bit x ?k" using nth_length_takeWhile [of "\<lambda>i. \<not> bit x i" "[0..<64]"] by (simp add: limb_trailing_zeros_def)
  with less below show "2 ^ ?k dvd unat x" "odd (unat x div 2 ^ ?k)"
    by (auto intro!: low_bits_dvd simp: bit_unsigned_iff bit_iff_odd [symmetric])
qed

lemma trailing_loop_val:
  "limbs_val xs \<noteq> 0 \<Longrightarrow> \<exists>t. trailing_loop xs i = i * 64 + t \<and> t < 64 * length xs \<and> 2 ^ t dvd limbs_val xs \<and> odd (limbs_val xs div 2 ^ t)"
proof (induction xs arbitrary: i)
  case (Cons x xs)
  show ?case
  proof (cases "x = 0")
    case True
    with Cons.IH [of "i + 1"] Cons.prems obtain t where t: "trailing_loop xs (i + 1) = (i + 1) * 64 + t" "t < 64 * length xs"
      "2 ^ t dvd limbs_val xs" "odd (limbs_val xs div 2 ^ t)" by auto
    have "(2 :: nat) ^ (64 + t) = limb_base * 2 ^ t" by (simp only: power_add limb_base_def)
    moreover from this have "limb_base * limbs_val xs div 2 ^ (64 + t) = limbs_val xs div 2 ^ t"
      using limb_base_pos by simp
    ultimately show ?thesis using True t by (intro exI [of _ "64 + t"]) auto
  next
    case False
    let ?t = "limb_trailing_zeros x"
    note tz = limb_trailing_zeros_val [OF False]
    have base: "limb_base = 2 ^ ?t * 2 ^ (64 - ?t)" using tz(1) by (intro split_base) simp
    have "(unat x + 2 ^ ?t * u) div 2 ^ ?t = unat x div 2 ^ ?t + u" for u by simp
    then have "(unat x + limb_base * limbs_val xs) div 2 ^ ?t = unat x div 2 ^ ?t + 2 ^ (64 - ?t) * limbs_val xs"
      by (simp only: base mult.assoc)
    moreover have "even ((2 :: nat) ^ (64 - ?t))" using tz(1) by simp
    ultimately have "odd ((unat x + limb_base * limbs_val xs) div 2 ^ ?t)" using tz(3) by simp
    moreover have "2 ^ ?t dvd unat x + limb_base * limbs_val xs" using tz(2) by (simp add: base)
    ultimately show ?thesis using False tz(1) by (intro exI [of _ ?t]) simp
  qed
qed simp

lemma odd_part:
  assumes "u256_wf a" "u256_val a \<noteq> 0"
  defines "t \<equiv> u256_trailing_zeros a"
  shows "t < 256" "u256_wf (u256_shr a t)" "odd (u256_val (u256_shr a t))" "u256_val a = 2 ^ t * u256_val (u256_shr a t)"
proof -
  have t: "t < 256" "2 ^ t dvd u256_val a" "odd (u256_val a div 2 ^ t)"
    using trailing_loop_val [of "u256_limbs a" 0] assms by (auto simp: u256_wf_def u256_val_def u256_trailing_zeros_def)
  then show "t < 256" by simp
  have "u256_wf (u256_shr a t) \<and> u256_val (u256_shr a t) = u256_val a div 2 ^ t"
    using shr_limbs_val [of "u256_limbs a" t] t(1) assms(1) by (simp add: u256_wf_def u256_val_def u256_shr_def)
  with t show "u256_wf (u256_shr a t)" "odd (u256_val (u256_shr a t))" "u256_val a = 2 ^ t * u256_val (u256_shr a t)"
    by auto
qed

lemma gcd_odd_cancel: "odd a \<Longrightarrow> gcd a (2 ^ t * b) = gcd a b" for a b :: nat
  by (rule gcd_mult_right_left_cancel) (simp add: coprime_commute)

lemma gcd_loop_val:
  "u256_wf a \<Longrightarrow> u256_wf b \<Longrightarrow> odd (u256_val a) \<Longrightarrow> odd (u256_val b) \<Longrightarrow>
   \<exists>g. gcd_loop a b = Some g \<and> u256_wf g \<and> u256_val g = gcd (u256_val a) (u256_val b)"
proof (induction "u256_val a + u256_val b" arbitrary: a b rule: less_induct)
  case less
  obtain x y where xy: "(if u256_cmp a b = Greater then (b, a) else (a, b)) = (x, y)"
    "u256_wf x" "u256_wf y" "odd (u256_val x)" "odd (u256_val y)" "u256_val x \<le> u256_val y"
    "u256_val x + u256_val y = u256_val a + u256_val b" "gcd (u256_val x) (u256_val y) = gcd (u256_val a) (u256_val b)"
    using less.prems by (cases "u256_cmp a b = Greater") (auto simp: u256_cmp_val gcd.commute split: if_splits)
  obtain out borrow where sub: "sub_limbs (u256_limbs y) (u256_limbs x) = (out, borrow)" by fastforce
  define d where "d = U256 out"
  have d: "u256_wf d" "u256_val d = u256_val y - u256_val x"
    using sub_limbs_val [OF _ sub] limbs_val_bound [of out] xy by (auto simp: d_def u256_wf_def u256_val_def split: if_splits)
  have run: "gcd_loop a b = (if u256_is_zero d then Some x else gcd_loop x (u256_shr d (u256_trailing_zeros d)))"
    by (subst gcd_loop.simps) (simp add: xy(1) sub d_def Let_def)
  show ?case
  proof (cases "u256_is_zero d")
    case True
    then have "u256_val x = u256_val y" using d xy(6) by (simp add: u256_is_zero_val)
    with True run xy show ?thesis by simp
  next
    case False
    then have "u256_val d \<noteq> 0" using d(1) by (simp add: u256_is_zero_val)
    note part = odd_part [OF d(1) this]
    let ?e = "u256_shr d (u256_trailing_zeros d)"
    have "u256_val ?e \<le> u256_val d" using part(4) by simp
    moreover have "0 < u256_val x" using xy(4) by (rule odd_pos)
    ultimately have "u256_val x + u256_val ?e < u256_val a + u256_val b"
      using d(2) xy(6,7) \<open>u256_val d \<noteq> 0\<close> by linarith
    from less.hyps [OF this xy(2) part(2) xy(4) part(3)] obtain g where
      g: "gcd_loop x ?e = Some g" "u256_wf g" "u256_val g = gcd (u256_val x) (u256_val ?e)" by blast
    have "gcd (u256_val x) (u256_val ?e) = gcd (u256_val x) (u256_val d)"
      using gcd_odd_cancel [OF xy(4), of "u256_trailing_zeros d" "u256_val ?e"] part(4) by simp
    also have "\<dots> = gcd (u256_val x) (u256_val y)" using gcd_diff1_nat [OF xy(6)] d(2) by (simp add: gcd.commute)
    finally show ?thesis using False run g xy(8) by simp
  qed
qed

lemma gcd_powers: "odd a \<Longrightarrow> odd b \<Longrightarrow> gcd (2 ^ s * a) (2 ^ t * b) = 2 ^ min s t * gcd a b" for a b :: nat
proof -
  have one: "gcd (2 ^ s * a) (2 ^ t * b) = 2 ^ s * gcd a b" if "odd a" "s \<le> t" for a b :: nat and s t
  proof -
    have "(2 :: nat) ^ t = 2 ^ s * 2 ^ (t - s)" using that(2) by (simp add: power_add [symmetric])
    then have "gcd (2 ^ s * a) (2 ^ t * b) = 2 ^ s * gcd a (2 ^ (t - s) * b)" by (simp add: gcd_mult_distrib_nat mult.assoc)
    with gcd_odd_cancel [OF that(1)] show ?thesis by simp
  qed
  assume "odd a" "odd b"
  then show ?thesis using one [of a s t b] one [of b t s a] by (cases "s \<le> t") (simp_all add: gcd.commute)
qed

lemma u256_gcd_val:
  assumes "u256_wf a" "u256_wf b"
  shows "\<exists>g. u256_gcd a b = Some g \<and> u256_wf g \<and> u256_val g = gcd (u256_val a) (u256_val b)"
proof (cases "u256_val a = 0 \<or> u256_val b = 0")
  case True
  then show ?thesis using assms by (auto simp: u256_gcd_def u256_is_zero_val)
next
  case False
  let ?s = "u256_trailing_zeros a" and ?t = "u256_trailing_zeros b"
  note A = odd_part [OF assms(1)] and B = odd_part [OF assms(2)]
  from False obtain g where g: "gcd_loop (u256_shr a ?s) (u256_shr b ?t) = Some g" "u256_wf g"
    "u256_val g = gcd (u256_val (u256_shr a ?s)) (u256_val (u256_shr b ?t))"
    using gcd_loop_val [OF A(2) B(2) A(3) B(3)] by blast
  have all: "gcd (u256_val a) (u256_val b) = 2 ^ min ?s ?t * u256_val g"
    using gcd_powers [OF A(3) B(3), of ?s ?t] A(4) B(4) g(3) False by simp
  have "gcd (u256_val a) (u256_val b) \<le> u256_val a" using False by (intro gcd_le1_nat) simp
  then have "limbs_val (u256_limbs g) * 2 ^ min ?s ?t < limb_base ^ 4"
    using all u256_bound [OF assms(1)] by (simp add: u256_val_def mult.commute)
  moreover have "min ?s ?t < 256" using A(1) False by simp
  ultimately have "length (shl_limbs (u256_limbs g) (min ?s ?t)) = 4 \<and>
      limbs_val (shl_limbs (u256_limbs g) (min ?s ?t)) = gcd (u256_val a) (u256_val b)"
    using shl_limbs_val [of "u256_limbs g" "min ?s ?t"] g(2) all by (simp add: u256_wf_def u256_val_def mult.commute)
  then show ?thesis using False g(1) assms by (simp add: u256_gcd_def u256_is_zero_val u256_wf_def u256_val_def)
qed

section \<open>The operations are exact\<close>

definition u256_limit :: nat where "u256_limit = 2 ^ 256"

lemma limit_base: "limb_base ^ 4 = u256_limit"
  by (simp add: wide_base u256_limit_def)

definition u256_of :: "nat \<Rightarrow> U256" where
  "u256_of n = U256 [word_of_nat n, word_of_nat (n div 2 ^ 64), word_of_nat (n div 2 ^ 128), word_of_nat (n div 2 ^ 192)]"

lemma limb_of_nat: "unat (word_of_nat n :: u64) = n mod limb_base"
  by (simp add: unat_of_nat limb_base_def)

lemma u256_of_digits:
  "u256_of n = U256 [word_of_nat n, word_of_nat (n div limb_base), word_of_nat (n div limb_base div limb_base),
     word_of_nat (n div limb_base div limb_base div limb_base)]"
  by (simp add: u256_of_def limb_base_def div_mult2_eq [symmetric])

lemma u256_of_val:
  assumes "n < u256_limit"
  shows "u256_wf (u256_of n) \<and> u256_val (u256_of n) = n"
proof -
  have step: "x mod limb_base + limb_base * (x div limb_base) = x" for x by (rule mod_mult_div_eq)
  have "n < limb_base * limb_base * limb_base * limb_base" using assms by (simp add: limit_base [symmetric] numeral_eq_Suc ac_simps)
  then have "n div limb_base div limb_base div limb_base < limb_base"
    by (simp add: less_mult_imp_div_less div_mult2_eq [symmetric] ac_simps)
  then show ?thesis
    by (simp add: u256_of_digits u256_wf_def u256_val_def limb_of_nat step)
qed

lemma u256_of_unique: "u256_wf a \<Longrightarrow> u256_val a = n \<Longrightarrow> a = u256_of n"
  using u256_of_val [of n] u256_bound [of a] by (intro u256_eqI) (auto simp: limit_base)

definition div_round :: "Rounding \<Rightarrow> nat \<Rightarrow> nat \<Rightarrow> nat" where
  "div_round rounding x y = (case rounding of Down \<Rightarrow> x div y | Up \<Rightarrow> (x + y - 1) div y)"

lemma div_up: "0 < y \<Longrightarrow> (x + y - Suc 0) div y = x div y + of_bool (x mod y \<noteq> 0)" for x y :: nat
proof -
  assume y: "0 < y"
  have eq: "x + y - Suc 0 = (x mod y + (y - 1)) + x div y * y" using y mod_mult_div_eq [of x y] by (simp add: algebra_simps)
  have "(x + y - Suc 0) div y = x div y + (x mod y + (y - 1)) div y"
    unfolding eq using y by (intro div_mult_self1) simp
  also have "(x mod y + (y - 1)) div y = of_bool (x mod y \<noteq> 0)"
    using y mod_less_divisor [OF y, of x] by (auto simp: div_nat_eqI)
  finally show ?thesis by simp
qed

lemma narrow_exact: "u512_wf n \<Longrightarrow> u512_narrow n = (if u512_val n < u256_limit then Some (u256_of (u512_val n)) else None)"
  using u512_narrow_val [of n] by (cases "u512_narrow n") (auto simp: limit_base dest: u256_bound intro!: u256_of_unique)

lemma checked_add_exact:
  "u256_wf a \<Longrightarrow> u256_wf b \<Longrightarrow> u256_checked_add a b =
    (if u256_val a + u256_val b < u256_limit then Some (u256_of (u256_val a + u256_val b)) else None)"
  using u256_checked_add_val [of a b]
  by (cases "u256_checked_add a b") (auto simp: limit_base dest: u256_bound intro!: u256_of_unique)

lemma mul_div_run:
  assumes "u256_wf a" "u256_wf b" "u256_wf c"
  shows "mul_div a b c rounding = Some
    (if u256_val c = 0 then Err DivideByZero
     else let q = div_round rounding (u256_val a * u256_val b) (u256_val c)
          in if q < u256_limit then Ok (u256_of q) else Err WideOverflow)"
proof (cases "u256_val c = 0")
  case True
  then show ?thesis using assms by (simp add: mul_div_def u256_is_zero_val)
next
  case False
  let ?p = "u256_val a * u256_val b" and ?c = "u256_val c"
  obtain q r where run: "div_rem (widening_mul a b) c = Some (q, r)" "u512_wf q" "u512_val q = ?p div ?c"
    "u256_wf r" "u256_val r = ?p mod ?c"
    using div_rem_val [of "widening_mul a b" c] widening_mul_val [OF assms(1,2)] assms(3) False by auto
  have run': "mul_div a b c rounding = Some (and_then (ok_or WideOverflow (u512_narrow q)) (\<lambda>narrow.
      case rounding of Down \<Rightarrow> Ok narrow
      | Up \<Rightarrow> if ?p mod ?c = 0 then Ok narrow else ok_or WideOverflow (u256_checked_add narrow U256_ONE)))"
    using False assms(3) run by (cases rounding) (simp_all add: mul_div_def u256_is_zero_val)
  show ?thesis
  proof (cases "?p div ?c < u256_limit")
    case True
    note of_q = u256_of_val [OF this]
    show ?thesis
      by (cases rounding) (use True False of_q run' in \<open>simp_all add: narrow_exact run(2,3) div_round_def div_up Let_def checked_add_exact\<close>)
  next
    case no: False
    then have "\<not> div_round rounding ?p ?c < u256_limit" using False by (cases rounding) (simp_all add: div_round_def div_up)
    with run' False no show ?thesis by (cases rounding) (simp_all add: narrow_exact run(2,3) Let_def)
  qed
qed

lemma reduced_run:
  assumes "u256_wf a" "u256_wf g" "0 < u256_val g"
  shows "\<exists>v. reduced a g = Some v \<and> u256_wf v \<and> u256_val v = u256_val a div u256_val g"
proof -
  obtain q r where "div_rem (from_u256 a) g = Some (q, r)" "u512_wf q" "u512_val q = u256_val a div u256_val g"
    using div_rem_val [of "from_u256 a" g] from_u256_val [OF assms(1)] assms by auto
  moreover have "u256_val a div u256_val g < u256_limit"
    using u256_bound [OF assms(1)] by (simp add: limit_base le_less_trans [OF div_le_dividend])
  ultimately show ?thesis using u256_of_val by (simp add: reduced_def narrow_exact)
qed

lemma reduce_pair_run:
  assumes "u256_wf a" "u256_wf b" "0 < u256_val b"
  defines "g \<equiv> gcd (u256_val a) (u256_val b)"
  shows "\<exists>a' b'. reduce_pair a b = Some (a', b') \<and> u256_wf a' \<and> u256_wf b' \<and> u256_val a' = u256_val a div g \<and> u256_val b' = u256_val b div g"
proof -
  obtain d where d: "u256_gcd a b = Some d" "u256_wf d" "u256_val d = g" using u256_gcd_val [OF assms(1,2)] by (auto simp: g_def)
  have g: "0 < g" using assms(3) by (simp add: g_def)
  show ?thesis
  proof (cases "d = U256_ONE")
    case True
    with d have "g = 1" by simp
    with True d assms(1,2) g show ?thesis by (simp add: reduce_pair_def)
  next
    case False
    with d g reduced_run [OF assms(1) d(2)] reduced_run [OF assms(2) d(2)] show ?thesis
      by (auto simp: reduce_pair_def u256_is_zero_val)
  qed
qed

definition composed :: "nat \<Rightarrow> nat \<Rightarrow> nat \<Rightarrow> nat \<Rightarrow> nat \<times> nat" where
  "composed an ad bn bd =
    (if an * bn < u256_limit \<and> ad * bd < u256_limit then (an * bn, ad * bd)
     else ((an div gcd an bd) * (bn div gcd bn ad), (ad div gcd bn ad) * (bd div gcd an bd)))"

lemma fraction_compose_run:
  assumes wf: "u256_wf an" "u256_wf ad" "u256_wf bn" "u256_wf bd"
  shows "fraction_compose an ad bn bd = Some
    (if u256_val ad = 0 \<or> u256_val bd = 0 then Err DivideByZero
     else let (num, den) = composed (u256_val an) (u256_val ad) (u256_val bn) (u256_val bd)
          in if num < u256_limit \<and> den < u256_limit then Ok (u256_of num, u256_of den) else Err WideOverflow)"
proof (cases "u256_val ad = 0 \<or> u256_val bd = 0")
  case True
  then show ?thesis using wf by (auto simp: fraction_compose_def u256_is_zero_val)
next
  case False
  note muls = widening_mul_val [OF wf(1,3)] widening_mul_val [OF wf(2,4)]
  show ?thesis
  proof (cases "u256_val an * u256_val bn < u256_limit \<and> u256_val ad * u256_val bd < u256_limit")
    case True
    with False wf muls show ?thesis
      by (simp add: fraction_compose_def u256_is_zero_val narrow_exact composed_def)
  next
    case wide: False
    obtain an' bd' where p: "reduce_pair an bd = Some (an', bd')" "u256_wf an'" "u256_wf bd'"
      "u256_val an' = u256_val an div gcd (u256_val an) (u256_val bd)" "u256_val bd' = u256_val bd div gcd (u256_val an) (u256_val bd)"
      using reduce_pair_run [OF wf(1,4)] False by auto
    obtain bn' ad' where q: "reduce_pair bn ad = Some (bn', ad')" "u256_wf bn'" "u256_wf ad'"
      "u256_val bn' = u256_val bn div gcd (u256_val bn) (u256_val ad)" "u256_val ad' = u256_val ad div gcd (u256_val bn) (u256_val ad)"
      using reduce_pair_run [OF wf(3,2)] False by auto
    note muls' = widening_mul_val [OF p(2) q(2)] widening_mul_val [OF q(3) p(3)]
    have "fraction_compose an ad bn bd = Some (and_then (ok_or WideOverflow (u512_narrow (widening_mul an' bn'))) (\<lambda>num.
           map_res (Pair num) (ok_or WideOverflow (u512_narrow (widening_mul ad' bd')))))"
      using False wide wf muls p(1) q(1) by (auto simp: fraction_compose_def u256_is_zero_val narrow_exact)
    moreover have "composed (u256_val an) (u256_val ad) (u256_val bn) (u256_val bd) = (u256_val an' * u256_val bn', u256_val ad' * u256_val bd')"
      unfolding composed_def if_not_P [OF wide] p(4,5) q(4,5) ..
    ultimately show ?thesis using False muls' by (simp add: narrow_exact)
  qed
qed


section \<open>Powers\<close>

lemma limit_numeral: "u256_limit = 115792089237316195423570985008687907853269984665640564039457584007913129639936"
  by (simp add: u256_limit_def)

definition fixed_one :: nat where "fixed_one = 10 ^ 36"

lemma fixed_one_pos: "0 < fixed_one" "fixed_one < u256_limit"
  by (simp_all add: fixed_one_def limit_numeral)

lemma scale_digits: "FIXED_SCALE = u256_of fixed_one"
proof -
  have "FIXED_SCALE = U256 [12919594847110692864, 54210108624275221, 0, 0]"
    by (simp add: FIXED_SCALE_def from_u128_def unsigned_ucast_eq drop_bit_eq_div word_eq_iff_unsigned)
  moreover have "u256_of fixed_one = U256 [12919594847110692864, 54210108624275221, 0, 0]"
    by (simp add: u256_of_def fixed_one_def)
  ultimately show ?thesis by simp
qed

lemma scale_val: "u256_wf FIXED_SCALE \<and> u256_val FIXED_SCALE = fixed_one"
  unfolding scale_digits by (rule u256_of_val) (rule fixed_one_pos)

text \<open>On which side of the exact value a rounding leaves a value.\<close>

definition on_side :: "Rounding \<Rightarrow> nat \<Rightarrow> nat \<Rightarrow> bool" where
  "on_side rounding approx exact = (case rounding of Down \<Rightarrow> approx \<le> exact | Up \<Rightarrow> exact \<le> approx)"

lemma on_side_refl [simp]: "on_side rounding x x"
  by (simp add: on_side_def split: Rounding.splits)

lemma on_side_trans [trans]: "on_side rounding x y \<Longrightarrow> on_side rounding y z \<Longrightarrow> on_side rounding x z"
  by (auto simp: on_side_def split: Rounding.splits)

lemma on_side_mult: "on_side rounding x y \<Longrightarrow> on_side rounding a b \<Longrightarrow> on_side rounding (x * a) (y * b)"
  by (auto simp: on_side_def mult_le_mono split: Rounding.splits)

lemma on_side_power: "on_side rounding x y \<Longrightarrow> on_side rounding (x ^ n) (y ^ n)"
  by (induction n) (simp_all add: on_side_mult)

lemma div_round_side: "0 < y \<Longrightarrow> on_side rounding (div_round rounding x y * y) x"
proof (cases rounding)
  case Down
  then show ?thesis by (simp add: on_side_def div_round_def)
next
  case Up
  assume y: "0 < y"
  have "x \<le> (x div y + of_bool (x mod y \<noteq> 0)) * y"
    using dividend_less_div_times [OF y, of x] by (cases "x mod y = 0") (auto simp: add.commute)
  with Up y show ?thesis by (simp add: on_side_def div_round_def div_up)
qed

text \<open>One multiplication at the scale.\<close>

lemma scaled_product:
  assumes "u256_wf a" "u256_wf b"
  shows "\<exists>out. mul_div a b FIXED_SCALE rounding = Some out \<and>
    (case out of Err e \<Rightarrow> e = WideOverflow
     | Ok v \<Rightarrow> u256_wf v \<and> on_side rounding (u256_val v * fixed_one) (u256_val a * u256_val b))"
  using mul_div_run [OF assms, of FIXED_SCALE rounding] scale_val fixed_one_pos(1)
    div_round_side [OF fixed_one_pos(1), of rounding "u256_val a * u256_val b"]
  by (auto simp: Let_def u256_of_val)

lemma power_split:
  fixes f s :: nat
  assumes r: "on_side rounding (r' * s ^ d) (r * f ^ d)" and f: "on_side rounding (f' * s) (f * f)"
    and v: "on_side rounding (v * s ^ m) (r' * f' ^ m)"
  shows "on_side rounding (v * s ^ (2 * m + d)) (r * f ^ (2 * m + d))"
proof -
  have "v * s ^ (2 * m + d) = (v * s ^ m) * (s ^ m * s ^ d)" by (simp add: power_add power_mult power2_eq_square power_mult_distrib ac_simps)
  also have "on_side rounding \<dots> ((r' * f' ^ m) * (s ^ m * s ^ d))" by (intro on_side_mult v on_side_refl)
  also have "(r' * f' ^ m) * (s ^ m * s ^ d) = (r' * s ^ d) * (f' * s) ^ m" by (simp add: power_mult_distrib ac_simps)
  also have "on_side rounding \<dots> ((r * f ^ d) * (f * f) ^ m)" by (intro on_side_mult on_side_power r f)
  also have "(r * f ^ d) * (f * f) ^ m = r * f ^ (2 * m + d)" by (simp add: power_add power_mult power2_eq_square power_mult_distrib ac_simps)
  finally show ?thesis .
qed

definition power_out :: "Rounding \<Rightarrow> nat \<Rightarrow> nat \<Rightarrow> nat \<Rightarrow> (MathError, U256) result option \<Rightarrow> bool" where
  "power_out rounding r f n out = (case out of None \<Rightarrow> False | Some (Err e) \<Rightarrow> e = WideOverflow
     | Some (Ok v) \<Rightarrow> u256_wf v \<and> on_side rounding (u256_val v * fixed_one ^ n) (r * f ^ n))"

lemma low_bit: "unat n = 2 * unat (drop_bit 1 n) + of_bool (n AND 1 = 1)" for n :: u32
proof -
  have "(n AND 1 = 1) = odd (unat n)" by (simp add: and_one_eq mod_2_eq_odd bit_0 [symmetric] bit_unsigned_iff)
  then show ?thesis using halves [of "unat n"] by (simp add: drop_bit_Suc unat_div)
qed

lemma fixed_pow_loop_val:
  "u256_wf r \<Longrightarrow> u256_wf f \<Longrightarrow>
    power_out rounding (u256_val r) (u256_val f) (unat n) (fixed_pow_loop r f n rounding)"
proof (induction r f n rounding rule: fixed_pow_loop.induct)
  case (1 r f n rounding)
  let ?d = "of_bool (n AND 1 = 1) :: nat" and ?m = "drop_bit 1 n"
  define head where "head = (if n AND 1 = 1 then mul_div r f FIXED_SCALE rounding else Some (Ok r))"
  have head: "\<exists>out. head = Some out \<and> (case out of Err e \<Rightarrow> e = WideOverflow
      | Ok r' \<Rightarrow> u256_wf r' \<and> on_side rounding (u256_val r' * fixed_one ^ ?d) (u256_val r * u256_val f ^ ?d))"
    using scaled_product [OF 1(2,3), of rounding] 1(2) by (auto simp: head_def split: result.splits)
  show ?case
  proof (cases "n = 0")
    case True
    then show ?thesis using 1(2) by (simp add: fixed_pow_loop.simps power_out_def)
  next
    case False
    note unroll = fixed_pow_loop.simps [of r f n rounding, folded head_def, unfolded if_not_P [OF False]]
    show ?thesis
    proof (cases "\<exists>r'. head = Some (Ok r')")
      case no: False
      with head have "head = Some (Err WideOverflow)" by (metis (mono_tags, lifting) result.exhaust result.simps(6))
      with unroll show ?thesis by (simp add: power_out_def)
    next
      case True
      then obtain r' where r': "head = Some (Ok r')" "u256_wf r'"
        "on_side rounding (u256_val r' * fixed_one ^ ?d) (u256_val r * u256_val f ^ ?d)" using head by auto
      show ?thesis
      proof (cases "?m = 0")
        case True
        then have "unat n = ?d" using low_bit [of n] by simp
        with True r' unroll show ?thesis by (simp add: power_out_def)
      next
        case more: False
        obtain out where sq: "mul_div f f FIXED_SCALE rounding = Some out" "case out of Err e \<Rightarrow> e = WideOverflow
            | Ok f' \<Rightarrow> u256_wf f' \<and> on_side rounding (u256_val f' * fixed_one) (u256_val f * u256_val f)"
          using scaled_product [OF 1(3,3), of rounding] by auto
        show ?thesis
        proof (cases out)
          case (Ok f')
          have "power_out rounding (u256_val r') (u256_val f') (unat ?m) (fixed_pow_loop r' f' ?m rounding)"
            by (rule 1(1) [OF False r'(1) [unfolded head_def] refl refl more sq(1) Ok r'(2)]) (use sq(2) Ok in simp)
          with r' more sq Ok unroll power_split [OF r'(3), of "u256_val f'" _ "unat ?m"] show ?thesis
            by (auto simp: power_out_def low_bit [of n] split: option.splits result.splits)
        qed (use r' more sq unroll in \<open>simp add: power_out_def\<close>)
      qed
    qed
  qed
qed

section \<open>Composed fractions\<close>

lemma composed_scaled:
  assumes "0 < ad" "0 < bd"
  shows "\<exists>g. 0 < g \<and> an * bn = g * fst (composed an ad bn bd) \<and> ad * bd = g * snd (composed an ad bn bd)"
proof (cases "an * bn < u256_limit \<and> ad * bd < u256_limit")
  case True
  then show ?thesis by (intro exI [of _ 1]) (simp add: composed_def)
next
  case False
  let ?g = "gcd an bd" and ?h = "gcd bn ad"
  have "an * bn = (?g * (an div ?g)) * (?h * (bn div ?h))" "ad * bd = (?h * (ad div ?h)) * (?g * (bd div ?g))" by simp_all
  then show ?thesis unfolding composed_def if_not_P [OF False] fst_conv snd_conv using assms
    by (intro exI [of _ "?g * ?h"]) (simp only: ac_simps gcd_pos_nat, simp)
qed

lemma quotient_dvd: "d dvd x \<Longrightarrow> x div d dvd x" for d x :: nat
  by (metis dvd_div_mult_self dvd_triv_left)

lemma composed_lowest:
  assumes "0 < ad" "0 < bd" "coprime an ad" "coprime bn bd" "\<not> (an * bn < u256_limit \<and> ad * bd < u256_limit)"
  shows "coprime (fst (composed an ad bn bd)) (snd (composed an ad bn bd))"
proof -
  let ?g = "gcd an bd" and ?h = "gcd bn ad"
  have divs: "an div ?g dvd an" "bd div ?g dvd bd" "bn div ?h dvd bn" "ad div ?h dvd ad"
    by (auto intro: quotient_dvd)
  have "coprime (an div ?g) (ad div ?h)" "coprime (bn div ?h) (bd div ?g)"
    using coprime_divisors [OF divs(1,4) assms(3)] coprime_divisors [OF divs(3,2) assms(4)] .
  moreover have "coprime (an div ?g) (bd div ?g)" "coprime (bn div ?h) (ad div ?h)" using assms(1,2) by (simp_all add: div_gcd_coprime)
  ultimately show ?thesis unfolding composed_def if_not_P [OF assms(5)] by simp
qed

lemma lowest_least:
  fixes n d :: nat
  assumes "coprime num den" "0 < d" "n * den = d * num"
  shows "num \<le> n \<and> den \<le> d"
proof -
  have "den dvd d" using assms(1,3) by (metis coprime_commute coprime_dvd_mult_left_iff dvd_triv_right)
  then have "den \<le> d" using assms(2) by (simp add: dvd_imp_le)
  moreover have "num dvd n" using assms(1,3) by (metis coprime_dvd_mult_left_iff dvd_triv_right)
  moreover have "num = 0" if "n = 0" using that assms(2,3) by simp
  ultimately show ?thesis by (auto dest: dvd_imp_le)
qed

lemma refused_least:
  fixes an ad bn bd n d :: nat
  assumes "0 < ad" "0 < bd" "coprime an ad" "coprime bn bd"
    and over: "\<not> (fst (composed an ad bn bd) < u256_limit \<and> snd (composed an ad bn bd) < u256_limit)"
    and same: "0 < d" "n * (ad * bd) = d * (an * bn)"
  shows "u256_limit \<le> n \<or> u256_limit \<le> d"
proof -
  obtain g where g: "0 < g" "an * bn = g * fst (composed an ad bn bd)" "ad * bd = g * snd (composed an ad bn bd)"
    using composed_scaled [OF assms(1,2)] by blast
  have "g * (n * snd (composed an ad bn bd)) = g * (d * fst (composed an ad bn bd))"
    using same(2) unfolding g by (simp only: ac_simps)
  with g(1) have "n * snd (composed an ad bn bd) = d * fst (composed an ad bn bd)" by simp
  moreover have "\<not> (an * bn < u256_limit \<and> ad * bd < u256_limit)" using over by (auto simp: composed_def)
  ultimately have "fst (composed an ad bn bd) \<le> n" "snd (composed an ad bn bd) \<le> d"
    using lowest_least [OF composed_lowest [OF assms(1-4)] same(1)] by blast+
  with over show ?thesis by linarith
qed

section \<open>Properties\<close>

text \<open>C29 Scaling by a fraction is exact at full width. On any four-limb operands \<open>mul_div\<close> returns (the
  division's assertion never fires): \<open>DivideByZero\<close> exactly on a zero divisor, \<open>WideOverflow\<close> exactly where the
  quotient of the 512-bit product, rounded as asked, does not fit in 256 bits, and otherwise that very quotient.\<close>

theorem mul_div_exact:
  assumes "u256_wf a" "u256_wf b" "u256_wf c"
  shows "mul_div a b c rounding = Some
    (if u256_val c = 0 then Err DivideByZero
     else let q = div_round rounding (u256_val a * u256_val b) (u256_val c)
          in if q < u256_limit then Ok (u256_of q) else Err WideOverflow)"
  using assms by (rule mul_div_run)

theorem mul_div_exact_witness:
  "mul_div (u256_of 7) (u256_of 5) (u256_of 4) Up = Some (Ok (u256_of 9))"
  using mul_div_exact [of "u256_of 7" "u256_of 5" "u256_of 4" Up] by (simp add: u256_of_val limit_numeral div_round_def)

text \<open>C30 The geometric mean is the exact integer square root of the full product: the loop over the 512-bit product
  ends with a four-limb root \<open>r\<close> with \<open>r\<^sup>2 \<le> a b < (r + 1)\<^sup>2\<close>.\<close>

theorem geometric_mean_exact:
  assumes "u256_wf a" "u256_wf b"
  shows "u256_wf (geometric_mean a b) \<and>
    u256_val (geometric_mean a b) ^ 2 \<le> u256_val a * u256_val b \<and>
    u256_val a * u256_val b < (u256_val (geometric_mean a b) + 1) ^ 2"
  using isqrt_val [of "widening_mul a b"] widening_mul_val [OF assms] by (simp add: geometric_mean_def)

theorem geometric_mean_exact_witness: "u256_val (geometric_mean (u256_of 8) (u256_of 2)) = 4"
proof -
  let ?r = "u256_val (geometric_mean (u256_of 8) (u256_of 2))"
  have "?r ^ 2 \<le> 16" "16 < (?r + 1) ^ 2"
    using geometric_mean_exact [of "u256_of 8" "u256_of 2"] by (simp_all add: u256_of_val limit_numeral)
  then have "?r ^ 2 \<le> 4 ^ 2" "4 ^ 2 < (?r + 1) ^ 2" by simp_all
  then have "?r \<le> 4" "4 < ?r + 1" by (blast intro: power2_le_imp_le power2_less_imp_less zero_le)+
  then show ?thesis by simp
qed

text \<open>C31 Composing two fractions preserves their value. \<open>fraction_compose\<close> always returns: \<open>DivideByZero\<close>
  exactly on a zero denominator; where it answers a pair, the denominator is not zero and the pair's value is the exact
  product of the two fractions; and where it refuses fractions given in lowest terms with \<open>WideOverflow\<close>, no pair
  of 256-bit values has that product's value.\<close>

theorem fraction_compose_exact:
  assumes "u256_wf an" "u256_wf ad" "u256_wf bn" "u256_wf bd"
  shows "\<exists>out. fraction_compose an ad bn bd = Some out \<and>
    (case out of
       Ok (num, den) \<Rightarrow> u256_wf num \<and> u256_wf den \<and> u256_val ad \<noteq> 0 \<and> u256_val bd \<noteq> 0 \<and> u256_val den \<noteq> 0 \<and>
         u256_val num * (u256_val ad * u256_val bd) = u256_val den * (u256_val an * u256_val bn)
     | Err e \<Rightarrow> (e = DivideByZero \<longleftrightarrow> u256_val ad = 0 \<or> u256_val bd = 0) \<and>
         (e = WideOverflow \<and> coprime (u256_val an) (u256_val ad) \<and> coprime (u256_val bn) (u256_val bd) \<longrightarrow>
           (\<forall>n d. 0 < d \<and> n * (u256_val ad * u256_val bd) = d * (u256_val an * u256_val bn) \<longrightarrow>
              u256_limit \<le> n \<or> u256_limit \<le> d)))"
proof (cases "u256_val ad = 0 \<or> u256_val bd = 0")
  case True
  then show ?thesis by (simp add: fraction_compose_run [OF assms])
next
  case False
  then have pos: "0 < u256_val ad" "0 < u256_val bd" by simp_all
  define num den where pair: "num = fst (composed (u256_val an) (u256_val ad) (u256_val bn) (u256_val bd))"
    "den = snd (composed (u256_val an) (u256_val ad) (u256_val bn) (u256_val bd))"
  obtain g where g: "0 < g" "u256_val an * u256_val bn = g * num" "u256_val ad * u256_val bd = g * den"
    using composed_scaled [OF pos] unfolding pair by blast
  then have den: "den \<noteq> 0" using pos by (metis mult_eq_0_iff neq0_conv)
  have run: "fraction_compose an ad bn bd =
      Some (if num < u256_limit \<and> den < u256_limit then Ok (u256_of num, u256_of den) else Err WideOverflow)"
    using False by (simp add: fraction_compose_run [OF assms] pair split_beta Let_def)
  show ?thesis
  proof (cases "num < u256_limit \<and> den < u256_limit")
    case True
    with run False den show ?thesis unfolding g by (simp add: u256_of_val)
  next
    case over: False
    with run False refused_least [OF pos _ _ over [unfolded pair]] show ?thesis by auto
  qed
qed

theorem fraction_compose_exact_witness:
  "\<exists>num den. fraction_compose (u256_of 2) (u256_of 3) (u256_of 5) (u256_of 7) = Some (Ok (num, den)) \<and>
     u256_val num * 21 = u256_val den * 10"
proof -
  obtain num den where "fraction_compose (u256_of 2) (u256_of 3) (u256_of 5) (u256_of 7) = Some (Ok (num, den))"
    by (simp add: fraction_compose_run u256_of_val limit_numeral composed_def)
  then show ?thesis
    using fraction_compose_exact [of "u256_of 2" "u256_of 3" "u256_of 5" "u256_of 7"]
    by (simp add: u256_of_val limit_numeral)
qed

text \<open>C34 Cross-reduction is not full reduction, so \<open>WideOverflow\<close> does not mean that the product does not fit
  even reduced: the product of \<open>3\<^sup>1\<^sup>5\<^sup>0 / 3\<^sup>1\<^sup>5\<^sup>0\<close> and \<open>2\<^sup>2\<^sup>5\<^sup>0 / 2\<^sup>2\<^sup>5\<^sup>0\<close>
  is one, and \<open>fraction_compose\<close> refuses it, because each shared factor sits inside one of the two fractions.\<close>

theorem fraction_compose_unreduced:
  "fraction_compose (u256_of (3 ^ 150)) (u256_of (3 ^ 150)) (u256_of (2 ^ 250)) (u256_of (2 ^ 250)) = Some (Err WideOverflow)"
proof -
  have fits: "3 ^ 150 < u256_limit" "2 ^ 250 < u256_limit" and wide: "\<not> 3 ^ 150 * 2 ^ 250 < u256_limit"
    by (simp_all add: limit_numeral)
  have "coprime (3 ^ 150) (2 ^ 250 :: nat)" by (intro coprime_power_left_iff [THEN iffD2] disjI1 coprime_power_right_iff [THEN iffD2]) simp
  then have "gcd (3 ^ 150) (2 ^ 250 :: nat) = 1" "gcd (2 ^ 250) (3 ^ 150 :: nat) = 1" by (simp_all only: coprime_iff_gcd_eq_1 gcd.commute)
  with wide have "composed (3 ^ 150) (3 ^ 150) (2 ^ 250) (2 ^ 250) = (3 ^ 150 * 2 ^ 250, 3 ^ 150 * 2 ^ 250)"
    by (simp only: composed_def simp_thms if_False div_by_1)
  with wide fits show ?thesis by (simp only: fraction_compose_run u256_of_val Let_def prod.case simp_thms if_False power_not_zero)
qed

text \<open>C32 A power at the fixed scale always returns and errs on the side asked for: on any four-limb base,
  exponent and rounding, \<open>fixed_pow\<close> either refuses with \<open>WideOverflow\<close> or answers a value not above
  (rounding down) respectively not below (rounding up) the exact power at the scale \<open>10\<^sup>3\<^sup>6\<close>.\<close>

theorem fixed_pow_side:
  assumes "u256_wf base"
  shows "case fixed_pow base exp rounding of
      None \<Rightarrow> False
    | Some (Err e) \<Rightarrow> e = WideOverflow
    | Some (Ok v) \<Rightarrow> u256_wf v \<and>
        on_side rounding (u256_val v * fixed_one ^ unat exp) (fixed_one * u256_val base ^ unat exp)"
  using fixed_pow_loop_val [OF _ assms, of FIXED_SCALE rounding exp] scale_val
  by (simp add: fixed_pow_def power_out_def)

theorem fixed_pow_side_witness:
  "\<exists>v. fixed_pow (u256_of (2 * fixed_one)) 1 Down = Some (Ok v) \<and> u256_val v \<le> 2 * fixed_one"
proof -
  have two: "2 * fixed_one < u256_limit" by (simp add: fixed_one_def limit_numeral)
  have "fixed_pow (u256_of (2 * fixed_one)) 1 Down = Some (Ok (u256_of (2 * fixed_one)))"
    using two scale_val fixed_one_pos by (simp add: fixed_pow_def fixed_pow_loop.simps mul_div_run u256_of_val div_round_def)
  with two fixed_pow_side [where base = "u256_of (2 * fixed_one)" and exp = 1 and rounding = Down] fixed_one_pos show ?thesis
    by (simp add: u256_of_val on_side_def)
qed

text \<open>C33 The error of a power is not one unit in the last place per multiplication: later squarings scale the
  earlier errors by the base. At \<open>100 + 7 / 10\<^sup>1\<^sup>9\<close> and exponent four, rounding down answers a value more than
  nine thousand units below the exact power, where the bound claimed is four.\<close>

theorem fixed_pow_error_grows:
  "\<exists>v. fixed_pow (u256_of (100 * fixed_one + 7 * 10 ^ 17)) 4 Down = Some (Ok v) \<and>
     (u256_val v + 9000) * fixed_one ^ 4 \<le> fixed_one * (100 * fixed_one + 7 * 10 ^ 17) ^ 4"
proof -
  let ?b = "100 * fixed_one + 7 * 10 ^ 17"
  let ?f = "?b * ?b div fixed_one"
  let ?v = "?f * ?f div fixed_one"
  have fits: "?b < u256_limit" "?f < u256_limit" "?v < u256_limit"
    by (simp_all add: fixed_one_def limit_numeral)
  have "fixed_pow (u256_of ?b) 4 Down = Some (Ok (u256_of ?v))"
    using fits scale_val fixed_one_pos by (simp add: fixed_pow_def fixed_pow_loop.simps drop_bit_Suc mul_div_run u256_of_val div_round_def)
  moreover have "(?v + 9000) * fixed_one ^ 4 \<le> fixed_one * ?b ^ 4" by (simp add: fixed_one_def)
  ultimately show ?thesis using fits by (simp add: u256_of_val)
qed

end
