(* ===== verification/Buckets.thy ===== *)
theory Buckets
  imports Capability WideMath
begin

text \<open>
  Value in flight. \<open>crates/kernel/src/session/reach.rs\<close>: which handles a frame may name.
  \<open>crates/kernel/src/session/trap.rs\<close>: what a session refuses with, and the abort class of each refusal.
  \<open>crates/kernel/src/session/buckets.rs\<close>: the bucket table, whose operations neither make value nor lose it.
\<close>

section \<open>Refusals\<close>

datatype SessionTrap =
    UnknownHandle u32
  | OutsideFrame u32
  | Ungranted u32 u32 Capability Op
  | OutsideScope u32 u32 Capability
  | SealStanding u32
  | NotASeal u32
  | UndeclaredBranch
  | WrongResource ResourceAddr ResourceAddr
  | BytesAsValue u32 u32
  | IndexOutOfBounds u32 nat
  | OrderOutsideInterval
  | WriteCapExceeded u32 u128
  | ReservationMissing
  | ReservationTaken
  | IssuanceUngranted
  | WrongIssuanceKind
  | BucketUnderflow u128 u128
  | BucketOverflow
  | WrongEdgeKind
  | InstanceHeldTwice u128
  | InstanceNotHeld u128
  | MalformedIdSet
  | T_BadAmountCell SubstateKey
  | T_CellUnderflow
  | T_CellOverflow SubstateKey u128
  | NoInvocation
  | EventTypeOutOfRange u32
  | TooManyEvents
  | EventPayloadTooLarge nat
  | EventBytesExceeded nat
  | CellValueTooLarge nat u32
  | ShareAboveOne
  | T_Math MathError
  | T_Store StoreError
  | T_Supply ModeError
  | CrossingKeyRepeated SubstateKey
  | CrossingWithoutRecourse SubstateKey
  | OwedArrival SubstateKey

fun trap_abort :: "SessionTrap \<Rightarrow> AbortReason" where
  "trap_abort (UnknownHandle _) = A_HandleUnknown"
| "trap_abort (OutsideFrame _) = A_HandleOutsideFrame"
| "trap_abort (Ungranted _ _ _ _) = A_HandleWrongMode"
| "trap_abort (OutsideScope _ _ _) = A_OutsideScope"
| "trap_abort (NotASeal _) = A_MalformedSeal"
| "trap_abort (SealStanding _) = A_SealStanding"
| "trap_abort UndeclaredBranch = A_UndeclaredBranch"
| "trap_abort (IndexOutOfBounds _ _) = A_EntryIndexOutOfBounds"
| "trap_abort OrderOutsideInterval = A_OrderOutsideInterval"
| "trap_abort (WriteCapExceeded _ _) = A_IntervalWriteCapExceeded"
| "trap_abort ReservationMissing = A_ReservationMissing"
| "trap_abort ReservationTaken = A_ReservationAlreadyTaken"
| "trap_abort IssuanceUngranted = A_IssuanceUngranted"
| "trap_abort WrongIssuanceKind = A_WrongIssuanceKind"
| "trap_abort (BucketUnderflow _ _) = A_BucketUnderflow"
| "trap_abort BucketOverflow = A_BucketOverflow"
| "trap_abort WrongEdgeKind = A_WrongEdgeKind"
| "trap_abort (InstanceHeldTwice _) = A_InstanceHeldTwice"
| "trap_abort (InstanceNotHeld _) = A_InstanceNotHeld"
| "trap_abort MalformedIdSet = A_MalformedEdgeCell"
| "trap_abort (T_BadAmountCell _) = A_MalformedAmountCell"
| "trap_abort T_CellUnderflow = A_CellUnderflow"
| "trap_abort (T_CellOverflow _ _) = A_CellOverflow"
| "trap_abort NoInvocation = A_EmissionOutsideInvocation"
| "trap_abort (EventTypeOutOfRange _) = A_EventTypeOutOfRange"
| "trap_abort TooManyEvents = A_EventCountExceeded"
| "trap_abort (EventPayloadTooLarge _) = A_EventPayloadTooLarge"
| "trap_abort (EventBytesExceeded _) = A_EventBytesExceeded"
| "trap_abort (CellValueTooLarge _ _) = A_CellValueTooLarge"
| "trap_abort ShareAboveOne = A_ShareAboveOne"
| "trap_abort (WrongResource _ _) = A_WrongResource"
| "trap_abort (BytesAsValue _ _) = A_BytesAsValue"
| "trap_abort (T_Math er) = math_abort er"
| "trap_abort (T_Supply er) = mode_abort er"
| "trap_abort (T_Store er) = store_abort er"
| "trap_abort (CrossingKeyRepeated _) = A_CrossingKeyRepeated"
| "trap_abort (CrossingWithoutRecourse _) = A_CrossingWithoutRecourse"
| "trap_abort (OwedArrival _) = A_OwedArrival"

section \<open>Reach\<close>

type_synonym Reach = "u32 btset option"

definition reach_enter :: "Reach \<Rightarrow> Reach" where
  "reach_enter r = Some bt_empty"

definition reach_leave :: "Reach \<Rightarrow> Reach" where
  "reach_leave r = None"

definition reach_lend :: "u32 \<Rightarrow> Reach \<Rightarrow> Reach" where
  "reach_lend rep r = map_option (bs_insert rep) r"

definition reach_holds :: "Reach \<Rightarrow> u32 \<Rightarrow> bool" where
  "reach_holds r rep = (case r of None \<Rightarrow> True | Some lent \<Rightarrow> bt_contains lent rep)"

section \<open>The bucket table\<close>

datatype Held = HAmount u128 | HInstances "u128 btset"

fun held_quantity :: "Held \<Rightarrow> u128" where
  "held_quantity (HAmount amt) = amt"
| "held_quantity (HInstances ids) = of_nat (bt_len ids)"

definition held_is_empty :: "Held \<Rightarrow> bool" where
  "held_is_empty h \<longleftrightarrow> held_quantity h = 0"

record Buckets =
  bk_slots :: "Held option list"
  bk_resources :: "ResourceAddr list"
  bk_origins :: "SubstateKey option list"
  bk_reach :: Reach

definition buckets_default :: Buckets where
  "buckets_default = \<lparr> bk_slots = [], bk_resources = [], bk_origins = [], bk_reach = None \<rparr>"

type_synonym 'a bucket_op = "(Buckets, SessionTrap fault, 'a) op"

definition bk_enter_frame :: "Buckets \<Rightarrow> Buckets" where
  "bk_enter_frame b = b\<lparr> bk_reach := reach_enter (bk_reach b) \<rparr>"

definition bk_leave_frame :: "Buckets \<Rightarrow> Buckets" where
  "bk_leave_frame b = b\<lparr> bk_reach := reach_leave (bk_reach b) \<rparr>"

definition bk_lend :: "u32 \<Rightarrow> Buckets \<Rightarrow> Buckets" where
  "bk_lend rep b = b\<lparr> bk_reach := reach_lend rep (bk_reach b) \<rparr>"

definition bk_open :: "Held \<Rightarrow> ResourceAddr \<Rightarrow> SubstateKey option \<Rightarrow> u32 bucket_op" where
  "bk_open held resource origin b =
    (if length (bk_slots b) < 2 ^ 32
     then (let rep = of_nat (length (bk_slots b))
           in (Ok rep, b\<lparr> bk_slots := bk_slots b @ [Some held], bk_resources := bk_resources b @ [resource],
                 bk_origins := bk_origins b @ [origin], bk_reach := reach_lend rep (bk_reach b) \<rparr>))
     else (Err Panic, b))"

definition bk_origin_of :: "Buckets \<Rightarrow> u32 \<Rightarrow> SubstateKey option" where
  "bk_origin_of b rep = (if unat rep < length (bk_origins b) then bk_origins b ! unat rep else None)"

definition bk_slot :: "Buckets \<Rightarrow> u32 \<Rightarrow> Held option" where
  "bk_slot b rep = (if unat rep < length (bk_slots b) then bk_slots b ! unat rep else None)"

definition bk_get :: "Buckets \<Rightarrow> u32 \<Rightarrow> (SessionTrap, Held) result" where
  "bk_get b rep =
    (case bk_slot b rep of
       None \<Rightarrow> Err (UnknownHandle rep)
     | Some held \<Rightarrow> if reach_holds (bk_reach b) rep then Ok held else Err (OutsideFrame rep))"

definition bk_amount :: "Buckets \<Rightarrow> u32 \<Rightarrow> (SessionTrap, u128) result" where
  "bk_amount b rep =
    and_then (bk_get b rep) (\<lambda>held. case held of HAmount amt \<Rightarrow> Ok amt | HInstances _ \<Rightarrow> Err WrongEdgeKind)"

definition bk_resource_of :: "Buckets \<Rightarrow> u32 \<Rightarrow> (SessionTrap, ResourceAddr) result" where
  "bk_resource_of b rep =
    (if unat rep < length (bk_resources b)
     then if reach_holds (bk_reach b) rep then Ok (bk_resources b ! unat rep) else Err (OutsideFrame rep)
     else Err (UnknownHandle rep))"

definition bk_take :: "u32 \<Rightarrow> Held bucket_op" where
  "bk_take rep b =
    (case bk_get b rep of
       Err er \<Rightarrow> (Err (Fault er), b)
     | Ok held \<Rightarrow> (Ok held, b\<lparr> bk_slots := (bk_slots b)[unat rep := None] \<rparr>))"

definition bk_set :: "u32 \<Rightarrow> Held \<Rightarrow> Buckets \<Rightarrow> Buckets" where
  "bk_set rep held b = b\<lparr> bk_slots := (bk_slots b)[unat rep := Some held] \<rparr>"

text \<open>A fallible reading of the state, and a change that cannot fail.\<close>

definition op_get :: "('s \<Rightarrow> ('e, 'a) result) \<Rightarrow> ('s, 'e fault, 'a) op" where
  "op_get f s = (map_err Fault (f s), s)"

definition op_do :: "('s \<Rightarrow> 's) \<Rightarrow> ('s, 'e, unit) op" where
  "op_do f s = (Ok (), f s)"

text \<open>The part of an amount bucket a split leaves behind and the part it opens.\<close>

definition bk_split :: "u32 \<Rightarrow> u128 \<Rightarrow> u32 bucket_op" where
  "bk_split rep amt =
    op_then (op_get (\<lambda>b. bk_amount b rep)) (\<lambda>held.
    op_then (op_get (\<lambda>b. bk_resource_of b rep)) (\<lambda>resource.
    op_then (op_get (\<lambda>_. ok_or (BucketUnderflow amt held) (checked_sub held amt))) (\<lambda>left.
    op_then (op_get (\<lambda>b. Ok (bk_origin_of b rep))) (\<lambda>origin.
    op_then (op_do (bk_set rep (HAmount left))) (\<lambda>_.
    bk_open (HAmount amt) resource origin)))))"

definition bk_split_share :: "u32 \<Rightarrow> U256 \<Rightarrow> U256 \<Rightarrow> u32 bucket_op" where
  "bk_split_share rep num den =
    op_then (op_get (\<lambda>b. bk_amount b rep)) (\<lambda>held.
    if u256_is_zero den then op_err (Fault (T_Math DivideByZero))
    else if u256_cmp num den = Greater then op_err (Fault ShareAboveOne)
    else
      op_then (case mul_div (from_u128 held) num den Down of
                 None \<Rightarrow> op_err Panic
               | Some r \<Rightarrow> op_get (\<lambda>_. and_then (map_err T_Math r) (\<lambda>q. ok_or (T_Math WideOverflow) (to_u128 q)))) (\<lambda>share.
      op_then (op_get (\<lambda>b. bk_resource_of b rep)) (\<lambda>resource.
      op_then (op_get (\<lambda>_. ok_or (BucketUnderflow share held) (checked_sub held share))) (\<lambda>left.
      op_then (op_get (\<lambda>b. Ok (bk_origin_of b rep))) (\<lambda>origin.
      op_then (op_do (bk_set rep (HAmount left))) (\<lambda>_.
      bk_open (HAmount share) resource origin))))))"

fun absorb_ids :: "u128 list \<Rightarrow> u128 btset \<Rightarrow> (SessionTrap, u128 btset) result" where
  "absorb_ids [] held = Ok held"
| "absorb_ids (i # is) held = (if bt_contains held i then Err (InstanceHeldTwice i) else absorb_ids is (bs_insert i held))"

fun merge_held :: "Held \<Rightarrow> Held \<Rightarrow> (SessionTrap, Held) result" where
  "merge_held (HAmount held) (HAmount added) = map_res HAmount (ok_or BucketOverflow (checked_add held added))"
| "merge_held (HInstances held) (HInstances added) = map_res HInstances (absorb_ids (bt_keys added) held)"
| "merge_held _ _ = Err WrongEdgeKind"

definition bk_forget_origin :: "u32 \<Rightarrow> u32 \<Rightarrow> Buckets \<Rightarrow> Buckets" where
  "bk_forget_origin rep other b =
    (if bk_origin_of b rep \<noteq> bk_origin_of b other then b\<lparr> bk_origins := (bk_origins b)[unat rep := None] \<rparr> else b)"

definition bk_merge :: "u32 \<Rightarrow> u32 \<Rightarrow> unit bucket_op" where
  "bk_merge rep other =
    op_then (op_get (\<lambda>b. bk_resource_of b rep)) (\<lambda>into.
    op_then (op_get (\<lambda>b. bk_resource_of b other)) (\<lambda>carried.
    if into \<noteq> carried then op_err (Fault (WrongResource into carried))
    else
      op_then (op_do (bk_forget_origin rep other)) (\<lambda>_.
      op_then (bk_take other) (\<lambda>added.
      op_then (op_get (\<lambda>b. bk_get b rep)) (\<lambda>held.
      op_then (op_get (\<lambda>_. merge_held held added)) (\<lambda>merged.
      op_do (bk_set rep merged)))))))"

definition bk_drop :: "u32 \<Rightarrow> unit bucket_op" where
  "bk_drop rep =
    op_then (op_get (\<lambda>b. bk_get b rep)) (\<lambda>held.
    if held_is_empty held then op_map (\<lambda>_. ()) (bk_take rep) else op_ok ())"

definition carries_value :: "Buckets \<Rightarrow> bool" where
  "carries_value b \<longleftrightarrow> list_ex (\<lambda>slot. case slot of Some held \<Rightarrow> \<not> held_is_empty held | None \<Rightarrow> False) (bk_slots b)"

section \<open>What the table holds\<close>

lemma op_get_Ok [simp]: "op_get f s = (Ok a, s') \<longleftrightarrow> f s = Ok a \<and> s' = s"
  by (auto simp: op_get_def)

lemma op_get_then [simp]: "op_then (op_get f) k s = (Ok r, s') \<longleftrightarrow> (\<exists>a. f s = Ok a \<and> k a s = (Ok r, s'))"
  by (auto simp: op_then_Ok)

lemma op_do_Ok [simp]: "op_do f s = (r, s') \<longleftrightarrow> r = Ok () \<and> s' = f s"
  by (auto simp: op_do_def)

lemma op_do_then [simp]: "op_then (op_do f) k s = k () (f s)"
  by (simp add: op_then_def op_do_def)

lemma bt_len_insert: "bt_len (bt_insert k v m) = (if bt_contains m k then bt_len m else Suc (bt_len m))"
proof -
  have len: "bt_len m = bt_sum (\<lambda>_ _. 1) m" for m :: "('a::linorder, 'b) btmap"
    by (simp add: bt_len_def bt_sum_def sum_list_triv)
  show ?thesis
    using bt_sum_remove [of m k _ "\<lambda>_ _. 1"] by (auto simp: len bt_sum_insert bt_contains_iff)
qed

lemma bt_len_bs_of_list: "distinct xs \<Longrightarrow> bt_len (bs_of_list xs) = length xs"
proof -
  have "distinct xs \<Longrightarrow> \<forall>x \<in> set xs. \<not> bt_contains m x \<Longrightarrow> bt_len (bt_extend m (map (\<lambda>k. (k, ())) xs)) = bt_len m + length xs"
    for m :: "'a btset"
  proof (induction xs arbitrary: m)
    case (Cons x xs)
    then have "\<forall>y \<in> set xs. \<not> bt_contains (bs_insert x m) y" by auto
    then show ?case using Cons.IH [of "bs_insert x m"] Cons.prems by (simp add: bt_len_insert)
  qed simp
  from this [of bt_empty] show "distinct xs \<Longrightarrow> ?thesis" by (simp add: bs_of_list_def bt_of_list_def bt_len_def)
qed

text \<open>The number of units or instances a slot carries, and a table's total of one resource. An instance identifier
  is a widened \<open>u64\<close>, so a count of them never wraps.\<close>

fun held_count :: "Held option \<Rightarrow> nat" where
  "held_count None = 0"
| "held_count (Some (HAmount amt)) = unat amt"
| "held_count (Some (HInstances ids)) = bt_len ids"

fun held_small :: "Held \<Rightarrow> bool" where
  "held_small (HAmount _) = True"
| "held_small (HInstances ids) = (\<forall>i \<in> set (bt_keys ids). i < 2 ^ 64)"

definition bk_total :: "Buckets \<Rightarrow> ResourceAddr \<Rightarrow> nat" where
  "bk_total b r = (\<Sum>i < length (bk_slots b). if bk_resources b ! i = r then held_count (bk_slots b ! i) else 0)"

definition bk_aligned :: "Buckets \<Rightarrow> bool" where
  "bk_aligned b \<longleftrightarrow> length (bk_resources b) = length (bk_slots b) \<and> length (bk_origins b) = length (bk_slots b) \<and>
     (\<forall>held. Some held \<in> set (bk_slots b) \<longrightarrow> held_small held)"

lemma bt_len_small:
  fixes ids :: "u128 btset"
  assumes "\<forall>i \<in> set (bt_keys ids). i < 2 ^ 64"
  shows "bt_len ids \<le> 2 ^ 64"
proof -
  have "bt_len ids = card (set (bt_keys ids))"
    by (metis bt_keys_def bt_len_def distinct_card distinct_fst_entries length_map)
  also have "\<dots> = card (unat ` set (bt_keys ids))"
    by (rule card_image [symmetric]) (simp add: inj_on_def word_unat_eq_iff)
  also have "unat ` set (bt_keys ids) \<subseteq> {..<2 ^ 64}"
    using assms by (auto simp: word_less_nat_alt)
  then have "card (unat ` set (bt_keys ids)) \<le> card {..<(2::nat) ^ 64}" by (rule card_mono [rotated]) simp
  finally show ?thesis by simp
qed

lemma held_quantity_count: "held_small held \<Longrightarrow> unat (held_quantity held) = held_count (Some held)"
proof (cases held)
  case (HInstances ids)
  assume "held_small held"
  then have "bt_len ids < 2 ^ 128" using bt_len_small [of ids] HInstances by simp
  then show ?thesis using HInstances by (simp add: unat_of_nat)
qed simp

lemma held_empty_count: "held_small held \<Longrightarrow> held_is_empty held \<longleftrightarrow> held_count (Some held) = 0"
  using held_quantity_count [of held] by (simp add: held_is_empty_def word_unat_eq_iff)

lemma sum_nth_update:
  fixes w :: "'a \<Rightarrow> 'b \<Rightarrow> nat"
  assumes "i < length xs"
  shows "(\<Sum>j < length xs. w (xs[i := x] ! j) (ys ! j)) + w (xs ! i) (ys ! i)
    = (\<Sum>j < length xs. w (xs ! j) (ys ! j)) + w x (ys ! i)"
proof -
  have "(\<Sum>j \<in> {..<length xs} - {i}. w (xs[i := x] ! j) (ys ! j)) = (\<Sum>j \<in> {..<length xs} - {i}. w (xs ! j) (ys ! j))"
    by (rule sum.cong) (auto simp: nth_list_update)
  then show ?thesis
    using assms sum.remove [of "{..<length xs}" i "\<lambda>j. w (xs[i := x] ! j) (ys ! j)"]
      sum.remove [of "{..<length xs}" i "\<lambda>j. w (xs ! j) (ys ! j)"] by simp
qed

text \<open>Each change of one slot changes one resource's total by that slot's difference.\<close>

lemma bk_total_slot:
  assumes "i < length (bk_slots b)"
  shows "bk_total (b\<lparr> bk_slots := (bk_slots b)[i := slot] \<rparr>) r
      + (if bk_resources b ! i = r then held_count (bk_slots b ! i) else 0)
    = bk_total b r + (if bk_resources b ! i = r then held_count slot else 0)"
  using sum_nth_update [OF assms, of "\<lambda>slot res. if res = r then held_count slot else 0" slot "bk_resources b"]
  by (simp add: bk_total_def cong: if_cong)

lemma bk_total_more [simp]:
  "bk_total (b\<lparr> bk_origins := os \<rparr>) r = bk_total b r" "bk_total (b\<lparr> bk_reach := re \<rparr>) r = bk_total b r"
  by (simp_all add: bk_total_def cong: if_cong)

lemma bk_aligned_slot:
  "bk_aligned b \<Longrightarrow> \<forall>held. slot = Some held \<longrightarrow> held_small held \<Longrightarrow> bk_aligned (b\<lparr> bk_slots := (bk_slots b)[i := slot] \<rparr>)"
  by (auto simp: bk_aligned_def dest!: set_update_subset_insert [THEN subsetD])

lemma bk_get_Ok:
  "bk_get b rep = Ok held \<longleftrightarrow>
     unat rep < length (bk_slots b) \<and> bk_slots b ! unat rep = Some held \<and> reach_holds (bk_reach b) rep"
  by (auto simp: bk_get_def bk_slot_def split: option.splits if_splits)

lemma bk_get_small: "bk_aligned b \<Longrightarrow> bk_get b rep = Ok held \<Longrightarrow> held_small held"
  by (metis bk_aligned_def bk_get_Ok nth_mem)

lemma bk_resource_of_Ok:
  "bk_resource_of b rep = Ok r \<longleftrightarrow>
     unat rep < length (bk_resources b) \<and> bk_resources b ! unat rep = r \<and> reach_holds (bk_reach b) rep"
  by (auto simp: bk_resource_of_def)

lemma bk_amount_Ok: "bk_amount b rep = Ok amt \<longleftrightarrow> bk_get b rep = Ok (HAmount amt)"
  by (cases "bk_get b rep") (auto simp: bk_amount_def split: Held.splits)

lemma bk_open_Ok:
  assumes "bk_open held resource origin b = (Ok rep, b')" "bk_aligned b" "held_small held"
  shows "bk_aligned b'" "bk_total b' r = bk_total b r + (if resource = r then held_count (Some held) else 0)"
proof -
  from assms(1) have b': "bk_slots b' = bk_slots b @ [Some held]" "bk_resources b' = bk_resources b @ [resource]"
    "bk_origins b' = bk_origins b @ [origin]"
    by (auto simp: bk_open_def Let_def split: if_splits)
  with assms(2,3) show "bk_aligned b'" by (auto simp: bk_aligned_def)
  have "(\<Sum>i < length (bk_slots b). if bk_resources b' ! i = r then held_count (bk_slots b' ! i) else 0) = bk_total b r"
    unfolding bk_total_def by (rule sum.cong) (use b' assms(2) in \<open>auto simp: nth_append bk_aligned_def\<close>)
  then show "bk_total b' r = bk_total b r + (if resource = r then held_count (Some held) else 0)"
    using b' assms(2) by (simp add: bk_total_def [of b'] bk_aligned_def nth_append)
qed

lemma bk_take_Ok:
  assumes "bk_take rep b = (Ok held, b')" "bk_aligned b"
  shows "bk_aligned b'" "bk_get b rep = Ok held" "bk_resources b' = bk_resources b"
    "bk_total b' r + (if bk_resources b ! unat rep = r then held_count (Some held) else 0) = bk_total b r"
proof -
  from assms(1) have g: "bk_get b rep = Ok held" and b': "b' = b\<lparr> bk_slots := (bk_slots b)[unat rep := None] \<rparr>"
    by (auto simp: bk_take_def split: result.splits)
  show "bk_aligned b'" "bk_get b rep = Ok held" "bk_resources b' = bk_resources b"
    using g b' bk_aligned_slot [OF assms(2)] by auto
  show "bk_total b' r + (if bk_resources b ! unat rep = r then held_count (Some held) else 0) = bk_total b r"
    using bk_total_slot [of "unat rep" b None r] g unfolding b' bk_get_Ok by (simp split: if_splits)
qed

lemma bk_set_total:
  assumes "bk_get b rep = Ok old" "bk_aligned b" "held_small held"
  shows "bk_aligned (bk_set rep held b)" "bk_resources (bk_set rep held b) = bk_resources b"
    "bk_total (bk_set rep held b) r + (if bk_resources b ! unat rep = r then held_count (Some old) else 0)
      = bk_total b r + (if bk_resources b ! unat rep = r then held_count (Some held) else 0)"
  using assms bk_total_slot [of "unat rep" b "Some held" r] bk_aligned_slot [OF assms(2), of "Some held"]
  by (simp_all add: bk_set_def bk_get_Ok split: if_splits)

lemma absorb_ids_Ok:
  "absorb_ids xs held = Ok merged \<Longrightarrow> bt_len merged = bt_len held + length xs \<and>
     (\<forall>i. bt_contains merged i \<longleftrightarrow> bt_contains held i \<or> i \<in> set xs)"
  by (induction xs held rule: absorb_ids.induct) (auto simp: bt_len_insert split: if_splits)

lemma length_bt_keys [simp]: "length (bt_keys m) = bt_len m"
  by (simp add: bt_keys_def bt_len_def)

lemma merge_held_Ok:
  assumes "merge_held held added = Ok merged"
  shows "held_count (Some merged) = held_count (Some held) + held_count (Some added)"
    "held_small held \<Longrightarrow> held_small added \<Longrightarrow> held_small merged"
proof -
  consider (amounts) a b c where "held = HAmount a" "added = HAmount b" "merged = HAmount c" "unat c = unat a + unat b"
    | (instances) xs ys zs where "held = HInstances xs" "added = HInstances ys" "merged = HInstances zs"
        "absorb_ids (bt_keys ys) xs = Ok zs"
    using assms by (cases held; cases added) (auto simp: checked_add_eq_Some)
  then show "held_count (Some merged) = held_count (Some held) + held_count (Some added)"
    "held_small held \<Longrightarrow> held_small added \<Longrightarrow> held_small merged"
    by (cases; simp add: absorb_ids_Ok; fail | cases; use absorb_ids_Ok in fastforce)+
qed

lemma bk_parts_conserve:
  assumes "bk_get b rep = Ok (HAmount held)" "bk_resource_of b rep = Ok resource" "checked_sub held amt = Some left"
    "bk_open (HAmount amt) resource origin (bk_set rep (HAmount left) b) = (Ok fresh, b')" "bk_aligned b"
  shows "bk_aligned b'" "bk_total b' r = bk_total b r"
proof -
  let ?m = "bk_set rep (HAmount left) b"
  have m: "bk_aligned ?m" using bk_set_total(1) [OF assms(1,5)] by simp
  from bk_open_Ok(1) [OF assms(4) m] show "bk_aligned b'" by simp
  have "bk_resources b ! unat rep = resource" "unat held = unat amt + unat left"
    using assms(2,3) by (auto simp: bk_resource_of_Ok checked_sub_eq_Some)
  then show "bk_total b' r = bk_total b r"
    using bk_open_Ok(2) [OF assms(4) m, of r] bk_set_total(3) [OF assms(1,5), of "HAmount left" r]
    by (simp split: if_splits)
qed

lemma bk_split_conserves:
  assumes "bk_split rep amt b = (Ok fresh, b')" "bk_aligned b"
  shows "bk_aligned b' \<and> bk_total b' r = bk_total b r"
  using assms bk_parts_conserve [of b rep _ _ amt] by (auto simp: bk_split_def bk_amount_Ok)

lemma bk_split_share_conserves:
  assumes "bk_split_share rep num den b = (Ok fresh, b')" "bk_aligned b"
  shows "bk_aligned b' \<and> bk_total b' r = bk_total b r"
  using assms bk_parts_conserve [of b rep]
  by (auto simp: bk_split_share_def bk_amount_Ok op_then_Ok split: if_splits option.splits)

lemma bk_forget_origin_frame [simp]:
  "bk_slots (bk_forget_origin rep other b) = bk_slots b" "bk_resources (bk_forget_origin rep other b) = bk_resources b"
  "bk_reach (bk_forget_origin rep other b) = bk_reach b" "bk_total (bk_forget_origin rep other b) r = bk_total b r"
  "bk_aligned (bk_forget_origin rep other b) = bk_aligned b"
  by (simp_all add: bk_forget_origin_def bk_aligned_def)

lemma bk_merge_conserves:
  assumes "bk_merge rep other b = (Ok u, b')" "bk_aligned b"
  shows "bk_aligned b' \<and> bk_total b' r = bk_total b r"
proof -
  let ?f = "bk_forget_origin rep other b"
  from assms(1) obtain added m held merged where
    same: "bk_resources b ! unat rep = bk_resources b ! unat other" and
    take: "bk_take other ?f = (Ok added, m)" and held: "bk_get m rep = Ok held" and
    merged: "merge_held held added = Ok merged" and b': "b' = bk_set rep merged m"
    by (auto simp: bk_merge_def bk_resource_of_Ok op_then_Ok split: if_splits)
  have f: "bk_aligned ?f" using assms(2) by simp
  note t = bk_take_Ok [OF take f]
  have "held_small merged"
    using merge_held_Ok(2) [OF merged] bk_get_small [OF t(1) held] bk_get_small [OF f t(2)] by simp
  note s = bk_set_total [OF held t(1) this]
  show ?thesis
    using t(4) [of r] s(1) s(3) [of r] merge_held_Ok(1) [OF merged] same t(3) unfolding b' by (simp split: if_splits)
qed

lemma bk_drop_conserves:
  assumes "bk_drop rep b = (Ok u, b')" "bk_aligned b"
  shows "bk_aligned b' \<and> bk_total b' r = bk_total b r"
proof (cases "b' = b")
  case False
  with assms(1) obtain held where "bk_get b rep = Ok held" "held_is_empty held" and t: "bk_take rep b = (Ok held, b')"
    by (auto simp: bk_drop_def op_map_Ok bk_take_def split: if_splits)
  moreover have "held_count (Some held) = 0" using held_empty_count bk_get_small [OF assms(2)] calculation by simp
  ultimately show ?thesis using bk_take_Ok(1) [OF t assms(2)] bk_take_Ok(4) [OF t assms(2), of r]
    by (simp split: if_splits)
qed (use assms in auto)

lemma carries_value_iff: "bk_aligned b \<Longrightarrow> carries_value b \<longleftrightarrow> (\<exists>r. bk_total b r \<noteq> 0)"
proof -
  assume b: "bk_aligned b"
  have "(\<exists>r. bk_total b r \<noteq> 0) \<longleftrightarrow> (\<exists>i < length (bk_slots b). held_count (bk_slots b ! i) \<noteq> 0)"
    by (auto simp: bk_total_def)
  also have "\<dots> \<longleftrightarrow> (\<exists>slot \<in> set (bk_slots b). held_count slot \<noteq> 0)" by (metis in_set_conv_nth)
  also have "\<dots> \<longleftrightarrow> carries_value b"
  proof -
    have "held_count slot \<noteq> 0 \<longleftrightarrow> (case slot of Some held \<Rightarrow> \<not> held_is_empty held | None \<Rightarrow> False)"
      if "slot \<in> set (bk_slots b)" for slot
      using b that held_empty_count by (cases slot) (auto simp: bk_aligned_def)
    then show ?thesis by (auto simp: carries_value_def list_ex_iff)
  qed
  finally show ?thesis by simp
qed

end
