(* ===== verification/Session.thy ===== *)
theory Session
  imports Buckets
begin

text \<open>
  The kernel session: its state and every operation a guest or the walk performs on it.
  \<open>crates/kernel/src/session.rs\<close> holds the record, the resolution of a handle into a capability and the byte-cell
  operations; \<open>session/value.rs\<close> the movements between cells and buckets; \<open>session/ranges.rs\<close> the ordered
  collections; \<open>session/seal.rs\<close> the sealed draw.

  A method on \<open>&mut self\<close> is an operation on the record, its refusal a trap or a panic; a method on
  \<open>&self\<close> is a function of it.
\<close>

section \<open>The session's state\<close>

definition SEAL_MATURITY_EPOCHS :: u64 where "SEAL_MATURITY_EPOCHS = 2"

datatype Drawn = DPending | DReady bytes | DExpired

record SeedWindow =
  sw_usable :: "(u64, bytes) btmap option"
  sw_newest :: "u64 option"

definition window_unfolded :: SeedWindow where
  "window_unfolded = \<lparr> sw_usable = None, sw_newest = None \<rparr>"

definition window_at :: "SeedWindow \<Rightarrow> u64 \<Rightarrow> Drawn" where
  "window_at w epoch =
    (case Option.bind (sw_usable w) (\<lambda>held. bt_get held epoch) of
       Some seed \<Rightarrow> DReady seed
     | None \<Rightarrow> (case sw_newest w of Some newest \<Rightarrow> if epoch \<le> newest then DExpired else DPending | None \<Rightarrow> DPending))"

record EnvInputs =
  env_clock_ms :: u64
  env_epoch :: u64
  env_seeds :: SeedWindow

record FeeBurn =
  fb_vault :: SubstateKey
  fb_resource :: ResourceAddr
  fb_amount :: u128

definition ends_hold :: "FeeBurn \<Rightarrow> OwnerSet \<Rightarrow> bool" where
  "ends_hold fee applies = owner_covers applies (sk_owner (fb_vault fee))"

record NodeEvents =
  ne_bound :: nat
  ne_carried :: nat

datatype ResourceKind = Fungible | NonFungible

datatype Issued = IMinted | IBurned | IEither

fun issued_mints :: "Issued \<Rightarrow> bool" where
  "issued_mints IMinted = True" | "issued_mints IEither = True" | "issued_mints IBurned = False"

fun issued_burns :: "Issued \<Rightarrow> bool" where
  "issued_burns IBurned = True" | "issued_burns IEither = True" | "issued_burns IMinted = False"

record IssuanceGrant =
  ig_resource :: ResourceAddr
  ig_kind :: ResourceKind
  ig_direction :: Issued

record Nullifier =
  nl_account :: Address
  nl_key :: SubstateKey

record IntentRecord =
  ir_intent :: IntentHash
  ir_nullifiers :: "Nullifier list"
  ir_expiry_ms :: u64

record Scan =
  sc_entries :: "(u128 \<times> bytes) list"
  sc_covered :: "bool option"

record Ranges =
  rg_scans :: "(u32 \<times> u32, Scan) btmap"
  rg_written :: "(u32, u128 btset) btmap"

definition ranges_default :: Ranges where
  "ranges_default = \<lparr> rg_scans = bt_empty, rg_written = bt_empty \<rparr>"

record KernelSession =
  ks_store :: OverlayStore
  ks_declared :: EffectSet
  ks_table :: "Capability list"
  ks_tx :: TxHash
  ks_env :: EnvInputs
  ks_hash_fn :: "bytes \<Rightarrow> bytes"
  ks_applies :: OwnerSet
  ks_judges :: OwnerSet
  ks_nullifiers :: "IntentRecord list"
  ks_fee :: "FeeBurn option"
  ks_credits_withheld :: bool
  ks_ranges :: Ranges
  ks_lost_floor :: "(SubstateKey \<times> u128) option"
  ks_invocation :: "Address option"
  ks_events :: "Event list"
  ks_node_events :: NodeEvents
  ks_events_carried :: nat
  ks_cell_resources :: "ResourceAddr option list"
  ks_buckets :: Buckets
  ks_supply :: SupplyDelta
  ks_escrow :: EscrowDelta
  ks_crossings :: "(SubstateKey, bytes) btmap"
  ks_issuance :: "IssuanceGrant list"
  ks_entries :: "u32 option list"
  ks_sites :: "(u32 \<times> u32) list"
  ks_reach :: Reach
  ks_taken :: "u32 btset"

type_synonym 'a session_op = "(KernelSession, SessionTrap fault, 'a) op"

definition with_applies :: "OwnerSet \<Rightarrow> KernelSession \<Rightarrow> KernelSession" where
  "with_applies applies s = s\<lparr> ks_applies := applies \<rparr>"

definition with_nullifiers :: "IntentRecord list \<Rightarrow> KernelSession \<Rightarrow> KernelSession" where
  "with_nullifiers nullifiers s = s\<lparr> ks_nullifiers := nullifiers \<rparr>"

definition with_fee :: "FeeBurn option \<Rightarrow> KernelSession \<Rightarrow> KernelSession" where
  "with_fee fee s = s\<lparr> ks_fee := fee \<rparr>"

definition with_credits_withheld :: "bool \<Rightarrow> KernelSession \<Rightarrow> KernelSession" where
  "with_credits_withheld withheld s = s\<lparr> ks_credits_withheld := withheld \<rparr>"

text \<open>A call on the store, and one on the bucket table.\<close>

definition on_store :: "(OverlayStore \<Rightarrow> (StoreError, 'a) result \<times> OverlayStore) \<Rightarrow> 'a session_op" where
  "on_store f s = (case f (ks_store s) of (r, st) \<Rightarrow> (map_err (\<lambda>er. Fault (T_Store er)) r, s\<lparr> ks_store := st \<rparr>))"

definition on_buckets :: "'a bucket_op \<Rightarrow> 'a session_op" where
  "on_buckets f s = (case f (ks_buckets s) of (r, b) \<Rightarrow> (r, s\<lparr> ks_buckets := b \<rparr>))"

section \<open>Handles\<close>

definition site :: "KernelSession \<Rightarrow> u32 \<Rightarrow> (SessionTrap, u32 option list) result" where
  "site s rep =
    (if unat rep < length (ks_sites s)
     then if \<not> reach_holds (ks_reach s) rep then Err (OutsideFrame rep)
          else (let (start, len) = ks_sites s ! unat rep
                in if unat start + unat len \<le> length (ks_entries s)
                   then Ok (take (unat len) (drop (unat start) (ks_entries s))) else Err (UnknownHandle rep))
     else Err (UnknownHandle rep))"

definition u32_of_len :: "nat \<Rightarrow> u32" where
  "u32_of_len n = (if n < 2 ^ 32 then of_nat n else - 1)"

definition site_len :: "KernelSession \<Rightarrow> u32 \<Rightarrow> (SessionTrap, u32) result" where
  "site_len s rep = map_res (\<lambda>es. u32_of_len (length es)) (site s rep)"

definition entry_at :: "KernelSession \<Rightarrow> u32 \<Rightarrow> u32 \<Rightarrow> (SessionTrap, u32 option) result" where
  "entry_at s rep index =
    (if rep = ABSENT_REP then Err UndeclaredBranch
     else and_then (site s rep) (\<lambda>es.
       if unat index < length es then Ok (es ! unat index) else Err (IndexOutOfBounds index (length es))))"

definition site_declared :: "KernelSession \<Rightarrow> u32 \<Rightarrow> u32 \<Rightarrow> (SessionTrap, bool) result" where
  "site_declared s rep index = map_res (\<lambda>e. e \<noteq> None) (entry_at s rep index)"

definition rep_at :: "KernelSession \<Rightarrow> u32 \<Rightarrow> u32 \<Rightarrow> (SessionTrap, u32) result" where
  "rep_at s st el = and_then (entry_at s st el) (ok_or UndeclaredBranch)"

definition cap_at :: "KernelSession \<Rightarrow> u32 \<Rightarrow> u32 \<Rightarrow> (SessionTrap, Capability) result" where
  "cap_at s st el = and_then (rep_at s st el) (\<lambda>rep.
    if unat rep < length (ks_table s) then Ok (ks_table s ! unat rep) else Err (UnknownHandle rep))"

definition acting :: "KernelSession \<Rightarrow> u32 \<Rightarrow> u32 \<Rightarrow> Op \<Rightarrow> (SessionTrap, Capability) result" where
  "acting s st el attempted = and_then (cap_at s st el) (\<lambda>held.
    if \<not> owner_covers (ks_judges s) (cap_owner held) then Err (OutsideScope st el held)
    else if grants held attempted then Ok held
    else Err (Ungranted st el held attempted))"

definition acting_key :: "KernelSession \<Rightarrow> u32 \<Rightarrow> u32 \<Rightarrow> Op \<Rightarrow> (SessionTrap, SubstateKey) result" where
  "acting_key s st el attempted =
    and_then (acting s st el attempted) (\<lambda>held. ok_or (Ungranted st el held attempted) (cap_key held))"

definition resource_at :: "KernelSession \<Rightarrow> u32 \<Rightarrow> ResourceAddr option" where
  "resource_at s rep = (if unat rep < length (ks_cell_resources s) then ks_cell_resources s ! unat rep else None)"

definition cell_resource :: "KernelSession \<Rightarrow> u32 \<Rightarrow> u32 \<Rightarrow> ResourceAddr option" where
  "cell_resource s st el = (case entry_at s st el of Ok (Some rep) \<Rightarrow> resource_at s rep | _ \<Rightarrow> None)"

definition value_of :: "KernelSession \<Rightarrow> u32 \<Rightarrow> u32 \<Rightarrow> (SessionTrap, ResourceAddr) result" where
  "value_of s st el = ok_or (BytesAsValue st el) (cell_resource s st el)"

definition judge_credit :: "KernelSession \<Rightarrow> u32 \<Rightarrow> u32 \<Rightarrow> u32 \<Rightarrow> (SessionTrap, unit) result" where
  "judge_credit s st el funds =
    and_then (value_of s st el) (\<lambda>cell.
    and_then (bk_resource_of (ks_buckets s) funds) (\<lambda>carried.
    if cell = carried then Ok () else Err (WrongResource cell carried)))"

definition bind_site :: "u32 option list \<Rightarrow> KernelSession \<Rightarrow> u32 \<times> KernelSession" where
  "bind_site es s =
    (let rep = u32_of_len (length (ks_sites s));
         start = u32_of_len (length (ks_entries s));
         len = u32_of_len (length es)
     in (rep, s\<lparr> ks_entries := ks_entries s @ es, ks_sites := ks_sites s @ [(start, len)],
               ks_reach := reach_lend rep (ks_reach s) \<rparr>))"

definition lend_bucket :: "u32 \<Rightarrow> KernelSession \<Rightarrow> KernelSession" where
  "lend_bucket rep s = s\<lparr> ks_buckets := bk_lend rep (ks_buckets s) \<rparr>"

definition enter_invocation :: "Address \<Rightarrow> nat \<Rightarrow> KernelSession \<Rightarrow> KernelSession" where
  "enter_invocation emitter event_bytes s =
    s\<lparr> ks_invocation := Some emitter, ks_node_events := \<lparr> ne_bound = event_bytes, ne_carried = 0 \<rparr>,
       ks_issuance := [], ks_reach := reach_enter (ks_reach s), ks_buckets := bk_enter_frame (ks_buckets s) \<rparr>"

definition leave_invocation :: "KernelSession \<Rightarrow> KernelSession" where
  "leave_invocation s =
    s\<lparr> ks_invocation := None, ks_issuance := [], ks_reach := reach_leave (ks_reach s),
       ks_buckets := bk_leave_frame (ks_buckets s) \<rparr>"

definition usize_add_sat :: "nat \<Rightarrow> nat \<Rightarrow> nat" where
  "usize_add_sat a b = min (a + b) (2 ^ 64 - 1)"

definition emit :: "u32 \<Rightarrow> bytes \<Rightarrow> unit session_op" where
  "emit event_type payload s =
    (case ks_invocation s of
       None \<Rightarrow> (Err (Fault NoInvocation), s)
     | Some emitter \<Rightarrow>
         if event_type \<ge> MAX_EVENT_TYPES then (Err (Fault (EventTypeOutOfRange event_type)), s)
         else if length payload > MAX_EVENT_PAYLOAD_BYTES then (Err (Fault (EventPayloadTooLarge (length payload))), s)
         else if length (ks_events s) \<ge> MAX_EVENTS_PER_TX then (Err (Fault TooManyEvents), s)
         else
           (let kept = usize_add_sat EVENT_FRAME_BYTES (length payload);
                carried = usize_add_sat (ne_carried (ks_node_events s)) kept;
                total = usize_add_sat (ks_events_carried s) kept
            in if carried > ne_bound (ks_node_events s)
               then (Err (Fault (EventBytesExceeded (ne_bound (ks_node_events s)))), s)
               else if total > MAX_EVENT_BYTES_PER_TX then (Err (Fault (EventBytesExceeded MAX_EVENT_BYTES_PER_TX)), s)
               else (Ok (), s\<lparr> ks_node_events := (ks_node_events s)\<lparr> ne_carried := carried \<rparr>, ks_events_carried := total,
                      ks_events := ks_events s @ [\<lparr> ev_emitter = emitter, ev_type = event_type, ev_payload = payload \<rparr>] \<rparr>)))"


section \<open>Byte cells\<close>

text \<open>Whether a target is there, over the store and the movements queued on it.\<close>

definition occupied :: "EffectTarget \<Rightarrow> OverlayStore \<Rightarrow> (StoreError, bool) result \<times> OverlayStore" where
  "occupied target st =
    (let scan = (\<lambda>owner collection lo hi.
       case ov_entries_in_range owner collection lo hi 1 st of (r, st') \<Rightarrow> (map_res (\<lambda>es. es \<noteq> []) r, st'))
     in case target of
       Point key \<Rightarrow>
         (case ov_read key st of
            (Err er, st') \<Rightarrow> (Err er, st')
          | (Ok cell, st') \<Rightarrow>
              if \<not> bt_contains (ov_pending_map st') key then (Ok (cell \<noteq> None), st')
              else (and_then
                      (case cell of
                         Some bs \<Rightarrow> if bs = [] then Ok 0 else map_err ModeErr (decode_amount bs)
                       | None \<Rightarrow> Ok 0)
                      (\<lambda>committed. map_res (\<lambda>stands. stands > 0) (al_with_queued (ov_pending_map st') key committed)), st'))
     | Entry owner collection order \<Rightarrow> scan owner collection order order
     | RangeT owner collection lo hi cap \<Rightarrow> if cap = 0 then (Ok False, st) else scan owner collection lo hi)"

definition declared_cell :: "SubstateKey \<Rightarrow> bytes session_op" where
  "declared_cell key = op_map (\<lambda>cell. case cell of Some bs \<Rightarrow> bs | None \<Rightarrow> []) (on_store (ov_read key))"

definition declared_present :: "EffectTarget \<Rightarrow> bool session_op" where
  "declared_present target = on_store (occupied target)"

definition cell_get :: "u32 \<Rightarrow> u32 \<Rightarrow> bytes session_op" where
  "cell_get st el =
    op_then (op_get (\<lambda>s. acting_key s st el OpRead)) (\<lambda>key.
    op_map (\<lambda>cell. case cell of Some bs \<Rightarrow> bs | None \<Rightarrow> []) (on_store (ov_read key)))"

definition check_value_len :: "nat \<Rightarrow> u32 \<Rightarrow> (SessionTrap, unit) result" where
  "check_value_len len width = (if len > unat width then Err (CellValueTooLarge len width) else Ok ())"

definition write_cell_set :: "u32 \<Rightarrow> u32 \<Rightarrow> bytes \<Rightarrow> unit session_op" where
  "write_cell_set st el val =
    op_then (op_get (\<lambda>s. acting_key s st el OpWrite)) (\<lambda>key.
    op_then (op_get (\<lambda>s. check_value_len (length val) (width_of (ks_declared s) (Point key)))) (\<lambda>_.
    on_store (ov_write key val)))"

definition write_cell_clear :: "u32 \<Rightarrow> u32 \<Rightarrow> unit session_op" where
  "write_cell_clear st el =
    op_then (op_get (\<lambda>s. acting_key s st el OpClear)) (\<lambda>key.
    op_map (\<lambda>_. ()) (on_store (ov_remove key)))"

section \<open>The sealed draw\<close>

definition DOMAIN_SEALED_DRAW :: bytes where "DOMAIN_SEALED_DRAW = ascii ''hyperscale/vm/sealed-draw''"

definition SEAL_TAG :: u8 where "SEAL_TAG = 0x5E"

definition sealed_epoch :: "u32 \<Rightarrow> bytes \<Rightarrow> (SessionTrap, u64) result" where
  "sealed_epoch st held =
    (case held of
       mark # epoch \<Rightarrow> if mark = SEAL_TAG \<and> length epoch = 8 then Ok (le_word epoch) else Err (NotASeal st)
     | [] \<Rightarrow> Err (NotASeal st))"

definition seal_bytes :: "u64 \<Rightarrow> bytes" where
  "seal_bytes epoch = SEAL_TAG # le_bytes epoch"

definition matured_seed :: "KernelSession \<Rightarrow> u64 \<Rightarrow> Drawn" where
  "matured_seed s epoch = window_at (env_seeds (ks_env s)) (saturating_add epoch SEAL_MATURITY_EPOCHS)"

definition seal :: "u32 \<Rightarrow> u32 \<Rightarrow> unit session_op" where
  "seal st el =
    op_then (op_get (\<lambda>s. acting_key s st el OpSeal)) (\<lambda>key.
    op_then (on_store (ov_read key)) (\<lambda>cell.
    op_then (case cell of
        None \<Rightarrow> op_ok ()
      | Some held \<Rightarrow> op_then (op_get (\<lambda>_. sealed_epoch st held)) (\<lambda>epoch.
          op_get (\<lambda>s. if matured_seed s epoch = DExpired then Ok () else Err (SealStanding st)))) (\<lambda>_.
    op_then (op_get (\<lambda>s. Ok (env_epoch (ks_env s)))) (\<lambda>now. on_store (ov_write key (seal_bytes now))))))"

definition open_seal :: "u32 \<Rightarrow> u32 \<Rightarrow> Drawn session_op" where
  "open_seal st el =
    op_then (op_get (\<lambda>s. acting_key s st el OpOpenSeal)) (\<lambda>key.
    op_then (on_store (ov_read key)) (\<lambda>cell.
    op_then (op_get (\<lambda>_. sealed_epoch st (case cell of Some bs \<Rightarrow> bs | None \<Rightarrow> []))) (\<lambda>epoch.
    op_get (\<lambda>s. Ok (case matured_seed s epoch of
        DReady seed \<Rightarrow> DReady (ks_hash_fn s (DOMAIN_SEALED_DRAW @ seed @ be_bytes (key_to_bytes key)))
      | unopened \<Rightarrow> unopened)))))"

section \<open>Value\<close>

definition amount_cell_at :: "SubstateKey \<Rightarrow> u128 session_op" where
  "amount_cell_at key =
    op_then (on_store (ov_read key)) (\<lambda>cell.
    op_then (op_get (\<lambda>_.
        case cell of
          Some bs \<Rightarrow> if bs = [] then Ok 0
            else (case decode_amount bs of Ok a \<Rightarrow> Ok a | Err _ \<Rightarrow> Err (T_BadAmountCell key))
        | None \<Rightarrow> Ok 0)) (\<lambda>committed.
    op_get (\<lambda>s. map_err T_Store (al_with_queued (ov_pending_map (ks_store s)) key committed))))"

definition amount_cell_balance :: "u32 \<Rightarrow> u32 \<Rightarrow> u128 session_op" where
  "amount_cell_balance st el = op_then (op_get (\<lambda>s. acting_key s st el OpBalance)) amount_cell_at"

definition settling :: "u32 \<Rightarrow> u32 \<Rightarrow> Capability \<Rightarrow> Op \<Rightarrow> (SessionTrap, Settlement) result" where
  "settling st el held attempted = ok_or (Ungranted st el held attempted) (cap_settlement held)"

definition open_bucket :: "Held \<Rightarrow> ResourceAddr \<Rightarrow> SubstateKey option \<Rightarrow> u32 session_op" where
  "open_bucket held resource origin = on_buckets (bk_open held resource origin)"

definition take_bucket :: "u32 \<Rightarrow> Held session_op" where
  "take_bucket rep = on_buckets (bk_take rep)"

definition bucket_take :: "u32 \<Rightarrow> u128 \<Rightarrow> u32 session_op" where
  "bucket_take rep amt = on_buckets (bk_split rep amt)"

definition bucket_split :: "u32 \<Rightarrow> U256 \<Rightarrow> U256 \<Rightarrow> u32 session_op" where
  "bucket_split rep num den = on_buckets (bk_split_share rep num den)"

definition bucket_put :: "u32 \<Rightarrow> u32 \<Rightarrow> unit session_op" where
  "bucket_put rep other = on_buckets (bk_merge rep other)"

definition drop_bucket :: "u32 \<Rightarrow> unit session_op" where
  "drop_bucket rep = on_buckets (bk_drop rep)"

definition cell_take :: "u32 \<Rightarrow> u32 \<Rightarrow> u128 \<Rightarrow> u32 session_op" where
  "cell_take st el amt =
    op_then (op_get (\<lambda>s. acting s st el OpTake)) (\<lambda>held.
    op_then (op_get (\<lambda>s. value_of s st el)) (\<lambda>resource.
    op_then (op_get (\<lambda>_. settling st el held OpTake)) (\<lambda>settlement.
    op_then (case settlement of
        Immediate key \<Rightarrow>
          op_then (amount_cell_at key) (\<lambda>stands.
          op_get (\<lambda>_. map_res (\<lambda>_. key) (ok_or T_CellUnderflow (checked_sub stands amt))))
      | Queued key \<Rightarrow> op_ok key) (\<lambda>key.
    op_then (on_store (ov_queue_delta key (Sub amt))) (\<lambda>_.
    open_bucket (HAmount amt) resource (Some key))))))"

definition credit_room :: "SubstateKey \<Rightarrow> u128 \<Rightarrow> u128 \<Rightarrow> unit session_op" where
  "credit_room key stands amt s =
    (case checked_add stands amt of
       Some _ \<Rightarrow> (Ok (), s)
     | None \<Rightarrow> (Err (Fault (T_CellOverflow key amt)), s\<lparr> ks_lost_floor := Some (key, amt) \<rparr>))"

definition cell_put :: "u32 \<Rightarrow> u32 \<Rightarrow> u32 \<Rightarrow> unit session_op" where
  "cell_put st el funds =
    op_then (op_get (\<lambda>s. acting s st el OpPut)) (\<lambda>held.
    op_then (op_get (\<lambda>s. judge_credit s st el funds)) (\<lambda>_.
    op_then (op_get (\<lambda>s. bk_amount (ks_buckets s) funds)) (\<lambda>amt.
    op_then (op_get (\<lambda>_. settling st el held OpPut)) (\<lambda>settlement.
    op_then (case settlement of
        Immediate key \<Rightarrow> op_then (amount_cell_at key) (\<lambda>stands. op_map (\<lambda>_. key) (credit_room key stands amt))
      | Queued key \<Rightarrow> op_ok key) (\<lambda>key.
    op_then (on_store (ov_queue_delta key (Add amt))) (\<lambda>_.
    op_map (\<lambda>_. ()) (take_bucket funds)))))))"

definition take_lost_floor :: "KernelSession \<Rightarrow> (SubstateKey \<times> u128) option \<times> KernelSession" where
  "take_lost_floor s = (ks_lost_floor s, s\<lparr> ks_lost_floor := None \<rparr>)"


text \<open>Issuance: value made and unmade under the grants of the running invocation.\<close>

definition MAX_IDS_PER_EDGE :: nat where "MAX_IDS_PER_EDGE = 64"

definition distinct_ids :: "u64 list \<Rightarrow> u64 list option" where
  "distinct_ids ids = (if length ids > MAX_IDS_PER_EDGE \<or> \<not> distinct ids then None else Some ids)"

definition supply_step :: "(SupplyDelta, ModeError, unit) op \<Rightarrow> unit session_op" where
  "supply_step f s = (case f (ks_supply s) of (r, d) \<Rightarrow> (map_err (\<lambda>er. Fault (T_Supply er)) r, s\<lparr> ks_supply := d \<rparr>))"

definition escrow_step :: "(EscrowDelta, ModeError, unit) op \<Rightarrow> unit session_op" where
  "escrow_step f s = (case f (ks_escrow s) of (r, d) \<Rightarrow> (map_err (\<lambda>er. Fault (T_Supply er)) r, s\<lparr> ks_escrow := d \<rparr>))"

definition grant_issuance :: "IssuanceGrant list \<Rightarrow> KernelSession \<Rightarrow> KernelSession" where
  "grant_issuance given s = s\<lparr> ks_issuance := given \<rparr>"

definition issued_by :: "KernelSession \<Rightarrow> u32 \<Rightarrow> ResourceKind \<Rightarrow> (SessionTrap, ResourceAddr) result" where
  "issued_by s grant k =
    (if unat grant < length (ks_issuance s) \<and> issued_mints (ig_direction (ks_issuance s ! unat grant))
     then (let held = ks_issuance s ! unat grant
           in if ig_kind held \<noteq> k then Err WrongIssuanceKind else Ok (ig_resource held))
     else Err IssuanceUngranted)"

definition mint :: "u32 \<Rightarrow> u128 \<Rightarrow> u32 session_op" where
  "mint grant amt =
    op_then (op_get (\<lambda>s. issued_by s grant Fungible)) (\<lambda>resource.
    op_then (supply_step (supply_mint resource amt)) (\<lambda>_.
    open_bucket (HAmount amt) resource None))"

definition mint_instances :: "u32 \<Rightarrow> u64 list \<Rightarrow> u32 session_op" where
  "mint_instances grant ids =
    op_then (op_get (\<lambda>s. issued_by s grant NonFungible)) (\<lambda>resource.
    op_then (op_get (\<lambda>_. ok_or MalformedIdSet (distinct_ids ids))) (\<lambda>named.
    let instances = bs_of_list (map ucast named)
    in op_then (supply_step (supply_mint resource (of_nat (bt_len instances)))) (\<lambda>_.
       open_bucket (HInstances instances) resource None)))"

definition burn :: "u32 \<Rightarrow> unit session_op" where
  "burn funds =
    op_then (op_get (\<lambda>s. bk_resource_of (ks_buckets s) funds)) (\<lambda>carried.
    op_then (op_get (\<lambda>s. map_res ig_resource (ok_or IssuanceUngranted
        (find (\<lambda>grant. ig_resource grant = carried \<and> issued_burns (ig_direction grant)) (ks_issuance s))))) (\<lambda>resource.
    op_then (op_get (\<lambda>s. map_res held_quantity (bk_get (ks_buckets s) funds))) (\<lambda>destroyed.
    op_then (supply_step (supply_burn resource destroyed)) (\<lambda>_.
    op_map (\<lambda>_. ()) (take_bucket funds)))))"

text \<open>Crossings: value leaving for another shard and value arriving from one. The record's bytes are an encoding that
  never fails (\<open>expect\<close> in the source).\<close>

definition record_crossing :: "SubstateKey \<Rightarrow> (EncodeError, bytes) result \<Rightarrow> unit session_op" where
  "record_crossing key val s =
    (case val of
       Err _ \<Rightarrow> (Err Panic, s)
     | Ok bs \<Rightarrow>
        (let s' = s\<lparr> ks_crossings := bt_insert key bs (ks_crossings s) \<rparr>
         in if bt_contains (ks_crossings s) key then (Err (Fault (CrossingKeyRepeated key)), s') else (Ok (), s')))"

definition escrow_out :: "u32 \<Rightarrow> u32 \<Rightarrow> u32 \<Rightarrow> Departure \<Rightarrow> Crossed session_op" where
  "escrow_out node output funds dep =
    op_then (op_get (\<lambda>s. bk_resource_of (ks_buckets s) funds)) (\<lambda>resource.
    op_then (op_get (\<lambda>s. bk_amount (ks_buckets s) funds)) (\<lambda>amt.
    op_then (op_get (\<lambda>s. Ok (bk_origin_of (ks_buckets s) funds))) (\<lambda>origin.
    op_then (op_get (\<lambda>_.
        case cr_kind (dp_crossing dep) of
          Owed \<Rightarrow> Ok TOwed
        | Escrowed \<Rightarrow> (case origin of
            None \<Rightarrow> Err (CrossingWithoutRecourse (dp_record dep))
          | Some credit \<Rightarrow> Ok (TEscrowed credit)))) (\<lambda>terms.
    op_then (take_bucket funds) (\<lambda>_.
    let crossed = \<lparr> x_resource = resource, x_amount = amt \<rparr>
    in op_then (escrow_step (escrow_issue node output crossed)) (\<lambda>_.
       op_then (op_get (\<lambda>s. Ok (ks_tx s))) (\<lambda>tx.
       op_then (record_crossing (dp_record dep)
           (crossing_to_bytes (id_cell (cr_id (dp_crossing dep)) tx resource amt (dp_validity_end_ms dep) terms))) (\<lambda>_.
       op_ok crossed))))))))"

definition escrow_in :: "Arrival \<Rightarrow> u32 session_op" where
  "escrow_in arr =
    (if cr_kind (ar_crossing arr) = Owed then op_err (Fault (OwedArrival (ar_claim arr)))
     else
       op_then (escrow_step (escrow_claim (ar_crossed arr))) (\<lambda>_.
       op_then (op_get (\<lambda>s. Ok (ks_tx s))) (\<lambda>tx.
       op_then (record_crossing (ar_claim arr)
           (answer_to_bytes (id_answer (cr_id (ar_crossing arr)) tx Taken (ar_validity_end_ms arr)))) (\<lambda>_.
       open_bucket (HAmount (x_amount (ar_crossed arr))) (x_resource (ar_crossed arr)) None))))"

text \<open>Reservations leave once.\<close>

definition reserved :: "KernelSession \<Rightarrow> u32 \<Rightarrow> u32 \<Rightarrow> Op \<Rightarrow> (SessionTrap, u128) result" where
  "reserved s st el attempted =
    and_then (acting s st el attempted) (\<lambda>held.
      case held of
        CapReserve key amt \<Rightarrow>
          map_res (\<lambda>_. amt) (ok_or ReservationMissing (ov_held_reservation (ks_store s) key (ks_tx s)))
      | _ \<Rightarrow> Err ReservationMissing)"

definition reserve_amount_at :: "u32 \<Rightarrow> u32 \<Rightarrow> u128 session_op" where
  "reserve_amount_at st el = op_get (\<lambda>s. reserved s st el OpReservedAmount)"

definition cell_behind :: "KernelSession \<Rightarrow> u32 \<Rightarrow> SubstateKey option" where
  "cell_behind s rep =
    (if unat rep < length (ks_table s)
     then (case ks_table s ! unat rep of
             CapAmount key _ \<Rightarrow> Some key
           | CapDelta key _ \<Rightarrow> Some key
           | CapReserve key _ \<Rightarrow> Some key
           | _ \<Rightarrow> None)
     else None)"

definition take_once :: "u32 \<Rightarrow> unit session_op" where
  "take_once rep s =
    (if bt_contains (ks_taken s) rep then (Err (Fault ReservationTaken), s)
     else (Ok (), s\<lparr> ks_taken := bs_insert rep (ks_taken s) \<rparr>))"

definition reserve_take :: "u32 \<Rightarrow> u32 \<Rightarrow> u32 session_op" where
  "reserve_take st el =
    op_then (op_get (\<lambda>s. reserved s st el OpTakeReserved)) (\<lambda>amt.
    op_then (op_get (\<lambda>s. value_of s st el)) (\<lambda>resource.
    op_then (op_get (\<lambda>s. rep_at s st el)) (\<lambda>rep.
    op_then (take_once rep) (\<lambda>_.
    op_then (op_get (\<lambda>s. Ok (cell_behind s rep))) (\<lambda>origin.
    open_bucket (HAmount amt) resource origin)))))"


section \<open>Ordered collections\<close>

definition SCAN_SEEK_BYTES :: nat where "SCAN_SEEK_BYTES = 4 * 16"

definition acting_interval :: "KernelSession \<Rightarrow> u32 \<Rightarrow> u32 \<Rightarrow> Op \<Rightarrow> (SessionTrap, Interval) result" where
  "acting_interval s st el attempted =
    and_then (acting s st el attempted) (\<lambda>held. ok_or (Ungranted st el held attempted) (cap_interval held))"

definition interval_at :: "KernelSession \<Rightarrow> u32 \<Rightarrow> u32 \<Rightarrow> (SessionTrap, Interval) result" where
  "interval_at s st el = acting_interval s st el OpReadEntries"

definition write_interval :: "KernelSession \<Rightarrow> u32 \<Rightarrow> u32 \<Rightarrow> (SessionTrap, Interval) result" where
  "write_interval s st el = acting_interval s st el OpWriteEntries"

definition filing_interval :: "KernelSession \<Rightarrow> u32 \<Rightarrow> u32 \<Rightarrow> (SessionTrap, Interval) result" where
  "filing_interval s st el = acting_interval s st el OpFileInstances"

definition taking_interval :: "KernelSession \<Rightarrow> u32 \<Rightarrow> u32 \<Rightarrow> (SessionTrap, Interval) result" where
  "taking_interval s st el = acting_interval s st el OpTakeInstances"

definition usize_mul_sat :: "nat \<Rightarrow> nat \<Rightarrow> nat" where
  "usize_mul_sat a b = min (a * b) (2 ^ 64 - 1)"

definition walk_floor :: "u128 \<Rightarrow> u128 \<Rightarrow> u32 \<Rightarrow> u32 \<Rightarrow> nat" where
  "walk_floor lo hi cap width =
    (if cap = 0 \<or> lo > hi then 0
     else usize_add_sat SCAN_SEEK_BYTES (usize_mul_sat (usize_add_sat (unat cap) 1) (unat (entry_leaf_bytes width))))"

definition probe_floor :: "nat \<Rightarrow> u32 \<Rightarrow> nat" where
  "probe_floor keys width = usize_mul_sat keys (usize_add_sat SCAN_SEEK_BYTES (unat width))"

definition take_floor :: "u32 \<Rightarrow> u32 \<Rightarrow> nat \<Rightarrow> nat session_op" where
  "take_floor st el keys = op_get (\<lambda>s. map_res (\<lambda>i. probe_floor keys (iv_width i)) (taking_interval s st el))"

definition put_floor :: "u32 \<Rightarrow> u32 \<Rightarrow> u32 \<Rightarrow> nat session_op" where
  "put_floor st el funds = op_get (\<lambda>s. map_res (\<lambda>i.
    probe_floor (case bk_get (ks_buckets s) funds of Ok (HInstances ids) \<Rightarrow> bt_len ids | _ \<Rightarrow> 0) (iv_width i))
    (filing_interval s st el))"

definition scan_floor :: "KernelSession \<Rightarrow> u32 \<Rightarrow> u32 \<Rightarrow> (SessionTrap, nat) result" where
  "scan_floor s st el =
    (if bt_contains (rg_scans (ks_ranges s)) (st, el) then Ok 0
     else map_res (\<lambda>i. walk_floor (iv_lo i) (iv_hi i) (iv_cap i) (iv_width i)) (interval_at s st el))"

definition lift_entries :: "Address \<Rightarrow> CollectionId \<Rightarrow> u128 \<Rightarrow> u128 \<Rightarrow> u32 \<Rightarrow> (u128 \<times> bytes) list session_op" where
  "lift_entries owner collection lo hi cap = on_store (ov_entries_in_range owner collection lo hi cap)"

definition probe :: "Address \<Rightarrow> CollectionId \<Rightarrow> u128 \<Rightarrow> bool session_op" where
  "probe owner collection order = op_map (\<lambda>es. es \<noteq> []) (lift_entries owner collection order order 1)"

definition put_scan :: "u32 \<times> u32 \<Rightarrow> Scan \<Rightarrow> KernelSession \<Rightarrow> KernelSession" where
  "put_scan at page s = s\<lparr> ks_ranges := (ks_ranges s)\<lparr> rg_scans := bt_insert at page (rg_scans (ks_ranges s)) \<rparr> \<rparr>"

definition scan :: "u32 \<Rightarrow> u32 \<Rightarrow> unit session_op" where
  "scan st el s =
    (if bt_contains (rg_scans (ks_ranges s)) (st, el) then (Ok (), s)
     else op_then (op_get (\<lambda>s. interval_at s st el)) (\<lambda>i.
          op_then (lift_entries (iv_owner i) (iv_collection i) (iv_lo i) (iv_hi i) (iv_cap i)) (\<lambda>es.
          op_do (put_scan (st, el) \<lparr> sc_entries = es, sc_covered = None \<rparr>))) s)"

text \<open>The page a scan materialized; indexing the table at a page it lacks would panic.\<close>

definition page_at :: "u32 \<Rightarrow> u32 \<Rightarrow> Scan session_op" where
  "page_at st el s =
    (case bt_get (rg_scans (ks_ranges s)) (st, el) of Some page \<Rightarrow> (Ok page, s) | None \<Rightarrow> (Err Panic, s))"

definition charge_write :: "u32 \<Rightarrow> u32 \<Rightarrow> u128 \<Rightarrow> u32 \<Rightarrow> unit session_op" where
  "charge_write st el order cap =
    op_then (op_get (\<lambda>s. rep_at s st el)) (\<lambda>rep s.
      let written = bt_get_or bt_empty (rg_written (ks_ranges s)) rep;
          put = (\<lambda>w. s\<lparr> ks_ranges := (ks_ranges s)\<lparr> rg_written := bt_insert rep w (rg_written (ks_ranges s)) \<rparr> \<rparr>)
      in if \<not> bt_contains written order \<and> bt_len written \<ge> unat cap
         then (Err (Fault (WriteCapExceeded cap order)), put written)
         else (Ok (), put (bs_insert order written)))"

definition invalidate :: "Address \<Rightarrow> CollectionId \<Rightarrow> KernelSession \<Rightarrow> KernelSession" where
  "invalidate owner collection s =
    s\<lparr> ks_ranges := (ks_ranges s)\<lparr> rg_scans :=
       bt_filter (\<lambda>(st, el) _. \<not> (case interval_at s st el of
           Ok scanned \<Rightarrow> iv_owner scanned = owner \<and> iv_collection scanned = collection
         | Err _ \<Rightarrow> False)) (rg_scans (ks_ranges s)) \<rparr> \<rparr>"

definition indexed :: "'a list \<Rightarrow> u32 \<Rightarrow> (SessionTrap, 'a) result" where
  "indexed es index = (if unat index < length es then Ok (es ! unat index) else Err (IndexOutOfBounds index (length es)))"

definition range_count :: "u32 \<Rightarrow> u32 \<Rightarrow> u32 session_op" where
  "range_count st el = op_then (scan st el) (\<lambda>_. op_map (\<lambda>page. u32_of_len (length (sc_entries page))) (page_at st el))"

definition range_covered :: "u32 \<Rightarrow> u32 \<Rightarrow> bool session_op" where
  "range_covered st el =
    op_then (scan st el) (\<lambda>_.
    op_then (op_get (\<lambda>s. interval_at s st el)) (\<lambda>i.
    op_then (page_at st el) (\<lambda>page.
    case sc_covered page of
      Some known \<Rightarrow> op_ok known
    | None \<Rightarrow>
       (let short = length (sc_entries page) < unat (iv_cap i);
            resume = (if short then None
                      else if sc_entries page = [] then Some (iv_lo i)
                      else if fst (last (sc_entries page)) = iv_hi i then None
                      else Some (fst (last (sc_entries page)) + 1))
        in op_then
             (case resume of
                None \<Rightarrow> op_ok True
              | Some from \<Rightarrow> if iv_cap i = 0 then op_ok False
                  else op_map (\<lambda>es. es = []) (lift_entries (iv_owner i) (iv_collection i) from (iv_hi i) 1)) (\<lambda>known.
           op_then (op_do (put_scan (st, el) (page\<lparr> sc_covered := Some known \<rparr>))) (\<lambda>_. op_ok known))))))"

definition range_order :: "u32 \<Rightarrow> u32 \<Rightarrow> u32 \<Rightarrow> u128 session_op" where
  "range_order st el index =
    op_then (scan st el) (\<lambda>_. op_then (page_at st el) (\<lambda>page. op_get (\<lambda>_. map_res fst (indexed (sc_entries page) index))))"

definition range_entry :: "u32 \<Rightarrow> u32 \<Rightarrow> u32 \<Rightarrow> bytes session_op" where
  "range_entry st el index =
    op_then (scan st el) (\<lambda>_. op_then (page_at st el) (\<lambda>page. op_get (\<lambda>_. map_res snd (indexed (sc_entries page) index))))"

definition range_set :: "u32 \<Rightarrow> u32 \<Rightarrow> u32 \<Rightarrow> bytes \<Rightarrow> unit session_op" where
  "range_set st el index val =
    op_then (op_get (\<lambda>s. write_interval s st el)) (\<lambda>i.
    op_then (op_get (\<lambda>_. check_value_len (length val) (iv_width i))) (\<lambda>_.
    op_then (range_order st el index) (\<lambda>order.
    op_then (charge_write st el order (iv_cap i)) (\<lambda>_.
    op_then (on_store (ov_entry_write (iv_owner i) (iv_collection i) order val)) (\<lambda>_.
    op_do (invalidate (iv_owner i) (iv_collection i)))))))"

definition range_insert :: "u32 \<Rightarrow> u32 \<Rightarrow> u128 \<Rightarrow> bytes \<Rightarrow> unit session_op" where
  "range_insert st el order val =
    op_then (op_get (\<lambda>s. write_interval s st el)) (\<lambda>i.
    op_then (op_get (\<lambda>_. check_value_len (length val) (iv_width i))) (\<lambda>_.
    op_then (op_get (\<lambda>_. if iv_holds i order then Ok () else Err OrderOutsideInterval)) (\<lambda>_.
    op_then (charge_write st el order (iv_cap i)) (\<lambda>_.
    op_then (on_store (ov_entry_write (iv_owner i) (iv_collection i) order val)) (\<lambda>_.
    op_do (invalidate (iv_owner i) (iv_collection i)))))))"

definition range_remove :: "u32 \<Rightarrow> u32 \<Rightarrow> u32 \<Rightarrow> unit session_op" where
  "range_remove st el index =
    op_then (op_get (\<lambda>s. write_interval s st el)) (\<lambda>i.
    op_then (range_order st el index) (\<lambda>order.
    op_then (charge_write st el order (iv_cap i)) (\<lambda>_.
    op_then (on_store (ov_entry_remove (iv_owner i) (iv_collection i) order)) (\<lambda>_.
    op_do (invalidate (iv_owner i) (iv_collection i))))))"

text \<open>Instances: taken out of an interval into a bucket, and filed from a bucket into one.\<close>

definition take_probed :: "u32 \<Rightarrow> u32 \<Rightarrow> Interval \<Rightarrow> u128 \<Rightarrow> unit session_op" where
  "take_probed st el i order =
    op_then (op_get (\<lambda>_. if iv_holds i order then Ok () else Err OrderOutsideInterval)) (\<lambda>_.
    op_then (probe (iv_owner i) (iv_collection i) order) (\<lambda>held.
    op_then (op_get (\<lambda>_. if held then Ok () else Err (InstanceNotHeld order))) (\<lambda>_.
    charge_write st el order (iv_cap i))))"

definition range_take :: "u32 \<Rightarrow> u32 \<Rightarrow> u64 list \<Rightarrow> u32 session_op" where
  "range_take st el ids =
    op_then (op_get (\<lambda>s. taking_interval s st el)) (\<lambda>i.
    op_then (op_get (\<lambda>s. value_of s st el)) (\<lambda>resource.
    op_then (op_get (\<lambda>_. ok_or MalformedIdSet (distinct_ids ids))) (\<lambda>named.
    op_then (op_each (take_probed st el i) (map ucast named)) (\<lambda>_.
    let taken = bs_of_list (map ucast named)
    in op_then (op_each (\<lambda>order. op_map (\<lambda>_. ()) (on_store (ov_entry_remove (iv_owner i) (iv_collection i) order))) (bt_keys taken)) (\<lambda>_.
       op_then (op_do (invalidate (iv_owner i) (iv_collection i))) (\<lambda>_.
       open_bucket (HInstances taken) resource None))))))"

definition range_put :: "u32 \<Rightarrow> u32 \<Rightarrow> u32 \<Rightarrow> bytes \<Rightarrow> unit session_op" where
  "range_put st el funds val =
    op_then (op_get (\<lambda>s. filing_interval s st el)) (\<lambda>i.
    op_then (op_get (\<lambda>_. check_value_len (length val) (iv_width i))) (\<lambda>_.
    op_then (op_get (\<lambda>s. judge_credit s st el funds)) (\<lambda>_.
    op_then (op_get (\<lambda>s. and_then (bk_get (ks_buckets s) funds) (\<lambda>held.
        case held of HInstances ids \<Rightarrow> Ok ids | HAmount _ \<Rightarrow> Err WrongEdgeKind))) (\<lambda>ids.
    op_then (op_each (\<lambda>order. op_get (\<lambda>_. if iv_holds i order then Ok () else Err OrderOutsideInterval)) (bt_keys ids)) (\<lambda>_.
    op_then (op_each (\<lambda>order. charge_write st el order (iv_cap i)) (bt_keys ids)) (\<lambda>_.
    op_then (op_each (\<lambda>order.
        op_then (probe (iv_owner i) (iv_collection i) order) (\<lambda>held.
        op_get (\<lambda>_. if held then Err (InstanceHeldTwice order) else Ok ()))) (bt_keys ids)) (\<lambda>_.
    op_then (op_each (\<lambda>order. on_store (ov_entry_write (iv_owner i) (iv_collection i) order val)) (bt_keys ids)) (\<lambda>_.
    op_then (op_do (invalidate (iv_owner i) (iv_collection i))) (\<lambda>_.
    op_map (\<lambda>_. ()) (take_bucket funds))))))))))"

end
