(* ===== verification/Receipt.thy ===== *)
theory Receipt
  imports Session
begin

text \<open>
  \<open>crates/kernel/src/session/receipt.rs\<close>: what a transaction committed, judged and folded at \<open>finish\<close>; with the part
  of a delta one shard applies, from \<open>crates/kernel/src/locality.rs\<close>.

  \<open>finish\<close> consumes the session, so a refusal has no state to leave; its phases are operations on the session.
  A cell encoding the source unwraps with \<open>expect\<close> is a panic where it fails.
\<close>

section \<open>Receipts\<close>

record StateDelta =
  dl_cells :: "(SubstateKey, bytes option) btmap"
  dl_entries :: "(EntryKey, bytes option) btmap"
  dl_movements :: "(SubstateKey, Movement) btmap"
  dl_settles :: "(SubstateKey, Movement) btmap"

definition delta_default :: StateDelta where
  "delta_default = \<lparr> dl_cells = bt_empty, dl_entries = bt_empty, dl_movements = bt_empty, dl_settles = bt_empty \<rparr>"

definition delta_is_empty :: "StateDelta \<Rightarrow> bool" where
  "delta_is_empty d \<longleftrightarrow> bt_is_empty (dl_cells d) \<and> bt_is_empty (dl_entries d) \<and> bt_is_empty (dl_movements d) \<and>
     bt_is_empty (dl_settles d)"

record Receipt =
  rc_outcome :: Outcome
  rc_delta :: StateDelta
  rc_events :: "Event list"
  rc_supply :: SupplyDelta
  rc_escrow :: EscrowDelta
  rc_fuel_by_node :: "u64 list"
  rc_fuel :: u64

datatype FinishError =
    Undeclared "Access list"
  | F_Store StoreError
  | F_UndenominatedMovement SubstateKey
  | Composition SubstateKey

datatype 'a Phase = Produced 'a | Aborted Outcome

type_synonym 'a finish_op = "(KernelSession, FinishError fault, 'a) op"

type_synonym Movements = "(SubstateKey, Movement) btmap"

definition fold_fuel :: "u64 list \<Rightarrow> u64" where
  "fold_fuel by_node = foldl saturating_add 0 by_node"

definition abort_with :: "OverlayStore \<Rightarrow> Outcome \<Rightarrow> u64 list \<Rightarrow> Receipt \<times> OverlayStore" where
  "abort_with store outcome fuel_by_node =
    (\<lparr> rc_outcome = outcome, rc_delta = delta_default, rc_events = [], rc_supply = supply_default,
       rc_escrow = escrow_default, rc_fuel_by_node = fuel_by_node, rc_fuel = fold_fuel fuel_by_node \<rparr>,
     ov_discard_active store)"

definition session_discard :: "KernelSession \<Rightarrow> OverlayStore" where
  "session_discard s = ov_discard_active (ks_store s)"

definition diff :: "OverlayStore \<Rightarrow> StateDelta" where
  "diff store = delta_default
     \<lparr> dl_cells := bt_of_list (filter (\<lambda>(key, after). ov_pre_active_cell store key \<noteq> after) (ov_active_cells store)),
       dl_entries := bt_of_list (filter (\<lambda>(key, after).
         ov_pre_active_entry store (ek_owner key) (ek_collection key) (ek_order key) \<noteq> after) (ov_active_entries store)) \<rparr>"

section \<open>Denominations\<close>

record Denominations =
  dn_cells :: "(SubstateKey, ResourceAddr) btmap"
  dn_entries :: "(Address \<times> CollectionId, ResourceAddr) btmap"
  dn_reserved :: "(SubstateKey, (u32 \<times> u128) list) btmap"

definition dn_default :: Denominations where
  "dn_default = \<lparr> dn_cells = bt_empty, dn_entries = bt_empty, dn_reserved = bt_empty \<rparr>"

definition dn_cell :: "Denominations \<Rightarrow> SubstateKey \<Rightarrow> ResourceAddr option" where
  "dn_cell d key = bt_get (dn_cells d) key"

definition dn_entry :: "Denominations \<Rightarrow> EntryKey \<Rightarrow> ResourceAddr option" where
  "dn_entry d key = bt_get (dn_entries d) (ek_owner key, ek_collection key)"

definition taken_against :: "Denominations \<Rightarrow> SubstateKey \<Rightarrow> u32 btset \<Rightarrow> u128 option" where
  "taken_against d key taken =
    checked_sum 0 (map snd (filter (\<lambda>(rep, _). bt_contains taken rep) (bt_get_or [] (dn_reserved d) key)))"

text \<open>\<open>entry(k).or_insert(v)\<close>.\<close>

definition bt_or_insert :: "'k::linorder \<Rightarrow> 'v \<Rightarrow> ('k, 'v) btmap \<Rightarrow> ('k, 'v) btmap" where
  "bt_or_insert k v m = (if bt_contains m k then m else bt_insert k v m)"

definition denominate :: "ResourceAddr option \<Rightarrow> nat \<times> Capability \<Rightarrow> Denominations \<Rightarrow> Denominations" where
  "denominate resource indexed_cap out =
    (case indexed_cap of (index, capability) \<Rightarrow>
     if index \<ge> 2 ^ 32 then out
     else
       (let out = (case capability of
              CapReserve key amt \<Rightarrow> out\<lparr> dn_reserved := bt_entry [] (\<lambda>xs. xs @ [(of_nat index, amt)]) key (dn_reserved out) \<rparr>
            | _ \<Rightarrow> out)
        in case resource of
             None \<Rightarrow> out
           | Some r \<Rightarrow>
              (case capability of
                 CapAmount key _ \<Rightarrow> out\<lparr> dn_cells := bt_or_insert key r (dn_cells out) \<rparr>
               | CapAmountRead key \<Rightarrow> out\<lparr> dn_cells := bt_or_insert key r (dn_cells out) \<rparr>
               | CapDelta key _ \<Rightarrow> out\<lparr> dn_cells := bt_or_insert key r (dn_cells out) \<rparr>
               | CapReserve key _ \<Rightarrow> out\<lparr> dn_cells := bt_or_insert key r (dn_cells out) \<rparr>
               | CapInstances i _ \<Rightarrow>
                   out\<lparr> dn_entries := bt_or_insert (iv_owner i, iv_collection i) r (dn_entries out) \<rparr>
               | _ \<Rightarrow> out)))"

definition denominations :: "KernelSession \<Rightarrow> Denominations" where
  "denominations s = foldl (\<lambda>out (index, cap). denominate (resource_at s (of_nat index)) (index, cap) out) dn_default
     (enumerate 0 (ks_table s))"

section \<open>The conservation fold\<close>

type_synonym Sides = "(ResourceAddr, (u128 \<times> u128) option) btmap"

definition weigh :: "Sides \<Rightarrow> ResourceAddr \<times> u128 \<times> u128 \<Rightarrow> Sides" where
  "weigh sides w =
    (case w of (resource, gained, lost) \<Rightarrow>
     bt_entry (Some (0, 0)) (\<lambda>side. Option.bind side (\<lambda>(had, spent).
       Option.bind (checked_add had gained) (\<lambda>g. Option.bind (checked_add spent lost) (\<lambda>l. Some (g, l))))) resource sides)"

definition movement_weights :: "StateDelta \<Rightarrow> (ResourceAddr \<times> u128 \<times> u128) list" where
  "movement_weights delta =
    map (\<lambda>m. (mv_resource m, mv_credit m, mv_debit m)) (bt_values (dl_movements delta) @ bt_values (dl_settles delta))"

definition entry_weight :: "OverlayStore \<Rightarrow> Denominations \<Rightarrow> EntryKey \<times> bytes option \<Rightarrow> (ResourceAddr \<times> u128 \<times> u128) option" where
  "entry_weight store d e =
    (case e of (key, change) \<Rightarrow>
     case dn_entry d key of
       None \<Rightarrow> None
     | Some resource \<Rightarrow>
        (case (ov_pre_active_entry store (ek_owner key) (ek_collection key) (ek_order key) \<noteq> None, change \<noteq> None) of
           (False, True) \<Rightarrow> Some (resource, 1, 0)
         | (True, False) \<Rightarrow> Some (resource, 0, 1)
         | _ \<Rightarrow> None))"

definition entry_weights :: "OverlayStore \<Rightarrow> Denominations \<Rightarrow> StateDelta \<Rightarrow> (ResourceAddr \<times> u128 \<times> u128) list" where
  "entry_weights store d delta = List.map_filter (entry_weight store d) (entries (dl_entries delta))"

definition supply_weights :: "SupplyDelta \<Rightarrow> (ResourceAddr \<times> u128 \<times> u128) list" where
  "supply_weights supply = map (\<lambda>r. (r, burned supply r, minted supply r)) (supply_resources supply)"

definition escrow_weights :: "EscrowDelta \<Rightarrow> (ResourceAddr \<times> u128 \<times> u128) list" where
  "escrow_weights escrow = map (\<lambda>r. (r, issued escrow r, claimed escrow r)) (escrow_resources escrow)"

definition unconserved :: "KernelSession \<Rightarrow> StateDelta \<Rightarrow> Denominations \<Rightarrow> ResourceAddr option" where
  "unconserved s delta d =
    (let sides = foldl weigh bt_empty (movement_weights delta @ entry_weights (ks_store s) d delta @
       supply_weights (ks_supply s) @ escrow_weights (ks_escrow s))
     in map_option fst (find (\<lambda>(_, side). case side of None \<Rightarrow> True | Some (gained, lost) \<Rightarrow> gained \<noteq> lost) (entries sides)))"


section \<open>The phases of a finish\<close>

definition owns :: "KernelSession \<Rightarrow> SubstateKey \<Rightarrow> bool" where
  "owns s key = owner_covers (ks_applies s) (sk_owner key)"

text \<open>A store's refusal at the close: a lost floor, a defect of the declaration, or the kernel's own defect.\<close>

definition refusal :: "Outcome \<Rightarrow> StoreError \<Rightarrow> (FinishError fault, 'a Phase) result" where
  "refusal lost defect =
    (case fault defect of
       Floor \<Rightarrow> Ok (Aborted lost)
     | Declaration er \<Rightarrow> Ok (Aborted (UserError (mode_abort er)))
     | Defect \<Rightarrow> Err (Fault (F_Store defect)))"

fun total_movements ::
  "Denominations \<Rightarrow> (SubstateKey \<times> DeltaOp list) list \<Rightarrow> Movements \<Rightarrow> (FinishError fault, Movements Phase) result" where
  "total_movements d [] movements = Ok (Produced movements)"
| "total_movements d ((key, ops) # queued) movements =
    (case dn_cell d key of
       None \<Rightarrow> Err (Fault (F_UndenominatedMovement key))
     | Some resource \<Rightarrow>
        (case total_movement ops resource of
           Ok movement \<Rightarrow> total_movements d queued (bt_insert key movement movements)
         | Err er \<Rightarrow> Ok (Aborted (UserError (mode_abort er)))))"

fun judge_each :: "KernelSession \<Rightarrow> (SubstateKey \<times> Movement) list \<Rightarrow> (FinishError fault, unit Phase) result" where
  "judge_each s [] = Ok (Produced ())"
| "judge_each s ((key, movement) # rest) =
    (if \<not> owns s key then judge_each s rest
     else case al_judge_movement (overlay_baseline (ks_store s)) key (ks_tx s) (mv_credit movement) (mv_debit movement) of
       Ok _ \<Rightarrow> judge_each s rest
     | Err defect \<Rightarrow> refusal (Infeasible key (mv_debit movement)) defect)"

definition withhold_each :: "Movements \<Rightarrow> KernelSession \<Rightarrow> KernelSession" where
  "withhold_each movements s =
    foldl (\<lambda>s (key, movement).
      (let raised = saturating_sub (mv_credit movement) (mv_debit movement)
       in if raised > 0 \<and> owns s key then s\<lparr> ks_store := ov_withhold_credit key (ks_tx s) raised (ks_store s) \<rparr> else s))
      s (entries movements)"

definition fold_movements :: "Movements \<Rightarrow> Movements Phase finish_op" where
  "fold_movements movements s =
    (let s = s\<lparr> ks_store := ov_retain_pending_deltas (owns s) (ks_store s) \<rparr>
     in case al_commit_deltas overlay_ledger (ks_store s) of
       (Err defect, st) \<Rightarrow>
         ((case fault defect of
             Declaration er \<Rightarrow> Ok (Aborted (UserError (mode_abort er)))
           | _ \<Rightarrow> Err (Fault (F_Store defect))), s\<lparr> ks_store := st \<rparr>)
     | (Ok _, st) \<Rightarrow>
         (let s = s\<lparr> ks_store := st \<rparr>
          in (Ok (Produced movements), if ks_credits_withheld s then withhold_each movements s else s)))"

definition judge_movements :: "Denominations \<Rightarrow> Movements Phase finish_op" where
  "judge_movements d s =
    (case total_movements d (entries (ov_pending_map (ks_store s))) bt_empty of
       Err er \<Rightarrow> (Err er, s)
     | Ok (Aborted out) \<Rightarrow> (Ok (Aborted out), s)
     | Ok (Produced movements) \<Rightarrow>
        (case judge_each s (entries movements) of
           Err er \<Rightarrow> (Err er, s)
         | Ok (Aborted out) \<Rightarrow> (Ok (Aborted out), s)
         | Ok (Produced _) \<Rightarrow> fold_movements movements s))"

definition settle_hold :: "SubstateKey \<Rightarrow> u128 \<Rightarrow> KernelSession \<Rightarrow> (StoreError, u128 option) result \<times> OverlayStore" where
  "settle_hold key taken s =
    (if taken = 0 then map_prod (map_res (\<lambda>_. None)) id (al_release overlay_ledger key (ks_tx s) (ks_store s))
     else if owns s key then
       map_prod (map_res Some) id
         (al_settle overlay_ledger key (ks_tx s) (al_reduce_hold overlay_ledger key (ks_tx s) taken (ks_store s)))
     else map_prod (map_res (\<lambda>_. Some taken)) id (al_release overlay_ledger key (ks_tx s) (ks_store s)))"

fun settle_each :: "Denominations \<Rightarrow> Capability list \<Rightarrow> SubstateKey btset \<Rightarrow> Movements \<Rightarrow> Movements Phase finish_op" where
  "settle_each d [] seen settles s = (Ok (Produced settles), s)"
| "settle_each d (cap # table) seen settles s =
    (case cap of
       CapReserve key _ \<Rightarrow>
         if bt_contains seen key then settle_each d table seen settles s
         else if \<not> owner_covers (ks_judges s) (sk_owner key) then settle_each d table (bs_insert key seen) settles s
         else
           (case dn_cell d key of
              None \<Rightarrow> (Err (Fault (F_UndenominatedMovement key)), s)
            | Some resource \<Rightarrow>
               (case taken_against d key (ks_taken s) of
                  None \<Rightarrow> (Ok (Aborted (ProtocolError A_ValueNotConserved)), s)
                | Some taken \<Rightarrow>
                   (case settle_hold key taken s of
                      (Ok (Some amt), st) \<Rightarrow>
                        settle_each d table (bs_insert key seen) (bt_insert key (mv_debit_of resource amt) settles) (s\<lparr> ks_store := st \<rparr>)
                    | (Ok None, st) \<Rightarrow> settle_each d table (bs_insert key seen) settles (s\<lparr> ks_store := st \<rparr>)
                    | (Err defect, st) \<Rightarrow>
                        (refusal (Infeasible key (case ov_held_reservation st key (ks_tx s) of Some a \<Rightarrow> a | None \<Rightarrow> 0)) defect,
                         s\<lparr> ks_store := st \<rparr>))))
     | _ \<Rightarrow> settle_each d table seen settles s)"

definition settle_reservations :: "Denominations \<Rightarrow> Movements Phase finish_op" where
  "settle_reservations d s = settle_each d (ks_table s) bt_empty bt_empty s"

definition burn_fee :: "Movements \<Rightarrow> Movements Phase finish_op" where
  "burn_fee movements s =
    (case ks_fee s of
       None \<Rightarrow> (Ok (Produced movements), s)
     | Some fee \<Rightarrow>
        if \<not> ends_hold fee (ks_applies s) then (Ok (Produced movements), s)
        else
          (let s = s\<lparr> ks_store := ov_set_fee_hold (fb_vault fee) (ks_tx s) None (ks_store s) \<rparr>
           in if fb_amount fee = 0 then (Ok (Produced movements), s)
              else case al_apply_movement overlay_ledger (fb_vault fee) (ks_tx s) 0 (fb_amount fee) (ks_store s) of
                (Err defect, st) \<Rightarrow> (refusal (Infeasible (fb_vault fee) (fb_amount fee)) defect, s\<lparr> ks_store := st \<rparr>)
              | (Ok _, st) \<Rightarrow>
                 (let s = s\<lparr> ks_store := st \<rparr>;
                      burned_now = mv_debit_of (fb_resource fee) (fb_amount fee)
                  in case (case bt_get movements (fb_vault fee) of
                             Some stands \<Rightarrow> map_err (\<lambda>_. Fault (Composition (fb_vault fee))) (mv_then stands burned_now)
                           | None \<Rightarrow> Ok burned_now) of
                       Err er \<Rightarrow> (Err er, s)
                     | Ok both \<Rightarrow>
                        (case supply_burn (fb_resource fee) (fb_amount fee) (ks_supply s) of
                           (Err er, d) \<Rightarrow> (Ok (Aborted (UserError (mode_abort er))), s\<lparr> ks_supply := d \<rparr>)
                         | (Ok _, d) \<Rightarrow> (Ok (Produced (bt_insert (fb_vault fee) both movements)), s\<lparr> ks_supply := d \<rparr>)))))"

section \<open>Finish\<close>

definition spend_record :: "KernelSession \<Rightarrow> IntentRecord \<Rightarrow> (EncodeError, bytes) result" where
  "spend_record s record = marker_to_bytes \<lparr> mk_tx = ks_tx s, mk_expiry_ms = ir_expiry_ms record, mk_marks = MSpent (ir_intent record) \<rparr>"

definition spends :: "KernelSession \<Rightarrow> (SubstateKey \<times> (EncodeError, bytes) result) list" where
  "spends s = concat (map (\<lambda>record. map (\<lambda>n. (nl_key n, spend_record s record)) (ir_nullifiers record)) (ks_nullifiers s))"

fun write_each :: "(SubstateKey \<times> (EncodeError, bytes) result) list \<Rightarrow> unit finish_op" where
  "write_each [] s = (Ok (), s)"
| "write_each ((key, val) # rest) s =
    (if \<not> owns s key then write_each rest s
     else case val of
       Err _ \<Rightarrow> (Err Panic, s)
     | Ok bs \<Rightarrow>
        (case ov_write key bs (ks_store s) of
           (Err er, st) \<Rightarrow> (Err (Fault (F_Store er)), s\<lparr> ks_store := st \<rparr>)
         | (Ok _, st) \<Rightarrow> write_each rest (s\<lparr> ks_store := st \<rparr>)))"

fun add_kernel_cells ::
  "Denominations \<Rightarrow> (SubstateKey \<times> bytes) list \<Rightarrow> StateDelta \<Rightarrow> StateDelta option" where
  "add_kernel_cells d [] delta = Some delta"
| "add_kernel_cells d ((key, val) # rest) delta =
    (if dn_cell d key \<noteq> None then None
     else add_kernel_cells d rest (delta\<lparr> dl_cells := bt_insert key (Some val) (dl_cells delta) \<rparr>))"

fun encoded :: "('k \<times> ('e, 'v) result) list \<Rightarrow> ('k \<times> 'v) list option" where
  "encoded [] = Some []"
| "encoded ((k, Ok v) # rest) = map_option (Cons (k, v)) (encoded rest)"
| "encoded ((k, Err e) # rest) = None"

text \<open>The close of a session whose value, reservations and fee are settled: the kernel's own cells, the access oracle,
  the delta and the conservation fold.\<close>

definition close :: "Denominations \<Rightarrow> Movements \<Rightarrow> Movements \<Rightarrow> Answer list \<Rightarrow> u64 list \<Rightarrow> KernelSession
    \<Rightarrow> (FinishError fault, Receipt \<times> OverlayStore) result" where
  "close d movements settles answers fuel_by_node s =
    (case write_each (spends s @ map (\<lambda>(key, val). (key, Ok val)) (entries (ks_crossings s))) s of
       (Err er, _) \<Rightarrow> Err er
     | (Ok _, s) \<Rightarrow>
        (let escaped = undeclared_accesses (ov_access_log (ks_store s)) (ks_declared s) in
         if escaped \<noteq> [] then Err (Fault (Undeclared escaped))
         else
           (let changed = diff (ks_store s);
                delta = changed\<lparr> dl_cells := bt_filter (\<lambda>key _. \<not> bt_contains movements key \<and> \<not> bt_contains settles key) (dl_cells changed),
                                  dl_movements := movements, dl_settles := settles \<rparr>
            in case encoded (spends s) of
                 None \<Rightarrow> Err Panic
               | Some spent \<Rightarrow>
                  (case add_kernel_cells d (spent @ entries (ks_crossings s)) delta of
                     None \<Rightarrow> Ok (abort_with (ks_store s) (ProtocolError A_MalformedAmountCell) fuel_by_node)
                   | Some delta \<Rightarrow>
                      if unconserved s delta d \<noteq> None
                      then Ok (abort_with (ks_store s) (ProtocolError A_ValueNotConserved) fuel_by_node)
                      else if length answers > MAX_MANIFEST_NODES then Err Panic
                      else Ok (\<lparr> rc_outcome = Completed answers, rc_delta = delta, rc_events = ks_events s,
                                 rc_supply = ks_supply s, rc_escrow = ks_escrow s, rc_fuel_by_node = fuel_by_node,
                                 rc_fuel = fold_fuel fuel_by_node \<rparr>, ov_merge_active (ks_store s))))))"

definition finish :: "KernelSession \<Rightarrow> Answer list \<Rightarrow> u64 list \<Rightarrow> (FinishError fault, Receipt \<times> OverlayStore) result" where
  "finish s answers fuel_by_node =
    (if carries_value (ks_buckets s) then Ok (abort_with (ks_store s) (UserError A_ValueDropped) fuel_by_node)
     else
       (let d = denominations s in
        case judge_movements d s of
          (Err er, _) \<Rightarrow> Err er
        | (Ok (Aborted out), s) \<Rightarrow> Ok (abort_with (ks_store s) out fuel_by_node)
        | (Ok (Produced movements), s) \<Rightarrow>
           (case settle_reservations d s of
              (Err er, _) \<Rightarrow> Err er
            | (Ok (Aborted out), s) \<Rightarrow> Ok (abort_with (ks_store s) out fuel_by_node)
            | (Ok (Produced settles), s) \<Rightarrow>
               (case burn_fee movements s of
                  (Err er, _) \<Rightarrow> Err er
                | (Ok (Aborted out), s) \<Rightarrow> Ok (abort_with (ks_store s) out fuel_by_node)
                | (Ok (Produced movements), s) \<Rightarrow> close d movements settles answers fuel_by_node s))))"

section \<open>The part a shard applies\<close>

definition owned_by :: "OwnerSet \<Rightarrow> ('k \<Rightarrow> Address) \<Rightarrow> ('k \<times> 'v) list \<Rightarrow> ('k \<times> 'v) list" where
  "owned_by applies owner_of es = filter (\<lambda>(key, _). owner_covers applies (owner_of key)) es"

definition owned_cells :: "OwnerSet \<Rightarrow> StateDelta \<Rightarrow> (SubstateKey \<times> bytes option) list" where
  "owned_cells applies delta = owned_by applies sk_owner (entries (dl_cells delta))"

definition owned_entries :: "OwnerSet \<Rightarrow> StateDelta \<Rightarrow> (EntryKey \<times> bytes option) list" where
  "owned_entries applies delta = owned_by applies ek_owner (entries (dl_entries delta))"

definition owned_movements :: "OwnerSet \<Rightarrow> StateDelta \<Rightarrow> (SubstateKey \<times> Movement) list" where
  "owned_movements applies delta = owned_by applies sk_owner (entries (dl_movements delta))"

definition owned_settles :: "OwnerSet \<Rightarrow> StateDelta \<Rightarrow> (SubstateKey \<times> Movement) list" where
  "owned_settles applies delta = owned_by applies sk_owner (entries (dl_settles delta))"

fun compose_movements :: "(SubstateKey \<times> Movement) list \<Rightarrow> Movements \<Rightarrow> Movements option" where
  "compose_movements [] movements = Some movements"
| "compose_movements ((key, movement) # rest) movements =
    (case bt_get movements key of
       None \<Rightarrow> compose_movements rest (bt_insert key movement movements)
     | Some stands \<Rightarrow>
        (case mv_then stands movement of
           Ok both \<Rightarrow> compose_movements rest (bt_insert key both movements)
         | Err _ \<Rightarrow> None))"

definition project :: "StateDelta \<Rightarrow> OwnerSet \<Rightarrow> StateWrites option" where
  "project delta applies =
    map_option (\<lambda>movements. \<lparr> sw_cells = bt_of_list (owned_cells applies delta), sw_movements = movements,
        sw_entries = bt_of_list (owned_entries applies delta) \<rparr>)
      (compose_movements (owned_movements applies delta @ owned_settles applies delta) bt_empty)"

end
