(* ===== verification/Finish.thy ===== *)
theory Finish
  imports Receipt
begin

text \<open>
  What \<open>finish\<close> of \<open>crates/kernel/src/session/receipt.rs\<close> promises: the conservation fold decides exactly whether the
  two sides of every resource agree and fit their width, a completed receipt balances, and an abort leaves nothing.
\<close>

section \<open>The conservation fold is exact\<close>

definition gained_in :: "(ResourceAddr \<times> u128 \<times> u128) list \<Rightarrow> ResourceAddr \<Rightarrow> nat" where
  "gained_in ws r = sum_list (map (\<lambda>(res, gained, _). if res = r then unat gained else 0) ws)"

definition lost_in :: "(ResourceAddr \<times> u128 \<times> u128) list \<Rightarrow> ResourceAddr \<Rightarrow> nat" where
  "lost_in ws r = sum_list (map (\<lambda>(res, _, lost). if res = r then unat lost else 0) ws)"

lemma in_simps [simp]:
  "gained_in [] r = 0" "lost_in [] r = 0"
  "gained_in ((res, g, l) # ws) r = (if res = r then unat g else 0) + gained_in ws r"
  "lost_in ((res, g, l) # ws) r = (if res = r then unat l else 0) + lost_in ws r"
  "gained_in (ws @ vs) r = gained_in ws r + gained_in vs r" "lost_in (ws @ vs) r = lost_in ws r + lost_in vs r"
  by (simp_all add: gained_in_def lost_in_def)

definition weighed :: "nat \<Rightarrow> nat \<Rightarrow> (u128 \<times> u128) option" where
  "weighed g l = (if g < 2 ^ 128 \<and> l < 2 ^ 128 then Some (of_nat g, of_nat l) else None)"

lemma weighed_eq_Some: "weighed g l = Some (a, b) \<longleftrightarrow> unat a = g \<and> unat b = l"
proof -
  have "n < 2 ^ 128 \<and> word_of_nat n = a \<longleftrightarrow> unat a = n" for n and a :: u128
    using unat_bound [of a] by (auto simp: unat_of_nat)
  then show ?thesis by (auto simp: weighed_def)
qed

lemma option_pair_eqI: "(\<And>a b. x = Some (a, b) \<longleftrightarrow> y = Some (a, b)) \<Longrightarrow> x = y"
  by (cases x; cases y) auto

lemma weighed_step:
  "Option.bind (weighed g l) (\<lambda>(had, spent). Option.bind (checked_add had x) (\<lambda>p. Option.bind (checked_add spent y) (\<lambda>q. Some (p, q))))
    = weighed (unat x + g) (unat y + l)" (is "?lhs = ?rhs")
proof (rule option_pair_eqI)
  show "?lhs = Some (a, b) \<longleftrightarrow> ?rhs = Some (a, b)" for a b
  proof -
    have "?lhs = Some (a, b) \<longleftrightarrow> (\<exists>had spent. weighed g l = Some (had, spent) \<and> checked_add had x = Some a \<and> checked_add spent y = Some b)"
      by (auto simp: bind_eq_Some_conv)
    also have "\<dots> \<longleftrightarrow> (\<exists>(had :: u128) (spent :: u128). unat had = g \<and> unat spent = l \<and> unat a = g + unat x \<and> unat b = l + unat y)"
      by (intro arg_cong [where f = Ex] ext) (auto simp: weighed_eq_Some checked_add_eq_Some)
    also have "\<dots> \<longleftrightarrow> unat a = g + unat x \<and> unat b = l + unat y"
    proof -
      have "\<exists>had :: u128. unat had = n" if "unat a = n + unat y" for n and a y :: u128
        using that unat_bound [of a] by (intro exI [of _ "a - y"]) (simp add: unat_sub_le word_le_nat_alt)
      then show ?thesis by blast
    qed
    finally show ?thesis by (simp add: weighed_eq_Some add.commute)
  qed
qed

lemma gained_absent: "r \<notin> fst ` set ws \<Longrightarrow> gained_in ws r = 0 \<and> lost_in ws r = 0"
  by (induction ws) (auto simp: image_iff)

lemma bt_get_weigh:
  "bt_get (weigh sides (res, x, y)) r =
    (if r = res
     then Some (Option.bind (bt_get_or (Some (0, 0)) sides res) (\<lambda>(had, spent).
       Option.bind (checked_add had x) (\<lambda>p. Option.bind (checked_add spent y) (\<lambda>q. Some (p, q)))))
     else bt_get sides r)"
  by (simp add: weigh_def)

lemma weigh_fold:
  "bt_get (foldl weigh bt_empty ws) r = (if r \<in> fst ` set ws then Some (weighed (gained_in ws r) (lost_in ws r)) else None)"
proof (induction ws arbitrary: r rule: rev_induct)
  case (snoc w ws)
  obtain res g l where w: "w = (res, g, l)" by (cases w) auto
  have z: "Some (0, 0) = weighed 0 0" by (simp add: weighed_def)
  have "bt_get_or (Some (0, 0)) (foldl weigh bt_empty ws) res = weighed (gained_in ws res) (lost_in ws res)"
    using snoc gained_absent [of res ws] z by (auto simp: bt_get_or_def)
  then show ?case using snoc
    by (auto simp: w bt_get_weigh weighed_step add.commute)
qed simp


text \<open>The fold finds nothing exactly where every resource's two sides agree and fit their width.\<close>

definition fold_weights :: "KernelSession \<Rightarrow> StateDelta \<Rightarrow> Denominations \<Rightarrow> (ResourceAddr \<times> u128 \<times> u128) list" where
  "fold_weights s delta d = movement_weights delta @ entry_weights (ks_store s) d delta @
     supply_weights (ks_supply s) @ escrow_weights (ks_escrow s)"

lemma unconserved_None_iff:
  "unconserved s delta d = None \<longleftrightarrow>
    (\<forall>r. gained_in (fold_weights s delta d) r = lost_in (fold_weights s delta d) r \<and>
         gained_in (fold_weights s delta d) r < 2 ^ 128)"
proof -
  let ?ws = "fold_weights s delta d"
  let ?sides = "foldl weigh bt_empty ?ws"
  have "unconserved s delta d = None \<longleftrightarrow>
      (\<forall>r side. bt_get ?sides r = Some side \<longrightarrow> (case side of None \<Rightarrow> False | Some (g, l) \<Rightarrow> g = l))"
    by (auto simp: unconserved_def Let_def fold_weights_def find_None_iff split: option.splits prod.splits)
  also have "\<dots> \<longleftrightarrow> (\<forall>r. r \<in> fst ` set ?ws \<longrightarrow>
      (case weighed (gained_in ?ws r) (lost_in ?ws r) of None \<Rightarrow> False | Some (g, l) \<Rightarrow> g = l))"
    by (simp add: weigh_fold)
  also have "\<dots> \<longleftrightarrow> (\<forall>r. gained_in ?ws r = lost_in ?ws r \<and> gained_in ?ws r < 2 ^ 128)"
  proof (intro all_cong1)
    fix r
    have w: "(case weighed g l of None \<Rightarrow> False | Some (a, b) \<Rightarrow> a = b) \<longleftrightarrow> g = l \<and> g < 2 ^ 128" for g l
    proof (cases "weighed g l")
      case None
      then show ?thesis by (auto simp: weighed_def split: if_splits)
    next
      case (Some ab)
      obtain a b where ab: "ab = (a, b)" by (cases ab) auto
      with Some have "unat a = g" "unat b = l" by (simp_all add: weighed_eq_Some)
      then show ?thesis using unat_bound [of a] Some ab by (auto simp: word_unat_eq_iff)
    qed
    show "(r \<in> fst ` set ?ws \<longrightarrow>
        (case weighed (gained_in ?ws r) (lost_in ?ws r) of None \<Rightarrow> False | Some (g, l) \<Rightarrow> g = l)) \<longleftrightarrow>
        gained_in ?ws r = lost_in ?ws r \<and> gained_in ?ws r < 2 ^ 128"
      unfolding w using gained_absent [of r ?ws] by (cases "r \<in> fst ` set ?ws") simp_all
  qed
  finally show ?thesis .
qed

section \<open>The phases leave what lies below the transaction\<close>

text \<open>No phase reaches below the active layer, changes an entry or logs an access. The committed layer queues nothing,
  since every transaction before this one folded or dropped its own queue.\<close>

definition settled_below :: "OverlayStore \<Rightarrow> bool" where
  "settled_below st \<longleftrightarrow> ly_pending_deltas (ov_committed st) = bt_empty"

definition phase_frame :: "OverlayStore \<Rightarrow> OverlayStore \<Rightarrow> bool" where
  "phase_frame st st' \<longleftrightarrow> ov_base st' = ov_base st \<and> ov_committed st' = ov_committed st \<and>
     ly_entries (ov_active st') = ly_entries (ov_active st) \<and> ov_log st' = ov_log st"

named_theorems framed \<open>steps that leave what lies below the transaction\<close>

lemma phase_frame_refl [simp, framed]: "phase_frame st st"
  by (simp add: phase_frame_def)

lemma phase_frame_trans [trans]: "phase_frame st st' \<Longrightarrow> phase_frame st' st'' \<Longrightarrow> phase_frame st st''"
  by (simp add: phase_frame_def)

lemma phase_frame_settled: "phase_frame st st' \<Longrightarrow> settled_below st \<Longrightarrow> settled_below st'"
  by (simp add: phase_frame_def settled_below_def)

lemma overlay_ledger_simps [simp]:
  "al_set_amount overlay_ledger = ov_set_amount" "al_set_hold overlay_ledger = ov_set_hold"
  "al_set_fee_hold overlay_ledger = ov_set_fee_hold" "al_withhold_credit overlay_ledger = ov_withhold_credit"
  "al_queued overlay_ledger = ov_pending_map" "al_clear_queued overlay_ledger = ov_clear_queued"
  by (simp_all add: overlay_ledger_def)

lemma set_framed [framed]:
  "phase_frame st (ov_set_amount key a st)" "phase_frame st (ov_set_hold key tx h st)"
  "phase_frame st (ov_set_fee_hold key tx h st)" "phase_frame st (ov_withhold_credit key tx a st)"
  by (simp_all add: phase_frame_def ov_set_amount_def put_cell_def ov_set_hold_def ov_set_fee_hold_def ov_withhold_credit_def)

lemma queue_framed [framed]:
  "settled_below st \<Longrightarrow> phase_frame st (ov_clear_queued st)"
  "settled_below st \<Longrightarrow> phase_frame st (ov_retain_pending_deltas keep st)"
  by (simp_all add: phase_frame_def settled_below_def ov_clear_queued_def ov_retain_pending_deltas_def Let_def bt_keys_def)

lemma settle_framed [framed]:
  "phase_frame st (al_reduce_hold overlay_ledger key tx a st)"
  "phase_frame st (snd (al_settle overlay_ledger key tx st))"
  "phase_frame st (snd (al_release overlay_ledger key tx st))"
  "phase_frame st (snd (al_apply_movement overlay_ledger key tx c d st))"
  using phase_frame_trans [OF set_framed(2) set_framed(1)]
  by (auto simp: al_reduce_hold_def al_settle_def al_release_def al_apply_movement_def Let_def framed split: result.split)

lemma foldl_framed:
  assumes "\<And>st x. phase_frame st (f st x)"
  shows "phase_frame st (foldl f st xs)"
  using assms phase_frame_trans by (induction xs arbitrary: st) (auto intro: phase_frame_trans)

lemma commit_framed:
  assumes "settled_below st"
  shows "phase_frame st (snd (al_commit_deltas overlay_ledger st))"
proof -
  let ?f = "foldl (\<lambda>s o'. ov_set_amount (ad_key o') (ad_after o') s) st"
  have f: "phase_frame st (?f applied)" for applied :: "AppliedDelta list" by (rule foldl_framed) (rule framed)
  then have "phase_frame st (ov_clear_queued (?f applied))" for applied :: "AppliedDelta list"
    using phase_frame_trans queue_framed(1) phase_frame_settled assms by blast
  then show ?thesis by (simp add: al_commit_deltas_def split: result.split)
qed

text \<open>A phase of the finish changes the store within its frame, and the supply only where it burns the fee.\<close>

definition session_frame :: "KernelSession \<Rightarrow> KernelSession \<Rightarrow> bool" where
  "session_frame s s' \<longleftrightarrow> phase_frame (ks_store s) (ks_store s') \<and> s' = s\<lparr> ks_store := ks_store s', ks_supply := ks_supply s' \<rparr>"

lemma session_frame_refl [simp, framed]: "session_frame s s"
  by (simp add: session_frame_def)

lemma session_frame_trans [trans]: "session_frame s s' \<Longrightarrow> session_frame s' s'' \<Longrightarrow> session_frame s s''"
  unfolding session_frame_def
proof (elim conjE, intro conjI)
  assume a: "s' = s\<lparr> ks_store := ks_store s', ks_supply := ks_supply s' \<rparr>"
    and b: "s'' = s'\<lparr> ks_store := ks_store s'', ks_supply := ks_supply s'' \<rparr>"
  show "s'' = s\<lparr> ks_store := ks_store s'', ks_supply := ks_supply s'' \<rparr>"
    by (subst b, subst a) simp
qed (rule phase_frame_trans)

lemma session_frame_store [framed]: "phase_frame (ks_store s) st \<Longrightarrow> session_frame s (s\<lparr> ks_store := st \<rparr>)"
  by (simp add: session_frame_def)

lemma session_frame_supply: "phase_frame (ks_store s) st \<Longrightarrow> session_frame s (s\<lparr> ks_store := st, ks_supply := d \<rparr>)"
  by (simp add: session_frame_def)

definition refused :: "Outcome \<Rightarrow> bool" where
  "refused out \<longleftrightarrow> (\<forall>answers. out \<noteq> Completed answers)"

lemma refused_simps [simp]:
  "refused (UserError er)" "refused (ProtocolError er)" "refused (Infeasible key amt)" "\<not> refused (Completed answers)"
  by (simp_all add: refused_def)

lemma refusal_cases: "refusal lost defect = Ok p \<Longrightarrow> refused lost \<Longrightarrow> \<exists>out. p = Aborted out \<and> refused out"
  by (auto simp: refusal_def split: Fault.splits)

lemma total_movements_Aborted: "total_movements d queued m = Ok (Aborted out) \<Longrightarrow> refused out"
  by (induction d queued m rule: total_movements.induct) (auto split: option.splits result.splits)

lemma judge_each_Aborted: "judge_each s ms = Ok (Aborted out) \<Longrightarrow> refused out"
  by (induction s ms rule: judge_each.induct) (auto split: if_splits result.splits dest!: refusal_cases)

lemma foldl_session_framed: "(\<And>s x. session_frame s (f s x)) \<Longrightarrow> session_frame s (foldl f s xs)"
proof (induction xs arbitrary: s)
  case (Cons x xs)
  from Cons.prems [of s x] Cons.IH [OF Cons.prems, of "f s x"] show ?case by (auto intro: session_frame_trans)
qed simp

lemma withhold_framed: "session_frame s (withhold_each movements s)"
  unfolding withhold_each_def by (rule foldl_session_framed) (auto simp: Let_def framed split: prod.split)

lemma judge_movements_framed:
  assumes "judge_movements d s = (Ok p, s')" "settled_below (ks_store s)"
  shows "session_frame s s' \<and> (\<forall>out. p = Aborted out \<longrightarrow> refused out)"
proof -
  let ?r = "s\<lparr> ks_store := ov_retain_pending_deltas (owns s) (ks_store s) \<rparr>"
  let ?c = "al_commit_deltas overlay_ledger (ks_store ?r)"
  have "phase_frame (ks_store s) (ks_store ?r)" using queue_framed(2) [OF assms(2)] by simp
  moreover from this have "phase_frame (ks_store ?r) (snd ?c)" using commit_framed phase_frame_settled assms(2) by blast
  ultimately have c: "session_frame s (?r\<lparr> ks_store := snd ?c \<rparr>)" by (auto intro: framed phase_frame_trans)
  have w: "session_frame s (withhold_each m (?r\<lparr> ks_store := snd ?c \<rparr>))" for m
    using session_frame_trans [OF c withhold_framed] .
  show ?thesis using assms(1) c w
    by (auto simp: judge_movements_def fold_movements_def Let_def total_movements_Aborted judge_each_Aborted
        split: result.splits Phase.splits prod.splits Fault.splits if_splits)
qed

lemma settle_hold_framed: "phase_frame (ks_store s) (snd (settle_hold key taken s))"
  using phase_frame_trans [OF settle_framed(1) settle_framed(2)] by (simp add: settle_hold_def framed)

lemma settle_each_cases:
  assumes "settle_each d (cap # table) seen settles s = (Ok p, s')"
  obtains (skip) "settle_each d table seen settles s = (Ok p, s')" "\<And>key amt. cap = CapReserve key amt \<Longrightarrow> bt_contains seen key"
  | (unjudged) key amt where "cap = CapReserve key amt" "\<not> bt_contains seen key" "\<not> owner_covers (ks_judges s) (sk_owner key)"
      "settle_each d table (bs_insert key seen) settles s = (Ok p, s')"
  | (released) key amt resource taken st where "cap = CapReserve key amt" "\<not> bt_contains seen key" "owner_covers (ks_judges s) (sk_owner key)"
      "dn_cell d key = Some resource" "taken_against d key (ks_taken s) = Some taken" "settle_hold key taken s = (Ok None, st)"
      "settle_each d table (bs_insert key seen) settles (s\<lparr> ks_store := st \<rparr>) = (Ok p, s')"
  | (debited) key amt resource taken st given where "cap = CapReserve key amt" "\<not> bt_contains seen key" "owner_covers (ks_judges s) (sk_owner key)"
      "dn_cell d key = Some resource" "taken_against d key (ks_taken s) = Some taken" "settle_hold key taken s = (Ok (Some given), st)"
      "settle_each d table (bs_insert key seen) (bt_insert key (mv_debit_of resource given) settles) (s\<lparr> ks_store := st \<rparr>) = (Ok p, s')"
  | (abort) out st where "p = Aborted out" "refused out" "s' = s\<lparr> ks_store := st \<rparr>" "phase_frame (ks_store s) st"
proof (cases "\<exists>key amt. cap = CapReserve key amt \<and> \<not> bt_contains seen key")
  case True
  then obtain key amt where cap: "cap = CapReserve key amt" "\<not> bt_contains seen key" by blast
  show thesis
  proof (cases "owner_covers (ks_judges s) (sk_owner key)")
    case judged: True
    from assms obtain resource where d: "dn_cell d key = Some resource" using cap judged by (auto split: option.splits)
    show thesis
    proof (cases "taken_against d key (ks_taken s)")
      case None
      with assms cap judged d show thesis by (intro abort [of "ProtocolError A_ValueNotConserved" "ks_store s"]) auto
    next
      case (Some taken)
      obtain r st where sh: "settle_hold key taken s = (r, st)" by force
      then have fr: "phase_frame (ks_store s) st" using settle_hold_framed [of s key taken] by simp
      show thesis
      proof (cases r)
        case (Err defect)
        with assms cap judged d Some sh have "refusal (Infeasible key (case ov_held_reservation st key (ks_tx s) of Some a \<Rightarrow> a | None \<Rightarrow> 0)) defect = Ok p"
          "s' = s\<lparr> ks_store := st \<rparr>" by auto
        with refusal_cases fr show thesis by (metis abort refused_simps(3))
      next
        case (Ok given)
        with assms cap judged d Some sh show thesis
          by (cases given) (auto intro: released [OF cap judged d Some] debited [OF cap judged d Some])
      qed
    qed
  qed (use assms cap unjudged in auto)
next
  case False
  with assms show thesis by (intro skip) (cases cap; auto)+
qed

lemma settle_each_framed:
  "settle_each d table seen settles s = (Ok p, s') \<Longrightarrow> session_frame s s' \<and> (\<forall>out. p = Aborted out \<longrightarrow> refused out)"
proof (induction table arbitrary: seen settles s)
  case (Cons cap table)
  have go: "session_frame s s' \<and> (\<forall>out. p = Aborted out \<longrightarrow> refused out)"
    if "settle_hold key taken s = (r, st)" "settle_each d table seen' settles' (s\<lparr> ks_store := st \<rparr>) = (Ok p, s')"
    for key taken r st seen' settles'
    using Cons.IH [OF that(2)] settle_hold_framed [of s key taken] that(1) session_frame_store session_frame_trans
    by (metis snd_conv)
  from Cons.prems show ?case
    by (cases rule: settle_each_cases) (use Cons.IH go in \<open>auto intro: framed\<close>)
qed auto

lemma burn_fee_cases:
  assumes "burn_fee movements s = (Ok p, s')"
  obtains (idle) st where "p = Produced movements" "s' = s\<lparr> ks_store := st \<rparr>" "phase_frame (ks_store s) st"
  | (burnt) fee st d both where "p = Produced (bt_insert (fb_vault fee) both movements)" "s' = s\<lparr> ks_store := st, ks_supply := d \<rparr>"
      "phase_frame (ks_store s) st" "ks_fee s = Some fee" "supply_burn (fb_resource fee) (fb_amount fee) (ks_supply s) = (Ok (), d)"
      "case bt_get movements (fb_vault fee) of
         Some stands \<Rightarrow> mv_then stands (mv_debit_of (fb_resource fee) (fb_amount fee)) = Ok both
       | None \<Rightarrow> both = mv_debit_of (fb_resource fee) (fb_amount fee)"
  | (abort) out st d where "p = Aborted out" "refused out" "s' = s\<lparr> ks_store := st, ks_supply := d \<rparr>" "phase_frame (ks_store s) st"
proof -
  show thesis
  proof (cases "\<exists>fee. ks_fee s = Some fee \<and> ends_hold fee (ks_applies s)")
    case False
    with assms show thesis by (intro idle [of "ks_store s"]) (auto simp: burn_fee_def split: option.splits)
  next
    case True
    then obtain fee where fee: "ks_fee s = Some fee" "ends_hold fee (ks_applies s)" by blast
    define st where "st = ov_set_fee_hold (fb_vault fee) (ks_tx s) None (ks_store s)"
    have fr: "phase_frame (ks_store s) st" by (simp add: st_def framed)
    show thesis
    proof (cases "fb_amount fee = 0")
      case True
      with assms fee fr show thesis by (intro idle [of st]) (simp_all add: burn_fee_def st_def)
    next
      case nz: False
      obtain r st' where ap: "al_apply_movement overlay_ledger (fb_vault fee) (ks_tx s) 0 (fb_amount fee) st = (r, st')" by force
      then have fr': "phase_frame (ks_store s) st'" using settle_framed(4) phase_frame_trans [OF fr] by (metis snd_conv)
      define pay where "pay = (case bt_get movements (fb_vault fee) of
          Some stands \<Rightarrow> map_err (\<lambda>_. Fault (Composition (fb_vault fee))) (mv_then stands (mv_debit_of (fb_resource fee) (fb_amount fee)))
        | None \<Rightarrow> Ok (mv_debit_of (fb_resource fee) (fb_amount fee)))"
      obtain q d where sb: "supply_burn (fb_resource fee) (fb_amount fee) (ks_supply s) = (q, d)" by force
      have run: "(case r of
          Err defect \<Rightarrow> (refusal (Infeasible (fb_vault fee) (fb_amount fee)) defect, s\<lparr> ks_store := st' \<rparr>)
        | Ok _ \<Rightarrow> (case pay of
            Err er \<Rightarrow> (Err er, s\<lparr> ks_store := st' \<rparr>)
          | Ok both \<Rightarrow> (case q of
              Err er \<Rightarrow> (Ok (Aborted (UserError (mode_abort er))), s\<lparr> ks_store := st', ks_supply := d \<rparr>)
            | Ok _ \<Rightarrow> (Ok (Produced (bt_insert (fb_vault fee) both movements)), s\<lparr> ks_store := st', ks_supply := d \<rparr>)))) = (Ok p, s')"
        using assms fee nz ap sb by (simp add: burn_fee_def Let_def st_def pay_def cong: result.case_cong)
      show thesis
      proof (cases r)
        case (Err defect)
        with run have "refusal (Infeasible (fb_vault fee) (fb_amount fee)) defect = Ok p" "s' = s\<lparr> ks_store := st', ks_supply := ks_supply s \<rparr>"
          by auto
        with refusal_cases fr' show thesis by (metis abort refused_simps(3))
      next
        case (Ok after)
        with run obtain both where both: "pay = Ok both" by (cases pay) auto
        have pays: "case bt_get movements (fb_vault fee) of
            Some stands \<Rightarrow> mv_then stands (mv_debit_of (fb_resource fee) (fb_amount fee)) = Ok both
          | None \<Rightarrow> both = mv_debit_of (fb_resource fee) (fb_amount fee)"
          using both by (auto simp: pay_def split: option.splits)
        show thesis
        proof (cases q)
          case (Err er)
          with run Ok both show thesis by (intro abort [where out = "UserError (mode_abort er)" and st = st' and d = d]) (simp_all add: fr')
        next
          case q: (Ok u)
          with run Ok both sb show thesis by (intro burnt [OF _ _ fr' fee(1) _ pays]) simp_all
        qed
      qed
    qed
  qed
qed

lemma burn_fee_framed:
  assumes "burn_fee movements s = (Ok p, s')"
  shows "session_frame s s' \<and> (\<forall>out. p = Aborted out \<longrightarrow> refused out)"
  using assms by (cases rule: burn_fee_cases) (auto intro: session_frame_supply framed)

section \<open>The close\<close>

text \<open>Writing the kernel's own cells changes cells of the active layer alone.\<close>

definition cells_frame :: "OverlayStore \<Rightarrow> OverlayStore \<Rightarrow> bool" where
  "cells_frame st st' \<longleftrightarrow> ov_base st' = ov_base st \<and> ov_committed st' = ov_committed st \<and>
     ly_entries (ov_active st') = ly_entries (ov_active st)"

lemma write_each_Ok:
  "write_each ws s = (Ok u, s') \<Longrightarrow>
    \<exists>st. s' = s\<lparr> ks_store := st \<rparr> \<and> cells_frame (ks_store s) st \<and>
      ov_log st = ov_log (ks_store s) @ map (\<lambda>(key, _). \<lparr> acc_target = Point key, acc_kind = KWrite \<rparr>) (filter (\<lambda>(key, _). owns s key) ws)"
proof (induction ws s rule: write_each.induct)
  case (2 key val rest s)
  show ?case
  proof (cases "owns s key")
    case True
    with 2(3) obtain bs where bs: "val = Ok bs" by (cases val) auto
    let ?st = "snd (ov_write key bs (ks_store s))"
    from 2(2) [OF _ bs] 2(3) True bs obtain st where
      st: "s' = s\<lparr> ks_store := ?st, ks_store := st \<rparr>" "cells_frame ?st st"
        "ov_log st = ov_log ?st @ map (\<lambda>(key, _). \<lparr> acc_target = Point key, acc_kind = KWrite \<rparr>)
           (filter (\<lambda>(key, _). owns (s\<lparr> ks_store := ?st \<rparr>) key) rest)"
      by (auto simp: ov_write_def)
    moreover have "owns (s\<lparr> ks_store := ?st \<rparr>) = owns s" by (rule ext) (simp add: owns_def)
    ultimately show ?thesis using True
      by (intro exI [of _ st]) (auto simp: cells_frame_def ov_write_def ov_record_def put_cell_def)
  qed (use 2 in auto)
next
  case (1 s)
  then show ?case by (intro exI [of _ "ks_store s"]) (auto simp: cells_frame_def)
qed

lemma add_kernel_cells_entries:
  "add_kernel_cells d ws delta = Some delta' \<Longrightarrow> dl_entries delta' = dl_entries delta \<and> dl_movements delta' = dl_movements delta \<and>
     dl_settles delta' = dl_settles delta"
  by (induction d ws delta arbitrary: delta' rule: add_kernel_cells.induct) (auto split: if_splits)

lemma pre_active_entry_cong:
  "ov_base st' = ov_base st \<Longrightarrow> ov_committed st' = ov_committed st \<Longrightarrow> ov_pre_active_entry st' = ov_pre_active_entry st"
  by (intro ext) (simp add: ov_pre_active_entry_def split: option.split)

lemma close_cases:
  assumes "close d movements settles answers fuel s = Ok (rc, st)"
  obtains (abort) st' out where "(rc, st) = abort_with st' out fuel" "refused out" "cells_frame (ks_store s) st'"
  | (completed) s' delta where "write_each (spends s @ map (\<lambda>(key, val). (key, Ok val)) (entries (ks_crossings s))) s = (Ok (), s')"
      "undeclared_accesses (ov_log (ks_store s')) (ks_declared s) = []" "rc_delta rc = delta" "rc_outcome rc = Completed answers"
      "dl_movements delta = movements" "dl_settles delta = settles" "dl_entries delta = dl_entries (diff (ks_store s'))"
      "unconserved s' delta d = None" "rc_supply rc = ks_supply s" "rc_escrow rc = ks_escrow s" "rc_events rc = ks_events s"
      "st = ov_merge_active (ks_store s')"
proof -
  from assms obtain s' where w: "write_each (spends s @ map (\<lambda>(key, val). (key, Ok val)) (entries (ks_crossings s))) s = (Ok (), s')"
    by (auto simp: close_def split: prod.splits result.splits)
  from write_each_Ok [OF this] obtain sw where s': "s' = s\<lparr> ks_store := sw \<rparr>" "cells_frame (ks_store s) sw" by blast
  define changed where "changed = diff sw"
  define delta0 where "delta0 = changed\<lparr> dl_cells := bt_filter (\<lambda>key _. \<not> bt_contains movements key \<and> \<not> bt_contains settles key) (dl_cells changed),
    dl_movements := movements, dl_settles := settles \<rparr>"
  from assms w obtain spent where u: "undeclared_accesses (ov_log sw) (ks_declared s) = []" "encoded (spends s') = Some spent"
    by (auto simp: close_def s' Let_def ov_access_log_def split: if_splits option.splits)
  have run: "(case add_kernel_cells d (spent @ entries (ks_crossings s)) delta0 of
      None \<Rightarrow> Ok (abort_with sw (ProtocolError A_MalformedAmountCell) fuel)
    | Some delta \<Rightarrow>
       if unconserved s' delta d \<noteq> None then Ok (abort_with sw (ProtocolError A_ValueNotConserved) fuel)
       else if length answers > MAX_MANIFEST_NODES then Err Panic
       else Ok (\<lparr> rc_outcome = Completed answers, rc_delta = delta, rc_events = ks_events s,
                  rc_supply = ks_supply s, rc_escrow = ks_escrow s, rc_fuel_by_node = fuel,
                  rc_fuel = fold_fuel fuel \<rparr>, ov_merge_active sw)) = Ok (rc, st)"
    using assms w u by (auto simp: close_def s' Let_def ov_access_log_def delta0_def changed_def split: option.splits)
  show thesis
  proof (cases "add_kernel_cells d (spent @ entries (ks_crossings s)) delta0")
    case None
    with run s'(2) show thesis by (intro abort [of sw "ProtocolError A_MalformedAmountCell"]) auto
  next
    case (Some delta)
    note same = add_kernel_cells_entries [OF Some, simplified delta0_def changed_def, simplified]
    show thesis
    proof (cases "unconserved s' delta d = None")
      case True
      with run Some have "rc_delta rc = delta" "rc_outcome rc = Completed answers" "rc_supply rc = ks_supply s"
        "rc_escrow rc = ks_escrow s" "rc_events rc = ks_events s" "st = ov_merge_active sw" by (auto split: if_splits)
      then show thesis using completed [OF w] u same True by (simp add: s')
    next
      case False
      with run Some s'(2) show thesis by (intro abort [of sw "ProtocolError A_ValueNotConserved"]) auto
    qed
  qed
qed

section \<open>What a finish answers\<close>

text \<open>Either the transaction aborts over a store that differs from the session's above the committed layer alone, or it
  went through every phase.\<close>

lemma finish_cases:
  assumes "finish s answers fuel = Ok (rc, st)" "settled_below (ks_store s)"
  obtains (abort) st' out where "(rc, st) = abort_with st' out fuel" "refused out"
      "ov_base st' = ov_base (ks_store s)" "ov_committed st' = ov_committed (ks_store s)"
  | (completed) s1 s2 s3 s4 queued movements settles where
      "\<not> carries_value (ks_buckets s)"
      "judge_movements (denominations s) s = (Ok (Produced queued), s1)"
      "settle_reservations (denominations s) s1 = (Ok (Produced settles), s2)"
      "burn_fee queued s2 = (Ok (Produced movements), s3)"
      "session_frame s s3"
      "write_each (spends s3 @ map (\<lambda>(key, val). (key, Ok val)) (entries (ks_crossings s3))) s3 = (Ok (), s4)"
      "undeclared_accesses (ov_log (ks_store s4)) (ks_declared s3) = []" "rc_outcome rc = Completed answers"
      "dl_movements (rc_delta rc) = movements" "dl_settles (rc_delta rc) = settles"
      "dl_entries (rc_delta rc) = dl_entries (diff (ks_store s4))" "unconserved s4 (rc_delta rc) (denominations s) = None"
      "rc_supply rc = ks_supply s3" "rc_escrow rc = ks_escrow s3" "rc_events rc = ks_events s3" "st = ov_merge_active (ks_store s4)"
proof -
  have stop: thesis if "session_frame s s'" "refused out" "(rc, st) = abort_with (ks_store s') out fuel" for s' out
    using that abort by (auto simp: session_frame_def phase_frame_def)
  show thesis
  proof (cases "carries_value (ks_buckets s)")
    case True
    with assms show thesis by (intro stop [of s "UserError A_ValueDropped"]) (auto simp: finish_def)
  next
    case empty: False
    let ?d = "denominations s"
    from assms(1) empty obtain p s1 where j: "judge_movements ?d s = (Ok p, s1)"
      by (auto simp: finish_def Let_def split: prod.splits result.splits)
    note f1 = judge_movements_framed [OF j assms(2)]
    show thesis
    proof (cases p)
      case (Aborted out)
      with assms(1) empty j f1 show thesis by (intro stop [of s1 out]) (auto simp: finish_def)
    next
      case q: (Produced queued)
      from assms(1) empty j q obtain p2 s2 where k: "settle_reservations ?d s1 = (Ok p2, s2)"
        by (auto simp: finish_def Let_def split: prod.splits result.splits)
      note f2 = settle_each_framed [OF k [unfolded settle_reservations_def]]
      show thesis
      proof (cases p2)
        case (Aborted out)
        with assms(1) empty j q k f1 f2 show thesis
          by (intro stop [of s2 out]) (auto simp: finish_def intro: session_frame_trans)
      next
        case t: (Produced settles)
        from assms(1) empty j q k t obtain p3 s3 where b: "burn_fee queued s2 = (Ok p3, s3)"
          by (auto simp: finish_def Let_def split: prod.splits result.splits)
        note f3 = burn_fee_framed [OF b]
        have fr: "session_frame s s3" using f1 f2 f3 session_frame_trans by blast
        show thesis
        proof (cases p3)
          case (Aborted out)
          with assms(1) empty j q k t b f3 fr show thesis by (intro stop [of s3 out]) (auto simp: finish_def)
        next
          case m: (Produced movements)
          with assms(1) empty j q k t b have "close ?d movements settles answers fuel s3 = Ok (rc, st)"
            by (simp add: finish_def)
          then show thesis
          proof (cases rule: close_cases)
            case (abort st' out)
            then show thesis using fr that(1) by (auto simp: cells_frame_def session_frame_def phase_frame_def)
          next
            case (completed s4 delta)
            then show thesis using that(2) [OF empty j [unfolded q] k [unfolded t] b [unfolded m] fr completed(1)] by simp
          qed
        qed
      qed
    qed
  qed
qed

text \<open>C3 An abort leaves nothing. Where a session's finish answers anything but a completion, the receipt carries no
  state change, no event, no supply change and no escrow, it accounts for the fuel spent, and the store reads, cell by
  cell, scan by scan, hold by hold and delta by delta, as the session's own store with its active layer dropped.\<close>

theorem abort_leaves_nothing:
  assumes "finish s answers fuel = Ok (rc, st)" "settled_below (ks_store s)" "\<forall>given. rc_outcome rc \<noteq> Completed given"
  shows "rc_delta rc = delta_default \<and> rc_events rc = [] \<and> rc_supply rc = supply_default \<and> rc_escrow rc = escrow_default \<and>
    rc_fuel_by_node rc = fuel \<and> rc_fuel rc = fold_fuel fuel \<and>
    overlay_baseline st = overlay_baseline (session_discard s) \<and> ov_pending_map st = ov_pending_map (session_discard s)"
  using assms(1,2)
proof (cases rule: finish_cases)
  case (abort st' out)
  then have st: "st = ov_discard_active st'" by (simp add: abort_with_def)
  have "overlay_baseline st = overlay_baseline (session_discard s)"
    unfolding st session_discard_def using abort(3,4) by (intro overlay_baseline_cong) (simp_all add: ov_discard_active_def)
  moreover have "ov_pending_map st = ov_pending_map (session_discard s)"
    unfolding st session_discard_def using abort(3,4) by (simp add: ov_pending_map_def ov_discard_active_def)
  ultimately show ?thesis using abort(1) by (simp add: abort_with_def)
qed (use assms(3) in auto)

section \<open>A completed transaction balances\<close>

definition moved :: "(Movement \<Rightarrow> u128) \<Rightarrow> Movements \<Rightarrow> ResourceAddr \<Rightarrow> nat" where
  "moved side movements r = bt_sum (\<lambda>_ m. if mv_resource m = r then unat (side m) else 0) movements"

text \<open>The instances a delta files and removes, against the entries that stood before the transaction.\<close>

definition filed :: "KernelSession \<Rightarrow> StateDelta \<Rightarrow> ResourceAddr \<Rightarrow> nat" where
  "filed s delta r = bt_sum (\<lambda>k change. if dn_entry (denominations s) k = Some r \<and> change \<noteq> None \<and>
     ov_pre_active_entry (ks_store s) (ek_owner k) (ek_collection k) (ek_order k) = None then 1 else 0) (dl_entries delta)"

definition removed :: "KernelSession \<Rightarrow> StateDelta \<Rightarrow> ResourceAddr \<Rightarrow> nat" where
  "removed s delta r = bt_sum (\<lambda>k change. if dn_entry (denominations s) k = Some r \<and> change = None \<and>
     ov_pre_active_entry (ks_store s) (ek_owner k) (ek_collection k) (ek_order k) \<noteq> None then 1 else 0) (dl_entries delta)"

lemma movement_weights_in:
  "gained_in (movement_weights delta) r = moved mv_credit (dl_movements delta) r + moved mv_credit (dl_settles delta) r"
  "lost_in (movement_weights delta) r = moved mv_debit (dl_movements delta) r + moved mv_debit (dl_settles delta) r"
  by (simp_all add: gained_in_def lost_in_def movement_weights_def moved_def comp_def flip: sum_list_values)

lemma entry_weights_in:
  assumes "ov_pre_active_entry st = ov_pre_active_entry (ks_store s)"
  shows "gained_in (entry_weights st (denominations s) delta) r = filed s delta r"
    "lost_in (entry_weights st (denominations s) delta) r = removed s delta r"
proof -
  have "gained_in (List.map_filter (entry_weight st (denominations s)) es) r =
      sum_list (map (\<lambda>e. if dn_entry (denominations s) (fst e) = Some r \<and> snd e \<noteq> None \<and>
        ov_pre_active_entry (ks_store s) (ek_owner (fst e)) (ek_collection (fst e)) (ek_order (fst e)) = None then 1 else 0) es)" for es
    by (induction es) (auto simp: map_filter_simps entry_weight_def assms split: option.splits prod.splits bool.splits)
  then show "gained_in (entry_weights st (denominations s) delta) r = filed s delta r"
    by (simp add: entry_weights_def filed_def bt_sum_def)
  have "lost_in (List.map_filter (entry_weight st (denominations s)) es) r =
      sum_list (map (\<lambda>e. if dn_entry (denominations s) (fst e) = Some r \<and> snd e = None \<and>
        ov_pre_active_entry (ks_store s) (ek_owner (fst e)) (ek_collection (fst e)) (ek_order (fst e)) \<noteq> None then 1 else 0) es)" for es
    by (induction es) (auto simp: map_filter_simps entry_weight_def assms split: option.splits prod.splits bool.splits)
  then show "lost_in (entry_weights st (denominations s) delta) r = removed s delta r"
    by (simp add: entry_weights_def removed_def bt_sum_def)
qed

lemma distinct_weights_in:
  "distinct rs \<Longrightarrow> gained_in (map (\<lambda>q. (q, f q, g q)) rs) r = (if r \<in> set rs then unat (f r) else 0)"
  "distinct rs \<Longrightarrow> lost_in (map (\<lambda>q. (q, f q, g q)) rs) r = (if r \<in> set rs then unat (g r) else 0)"
  by (induction rs) auto

lemma supply_weights_in:
  "gained_in (supply_weights d) r = unat (burned d r)" "lost_in (supply_weights d) r = unat (minted d r)"
  using supply_untouched [of r d] by (auto simp: supply_weights_def distinct_weights_in distinct_supply_resources)

lemma distinct_escrow_resources: "distinct (escrow_resources e)"
  by (simp add: escrow_resources_def bt_keys_def)

lemma unat_issued:
  "unat (issued e r) = min (bt_sum (\<lambda>_ x. if x_resource x = r then unat (x_amount x) else 0) (ed_issued_at e)) (2 ^ 128 - 1)"
proof -
  have fold: "foldl (\<lambda>total crossed. saturating_add total (x_amount crossed)) a xs = foldl saturating_add a (map x_amount xs)"
    for a and xs :: "Crossed list" by (simp add: foldl_map)
  have "sum_list (map (\<lambda>x. unat (x_amount x)) (filter (\<lambda>x. x_resource x = r) xs)) =
      sum_list (map (\<lambda>x. if x_resource x = r then unat (x_amount x) else 0) xs)" for xs :: "Crossed list"
    by (induction xs) auto
  then show ?thesis
    by (simp add: issued_def fold unat_foldl_saturating_add comp_def sum_list_values)
qed

lemma escrow_untouched: "r \<notin> set (escrow_resources e) \<Longrightarrow> issued e r = 0 \<and> claimed e r = 0"
proof -
  assume out: "r \<notin> set (escrow_resources e)"
  have mem: "bt_contains (bt_extend m (map (\<lambda>r. (r, ())) rs)) r \<longleftrightarrow> bt_contains m r \<or> r \<in> set rs" for m :: "ResourceAddr btset" and rs
    by (induction rs arbitrary: m) auto
  have "x_amount x = 0" if "bt_get (ed_issued_at e) k = Some x" "x_resource x = r" for x k
  proof (rule ccontr)
    assume "x_amount x \<noteq> 0"
    then have "0 < x_amount x" by (simp add: word_neq_0_conv)
    then have "r \<in> x_resource ` {x \<in> set (bt_values (ed_issued_at e)). 0 < x_amount x}"
      using that by (intro image_eqI [of _ _ x]) (auto simp: mem_values_iff simp del: split_paired_Ex)
    with out show False by (simp add: escrow_resources_def mem)
  qed
  then have "bt_sum (\<lambda>_ x. if x_resource x = r then unat (x_amount x) else 0) (ed_issued_at e) = bt_sum (\<lambda>_ _. 0) (ed_issued_at e)"
    by (intro bt_sum_cong) auto
  also have "\<dots> = 0" by (simp add: bt_sum_def)
  finally have "unat (issued e r) = 0" by (simp add: unat_issued)
  then have "issued e r = 0" by (simp add: word_unat_eq_iff)
  moreover have "\<not> bt_contains (ed_claimed e) r" using out by (simp add: escrow_resources_def mem)
  then have "claimed e r = 0" by (simp add: claimed_def bt_contains_def)
  ultimately show ?thesis by simp
qed

lemma escrow_weights_in:
  "gained_in (escrow_weights e) r = unat (issued e r)" "lost_in (escrow_weights e) r = unat (claimed e r)"
  using escrow_untouched [of r e] by (auto simp: escrow_weights_def distinct_weights_in distinct_escrow_resources)

lemmas weights_in = movement_weights_in entry_weights_in supply_weights_in escrow_weights_in

text \<open>C2 A completed transaction conserves every resource. In its receipt, for each resource and with no wrap-around,
  the credits moved and settled, the instances filed, the amount burned and the amount issued across shards together
  equal the debits moved and settled, the instances removed, the amount minted and the amount claimed from other
  shards; and the side they make fits the width of an amount.\<close>

theorem completed_balances:
  assumes "finish s answers fuel = Ok (rc, st)" "settled_below (ks_store s)" "rc_outcome rc = Completed given"
  shows "moved mv_credit (dl_movements (rc_delta rc)) r + moved mv_credit (dl_settles (rc_delta rc)) r +
      filed s (rc_delta rc) r + unat (burned (rc_supply rc) r) + unat (issued (rc_escrow rc) r) =
    moved mv_debit (dl_movements (rc_delta rc)) r + moved mv_debit (dl_settles (rc_delta rc)) r +
      removed s (rc_delta rc) r + unat (minted (rc_supply rc) r) + unat (claimed (rc_escrow rc) r) \<and>
    moved mv_credit (dl_movements (rc_delta rc)) r + moved mv_credit (dl_settles (rc_delta rc)) r +
      filed s (rc_delta rc) r + unat (burned (rc_supply rc) r) + unat (issued (rc_escrow rc) r) < 2 ^ 128"
  using assms(1,2)
proof (cases rule: finish_cases)
  case (abort st' out)
  then show ?thesis using assms(3) by (auto simp: abort_with_def)
next
  case (completed s1 s2 s3 s4 queued movements settles)
  from write_each_Ok [OF completed(6)] obtain sw where s4: "s4 = s3\<lparr> ks_store := sw \<rparr>" "cells_frame (ks_store s3) sw" by blast
  have "ov_pre_active_entry sw = ov_pre_active_entry (ks_store s)"
    using completed(5) s4 by (intro pre_active_entry_cong) (simp_all add: session_frame_def phase_frame_def cells_frame_def)
  note ws = weights_in(1,2) weights_in(3,4) [OF this] weights_in(5-8)
  from completed(12) have "gained_in (fold_weights s4 (rc_delta rc) (denominations s)) r = lost_in (fold_weights s4 (rc_delta rc) (denominations s)) r"
    "gained_in (fold_weights s4 (rc_delta rc) (denominations s)) r < 2 ^ 128" unfolding unconserved_None_iff by blast+
  then show ?thesis using completed(13,14) by (simp add: fold_weights_def ws s4(1))
qed

section \<open>Sessions at which the promises apply\<close>

text \<open>A session over an empty store that minted and burned five units of one resource.\<close>

definition demo_supply :: SupplyDelta where
  "demo_supply = snd (supply_burn 3 5 (snd (supply_mint 3 5 supply_default)))"

definition demo_session :: "Buckets \<Rightarrow> KernelSession" where
  "demo_session b =
    \<lparr> ks_store = ov_new (memory_baseline ms_new), ks_declared = bt_empty, ks_table = [], ks_tx = 1,
      ks_env = \<lparr> env_clock_ms = 0, env_epoch = 0, env_seeds = window_unfolded \<rparr>, ks_hash_fn = (\<lambda>bs. bs),
      ks_applies = Whole, ks_judges = Whole, ks_nullifiers = [], ks_fee = None, ks_credits_withheld = False,
      ks_ranges = ranges_default, ks_lost_floor = None, ks_invocation = None, ks_events = [],
      ks_node_events = \<lparr> ne_bound = 0, ne_carried = 0 \<rparr>, ks_events_carried = 0, ks_cell_resources = [],
      ks_buckets = b, ks_supply = demo_supply, ks_escrow = escrow_default, ks_crossings = bt_empty, ks_issuance = [],
      ks_entries = [], ks_sites = [], ks_reach = None, ks_taken = bt_empty \<rparr>"

lemma demo_settled: "settled_below (ks_store (demo_session b))"
  by (simp add: settled_below_def demo_session_def ov_new_def)

lemma demo_drops:
  "finish (demo_session (snd (bk_open (HAmount 1) 3 None buckets_default))) [] [7] =
    Ok (abort_with (ov_new (memory_baseline ms_new)) (UserError A_ValueDropped) [7])"
  by (simp add: finish_def demo_session_def carries_value_def bk_open_def buckets_default_def held_is_empty_def Let_def)

theorem abort_leaves_nothing_witness:
  "rc_supply (fst (abort_with (ov_new (memory_baseline ms_new)) (UserError A_ValueDropped) [7])) = supply_default"
  using abort_leaves_nothing [OF demo_drops [unfolded abort_with_def] demo_settled] by (simp add: abort_with_def)

lemma demo_completes: "\<exists>rc st. finish (demo_session buckets_default) [] [7] = Ok (rc, st) \<and> rc_outcome rc = Completed [] \<and>
  rc_supply rc = demo_supply"
proof -
  let ?s = "demo_session buckets_default" and ?st = "ov_new (memory_baseline ms_new)"
  have st: "ks_store ?s = ?st" by (simp add: demo_session_def)
  have queue: "ov_pending_map ?st = bt_empty" by (simp add: ov_pending_map_def ov_new_def)
  have keep: "ov_retain_pending_deltas keep ?st = ?st" "ov_clear_queued ?st = ?st" for keep
    by (simp_all add: ov_retain_pending_deltas_def ov_clear_queued_def ov_new_def Let_def bt_keys_def layer_default_def
        btmap_eq_iff)
  have none: "bt_filter P bt_empty = bt_empty" for P :: "SubstateKey \<Rightarrow> bytes option \<Rightarrow> bool" by (simp add: btmap_eq_iff)
  have d: "diff ?st = delta_default"
    by (simp add: diff_def delta_default_def ov_active_cells_def ov_active_entries_def ov_new_def bt_of_list_def)
  have j: "judge_movements (denominations ?s) ?s = (Ok (Produced bt_empty), ?s)"
    using keep queue by (simp add: judge_movements_def fold_movements_def al_commit_deltas_def Let_def st)
      (simp add: demo_session_def)
  have k: "settle_reservations (denominations ?s) ?s = (Ok (Produced bt_empty), ?s)"
    by (simp add: settle_reservations_def demo_session_def)
  have b: "burn_fee bt_empty ?s = (Ok (Produced bt_empty), ?s)" by (simp add: burn_fee_def demo_session_def)
  have fields: "spends ?s = []" "ks_crossings ?s = bt_empty" "undeclared_accesses (ov_access_log ?st) (ks_declared ?s) = []"
    "ks_store ?s = ?st"
    by (simp_all add: spends_def demo_session_def undeclared_accesses_def ov_access_log_def ov_new_def)
  let ?delta = "delta_default\<lparr> dl_cells := bt_empty, dl_movements := bt_empty, dl_settles := bt_empty \<rparr>"
  have even: "burned (ks_supply ?s) r = minted (ks_supply ?s) r" for r
    by (simp add: demo_session_def demo_supply_def supply_burn_def supply_mint_def total_add_def checked_add_def
        supply_default_def burned_def minted_def)
  have "unconserved ?s ?delta (denominations ?s) = None"
    unfolding unconserved_None_iff fold_weights_def
    using even unat_bound [of "minted demo_supply _"]
    by (auto simp: weights_in(1,2,5-8) entry_weights_def delta_default_def moved_def map_filter_simps demo_session_def
        issued_def claimed_def escrow_default_def bt_values_def)
  then have "close (denominations ?s) bt_empty bt_empty [] [7] ?s =
      Ok (\<lparr> rc_outcome = Completed [], rc_delta = ?delta, rc_events = ks_events ?s, rc_supply = ks_supply ?s,
           rc_escrow = ks_escrow ?s, rc_fuel_by_node = [7], rc_fuel = fold_fuel [7] \<rparr>, ov_merge_active (ks_store ?s))"
    by (simp add: close_def fields d Let_def delta_default_def none)
  moreover have "\<not> carries_value (ks_buckets ?s)" by (simp add: carries_value_def demo_session_def buckets_default_def)
  ultimately show ?thesis using j k b by (simp add: finish_def Let_def demo_session_def)
qed

theorem completed_balances_witness:
  "\<exists>rc st. finish (demo_session buckets_default) [] [7] = Ok (rc, st) \<and> unat (burned (rc_supply rc) 3) = 5 \<and>
    moved mv_credit (dl_movements (rc_delta rc)) 3 + moved mv_credit (dl_settles (rc_delta rc)) 3 +
      filed (demo_session buckets_default) (rc_delta rc) 3 + 5 + unat (issued (rc_escrow rc) 3) =
    moved mv_debit (dl_movements (rc_delta rc)) 3 + moved mv_debit (dl_settles (rc_delta rc)) 3 +
      removed (demo_session buckets_default) (rc_delta rc) 3 + unat (minted (rc_supply rc) 3) + unat (claimed (rc_escrow rc) 3)"
proof -
  obtain rc st where run: "finish (demo_session buckets_default) [] [7] = Ok (rc, st)" "rc_outcome rc = Completed []"
    "rc_supply rc = demo_supply" using demo_completes by blast
  have "unat (burned (rc_supply rc) 3) = 5"
    by (simp add: run(3) demo_supply_def supply_burn_def supply_mint_def total_add_def checked_add_def supply_default_def burned_def)
  with completed_balances [OF run(1) demo_settled run(2), of 3] run(1) show ?thesis by auto
qed

end
