(* ===== verification/Balance.thy ===== *)
theory Balance
  imports Finish
begin

text \<open>
  The balance of a running session. For each resource the table of buckets, the queued movements, the changed
  entries, the supply and escrow totals and the taken reservations make one signed sum, the session's net; and a
  session is sound where everything it logged is declared, everything it queued is denominated and its table,
  pages and write budgets agree with its capabilities. The lemmas give the effect of each primitive of
  \<open>crates/kernel/src/session.rs\<close> and \<open>session/\<close> on both.
\<close>

section \<open>Denominations of a table\<close>

fun value_key :: "Capability \<Rightarrow> SubstateKey option" where
  "value_key (CapAmount key _) = Some key"
| "value_key (CapAmountRead key) = Some key"
| "value_key (CapDelta key _) = Some key"
| "value_key (CapReserve key _) = Some key"
| "value_key _ = None"

fun value_entries :: "Capability \<Rightarrow> (Address \<times> CollectionId) option" where
  "value_entries (CapInstances i _) = Some (iv_owner i, iv_collection i)"
| "value_entries _ = None"

fun reserve_on :: "SubstateKey \<Rightarrow> nat \<times> Capability \<Rightarrow> (u32 \<times> u128) option" where
  "reserve_on key (i, CapReserve k amt) = (if k = key \<and> i < 2 ^ 32 then Some (of_nat i, amt) else None)"
| "reserve_on key _ = None"

lemma denominate_get:
  "bt_get (dn_cells (denominate res (i, cap) out)) key =
    (case bt_get (dn_cells out) key of Some r \<Rightarrow> Some r | None \<Rightarrow> if i < 2 ^ 32 \<and> value_key cap = Some key then res else None)"
  "bt_get (dn_entries (denominate res (i, cap) out)) on =
    (case bt_get (dn_entries out) on of Some r \<Rightarrow> Some r | None \<Rightarrow> if i < 2 ^ 32 \<and> value_entries cap = Some on then res else None)"
  by (cases cap; cases res; force simp: denominate_def bt_or_insert_def bt_contains_def Let_def split: option.splits)+

lemma denominate_reserved:
  "bt_get_or [] (dn_reserved (denominate res (i, cap) out)) key =
    bt_get_or [] (dn_reserved out) key @ (case reserve_on key (i, cap) of Some x \<Rightarrow> [x] | None \<Rightarrow> [])"
  by (cases cap; cases res; force simp: denominate_def Let_def split: option.splits)

definition denominate_all :: "(nat \<Rightarrow> ResourceAddr option) \<Rightarrow> (nat \<times> Capability) list \<Rightarrow> Denominations \<Rightarrow> Denominations" where
  "denominate_all res ics d = foldl (\<lambda>out (index, cap). denominate (res index) (index, cap) out) d ics"

lemma denominate_all_simps [simp]:
  "denominate_all res [] d = d"
  "denominate_all res ((i, cap) # ics) d = denominate_all res ics (denominate (res i) (i, cap) d)"
  by (simp_all add: denominate_all_def)

lemma denominate_all_cells:
  "bt_get (dn_cells (denominate_all res ics d)) key = Some r \<Longrightarrow>
    bt_get (dn_cells d) key = Some r \<or> (\<exists>(i, cap) \<in> set ics. i < 2 ^ 32 \<and> value_key cap = Some key \<and> res i = Some r)"
  "bt_get (dn_cells d) key \<noteq> None \<or> (\<exists>(i, cap) \<in> set ics. i < 2 ^ 32 \<and> value_key cap = Some key \<and> res i \<noteq> None) \<Longrightarrow>
    bt_get (dn_cells (denominate_all res ics d)) key \<noteq> None"
  by (induction ics arbitrary: d) (fastforce simp: denominate_get split: option.splits if_splits)+

lemma denominate_all_entries:
  "bt_get (dn_entries (denominate_all res ics d)) on = Some r \<Longrightarrow>
    bt_get (dn_entries d) on = Some r \<or> (\<exists>(i, cap) \<in> set ics. i < 2 ^ 32 \<and> value_entries cap = Some on \<and> res i = Some r)"
  "bt_get (dn_entries d) on \<noteq> None \<or> (\<exists>(i, cap) \<in> set ics. i < 2 ^ 32 \<and> value_entries cap = Some on \<and> res i \<noteq> None) \<Longrightarrow>
    bt_get (dn_entries (denominate_all res ics d)) on \<noteq> None"
  by (induction ics arbitrary: d) (fastforce simp: denominate_get split: option.splits if_splits)+

lemma denominate_all_reserved:
  "bt_get_or [] (dn_reserved (denominate_all res ics d)) key =
    bt_get_or [] (dn_reserved d) key @ List.map_filter (reserve_on key) ics"
  by (induction ics arbitrary: d) (auto simp: denominate_reserved map_filter_simps split: option.splits)

lemma denominations_all:
  "denominations s = denominate_all (\<lambda>i. resource_at s (of_nat i)) (enumerate 0 (ks_table s)) dn_default"
  by (simp add: denominations_def denominate_all_def)

lemma mem_enumerate0: "(i, x) \<in> set (enumerate 0 xs) \<longleftrightarrow> i < length xs \<and> xs ! i = x"
  by (auto simp: in_set_enumerate_eq)

section \<open>What materialization promises\<close>

fun cap_contents :: "Capability \<Rightarrow> Contents" where
  "cap_contents (CapRangeRead i) = EntriesOf (iv_owner i) (iv_collection i)"
| "cap_contents (CapRangeWrite i) = EntriesOf (iv_owner i) (iv_collection i)"
| "cap_contents (CapInstances i _) = EntriesOf (iv_owner i) (iv_collection i)"
| "cap_contents (CapRead key) = LeafOf key"
| "cap_contents (CapWrite key) = LeafOf key"
| "cap_contents (CapAmount key _) = LeafOf key"
| "cap_contents (CapAmountRead key) = LeafOf key"
| "cap_contents (CapDelta key _) = LeafOf key"
| "cap_contents (CapReserve key _) = LeafOf key"

fun form_agrees :: "Capability \<Rightarrow> ResourceAddr option \<Rightarrow> bool" where
  "form_agrees (CapRead _) r = (r = None)"
| "form_agrees (CapWrite _) r = (r = None)"
| "form_agrees (CapRangeWrite _) r = (r = None)"
| "form_agrees (CapRangeRead _) r = True"
| "form_agrees _ r = (r \<noteq> None)"

declare within.simps [simp del]

text \<open>The table's own promises: one resource or none per capability, the form the resource gives it, one resource for
  one contents, and every access within a capability declared.\<close>

definition statics :: "KernelSession \<Rightarrow> bool" where
  "statics s \<longleftrightarrow>
    length (ks_cell_resources s) = length (ks_table s) \<and> length (ks_table s) \<le> 2 ^ 32 \<and>
    (\<forall>i < length (ks_table s). form_agrees (ks_table s ! i) (ks_cell_resources s ! i)) \<and>
    (\<forall>i < length (ks_table s). \<forall>j < length (ks_table s).
       cap_contents (ks_table s ! i) = cap_contents (ks_table s ! j) \<longrightarrow> ks_cell_resources s ! i = ks_cell_resources s ! j) \<and>
    (\<forall>cap \<in> set (ks_table s). \<forall>a. within cap a \<longrightarrow> covered a (ks_declared s))"

lemma staticsD:
  assumes "statics s"
  shows "length (ks_cell_resources s) = length (ks_table s)" "length (ks_table s) \<le> 2 ^ 32"
    "i < length (ks_table s) \<Longrightarrow> form_agrees (ks_table s ! i) (ks_cell_resources s ! i)"
    "i < length (ks_table s) \<Longrightarrow> j < length (ks_table s) \<Longrightarrow>
       cap_contents (ks_table s ! i) = cap_contents (ks_table s ! j) \<Longrightarrow> ks_cell_resources s ! i = ks_cell_resources s ! j"
    "cap \<in> set (ks_table s) \<Longrightarrow> within cap a \<Longrightarrow> covered a (ks_declared s)"
proof -
  note st = assms [unfolded statics_def]
  from st show "length (ks_cell_resources s) = length (ks_table s)" by (elim conjE)
  from st show "length (ks_table s) \<le> 2 ^ 32" by (elim conjE)
  from st have forms: "\<forall>i < length (ks_table s). form_agrees (ks_table s ! i) (ks_cell_resources s ! i)" by (elim conjE)
  then show "i < length (ks_table s) \<Longrightarrow> form_agrees (ks_table s ! i) (ks_cell_resources s ! i)" by (metis (no_types))
  from st have one: "\<forall>i < length (ks_table s). \<forall>j < length (ks_table s).
      cap_contents (ks_table s ! i) = cap_contents (ks_table s ! j) \<longrightarrow> ks_cell_resources s ! i = ks_cell_resources s ! j"
    by (elim conjE)
  then show "i < length (ks_table s) \<Longrightarrow> j < length (ks_table s) \<Longrightarrow>
      cap_contents (ks_table s ! i) = cap_contents (ks_table s ! j) \<Longrightarrow> ks_cell_resources s ! i = ks_cell_resources s ! j"
    by (metis (no_types))
  from st have inside: "\<forall>cap \<in> set (ks_table s). \<forall>a. within cap a \<longrightarrow> covered a (ks_declared s)" by (elim conjE)
  then show "cap \<in> set (ks_table s) \<Longrightarrow> within cap a \<Longrightarrow> covered a (ks_declared s)" by (metis (no_types))
qed

lemma resource_at_index: "statics s \<Longrightarrow> i < length (ks_table s) \<Longrightarrow> resource_at s (of_nat i) = ks_cell_resources s ! i"
  using staticsD(1,2) [of s] by (simp add: resource_at_def unat_of_nat)

lemma resource_at_rep: "statics s \<Longrightarrow> unat rep < length (ks_table s) \<Longrightarrow> resource_at s rep = ks_cell_resources s ! unat rep"
  using staticsD(1) [of s] by (simp add: resource_at_def)

lemma value_key_contents: "value_key cap = Some key \<Longrightarrow> cap_contents cap = LeafOf key"
  by (cases cap) auto

lemma value_entries_contents: "value_entries cap = Some (owner, collection) \<Longrightarrow> cap_contents cap = EntriesOf owner collection"
  by (cases cap) auto

lemma dn_cell_iff:
  assumes "statics s"
  shows "dn_cell (denominations s) key = Some r \<longleftrightarrow>
    (\<exists>i < length (ks_table s). value_key (ks_table s ! i) = Some key \<and> ks_cell_resources s ! i = Some r)"
proof -
  let ?res = "\<lambda>i. resource_at s (of_nat i)" and ?ics = "enumerate 0 (ks_table s)"
  have small: "i < 2 ^ 32" if "i < length (ks_table s)" for i using that staticsD(2) [OF assms] by simp
  have fwd: "\<exists>i < length (ks_table s). value_key (ks_table s ! i) = Some key \<and> ks_cell_resources s ! i = Some r"
    if "dn_cell (denominations s) key = Some r" for r
    using denominate_all_cells(1) [of ?res ?ics dn_default key r] that
    by (auto simp: dn_cell_def denominations_all dn_default_def mem_enumerate0 resource_at_index [OF assms])
  moreover have "dn_cell (denominations s) key = Some r"
    if i: "i < length (ks_table s)" "value_key (ks_table s ! i) = Some key" "ks_cell_resources s ! i = Some r" for i
  proof -
    have "dn_cell (denominations s) key \<noteq> None"
      unfolding dn_cell_def denominations_all
      by (rule denominate_all_cells(2), rule disjI2, rule bexI [of _ "(i, ks_table s ! i)"])
         (use i small resource_at_index [OF assms] in \<open>auto simp: mem_enumerate0\<close>)
    then obtain r' where r': "dn_cell (denominations s) key = Some r'" by auto
    from fwd [OF this] obtain j where "j < length (ks_table s)" "value_key (ks_table s ! j) = Some key"
      "ks_cell_resources s ! j = Some r'" by auto
    with staticsD(4) [OF assms i(1), of j] i r' show ?thesis by (simp add: value_key_contents)
  qed
  ultimately show ?thesis by blast
qed

lemma dn_entry_iff:
  assumes "statics s"
  shows "dn_entry (denominations s) k = Some r \<longleftrightarrow>
    (\<exists>i < length (ks_table s). value_entries (ks_table s ! i) = Some (ek_owner k, ek_collection k) \<and> ks_cell_resources s ! i = Some r)"
proof -
  let ?res = "\<lambda>i. resource_at s (of_nat i)" and ?ics = "enumerate 0 (ks_table s)" and ?on = "(ek_owner k, ek_collection k)"
  have small: "i < 2 ^ 32" if "i < length (ks_table s)" for i using that staticsD(2) [OF assms] by simp
  have fwd: "\<exists>i < length (ks_table s). value_entries (ks_table s ! i) = Some ?on \<and> ks_cell_resources s ! i = Some r"
    if "dn_entry (denominations s) k = Some r" for r
    using denominate_all_entries(1) [of ?res ?ics dn_default ?on r] that
    by (auto simp: dn_entry_def denominations_all dn_default_def mem_enumerate0 resource_at_index [OF assms])
  moreover have "dn_entry (denominations s) k = Some r"
    if i: "i < length (ks_table s)" "value_entries (ks_table s ! i) = Some ?on" "ks_cell_resources s ! i = Some r" for i
  proof -
    have "dn_entry (denominations s) k \<noteq> None"
      unfolding dn_entry_def denominations_all
      by (rule denominate_all_entries(2), rule disjI2, rule bexI [of _ "(i, ks_table s ! i)"])
         (use i small resource_at_index [OF assms] in \<open>auto simp: mem_enumerate0\<close>)
    then obtain r' where r': "dn_entry (denominations s) k = Some r'" by auto
    from fwd [OF this] obtain j where "j < length (ks_table s)" "value_entries (ks_table s ! j) = Some ?on"
      "ks_cell_resources s ! j = Some r'" by auto
    with staticsD(4) [OF assms i(1), of j] i r' show ?thesis by (simp add: value_entries_contents)
  qed
  ultimately show ?thesis by blast
qed

text \<open>A byte interval's collection holds no value.\<close>

lemma byte_entries_undenominated:
  assumes "statics s" "i < length (ks_table s)" "ks_table s ! i = CapRangeWrite iv"
    "ek_owner k = iv_owner iv" "ek_collection k = iv_collection iv"
  shows "dn_entry (denominations s) k = None"
proof (rule ccontr)
  assume "dn_entry (denominations s) k \<noteq> None"
  then obtain r j where "j < length (ks_table s)" "value_entries (ks_table s ! j) = Some (iv_owner iv, iv_collection iv)"
    "ks_cell_resources s ! j = Some r" using assms dn_entry_iff by fastforce
  with staticsD(3,4) [OF assms(1,2)] assms(3) show False by (fastforce dest: value_entries_contents)
qed

section \<open>Sums of finite support\<close>

definition supp_sum :: "('k \<Rightarrow> int) \<Rightarrow> int" where
  "supp_sum f = (\<Sum>k | f k \<noteq> 0. f k)"

lemma supp_sum_zero [simp]: "supp_sum (\<lambda>_. 0) = 0"
  by (simp add: supp_sum_def)

lemma supp_sum_superset: "finite A \<Longrightarrow> {k. f k \<noteq> 0} \<subseteq> A \<Longrightarrow> supp_sum f = sum f A"
  unfolding supp_sum_def by (rule sum.mono_neutral_left) auto

lemma supp_sum_update:
  assumes "finite {k. f k \<noteq> 0}" "\<And>k. k \<noteq> j \<Longrightarrow> g k = f k"
  shows "supp_sum g = supp_sum f - f j + g j"
proof -
  let ?A = "insert j {k. f k \<noteq> 0}"
  have "supp_sum g = sum g ?A" "supp_sum f = sum f ?A"
    using assms by (auto intro!: supp_sum_superset)
  moreover have "sum h ?A = h j + sum h (?A - {j})" for h :: "_ \<Rightarrow> int" using assms(1) by (simp add: sum.insert_remove)
  moreover have "sum g (?A - {j}) = sum f (?A - {j})" using assms(2) by (intro sum.cong) auto
  ultimately show ?thesis by simp
qed

section \<open>The net of a session\<close>

text \<open>What the queued movements, the changed entries and the taken reservations weigh for one resource.\<close>

definition queue_weight :: "Denominations \<Rightarrow> OverlayStore \<Rightarrow> ResourceAddr \<Rightarrow> SubstateKey \<Rightarrow> int" where
  "queue_weight d st r key =
    (if dn_cell d key = Some r
     then (let ops = bt_get_or [] (ly_pending_deltas (ov_active st)) key in int (credits_of ops) - int (debits_of ops)) else 0)"

definition entry_flip :: "Denominations \<Rightarrow> OverlayStore \<Rightarrow> ResourceAddr \<Rightarrow> EntryKey \<Rightarrow> int" where
  "entry_flip d st r k =
    (if dn_entry d k = Some r
     then of_bool (ov_entry_value st (ek_owner k) (ek_collection k) (ek_order k) \<noteq> None)
       - of_bool (ov_pre_active_entry st (ek_owner k) (ek_collection k) (ek_order k) \<noteq> None) else 0)"

definition taken_weight :: "Capability list \<Rightarrow> ResourceAddr option list \<Rightarrow> u32 btset \<Rightarrow> ResourceAddr \<Rightarrow> u32 \<Rightarrow> int" where
  "taken_weight table resources taken r rep =
    (if bt_contains taken rep \<and> unat rep < length table \<and> resources ! unat rep = Some r
     then (case table ! unat rep of CapReserve _ amt \<Rightarrow> int (unat amt) | _ \<Rightarrow> 0) else 0)"

definition net :: "KernelSession \<Rightarrow> ResourceAddr \<Rightarrow> int" where
  "net s r = int (bk_total (ks_buckets s) r) + supp_sum (queue_weight (denominations s) (ks_store s) r) +
     supp_sum (entry_flip (denominations s) (ks_store s) r) +
     int (unat (burned (ks_supply s) r)) - int (unat (minted (ks_supply s) r)) +
     int (unat (issued (ks_escrow s) r)) - int (unat (claimed (ks_escrow s) r)) -
     supp_sum (taken_weight (ks_table s) (ks_cell_resources s) (ks_taken s) r)"

lemma finite_queue: "finite {key. queue_weight d st r key \<noteq> 0}"
proof (rule finite_subset)
  show "{key. queue_weight d st r key \<noteq> 0} \<subseteq> set (bt_keys (ly_pending_deltas (ov_active st)))"
    by (auto simp: queue_weight_def Let_def bt_contains_def bt_get_or_def split: option.splits if_splits)
qed simp

lemma finite_flips: "finite {k. entry_flip d st r k \<noteq> 0}"
proof (rule finite_subset)
  let ?es = "ly_entries (ov_active st)"
  show "{k. entry_flip d st r k \<noteq> 0} \<subseteq>
      (\<lambda>((owner, collection), order). EntryKey owner collection order) `
        (Sigma (set (bt_keys ?es)) (\<lambda>on. set (bt_keys (bt_get_or bt_empty ?es on))))"
  proof
    fix k assume "k \<in> {k. entry_flip d st r k \<noteq> 0}"
    then have "layer_entry (ov_active st) (ek_owner k) (ek_collection k) (ek_order k) \<noteq> None"
      by (auto simp: entry_flip_def ov_entry_value_def split: option.splits if_splits)
    then obtain es c where "bt_get ?es (ek_owner k, ek_collection k) = Some es" "bt_get es (ek_order k) = Some c"
      by (auto simp: layer_entry_def bind_eq_Some_conv)
    then show "k \<in> (\<lambda>((owner, collection), order). EntryKey owner collection order) `
        (Sigma (set (bt_keys ?es)) (\<lambda>on. set (bt_keys (bt_get_or bt_empty ?es on))))"
      by (intro image_eqI [of _ _ "((ek_owner k, ek_collection k), ek_order k)"]) (auto simp: bt_contains_def)
  qed
qed simp

text \<open>The effect of each store call on the two sums.\<close>

named_theorems net_simps \<open>how a step changes the sums of a session's net\<close>

lemma queue_weight_cong: "ly_pending_deltas (ov_active st') = ly_pending_deltas (ov_active st) \<Longrightarrow> queue_weight d st' = queue_weight d st"
  by (intro ext) (simp add: queue_weight_def)

lemma entry_flip_cong:
  "ov_base st' = ov_base st \<Longrightarrow> ov_committed st' = ov_committed st \<Longrightarrow> ly_entries (ov_active st') = ly_entries (ov_active st) \<Longrightarrow>
    entry_flip d st' = entry_flip d st"
  using pre_active_entry_cong [of st' st] by (intro ext) (simp add: entry_flip_def ov_entry_value_def layer_entry_def cong: option.case_cong)

lemma recorded [net_simps]:
  "queue_weight d (ov_record t k st) = queue_weight d st" "entry_flip d (ov_record t k st) = entry_flip d st"
  "queue_weight d (put_cell key c st) = queue_weight d st" "entry_flip d (put_cell key c st) = entry_flip d st"
  "queue_weight d (put_entry owner collection order c st) = queue_weight d st"
  by (intro queue_weight_cong entry_flip_cong; simp add: ov_record_def put_cell_def put_entry_def)+

definition queued_by :: "DeltaOp \<Rightarrow> int" where
  "queued_by op = int (op_credit op) - int (op_debit op)"

lemma queue_delta_sums [net_simps]:
  "supp_sum (queue_weight d (snd (ov_queue_delta key op st)) r) =
    supp_sum (queue_weight d st r) + (if dn_cell d key = Some r then queued_by op else 0)"
  "entry_flip d (snd (ov_queue_delta key op st)) = entry_flip d st"
proof -
  let ?q = "queue_weight d (snd (ov_queue_delta key op st)) r"
  have "supp_sum ?q = supp_sum (queue_weight d st r) - queue_weight d st r key + ?q key"
    by (rule supp_sum_update [OF finite_queue]) (auto simp: queue_weight_def ov_queue_delta_def ov_record_def Let_def)
  then show "supp_sum ?q = supp_sum (queue_weight d st r) + (if dn_cell d key = Some r then queued_by op else 0)"
    by (simp add: queue_weight_def ov_queue_delta_def ov_record_def Let_def queued_by_def)
  show "entry_flip d (snd (ov_queue_delta key op st)) = entry_flip d st"
    by (rule entry_flip_cong) (simp_all add: ov_queue_delta_def ov_record_def Let_def)
qed

lemma entry_value_put:
  "ov_entry_value (put_entry owner collection order c st) o' c' x =
    (if o' = owner \<and> c' = collection \<and> x = order then c else ov_entry_value st o' c' x)"
  "ov_pre_active_entry (put_entry owner collection order c st) = ov_pre_active_entry st"
  "ov_entry_value (ov_record t k st) = ov_entry_value st" "ov_pre_active_entry (ov_record t k st) = ov_pre_active_entry st"
proof -
  show p: "ov_pre_active_entry (put_entry owner collection order c st) = ov_pre_active_entry st"
    "ov_pre_active_entry (ov_record t k st) = ov_pre_active_entry st"
    by (rule pre_active_entry_cong; simp add: put_entry_def ov_record_def)+
  show "ov_entry_value (ov_record t k st) = ov_entry_value st"
    by (intro ext) (simp add: ov_entry_value_def p cong: option.case_cong, simp add: ov_record_def)
  show "ov_entry_value (put_entry owner collection order c st) o' c' x =
      (if o' = owner \<and> c' = collection \<and> x = order then c else ov_entry_value st o' c' x)"
  proof -
    have "layer_entry (ov_active (put_entry owner collection order c st)) o' c' x =
        (if o' = owner \<and> c' = collection \<and> x = order then Some c else layer_entry (ov_active st) o' c' x)"
      by (auto simp: layer_entry_def put_entry_def bt_get_or_def split: option.splits)
    then show ?thesis by (simp add: ov_entry_value_def p cong: option.case_cong)
  qed
qed

lemma put_entry_sums [net_simps]:
  "supp_sum (entry_flip d (put_entry owner collection order c st) r) =
    supp_sum (entry_flip d st r) + (if dn_entry d (EntryKey owner collection order) = Some r
      then of_bool (c \<noteq> None) - of_bool (ov_entry_value st owner collection order \<noteq> None) else 0)"
proof -
  let ?f = "entry_flip d (put_entry owner collection order c st) r" and ?k = "EntryKey owner collection order"
  have "supp_sum ?f = supp_sum (entry_flip d st r) - entry_flip d st r ?k + ?f ?k"
  proof (rule supp_sum_update)
    fix k assume "k \<noteq> ?k"
    then have "\<not> (ek_owner k = owner \<and> ek_collection k = collection \<and> ek_order k = order)" by (cases k) auto
    then show "?f k = entry_flip d st r k" by (auto simp: entry_flip_def entry_value_put)
  qed (rule finite_flips)
  then show ?thesis by (simp add: entry_flip_def entry_value_put)
qed

end
