(* ===== verification/Conservation.thy ===== *)
theory Conservation
  imports Balance
begin

text \<open>
  No operation of a session makes or loses value. Each method of \<open>crates/kernel/src/session.rs\<close> and \<open>session/\<close> that
  succeeds leaves every resource's net as it was; so does any sequence of them, the walk's own calls included.
\<close>

section \<open>Steps that move value\<close>

definition escrow_exact :: "EscrowDelta \<Rightarrow> bool" where
  "escrow_exact e \<longleftrightarrow>
    (\<forall>r. bt_sum (\<lambda>_ x. if x_resource x = r then unat (x_amount x) else 0) (ed_issued_at e) < 2 ^ 128)"

definition sound_session :: "(Address \<Rightarrow> CollectionId \<Rightarrow> (u128, bytes) btmap) \<Rightarrow> KernelSession \<Rightarrow> bool" where
  "sound_session contents s \<longleftrightarrow> statics s \<and> bk_aligned (ks_buckets s) \<and> baseline (ov_base (ks_store s)) contents \<and>
     escrow_exact (ks_escrow s)"

definition same_table :: "KernelSession \<Rightarrow> KernelSession \<Rightarrow> bool" where
  "same_table s s' \<longleftrightarrow> ks_table s' = ks_table s \<and> ks_cell_resources s' = ks_cell_resources s \<and> ks_declared s' = ks_declared s"

lemma denominations_cong:
  assumes "same_table s s'"
  shows "denominations s' = denominations s"
proof -
  have "resource_at s' = resource_at s" using assms by (intro ext) (simp add: same_table_def resource_at_def)
  then show ?thesis using assms by (simp add: same_table_def denominations_def)
qed

lemma statics_cong:
  assumes "same_table s s'"
  shows "statics s' = statics s"
  using assms unfolding same_table_def statics_def by (elim conjE) (simp only:)

text \<open>From a sound session a step leaves a sound one whose net differs by what it moved.\<close>

definition shifts :: "(Address \<Rightarrow> CollectionId \<Rightarrow> (u128, bytes) btmap) \<Rightarrow> KernelSession \<Rightarrow> KernelSession \<Rightarrow> (ResourceAddr \<Rightarrow> int) \<Rightarrow> bool" where
  "shifts contents s s' w \<longleftrightarrow> same_table s s' \<and> sound_session contents s' \<and> (\<forall>r. net s' r = net s r + w r)"

lemma shifts_trans: "shifts contents s s' w \<Longrightarrow> shifts contents s' s'' w' \<Longrightarrow> shifts contents s s'' (\<lambda>r. w r + w' r)"
  by (simp add: shifts_def same_table_def)

lemma shifts_sound: "shifts contents s s' w \<Longrightarrow> sound_session contents s'"
  by (simp add: shifts_def)

lemma shifts_denominations: "shifts contents s s' w \<Longrightarrow> denominations s' = denominations s"
  by (simp add: shifts_def denominations_cong)

lemma shifts_weight: "shifts contents s s' w \<Longrightarrow> (\<And>r. w r = w' r) \<Longrightarrow> shifts contents s s' w'"
  by (simp add: shifts_def)

text \<open>A step that touches none of the accounts moves nothing.\<close>

lemma shifts_idle:
  assumes "sound_session contents s" "same_table s s'" "ks_store s' = ks_store s" "ks_buckets s' = ks_buckets s"
    "ks_supply s' = ks_supply s" "ks_escrow s' = ks_escrow s" "ks_taken s' = ks_taken s"
  shows "shifts contents s s' (\<lambda>_. 0)"
  using assms statics_cong [OF assms(2)] denominations_cong [OF assms(2)]
  by (simp add: shifts_def sound_session_def net_def same_table_def)

lemma shifts_refl: "sound_session contents s \<Longrightarrow> shifts contents s s (\<lambda>_. 0)"
  by (rule shifts_idle) (simp_all add: same_table_def)

lemma shifts_store:
  assumes "sound_session contents s" "ov_base st = ov_base (ks_store s)"
    "\<And>r. supp_sum (queue_weight (denominations s) st r) + supp_sum (entry_flip (denominations s) st r) =
      supp_sum (queue_weight (denominations s) (ks_store s) r) + supp_sum (entry_flip (denominations s) (ks_store s) r) + w r"
  shows "shifts contents s (s\<lparr> ks_store := st \<rparr>) w"
proof -
  have same: "same_table s (s\<lparr> ks_store := st \<rparr>)" by (simp add: same_table_def)
  have "net (s\<lparr> ks_store := st \<rparr>) r = net s r + w r" for r
    using assms(3) [of r] denominations_cong [OF same] by (simp add: net_def)
  then show ?thesis using same assms(1,2) statics_cong [OF same] by (simp add: shifts_def sound_session_def)
qed

lemma shifts_buckets:
  assumes "sound_session contents s" "bk_aligned b" "\<And>r. int (bk_total b r) = int (bk_total (ks_buckets s) r) + w r"
  shows "shifts contents s (s\<lparr> ks_buckets := b \<rparr>) w"
proof -
  have same: "same_table s (s\<lparr> ks_buckets := b \<rparr>)" by (simp add: same_table_def)
  have "net (s\<lparr> ks_buckets := b \<rparr>) r = net s r + w r" for r
    using assms(3) [of r] denominations_cong [OF same] by (simp add: net_def)
  then show ?thesis using same assms(1,2) statics_cong [OF same] by (simp add: shifts_def sound_session_def)
qed

section \<open>The primitives\<close>

text \<open>The weight of one resource.\<close>

definition on_resource :: "ResourceAddr \<Rightarrow> int \<Rightarrow> ResourceAddr \<Rightarrow> int" where
  "on_resource q n r = (if r = q then n else 0)"

lemma shifts_record:
  assumes "sound_session contents s"
  shows "shifts contents s (s\<lparr> ks_store := ov_record t k (ks_store s) \<rparr>) (\<lambda>_. 0)"
    "shifts contents s (s\<lparr> ks_store := put_cell key c (ov_record t k (ks_store s)) \<rparr>) (\<lambda>_. 0)"
  using assms by (auto intro!: shifts_store simp: net_simps) (simp_all add: ov_record_def put_cell_def)

lemma shifts_queue:
  assumes "sound_session contents s" "dn_cell (denominations s) key = Some q"
  shows "shifts contents s (s\<lparr> ks_store := snd (ov_queue_delta key op (ks_store s)) \<rparr>) (on_resource q (queued_by op))"
  using assms by (intro shifts_store) (auto simp: net_simps on_resource_def, simp add: ov_queue_delta_def ov_record_def Let_def)

lemma shifts_open:
  assumes "sound_session contents s" "open_bucket held q origin s = (Ok rep, s')" "held_small held"
  shows "shifts contents s s' (on_resource q (int (held_count (Some held))))"
proof -
  from assms(2) obtain b where b: "bk_open held q origin (ks_buckets s) = (Ok rep, b)" "s' = s\<lparr> ks_buckets := b \<rparr>"
    by (auto simp: open_bucket_def on_buckets_def split: prod.splits)
  have "bk_aligned (ks_buckets s)" using assms(1) by (simp add: sound_session_def)
  from bk_open_Ok [OF b(1) this assms(3)] show ?thesis unfolding b(2)
    using assms(1) by (intro shifts_buckets) (auto simp: on_resource_def)
qed

lemma shifts_take:
  assumes "sound_session contents s" "take_bucket rep s = (Ok held, s')" "bk_resource_of (ks_buckets s) rep = Ok q"
  shows "shifts contents s s' (on_resource q (- int (held_count (Some held))))" "bk_get (ks_buckets s) rep = Ok held"
proof -
  from assms(2) obtain b where b: "bk_take rep (ks_buckets s) = (Ok held, b)" "s' = s\<lparr> ks_buckets := b \<rparr>"
    by (auto simp: take_bucket_def on_buckets_def split: prod.splits)
  have al: "bk_aligned (ks_buckets s)" using assms(1) by (simp add: sound_session_def)
  note t = bk_take_Ok [OF b(1) al]
  show "bk_get (ks_buckets s) rep = Ok held" by (rule t(2))
  have "int (bk_total b r) = int (bk_total (ks_buckets s) r) + on_resource q (- int (held_count (Some held))) r" for r
    using t(4) [of r] assms(3) by (auto simp: on_resource_def bk_resource_of_Ok)
  then show "shifts contents s s' (on_resource q (- int (held_count (Some held))))"
    unfolding b(2) using assms(1) t(1) by (intro shifts_buckets) auto
qed

lemma shifts_table:
  assumes "sound_session contents s" "on_buckets f s = (Ok a, s')"
    "\<And>b b' r. f b = (Ok a, b') \<Longrightarrow> bk_aligned b \<Longrightarrow> bk_aligned b' \<and> bk_total b' r = bk_total b r"
  shows "shifts contents s s' (\<lambda>_. 0)"
proof -
  from assms(2) obtain b where b: "f (ks_buckets s) = (Ok a, b)" "s' = s\<lparr> ks_buckets := b \<rparr>"
    by (auto simp: on_buckets_def split: prod.splits)
  show ?thesis unfolding b(2) using assms(1) assms(3) [OF b(1)] by (intro shifts_buckets) (auto simp: sound_session_def)
qed

section \<open>What a handle resolves to\<close>

lemma acting_Ok:
  assumes "acting s st el op = Ok held"
  shows "\<exists>rep. rep_at s st el = Ok rep \<and> unat rep < length (ks_table s) \<and> ks_table s ! unat rep = held \<and> grants held op \<and>
    owner_covers (ks_judges s) (cap_owner held)"
  using assms by (auto simp: acting_def cap_at_def split: if_splits)

lemma acting_value:
  assumes "acting s st el op = Ok held" "value_of s st el = Ok q" "statics s"
  shows "\<exists>i < length (ks_table s). ks_table s ! i = held \<and> ks_cell_resources s ! i = Some q"
proof -
  from acting_Ok [OF assms(1)] obtain rep where rep: "rep_at s st el = Ok rep" "unat rep < length (ks_table s)"
    "ks_table s ! unat rep = held" by blast
  then have "entry_at s st el = Ok (Some rep)" by (auto simp: rep_at_def)
  then have "resource_at s rep = Some q" using assms(2) by (simp add: value_of_def cell_resource_def)
  with rep resource_at_rep [OF assms(3) rep(2)] show ?thesis by auto
qed

lemma settled_denomination:
  assumes "acting s st el op = Ok held" "value_of s st el = Ok q" "statics s" "settling st el held op' = Ok settlement"
    "settlement = Immediate key \<or> settlement = Queued key"
  shows "dn_cell (denominations s) key = Some q"
proof -
  have "value_key held = Some key" using assms(4,5) by (cases held) (auto simp: settling_def)
  with acting_value [OF assms(1-3)] show ?thesis unfolding dn_cell_iff [OF assms(3)] by blast
qed

lemma amount_cell_at_Ok:
  "amount_cell_at key s = (Ok a, s') \<Longrightarrow> s' = s\<lparr> ks_store := ov_record (Point key) KRead (ks_store s) \<rparr>"
  by (auto simp: amount_cell_at_def op_then_Ok on_store_def ov_read_def Let_def)

lemma on_store_queue:
  "on_store (ov_queue_delta key op) s = (Ok u, s') \<longleftrightarrow> s' = s\<lparr> ks_store := snd (ov_queue_delta key op (ks_store s)) \<rparr>"
  by (auto simp: on_store_def ov_queue_delta_def Let_def)

lemma credit_room_Ok: "credit_room key stands amt s = (Ok u, s') \<Longrightarrow> s' = s"
  by (auto simp: credit_room_def split: option.splits)

section \<open>Movements between cells and buckets\<close>

lemma queued_shift:
  assumes "sound_session contents s" "acting s st el op = Ok held" "value_of s st el = Ok q" "settling st el held op = Ok settlement"
    "settlement = Immediate key \<or> settlement = Queued key" "s1 = s \<or> s1 = s\<lparr> ks_store := ov_record (Point key) KRead (ks_store s) \<rparr>"
  shows "shifts contents s (s1\<lparr> ks_store := snd (ov_queue_delta key change (ks_store s1)) \<rparr>) (\<lambda>r. 0 + on_resource q (queued_by change) r)"
proof -
  have d: "dn_cell (denominations s) key = Some q"
    using settled_denomination [OF assms(2,3) _ assms(4,5)] assms(1) by (simp add: sound_session_def)
  have 1: "shifts contents s s1 (\<lambda>_. 0)" using assms(1,6) shifts_refl shifts_record(1) by blast
  have d1: "dn_cell (denominations s1) key = Some q" using d shifts_denominations [OF 1] by simp
  from shifts_trans [OF 1 shifts_queue [OF shifts_sound [OF 1] d1]] show ?thesis .
qed

lemma cell_take_conserves:
  assumes "cell_take st el amt s = (Ok rep, s')" "sound_session contents s"
  shows "shifts contents s s' (\<lambda>_. 0)"
proof -
  from assms(1) obtain held q settlement where
    a: "acting s st el OpTake = Ok held" "value_of s st el = Ok q" "settling st el held OpTake = Ok settlement" and
    rest: "op_then (case settlement of
        Immediate key \<Rightarrow> op_then (amount_cell_at key) (\<lambda>stands.
          op_get (\<lambda>_. map_res (\<lambda>_. key) (ok_or T_CellUnderflow (checked_sub stands amt))))
      | Queued key \<Rightarrow> op_ok key) (\<lambda>key. op_then (on_store (ov_queue_delta key (Sub amt))) (\<lambda>_.
        open_bucket (HAmount amt) q (Some key))) s = (Ok rep, s')"
    by (auto simp: cell_take_def)
  then obtain key s1 where key: "settlement = Immediate key \<or> settlement = Queued key" and
    s1: "s1 = s \<or> s1 = s\<lparr> ks_store := ov_record (Point key) KRead (ks_store s) \<rparr>" and
    opened: "open_bucket (HAmount amt) q (Some key) (s1\<lparr> ks_store := snd (ov_queue_delta key (Sub amt) (ks_store s1)) \<rparr>) = (Ok rep, s')"
    by (cases settlement) (auto simp: op_then_Ok on_store_queue dest!: amount_cell_at_Ok)
  note 2 = queued_shift [OF assms(2) a key s1]
  from shifts_trans [OF 2 shifts_open [OF shifts_sound [OF 2] opened]] show ?thesis
    by (rule shifts_weight) (simp_all add: on_resource_def queued_by_def)
qed

lemma cell_put_conserves:
  assumes "cell_put st el funds s = (Ok u, s')" "sound_session contents s"
  shows "shifts contents s s' (\<lambda>_. 0)"
proof -
  from assms(1) obtain held q amt settlement where
    a: "acting s st el OpPut = Ok held" "value_of s st el = Ok q" "settling st el held OpPut = Ok settlement" and
    funds: "bk_resource_of (ks_buckets s) funds = Ok q" "bk_get (ks_buckets s) funds = Ok (HAmount amt)" and
    rest: "op_then (case settlement of
        Immediate key \<Rightarrow> op_then (amount_cell_at key) (\<lambda>stands. op_map (\<lambda>_. key) (credit_room key stands amt))
      | Queued key \<Rightarrow> op_ok key) (\<lambda>key. op_then (on_store (ov_queue_delta key (Add amt))) (\<lambda>_.
        op_map (\<lambda>_. ()) (take_bucket funds))) s = (Ok u, s')"
    by (auto simp: cell_put_def judge_credit_def bk_amount_Ok split: if_splits)
  then obtain key s1 taken where key: "settlement = Immediate key \<or> settlement = Queued key" and
    s1: "s1 = s \<or> s1 = s\<lparr> ks_store := ov_record (Point key) KRead (ks_store s) \<rparr>" and
    took: "take_bucket funds (s1\<lparr> ks_store := snd (ov_queue_delta key (Add amt) (ks_store s1)) \<rparr>) = (Ok taken, s')"
    by (cases settlement) (auto simp: op_then_Ok op_map_Ok on_store_queue dest!: amount_cell_at_Ok credit_room_Ok)
  note 2 = queued_shift [OF assms(2) a key s1]
  have b: "ks_buckets s1 = ks_buckets s" using s1 by auto
  note t = shifts_take [OF shifts_sound [OF 2] took]
  have "taken = HAmount amt" using t(2) funds b by simp
  with shifts_trans [OF 2 t(1)] funds b show ?thesis
    by (auto intro: shifts_weight simp: on_resource_def queued_by_def)
qed

section \<open>Issuance, crossings and reservations\<close>

lemma shifts_ledgers:
  assumes "sound_session contents s" "escrow_exact e"
    "\<And>r. int (unat (burned d r)) - int (unat (minted d r)) + int (unat (issued e r)) - int (unat (claimed e r)) =
      int (unat (burned (ks_supply s) r)) - int (unat (minted (ks_supply s) r)) +
      int (unat (issued (ks_escrow s) r)) - int (unat (claimed (ks_escrow s) r)) + w r"
  shows "shifts contents s (s\<lparr> ks_supply := d, ks_escrow := e \<rparr>) w"
proof -
  have same: "same_table s (s\<lparr> ks_supply := d, ks_escrow := e \<rparr>)" by (simp add: same_table_def)
  have "net (s\<lparr> ks_supply := d, ks_escrow := e \<rparr>) r = net s r + w r" for r
    using assms(3) [of r] denominations_cong [OF same] by (simp add: net_def)
  then show ?thesis using same assms(1,2) statics_cong [OF same] by (simp add: shifts_def sound_session_def)
qed

lemma supply_step_shifts:
  assumes "sound_session contents s"
  shows "supply_step (supply_mint q amt) s = (Ok u, s') \<Longrightarrow> shifts contents s s' (on_resource q (- int (unat amt)))"
    "supply_step (supply_burn q amt) s = (Ok u, s') \<Longrightarrow> shifts contents s s' (on_resource q (int (unat amt)))"
proof -
  have e: "escrow_exact (ks_escrow s)" using assms by (simp add: sound_session_def)
  show "shifts contents s s' (on_resource q (- int (unat amt)))" if run: "supply_step (supply_mint q amt) s = (Ok u, s')"
  proof -
    from run obtain d where d: "supply_mint q amt (ks_supply s) = (Ok u, d)" "s' = s\<lparr> ks_supply := d, ks_escrow := ks_escrow s \<rparr>"
      by (auto simp: supply_step_def split: prod.splits)
    show ?thesis unfolding d(2) using supply_mint_Ok [OF d(1)]
      by (intro shifts_ledgers [OF assms e]) (auto simp: on_resource_def)
  qed
  show "shifts contents s s' (on_resource q (int (unat amt)))" if run: "supply_step (supply_burn q amt) s = (Ok u, s')"
  proof -
    from run obtain d where d: "supply_burn q amt (ks_supply s) = (Ok u, d)" "s' = s\<lparr> ks_supply := d, ks_escrow := ks_escrow s \<rparr>"
      by (auto simp: supply_step_def split: prod.splits)
    show ?thesis unfolding d(2) using supply_burn_Ok [OF d(1)]
      by (intro shifts_ledgers [OF assms e]) (auto simp: on_resource_def)
  qed
qed

lemma supply_step_buckets: "supply_step f s = (Ok u, s') \<Longrightarrow> ks_buckets s' = ks_buckets s"
  by (auto simp: supply_step_def split: prod.splits)

lemma mint_conserves:
  assumes "mint grant amt s = (Ok rep, s')" "sound_session contents s"
  shows "shifts contents s s' (\<lambda>_. 0)"
proof -
  from assms(1) obtain q u s1 where run: "supply_step (supply_mint q amt) s = (Ok u, s1)" "open_bucket (HAmount amt) q None s1 = (Ok rep, s')"
    by (auto simp: mint_def op_then_Ok)
  note 1 = supply_step_shifts(1) [OF assms(2) run(1)]
  from shifts_trans [OF 1 shifts_open [OF shifts_sound [OF 1] run(2)]] show ?thesis
    by (rule shifts_weight) (simp_all add: on_resource_def)
qed

lemma distinct_idsD: "distinct_ids ids = Some named \<Longrightarrow> named = ids \<and> distinct ids \<and> length ids \<le> 64"
  by (auto simp: distinct_ids_def MAX_IDS_PER_EDGE_def split: if_splits)

lemma widened_ids:
  assumes "distinct ids"
  shows "distinct (map ucast ids :: u128 list)" "i \<in> set (map ucast (ids :: u64 list) :: u128 list) \<Longrightarrow> i < 2 ^ 64"
proof -
  have u: "unat (ucast x :: u128) = unat x" for x :: u64
    using unat_bound [of x] by (simp add: unsigned_ucast_eq take_bit_nat_eq_self)
  then have "inj (ucast :: u64 \<Rightarrow> u128)" by (intro injI) (metis word_unat_eq_iff)
  then show "distinct (map ucast ids :: u128 list)" using assms by (simp add: distinct_map inj_on_subset [OF _ subset_UNIV])
  have "unat (ucast x :: u128) < 2 ^ 64" for x :: u64 using unat_bound [of x] by (simp add: u)
  then show "i \<in> set (map ucast ids :: u128 list) \<Longrightarrow> i < 2 ^ 64" by (auto simp: word_less_nat_alt)
qed

lemma instances_small:
  assumes "distinct_ids ids = Some named"
  shows "held_small (HInstances (bs_of_list (map ucast named)))" "bt_len (bs_of_list (map ucast named :: u128 list)) = length named"
    "unat (of_nat (length named) :: u128) = length named"
  using distinct_idsD [OF assms] widened_ids [of named] bt_len_bs_of_list [of "map ucast named :: u128 list"]
  by (auto simp: unat_of_nat)

lemma mint_instances_conserves:
  assumes "mint_instances grant ids s = (Ok rep, s')" "sound_session contents s"
  shows "shifts contents s s' (\<lambda>_. 0)"
proof -
  let ?held = "\<lambda>named. bs_of_list (map ucast named) :: u128 btset"
  from assms(1) obtain q named u s1 where ids: "distinct_ids ids = Some named" and
    run: "supply_step (supply_mint q (of_nat (bt_len (?held named)))) s = (Ok u, s1)" "open_bucket (HInstances (?held named)) q None s1 = (Ok rep, s')"
    by (auto simp: mint_instances_def op_then_Ok Let_def)
  note 1 = supply_step_shifts(1) [OF assms(2) run(1)]
  from shifts_trans [OF 1 shifts_open [OF shifts_sound [OF 1] run(2) instances_small(1) [OF ids]]] show ?thesis
    by (rule shifts_weight) (simp add: on_resource_def instances_small [OF ids])
qed

lemma burn_conserves:
  assumes "burn funds s = (Ok u, s')" "sound_session contents s"
  shows "shifts contents s s' (\<lambda>_. 0)"
proof -
  from assms(1) obtain q held grant u1 s1 taken where
    funds: "bk_resource_of (ks_buckets s) funds = Ok q" "bk_get (ks_buckets s) funds = Ok held" and
    grant: "find (\<lambda>grant. ig_resource grant = q \<and> issued_burns (ig_direction grant)) (ks_issuance s) = Some grant" and
    run: "supply_step (supply_burn (ig_resource grant) (held_quantity held)) s = (Ok u1, s1)" "take_bucket funds s1 = (Ok taken, s')"
    by (auto simp: burn_def op_then_Ok op_map_Ok)
  have q: "ig_resource grant = q" using grant by (auto simp: find_Some_iff)
  have b: "ks_buckets s1 = ks_buckets s" by (rule supply_step_buckets [OF run(1)])
  note 1 = supply_step_shifts(2) [OF assms(2) run(1)]
  note t = shifts_take [OF shifts_sound [OF 1] run(2)]
  have "held_small held" using assms(2) funds(2) bk_get_small by (auto simp: sound_session_def)
  then have "unat (held_quantity held) = held_count (Some held)" by (rule held_quantity_count)
  moreover have "taken = held" using t(2) b funds by simp
  ultimately show ?thesis using shifts_trans [OF 1 t(1)] funds(1) b q
    by (auto intro: shifts_weight simp: on_resource_def simp del: held_count.simps)
qed

lemma escrow_issue_Ok:
  assumes "escrow_issue node output crossed e = (Ok u, e')" "escrow_exact e" "bt_get (ed_issued_at e) (node, output) = None"
  shows "escrow_exact e'" "claimed e' r = claimed e r"
    "unat (issued e' r) = unat (issued e r) + (if r = x_resource crossed then unat (x_amount crossed) else 0)"
proof -
  let ?sum = "\<lambda>e r. bt_sum (\<lambda>_ x. if x_resource x = r then unat (x_amount x) else 0) (ed_issued_at e)"
  have un: "unat (issued e r) = ?sum e r" if "escrow_exact e" for e r
    using that [unfolded escrow_exact_def, rule_format, of r] unfolding unat_issued by (simp add: min_def)
  from assms(1) have e': "e' = e\<lparr> ed_issued_at := bt_insert (node, output) crossed (ed_issued_at e) \<rparr>" and
    room: "unat (issued e (x_resource crossed)) + unat (x_amount crossed) < 2 ^ 128"
    by (auto simp: escrow_issue_def checked_add_def split: option.splits if_splits)
  have sum: "?sum e' r = ?sum e r + (if r = x_resource crossed then unat (x_amount crossed) else 0)" for r
    using assms(3) by (simp add: e' bt_sum_insert_new)
  show ex: "escrow_exact e'"
    unfolding escrow_exact_def sum using room un [OF assms(2)] assms(2) by (simp add: escrow_exact_def)
  show "unat (issued e' r) = unat (issued e r) + (if r = x_resource crossed then unat (x_amount crossed) else 0)"
    by (simp add: un [OF ex] un [OF assms(2)] sum)
  show "claimed e' r = claimed e r" by (simp add: e' claimed_def)
qed

lemma escrow_claim_Ok:
  assumes "escrow_claim crossed e = (Ok u, e')"
  shows "ed_issued_at e' = ed_issued_at e" "issued e' r = issued e r"
    "unat (claimed e' r) = unat (claimed e r) + (if r = x_resource crossed then unat (x_amount crossed) else 0)"
  using assms total_add_Ok [of EscrowOverflow "x_resource crossed" "x_amount crossed" "ed_claimed e" u]
  by (auto simp: escrow_claim_def issued_def claimed_def split: prod.splits)

lemma record_crossing_idle:
  assumes "record_crossing key val s = (Ok u, s')" "sound_session contents s"
  shows "shifts contents s s' (\<lambda>_. 0)" "ks_buckets s' = ks_buckets s"
proof -
  from assms(1) obtain bs where s': "s' = s\<lparr> ks_crossings := bt_insert key bs (ks_crossings s) \<rparr>"
    by (auto simp: record_crossing_def Let_def split: result.splits if_splits)
  show "shifts contents s s' (\<lambda>_. 0)" "ks_buckets s' = ks_buckets s"
    unfolding s' using assms(2) by (auto intro!: shifts_idle simp: same_table_def)
qed

text \<open>A departing edge is issued once, as the plan that names its crossings holds one action per edge.\<close>

lemma escrow_out_conserves:
  assumes "escrow_out node output funds dep s = (Ok crossed, s')" "sound_session contents s"
    "bt_get (ed_issued_at (ks_escrow s)) (node, output) = None"
  shows "shifts contents s s' (\<lambda>_. 0)"
proof -
  from assms(1) obtain q amt held s1 s2 u bs where
    funds: "bk_resource_of (ks_buckets s) funds = Ok q" "bk_get (ks_buckets s) funds = Ok (HAmount amt)" and
    run: "take_bucket funds s = (Ok held, s1)" "escrow_step (escrow_issue node output \<lparr> x_resource = q, x_amount = amt \<rparr>) s1 = (Ok u, s2)"
      "record_crossing (dp_record dep) bs s2 = (Ok (), s')"
    by (auto simp: escrow_out_def op_then_Ok bk_amount_Ok Let_def)
  note 1 = shifts_take [OF assms(2) run(1) funds(1)]
  have held: "held = HAmount amt" using 1(2) funds by simp
  have s1: "ks_escrow s1 = ks_escrow s" using run(1) by (auto simp: take_bucket_def on_buckets_def split: prod.splits)
  from run(2) obtain e where e: "escrow_issue node output \<lparr> x_resource = q, x_amount = amt \<rparr> (ks_escrow s1) = (Ok u, e)"
    and s2: "s2 = s1\<lparr> ks_supply := ks_supply s1, ks_escrow := e \<rparr>"
    by (auto simp: escrow_step_def split: prod.splits)
  have ex: "escrow_exact (ks_escrow s1)" using shifts_sound [OF 1(1)] by (simp add: sound_session_def)
  note i = escrow_issue_Ok [OF e ex, unfolded s1, OF assms(3)]
  have 2: "shifts contents s1 s2 (on_resource q (int (unat amt)))"
    unfolding s2 using i by (intro shifts_ledgers [OF shifts_sound [OF 1(1)]]) (auto simp: on_resource_def s1)
  note 3 = shifts_trans [OF 1(1) 2]
  from shifts_trans [OF 3 record_crossing_idle(1) [OF run(3) shifts_sound [OF 3]]] show ?thesis
    by (rule shifts_weight) (simp add: on_resource_def held)
qed

lemma escrow_in_conserves:
  assumes "escrow_in arr s = (Ok rep, s')" "sound_session contents s"
  shows "shifts contents s s' (\<lambda>_. 0)"
proof -
  let ?x = "ar_crossed arr"
  from assms(1) obtain s1 s2 u u' bs where
    run: "escrow_step (escrow_claim ?x) s = (Ok u, s1)" "record_crossing (ar_claim arr) bs s1 = (Ok u', s2)"
      "open_bucket (HAmount (x_amount ?x)) (x_resource ?x) None s2 = (Ok rep, s')"
    by (auto simp: escrow_in_def op_then_Ok split: if_splits)
  from run(1) obtain e where e: "escrow_claim ?x (ks_escrow s) = (Ok u, e)" and s1: "s1 = s\<lparr> ks_supply := ks_supply s, ks_escrow := e \<rparr>"
    by (auto simp: escrow_step_def split: prod.splits)
  note c = escrow_claim_Ok [OF e]
  have "escrow_exact e" using assms(2) c(1) by (simp add: sound_session_def escrow_exact_def)
  then have 1: "shifts contents s s1 (on_resource (x_resource ?x) (- int (unat (x_amount ?x))))"
    unfolding s1 using c by (intro shifts_ledgers [OF assms(2)]) (auto simp: on_resource_def)
  note 2 = shifts_trans [OF 1 record_crossing_idle(1) [OF run(2) shifts_sound [OF 1]]]
  from shifts_trans [OF 2 shifts_open [OF shifts_sound [OF 2] run(3)]] show ?thesis
    by (rule shifts_weight) (simp_all add: on_resource_def)
qed

lemma reserved_Ok:
  assumes "reserved s st el op = Ok amt"
  shows "\<exists>key. acting s st el op = Ok (CapReserve key amt) \<and> ov_held_reservation (ks_store s) key (ks_tx s) \<noteq> None"
proof -
  from assms obtain held where "acting s st el op = Ok held" "(case held of
        CapReserve key amt \<Rightarrow> map_res (\<lambda>_. amt) (ok_or ReservationMissing (ov_held_reservation (ks_store s) key (ks_tx s)))
      | _ \<Rightarrow> Err ReservationMissing) = Ok amt"
    by (auto simp: reserved_def)
  then show ?thesis by (cases held) auto
qed

lemma shifts_taken:
  assumes "sound_session contents s" "\<not> bt_contains (ks_taken s) rep" "unat rep < length (ks_table s)"
    "ks_table s ! unat rep = CapReserve key amt" "ks_cell_resources s ! unat rep = Some q"
  shows "shifts contents s (s\<lparr> ks_taken := bs_insert rep (ks_taken s) \<rparr>) (on_resource q (- int (unat amt)))"
proof -
  let ?s = "s\<lparr> ks_taken := bs_insert rep (ks_taken s) \<rparr>"
  have same: "same_table s ?s" by (simp add: same_table_def)
  let ?w = "\<lambda>taken r. taken_weight (ks_table s) (ks_cell_resources s) taken r"
  have "supp_sum (?w (ks_taken ?s) r) = supp_sum (?w (ks_taken s) r) - ?w (ks_taken s) r rep + ?w (ks_taken ?s) r rep" for r
    by (rule supp_sum_update) (auto simp: taken_weight_def)
  then have "net ?s r = net s r + on_resource q (- int (unat amt)) r" for r
    using denominations_cong [OF same] assms(2-5) by (simp add: net_def) (simp add: taken_weight_def on_resource_def)
  then show ?thesis using same assms(1) statics_cong [OF same] by (simp add: shifts_def sound_session_def)
qed

lemma reserve_take_conserves:
  assumes "reserve_take st el s = (Ok fresh, s')" "sound_session contents s"
  shows "shifts contents s s' (\<lambda>_. 0)"
proof -
  from assms(1) obtain amt q rep where
    a: "reserved s st el OpTakeReserved = Ok amt" "value_of s st el = Ok q" "rep_at s st el = Ok rep" "\<not> bt_contains (ks_taken s) rep" and
    opened: "open_bucket (HAmount amt) q (cell_behind (s\<lparr> ks_taken := bs_insert rep (ks_taken s) \<rparr>) rep) (s\<lparr> ks_taken := bs_insert rep (ks_taken s) \<rparr>) = (Ok fresh, s')"
    by (auto simp: reserve_take_def op_then_Ok take_once_def split: if_splits)
  from reserved_Ok [OF a(1)] obtain key where act: "acting s st el OpTakeReserved = Ok (CapReserve key amt)" by blast
  from acting_Ok [OF this] a(3) have rep: "unat rep < length (ks_table s)" "ks_table s ! unat rep = CapReserve key amt" by auto
  have "entry_at s st el = Ok (Some rep)" using a(3) by (auto simp: rep_at_def)
  then have "ks_cell_resources s ! unat rep = Some q"
    using a(2) resource_at_rep [OF _ rep(1)] assms(2) by (simp add: value_of_def cell_resource_def sound_session_def)
  note 1 = shifts_taken [OF assms(2) a(4) rep this]
  from shifts_trans [OF 1 shifts_open [OF shifts_sound [OF 1] opened]] show ?thesis
    by (rule shifts_weight) (simp_all add: on_resource_def)
qed

section \<open>Ordered collections\<close>

text \<open>A step that moves no value and keeps what the collections answer, so that what a probe learned stays true.\<close>

definition quiet :: "(Address \<Rightarrow> CollectionId \<Rightarrow> (u128, bytes) btmap) \<Rightarrow> KernelSession \<Rightarrow> KernelSession \<Rightarrow> bool" where
  "quiet contents s s' \<longleftrightarrow> shifts contents s s' (\<lambda>_. 0) \<and> ov_entry_value (ks_store s') = ov_entry_value (ks_store s) \<and>
     ks_buckets s' = ks_buckets s"

lemma quiet_refl: "sound_session contents s \<Longrightarrow> quiet contents s s"
  by (simp add: quiet_def shifts_refl)

lemma quiet_trans: "quiet contents s s' \<Longrightarrow> quiet contents s' s'' \<Longrightarrow> quiet contents s s''"
  by (auto simp: quiet_def dest: shifts_trans)

lemma quiet_sound: "quiet contents s s' \<Longrightarrow> sound_session contents s'"
  by (simp add: quiet_def shifts_def)

lemma quiet_shifts: "quiet contents s s' \<Longrightarrow> shifts contents s s' (\<lambda>_. 0)"
  by (simp add: quiet_def)

lemma quiet_ranges: "sound_session contents s \<Longrightarrow> quiet contents s (s\<lparr> ks_ranges := rg \<rparr>)"
  by (auto simp: quiet_def same_table_def intro!: shifts_idle)

lemma quiet_record: "sound_session contents s \<Longrightarrow> quiet contents s (s\<lparr> ks_store := ov_record t k (ks_store s) \<rparr>)"
  by (simp add: quiet_def shifts_record entry_value_put)

lemma invalidate_ranges: "\<exists>rg. invalidate owner collection s = s\<lparr> ks_ranges := rg \<rparr>"
  by (auto simp: invalidate_def)

lemma quiet_invalidate: "sound_session contents s \<Longrightarrow> quiet contents s (invalidate owner collection s)"
  using invalidate_ranges [of owner collection s] quiet_ranges by metis

lemma lift_Ok:
  "lift_entries owner collection lo hi cap s = (Ok es, s') \<Longrightarrow>
    s' = s\<lparr> ks_store := ov_record (RangeT owner collection lo hi cap) KRead (ks_store s) \<rparr> \<and>
    es = ov_merged_entries (ov_record (RangeT owner collection lo hi cap) KRead (ks_store s)) owner collection lo hi (unat cap)"
  by (auto simp: lift_entries_def on_store_def ov_entries_in_range_def Let_def)

lemma lift_quiet: "lift_entries owner collection lo hi cap s = (Ok es, s') \<Longrightarrow> sound_session contents s \<Longrightarrow> quiet contents s s'"
  using lift_Ok [of owner collection lo hi cap s es s'] quiet_record by blast

lemma scan_quiet: "scan st el s = (Ok u, s') \<Longrightarrow> sound_session contents s \<Longrightarrow> quiet contents s s'"
proof (cases "bt_contains (rg_scans (ks_ranges s)) (st, el)")
  case False
  assume run: "scan st el s = (Ok u, s')" and sound: "sound_session contents s"
  from run False obtain i :: Interval and es s1 where
    1: "lift_entries (iv_owner i) (iv_collection i) (iv_lo i) (iv_hi i) (iv_cap i) s = (Ok es, s1)" and
    s': "s' = put_scan (st, el) \<lparr> sc_entries = es, sc_covered = None \<rparr> s1"
    by (auto simp: scan_def op_then_Ok)
  from lift_quiet [OF 1 sound] quiet_ranges [OF quiet_sound] show ?thesis unfolding s' put_scan_def by (blast intro: quiet_trans)
qed (auto simp: scan_def quiet_refl)

lemma page_at_same: "page_at st el s = (Ok page, s') \<Longrightarrow> s' = s"
  by (auto simp: page_at_def split: option.splits)

lemma charge_write_quiet: "charge_write st el order cap s = (Ok u, s') \<Longrightarrow> sound_session contents s \<Longrightarrow> quiet contents s s'"
  by (auto simp: charge_write_def Let_def op_then_Ok split: if_splits intro!: quiet_ranges)

text \<open>A probe at one order answers whether the collection holds it.\<close>

lemma tombs_point: "tombs (bt_range order order m) \<le> 1"
proof -
  have "length (bt_range order order m) \<le> 1"
  proof -
    have "distinct (map fst (bt_range order order m))" using sorted_bt_range [of order order m] by (simp add: strict_sorted_iff)
    moreover have "set (map fst (bt_range order order m)) \<subseteq> {order}" by (auto simp: bt_range_def)
    ultimately show ?thesis by (metis card_mono card.empty card_insert_disjoint distinct_card empty_iff finite.emptyI finite_insert length_map One_nat_def)
  qed
  then show ?thesis unfolding tombs_def using length_filter_le le_trans by blast
qed

lemma probe_exact:
  assumes "probe owner collection order s = (Ok held, s')" "sound_session contents s"
  shows "quiet contents s s'" "held \<longleftrightarrow> ov_entry_value (ks_store s) owner collection order \<noteq> None"
proof -
  let ?st = "ov_record (RangeT owner collection order order 1) KRead (ks_store s)"
  from assms(1) obtain es where l: "lift_entries owner collection order order 1 s = (Ok es, s')" and held: "held \<longleftrightarrow> es \<noteq> []"
    by (auto simp: probe_def op_map_Ok)
  show "quiet contents s s'" by (rule lift_quiet [OF l assms(2)])
  have base: "baseline (ov_base ?st) contents" using assms(2) by (simp add: sound_session_def ov_record_def)
  have fits: "scan_fits ?st owner collection order order 1"
    using tombs_point [of order "bt_get_or bt_empty (ly_entries (ov_committed ?st)) (owner, collection)"]
      tombs_point [of order "bt_get_or bt_empty (ly_entries (ov_active ?st)) (owner, collection)"]
    by (simp add: scan_fits_def layer_range_def usize_max_def)
  have "es = take 1 (bt_range order order (ov_contents contents ?st owner collection))"
    using lift_Ok [OF l] baseline.merged_entries_scan [OF base refl fits] by simp
  moreover have "bt_range order order m = [] \<longleftrightarrow> bt_get m order = None" for m :: "(u128, bytes) btmap"
    using map_of_bt_range [of order order m order] by (auto simp: bt_range_def filter_empty_conv map_of_eq_None_iff split: if_splits)
  ultimately show "held \<longleftrightarrow> ov_entry_value (ks_store s) owner collection order \<noteq> None"
    using held baseline.entry_value_contents [OF base refl, of owner collection order] by (simp add: entry_value_put)
qed

lemma interval_held:
  assumes "acting_interval s st el op = Ok i"
  shows "\<exists>held. acting s st el op = Ok held \<and> cap_interval held = Some i \<and> grants held op"
proof -
  from assms obtain held where held: "acting s st el op = Ok held" "cap_interval held = Some i" by (auto simp: acting_interval_def)
  with acting_Ok [OF held(1)] show ?thesis by blast
qed

lemma granted_interval:
  "grants held OpWriteEntries \<Longrightarrow> cap_interval held = Some i \<Longrightarrow> held = CapRangeWrite i"
  "grants held OpFileInstances \<or> grants held OpTakeInstances \<Longrightarrow> cap_interval held = Some i \<Longrightarrow> \<exists>m. held = CapInstances i m"
  by (cases held; auto)+

lemma byte_interval:
  assumes "write_interval s st el = Ok i" "statics s"
  shows "dn_entry (denominations s) (EntryKey (iv_owner i) (iv_collection i) order) = None"
proof -
  from interval_held [OF assms(1) [unfolded write_interval_def]] obtain held where
    held: "acting s st el OpWriteEntries = Ok held" "held = CapRangeWrite i" using granted_interval(1) by blast
  from acting_Ok [OF held(1)] held(2) show ?thesis
    using byte_entries_undenominated [OF assms(2)] by (metis EntryKey.sel(1,2))
qed

lemma value_interval:
  assumes "acting_interval s st el op = Ok i" "op = OpFileInstances \<or> op = OpTakeInstances" "value_of s st el = Ok q" "statics s"
  shows "dn_entry (denominations s) (EntryKey (iv_owner i) (iv_collection i) order) = Some q"
proof -
  from interval_held [OF assms(1)] assms(2) obtain held m where
    held: "acting s st el op = Ok held" "held = CapInstances i m" using granted_interval(2) by blast
  from acting_value [OF held(1) assms(3,4)] held(2) show ?thesis
    unfolding dn_entry_iff [OF assms(4)] by (metis EntryKey.sel(1,2) value_entries.simps(1))
qed

lemma shifts_entry:
  assumes "sound_session contents s"
  shows "shifts contents s (s\<lparr> ks_store := put_entry owner collection order c (ov_record t k (ks_store s)) \<rparr>)
    (\<lambda>r. if dn_entry (denominations s) (EntryKey owner collection order) = Some r
      then of_bool (c \<noteq> None) - of_bool (ov_entry_value (ks_store s) owner collection order \<noteq> None) else 0)"
  using assms by (intro shifts_store) (auto simp: net_simps entry_value_put, simp_all add: put_entry_def ov_record_def)

lemma on_store_entry:
  "on_store (ov_entry_write owner collection order v) s = (Ok u, s') \<longleftrightarrow>
     s' = s\<lparr> ks_store := put_entry owner collection order (Some v) (ov_record (Entry owner collection order) KWrite (ks_store s)) \<rparr>"
  "(\<exists>was. on_store (ov_entry_remove owner collection order) s = (Ok was, s')) \<longleftrightarrow>
     s' = s\<lparr> ks_store := put_entry owner collection order None (ov_record (Entry owner collection order) KWrite (ks_store s)) \<rparr>"
  by (auto simp: on_store_def ov_entry_write_def ov_entry_remove_def Let_def)

lemma range_order_quiet: "range_order st el index s = (Ok order, s') \<Longrightarrow> sound_session contents s \<Longrightarrow> quiet contents s s'"
  by (auto simp: range_order_def op_then_Ok dest!: page_at_same scan_quiet)

lemma byte_change:
  assumes "sound_session contents s" "quiet contents s s1" "write_interval s st el = Ok i"
  shows "shifts contents s (invalidate (iv_owner i) (iv_collection i)
      (s1\<lparr> ks_store := put_entry (iv_owner i) (iv_collection i) order c (ov_record t k (ks_store s1)) \<rparr>)) (\<lambda>_. 0)"
proof -
  have "dn_entry (denominations s1) (EntryKey (iv_owner i) (iv_collection i) order) = None"
    using byte_interval [OF assms(3)] assms(1) shifts_denominations [OF quiet_shifts [OF assms(2)]] by (simp add: sound_session_def)
  then have 1: "shifts contents s1 (s1\<lparr> ks_store := put_entry (iv_owner i) (iv_collection i) order c (ov_record t k (ks_store s1)) \<rparr>) (\<lambda>_. 0)"
    by (intro shifts_weight [OF shifts_entry [OF quiet_sound [OF assms(2)]]]) simp
  note 2 = shifts_trans [OF quiet_shifts [OF assms(2)] 1]
  from shifts_trans [OF 2 quiet_shifts [OF quiet_invalidate [OF shifts_sound [OF 2]]]] show ?thesis by simp
qed

lemma range_set_conserves:
  assumes "range_set st el index val s = (Ok u, s')" "sound_session contents s"
  shows "shifts contents s s' (\<lambda>_. 0)"
proof -
  from assms(1) obtain i order s1 u2 s2 where i: "write_interval s st el = Ok i" and
    run: "range_order st el index s = (Ok order, s1)" "charge_write st el order (iv_cap i) s1 = (Ok u2, s2)" and
    s': "s' = invalidate (iv_owner i) (iv_collection i)
      (s2\<lparr> ks_store := put_entry (iv_owner i) (iv_collection i) order (Some val) (ov_record (Entry (iv_owner i) (iv_collection i) order) KWrite (ks_store s2)) \<rparr>)"
    by (auto simp: range_set_def op_then_Ok on_store_entry)
  note 1 = range_order_quiet [OF run(1) assms(2)]
  show ?thesis unfolding s' by (rule byte_change [OF assms(2) quiet_trans [OF 1 charge_write_quiet [OF run(2) quiet_sound [OF 1]]] i])
qed

lemma range_insert_conserves:
  assumes "range_insert st el order val s = (Ok u, s')" "sound_session contents s"
  shows "shifts contents s s' (\<lambda>_. 0)"
proof -
  from assms(1) obtain i u2 s2 where i: "write_interval s st el = Ok i" and
    run: "charge_write st el order (iv_cap i) s = (Ok u2, s2)" and
    s': "s' = invalidate (iv_owner i) (iv_collection i)
      (s2\<lparr> ks_store := put_entry (iv_owner i) (iv_collection i) order (Some val) (ov_record (Entry (iv_owner i) (iv_collection i) order) KWrite (ks_store s2)) \<rparr>)"
    by (auto simp: range_insert_def op_then_Ok on_store_entry split: if_splits)
  show ?thesis unfolding s' by (rule byte_change [OF assms(2) charge_write_quiet [OF run assms(2)] i])
qed

lemma range_remove_conserves:
  assumes "range_remove st el index s = (Ok u, s')" "sound_session contents s"
  shows "shifts contents s s' (\<lambda>_. 0)"
proof -
  from assms(1) obtain i order s1 u2 s2 was s3 where i: "write_interval s st el = Ok i" and
    run: "range_order st el index s = (Ok order, s1)" "charge_write st el order (iv_cap i) s1 = (Ok u2, s2)" and
    rm: "on_store (ov_entry_remove (iv_owner i) (iv_collection i) order) s2 = (Ok was, s3)" and
    s': "s' = invalidate (iv_owner i) (iv_collection i) s3"
    by (auto simp: range_remove_def op_then_Ok)
  have s3: "s3 = s2\<lparr> ks_store := put_entry (iv_owner i) (iv_collection i) order None (ov_record (Entry (iv_owner i) (iv_collection i) order) KWrite (ks_store s2)) \<rparr>"
    using rm on_store_entry(2) by blast
  note 1 = range_order_quiet [OF run(1) assms(2)]
  show ?thesis unfolding s' s3 by (rule byte_change [OF assms(2) quiet_trans [OF 1 charge_write_quiet [OF run(2) quiet_sound [OF 1]]] i])
qed

text \<open>Loops over the orders of a set of instances: one that only asks, and one that changes each entry.\<close>

lemma op_each_quiet:
  assumes "\<And>x s u s'. f x s = (Ok u, s') \<Longrightarrow> sound_session contents s \<Longrightarrow> quiet contents s s' \<and> P (ov_entry_value (ks_store s)) x"
  shows "op_each f xs s = (Ok u, s') \<Longrightarrow> sound_session contents s \<Longrightarrow>
    quiet contents s s' \<and> (\<forall>x \<in> set xs. P (ov_entry_value (ks_store s)) x)"
proof (induction xs arbitrary: s)
  case (Cons x xs)
  then obtain v s1 where run: "f x s = (Ok v, s1)" "op_each f xs s1 = (Ok u, s')" by (auto simp: op_then_Ok)
  from assms [OF run(1) Cons.prems(2)] have 1: "quiet contents s s1" "P (ov_entry_value (ks_store s)) x" by blast+
  from Cons.IH [OF run(2) quiet_sound [OF 1(1)]] 1 show ?case by (auto simp: quiet_def intro: quiet_trans dest: shifts_trans)
qed (auto simp: quiet_refl)

lemma put_entries_shift:
  assumes "\<And>x s s' u. f x s = (Ok u, s') \<Longrightarrow> s' = s\<lparr> ks_store := put_entry owner collection x c (ov_record (Entry owner collection x) KWrite (ks_store s)) \<rparr>"
    "\<And>x. dn_entry d (EntryKey owner collection x) = Some q"
  shows "op_each f xs s = (Ok u, s') \<Longrightarrow> sound_session contents s \<Longrightarrow> denominations s = d \<Longrightarrow> distinct xs \<Longrightarrow>
    \<forall>x \<in> set xs. (ov_entry_value (ks_store s) owner collection x \<noteq> None) = (c = None) \<Longrightarrow>
    shifts contents s s' (on_resource q (int (length xs) * (if c = None then - 1 else 1))) \<and> ks_buckets s' = ks_buckets s"
proof (induction xs arbitrary: s)
  case (Cons x xs)
  then obtain v s1 where run: "f x s = (Ok v, s1)" "op_each f xs s1 = (Ok u, s')" by (auto simp: op_then_Ok)
  note s1 = assms(1) [OF run(1)]
  let ?one = "if c = None then - 1 else 1 :: int"
  have 1: "shifts contents s s1 (on_resource q ?one)"
    unfolding s1 by (rule shifts_weight [OF shifts_entry [OF Cons.prems(2)]]) (use Cons.prems in \<open>auto simp: on_resource_def assms(2)\<close>)
  have "\<forall>y \<in> set xs. (ov_entry_value (ks_store s1) owner collection y \<noteq> None) = (c = None)"
    using Cons.prems(4,5) by (auto simp: s1 entry_value_put)
  from Cons.IH [OF run(2) shifts_sound [OF 1] _ _ this] Cons.prems(3,4) shifts_denominations [OF 1]
  have 2: "shifts contents s1 s' (on_resource q (int (length xs) * ?one))" "ks_buckets s' = ks_buckets s1" by auto
  have "shifts contents s s' (on_resource q (int (length (x # xs)) * ?one))"
    by (rule shifts_weight [OF shifts_trans [OF 1 2(1)]]) (simp add: on_resource_def)
  moreover have "ks_buckets s' = ks_buckets s" using 2(2) s1 by simp
  ultimately show ?case by blast
qed (auto simp: on_resource_def intro: shifts_weight [OF shifts_refl])

lemma take_probed_quiet:
  "take_probed st el i order s = (Ok u, s') \<Longrightarrow> sound_session contents s \<Longrightarrow>
    quiet contents s s' \<and> ov_entry_value (ks_store s) (iv_owner i) (iv_collection i) order \<noteq> None"
proof -
  assume run: "take_probed st el i order s = (Ok u, s')" and sound: "sound_session contents s"
  from run obtain held s1 where p: "probe (iv_owner i) (iv_collection i) order s = (Ok held, s1)" "held"
    and c: "charge_write st el order (iv_cap i) s1 = (Ok u, s')"
    by (auto simp: take_probed_def op_then_Ok split: if_splits)
  note 1 = probe_exact [OF p(1) sound]
  from quiet_trans [OF 1(1) charge_write_quiet [OF c quiet_sound [OF 1(1)]]] 1(2) p(2) show ?thesis by blast
qed

lemma distinct_bt_keys: "distinct (bt_keys m)"
  by (simp add: bt_keys_def)

lemma range_take_conserves:
  assumes "range_take st el ids s = (Ok rep, s')" "sound_session contents s"
  shows "shifts contents s s' (\<lambda>_. 0)"
proof -
  let ?set = "\<lambda>named. bs_of_list (map ucast named) :: u128 btset"
  let ?rm = "\<lambda>i :: Interval. \<lambda>order. op_map (\<lambda>_. ()) (on_store (ov_entry_remove (iv_owner i) (iv_collection i) order)) :: unit session_op"
  from assms(1) obtain i q named u s1 u2 s2 where
    a: "taking_interval s st el = Ok i" "value_of s st el = Ok q" "distinct_ids ids = Some named" and
    run: "op_each (take_probed st el i) (map ucast named) s = (Ok u, s1)" "op_each (?rm i) (bt_keys (?set named)) s1 = (Ok u2, s2)" and
    opened: "open_bucket (HInstances (?set named)) q None (invalidate (iv_owner i) (iv_collection i) s2) = (Ok rep, s')"
    by (auto simp: range_take_def op_then_Ok Let_def)
  from op_each_quiet [where P = "\<lambda>e x. e (iv_owner i) (iv_collection i) x \<noteq> None" and f = "take_probed st el i", OF take_probed_quiet run(1) assms(2)]
  have 1: "quiet contents s s1" and here: "\<forall>x \<in> set (map ucast named). ov_entry_value (ks_store s1) (iv_owner i) (iv_collection i) x \<noteq> None"
    by (auto simp: quiet_def)
  have st: "statics s" using assms(2) by (simp add: sound_session_def)
  have d: "dn_entry (denominations s) (EntryKey (iv_owner i) (iv_collection i) x) = Some q" for x
    using value_interval [OF a(1) [unfolded taking_interval_def] _ a(2) st] by simp
  have rm: "?rm i x s = (Ok v, s') \<Longrightarrow> s' = s\<lparr> ks_store := put_entry (iv_owner i) (iv_collection i) x None
      (ov_record (Entry (iv_owner i) (iv_collection i) x) KWrite (ks_store s)) \<rparr>" for x s s' v
    using on_store_entry(2) [of "iv_owner i" "iv_collection i" x s s'] by (auto simp: op_map_Ok)
  have "\<forall>x \<in> set (bt_keys (?set named)). (ov_entry_value (ks_store s1) (iv_owner i) (iv_collection i) x \<noteq> None) = (None = (None :: bytes option))"
    using here by auto
  from put_entries_shift [OF rm d run(2) quiet_sound [OF 1] shifts_denominations [OF quiet_shifts [OF 1]] distinct_bt_keys this]
  have 2: "shifts contents s1 s2 (on_resource q (- int (bt_len (?set named))))" by simp
  note 3 = shifts_trans [OF quiet_shifts [OF 1] 2]
  note 4 = shifts_trans [OF 3 quiet_shifts [OF quiet_invalidate [OF shifts_sound [OF 3]]]]
  from shifts_trans [OF 4 shifts_open [OF shifts_sound [OF 4] opened instances_small(1) [OF a(3)]]] show ?thesis
    by (rule shifts_weight) (simp add: on_resource_def)
qed

lemma range_put_conserves:
  assumes "range_put st el funds val s = (Ok u, s')" "sound_session contents s"
  shows "shifts contents s s' (\<lambda>_. 0)"
proof -
  let ?ask = "\<lambda>i :: Interval. \<lambda>order. op_then (probe (iv_owner i) (iv_collection i) order) (\<lambda>held.
        op_get (\<lambda>_. if held then Err (InstanceHeldTwice order) else Ok ())) :: unit session_op"
  let ?inside = "\<lambda>i :: Interval. \<lambda>order. op_get (\<lambda>_. if iv_holds i order then Ok () else Err OrderOutsideInterval) :: unit session_op"
  from assms(1) obtain i q ids u0 s0 u1 s1 u2 s2 u3 s3 taken where
    a: "filing_interval s st el = Ok i" "value_of s st el = Ok q" and
    funds: "bk_resource_of (ks_buckets s) funds = Ok q" "bk_get (ks_buckets s) funds = Ok (HInstances ids)" and
    run: "op_each (?inside i) (bt_keys ids) s = (Ok u0, s0)"
      "op_each (\<lambda>order. charge_write st el order (iv_cap i)) (bt_keys ids) s0 = (Ok u1, s1)"
      "op_each (?ask i) (bt_keys ids) s1 = (Ok u2, s2)"
      "op_each (\<lambda>order. on_store (ov_entry_write (iv_owner i) (iv_collection i) order val)) (bt_keys ids) s2 = (Ok u3, s3)" and
    took: "take_bucket funds (invalidate (iv_owner i) (iv_collection i) s3) = (Ok taken, s')"
    by (auto simp: range_put_def op_then_Ok op_map_Ok judge_credit_def split: if_splits Held.splits)
  have 0: "quiet contents s s0"
    using op_each_quiet [where P = "\<lambda>_ _. True", OF _ run(1) assms(2)] by (auto simp: quiet_refl split: if_splits)
  have 1: "quiet contents s0 s1"
    using op_each_quiet [where P = "\<lambda>_ _. True", OF _ run(2) quiet_sound [OF 0]] charge_write_quiet by auto
  note 01 = quiet_trans [OF 0 1]
  have ask: "quiet contents s s' \<and> ov_entry_value (ks_store s) (iv_owner i) (iv_collection i) x = None"
    if "?ask i x s = (Ok v, s')" "sound_session contents s" for x s s' v
    using that probe_exact [of "iv_owner i" "iv_collection i" x s _ _ contents] by (auto simp: op_then_Ok split: if_splits)
  from op_each_quiet [where P = "\<lambda>e x. e (iv_owner i) (iv_collection i) x = None" and f = "?ask i", OF ask run(3) quiet_sound [OF 01]]
  have 2: "quiet contents s1 s2" and gone: "\<forall>x \<in> set (bt_keys ids). ov_entry_value (ks_store s2) (iv_owner i) (iv_collection i) x = None"
    by (auto simp: quiet_def)
  note q2 = quiet_trans [OF 01 2]
  have st: "statics s" using assms(2) by (simp add: sound_session_def)
  have d: "dn_entry (denominations s) (EntryKey (iv_owner i) (iv_collection i) x) = Some q" for x
    using value_interval [OF a(1) [unfolded filing_interval_def] _ a(2) st] by simp
  have "\<forall>x \<in> set (bt_keys ids). (ov_entry_value (ks_store s2) (iv_owner i) (iv_collection i) x \<noteq> None) = (Some val = None)"
    using gone by simp
  from put_entries_shift [OF _ d run(4) quiet_sound [OF q2] shifts_denominations [OF quiet_shifts [OF q2]] distinct_bt_keys this]
  have 3: "shifts contents s2 s3 (on_resource q (int (bt_len ids)))" "ks_buckets s3 = ks_buckets s2"
    by (simp_all add: on_store_entry)
  note 4 = shifts_trans [OF quiet_shifts [OF q2] 3(1)]
  note 5 = shifts_trans [OF 4 quiet_shifts [OF quiet_invalidate [OF shifts_sound [OF 4]]]]
  have b: "ks_buckets (invalidate (iv_owner i) (iv_collection i) s3) = ks_buckets s"
    using 3(2) q2 by (simp add: quiet_def invalidate_def)
  note t = shifts_take [OF shifts_sound [OF 5] took]
  have "taken = HInstances ids" using t(2) b funds by simp
  with shifts_trans [OF 5 t(1)] funds(1) b show ?thesis by (auto intro: shifts_weight simp: on_resource_def)
qed

section \<open>Any sequence of operations\<close>

text \<open>One successful call on a session: by a guest, through its handles, or by the walk between invocations. A
  departing edge leaves once. Reading methods that keep the session are no step.\<close>

inductive session_step :: "KernelSession \<Rightarrow> KernelSession \<Rightarrow> bool" where
  step_bind: "session_step s (snd (bind_site es s))"
| step_lend: "session_step s (lend_bucket rep s)"
| step_enter: "session_step s (enter_invocation emitter event_bytes s)"
| step_leave: "session_step s (leave_invocation s)"
| step_grant: "session_step s (grant_issuance given s)"
| step_floor: "session_step s (snd (take_lost_floor s))"
| step_emit: "emit event_type payload s = (Ok u, s') \<Longrightarrow> session_step s s'"
| step_declared_cell: "declared_cell key s = (Ok bs, s') \<Longrightarrow> session_step s s'"
| step_declared_present: "declared_present target s = (Ok held, s') \<Longrightarrow> session_step s s'"
| step_cell_get: "cell_get st el s = (Ok bs, s') \<Longrightarrow> session_step s s'"
| step_cell_set: "write_cell_set st el val s = (Ok u, s') \<Longrightarrow> session_step s s'"
| step_cell_clear: "write_cell_clear st el s = (Ok u, s') \<Longrightarrow> session_step s s'"
| step_seal: "seal st el s = (Ok u, s') \<Longrightarrow> session_step s s'"
| step_open_seal: "open_seal st el s = (Ok drawn, s') \<Longrightarrow> session_step s s'"
| step_balance: "amount_cell_balance st el s = (Ok amt, s') \<Longrightarrow> session_step s s'"
| step_take: "cell_take st el amt s = (Ok rep, s') \<Longrightarrow> session_step s s'"
| step_put: "cell_put st el funds s = (Ok u, s') \<Longrightarrow> session_step s s'"
| step_split: "bucket_take rep amt s = (Ok fresh, s') \<Longrightarrow> session_step s s'"
| step_share: "bucket_split rep num den s = (Ok fresh, s') \<Longrightarrow> session_step s s'"
| step_merge: "bucket_put rep other s = (Ok u, s') \<Longrightarrow> session_step s s'"
| step_drop: "drop_bucket rep s = (Ok u, s') \<Longrightarrow> session_step s s'"
| step_mint: "mint grant amt s = (Ok rep, s') \<Longrightarrow> session_step s s'"
| step_mint_instances: "mint_instances grant ids s = (Ok rep, s') \<Longrightarrow> session_step s s'"
| step_burn: "burn funds s = (Ok u, s') \<Longrightarrow> session_step s s'"
| step_escrow_out: "escrow_out node output funds dep s = (Ok crossed, s') \<Longrightarrow>
    bt_get (ed_issued_at (ks_escrow s)) (node, output) = None \<Longrightarrow> session_step s s'"
| step_escrow_in: "escrow_in arr s = (Ok rep, s') \<Longrightarrow> session_step s s'"
| step_reserve_take: "reserve_take st el s = (Ok rep, s') \<Longrightarrow> session_step s s'"
| step_range_count: "range_count st el s = (Ok n, s') \<Longrightarrow> session_step s s'"
| step_range_covered: "range_covered st el s = (Ok known, s') \<Longrightarrow> session_step s s'"
| step_range_order: "range_order st el index s = (Ok order, s') \<Longrightarrow> session_step s s'"
| step_range_entry: "range_entry st el index s = (Ok bs, s') \<Longrightarrow> session_step s s'"
| step_range_set: "range_set st el index val s = (Ok u, s') \<Longrightarrow> session_step s s'"
| step_range_insert: "range_insert st el order val s = (Ok u, s') \<Longrightarrow> session_step s s'"
| step_range_remove: "range_remove st el index s = (Ok u, s') \<Longrightarrow> session_step s s'"
| step_range_take: "range_take st el ids s = (Ok rep, s') \<Longrightarrow> session_step s s'"
| step_range_put: "range_put st el funds val s = (Ok u, s') \<Longrightarrow> session_step s s'"

lemma reach_idle:
  assumes "sound_session contents s"
  shows "shifts contents s (lend_bucket rep s) (\<lambda>_. 0)" "shifts contents s (enter_invocation emitter n s) (\<lambda>_. 0)"
    "shifts contents s (leave_invocation s) (\<lambda>_. 0)"
proof -
  have idle: "shifts contents s s' (\<lambda>_. 0)"
    if "same_table s s'" "ks_store s' = ks_store s" "ks_supply s' = ks_supply s" "ks_escrow s' = ks_escrow s" "ks_taken s' = ks_taken s"
      "ks_buckets s' = (ks_buckets s)\<lparr> bk_reach := re \<rparr>" for s' re
    using that assms statics_cong [OF that(1)] denominations_cong [OF that(1)]
    by (simp add: shifts_def sound_session_def net_def same_table_def bk_aligned_def)
  show "shifts contents s (lend_bucket rep s) (\<lambda>_. 0)" "shifts contents s (enter_invocation emitter n s) (\<lambda>_. 0)"
    "shifts contents s (leave_invocation s) (\<lambda>_. 0)"
    by (rule idle; simp add: same_table_def lend_bucket_def enter_invocation_def leave_invocation_def bk_lend_def
        bk_enter_frame_def bk_leave_frame_def)+
qed

lemma emit_idle: "emit ty payload s = (Ok u, s') \<Longrightarrow> sound_session contents s \<Longrightarrow> shifts contents s s' (\<lambda>_. 0)"
  by (auto simp: emit_def Let_def same_table_def split: option.splits if_splits intro!: shifts_idle)

lemma occupied_records: "occupied target st = (Ok held, st') \<Longrightarrow> st' = st \<or> (\<exists>t k. st' = ov_record t k st)"
  by (auto simp: occupied_def Let_def ov_read_def ov_entries_in_range_def split: EffectTarget.splits if_splits)

lemma read_idle:
  assumes "sound_session contents s"
  shows "on_store (ov_read key) s = (Ok cell, s') \<Longrightarrow> shifts contents s s' (\<lambda>_. 0)"
    "on_store (ov_write key v) s = (Ok u, s') \<Longrightarrow> shifts contents s s' (\<lambda>_. 0)"
    "on_store (ov_remove key) s = (Ok was, s') \<Longrightarrow> shifts contents s s' (\<lambda>_. 0)"
    "on_store (occupied target) s = (Ok held, s') \<Longrightarrow> shifts contents s s' (\<lambda>_. 0)"
    "amount_cell_at key s = (Ok amt, s') \<Longrightarrow> shifts contents s s' (\<lambda>_. 0)"
proof -
  show "on_store (occupied target) s = (Ok held, s') \<Longrightarrow> shifts contents s s' (\<lambda>_. 0)"
    using shifts_record(1) [OF assms] shifts_refl [OF assms]
    by (auto simp: on_store_def split: prod.splits dest!: occupied_records)
  show "amount_cell_at key s = (Ok amt, s') \<Longrightarrow> shifts contents s s' (\<lambda>_. 0)"
    using shifts_record(1) [OF assms] amount_cell_at_Ok by blast
qed (use shifts_record [OF assms] in \<open>auto simp: on_store_def ov_read_def ov_write_def ov_remove_def Let_def\<close>)

lemma byte_cells_idle:
  assumes "sound_session contents s"
  shows "declared_cell key s = (Ok bs, s') \<Longrightarrow> shifts contents s s' (\<lambda>_. 0)"
    "declared_present target s = (Ok held, s') \<Longrightarrow> shifts contents s s' (\<lambda>_. 0)"
    "cell_get st el s = (Ok bs, s') \<Longrightarrow> shifts contents s s' (\<lambda>_. 0)"
    "write_cell_set st el val s = (Ok u, s') \<Longrightarrow> shifts contents s s' (\<lambda>_. 0)"
    "write_cell_clear st el s = (Ok u, s') \<Longrightarrow> shifts contents s s' (\<lambda>_. 0)"
    "amount_cell_balance st el s = (Ok amt, s') \<Longrightarrow> shifts contents s s' (\<lambda>_. 0)"
    "open_seal st el s = (Ok drawn, s') \<Longrightarrow> shifts contents s s' (\<lambda>_. 0)"
  using read_idle [OF assms]
  by (auto simp: declared_cell_def declared_present_def cell_get_def write_cell_set_def write_cell_clear_def
      amount_cell_balance_def open_seal_def op_map_Ok op_then_Ok)

lemma seal_idle:
  assumes "seal st el s = (Ok u, s')" "sound_session contents s"
  shows "shifts contents s s' (\<lambda>_. 0)"
proof -
  from assms(1) obtain key cell s1 v where run: "on_store (ov_read key) s = (Ok cell, s1)" "on_store (ov_write key v) s1 = (Ok u, s')"
    by (auto simp: seal_def op_then_Ok split: option.splits if_splits)
  note 1 = read_idle(1) [OF assms(2) run(1)]
  from shifts_trans [OF 1 read_idle(2) [OF shifts_sound [OF 1] run(2)]] show ?thesis by simp
qed

lemma pages_idle:
  assumes "sound_session contents s"
  shows "range_count st el s = (Ok n, s') \<Longrightarrow> shifts contents s s' (\<lambda>_. 0)"
    "range_entry st el index s = (Ok bs, s') \<Longrightarrow> shifts contents s s' (\<lambda>_. 0)"
    "range_order st el index s = (Ok order, s') \<Longrightarrow> shifts contents s s' (\<lambda>_. 0)"
  using scan_quiet [OF _ assms] range_order_quiet [OF _ assms]
  by (auto simp: range_count_def range_entry_def op_then_Ok op_map_Ok quiet_def dest!: page_at_same)

lemma range_covered_idle:
  assumes "range_covered st el s = (Ok known, s')" "sound_session contents s"
  shows "shifts contents s s' (\<lambda>_. 0)"
proof -
  from assms(1) obtain u s1 i page where scan: "scan st el s = (Ok u, s1)" and
    rest: "s' = s1 \<or> (\<exists>s2 pg. s' = put_scan (st, el) pg s2 \<and>
      (s2 = s1 \<or> (\<exists>owner collection lo hi cap es. lift_entries owner collection lo hi cap s1 = (Ok es, s2))))"
    by (auto simp: range_covered_def op_then_Ok op_map_Ok Let_def split: option.splits if_splits dest!: page_at_same) blast+
  note 1 = scan_quiet [OF scan assms(2)]
  have page: "quiet contents s1 (put_scan (st, el) pg s2)" if "quiet contents s1 s2" for pg s2
    unfolding put_scan_def using quiet_trans [OF that quiet_ranges [OF quiet_sound [OF that]]] .
  have "quiet contents s1 s'"
    using rest lift_quiet [OF _ quiet_sound [OF 1]] quiet_refl [OF quiet_sound [OF 1]] page by metis
  from quiet_shifts [OF quiet_trans [OF 1 this]] show ?thesis .
qed

lemma bucket_ops_conserve:
  assumes "sound_session contents s"
  shows "bucket_take rep amt s = (Ok fresh, s') \<Longrightarrow> shifts contents s s' (\<lambda>_. 0)"
    "bucket_split rep num den s = (Ok fresh, s') \<Longrightarrow> shifts contents s s' (\<lambda>_. 0)"
    "bucket_put rep other s = (Ok u, s') \<Longrightarrow> shifts contents s s' (\<lambda>_. 0)"
    "drop_bucket rep s = (Ok u, s') \<Longrightarrow> shifts contents s s' (\<lambda>_. 0)"
  unfolding bucket_take_def bucket_split_def bucket_put_def drop_bucket_def
  by (erule shifts_table [OF assms], erule (1) bk_split_conserves bk_split_share_conserves bk_merge_conserves bk_drop_conserves)+

lemmas conserving = cell_take_conserves cell_put_conserves mint_conserves mint_instances_conserves burn_conserves
  escrow_in_conserves reserve_take_conserves range_set_conserves range_insert_conserves
  range_remove_conserves range_take_conserves range_put_conserves emit_idle byte_cells_idle seal_idle pages_idle
  range_covered_idle bucket_ops_conserve

lemma session_step_shifts:
  assumes "session_step s s'" "sound_session contents s"
  shows "shifts contents s s' (\<lambda>_. 0)"
  using assms
proof (cases rule: session_step.cases)
  case (step_bind es)
  then show ?thesis using assms(2) by (auto simp: bind_site_def Let_def same_table_def intro!: shifts_idle)
next
  case (step_grant given)
  then show ?thesis using assms(2) by (auto simp: grant_issuance_def same_table_def intro!: shifts_idle)
next
  case step_floor
  then show ?thesis using assms(2) by (auto simp: take_lost_floor_def same_table_def intro!: shifts_idle)
qed (simp add: reach_idle; fail | erule (1) conserving | erule (2) escrow_out_conserves)+

lemma session_steps_conserve:
  "session_step\<^sup>*\<^sup>* s s' \<Longrightarrow> sound_session contents s \<Longrightarrow> sound_session contents s' \<and> net s' r = net s r"
proof (induction rule: rtranclp_induct)
  case (step t u)
  then show ?case using session_step_shifts [of t u contents] by (auto simp: shifts_def)
qed simp

text \<open>A session before its first operation: no bucket, no supply or escrow, nothing taken, nothing queued or changed.\<close>

definition fresh_session :: "KernelSession \<Rightarrow> bool" where
  "fresh_session s \<longleftrightarrow> ks_buckets s = buckets_default \<and> ks_supply s = supply_default \<and> ks_escrow s = escrow_default \<and>
     ks_taken s = bt_empty \<and> ly_pending_deltas (ov_active (ks_store s)) = bt_empty \<and> ly_entries (ov_active (ks_store s)) = bt_empty"

lemma fresh_net:
  assumes "fresh_session s"
  shows "net s r = 0"
proof -
  have "queue_weight d (ks_store s) r = (\<lambda>_. 0)" "entry_flip d (ks_store s) r = (\<lambda>_. 0)" for d
    using assms by (auto simp: fresh_session_def queue_weight_def entry_flip_def ov_entry_value_def layer_entry_def)
  moreover have "taken_weight table res (ks_taken s) r = (\<lambda>_. 0)" for table res
    using assms by (auto simp: fresh_session_def taken_weight_def)
  ultimately show ?thesis using assms
    by (simp add: net_def fresh_session_def bk_total_def buckets_default_def supply_default_def escrow_default_def
        burned_def minted_def issued_def claimed_def bt_values_def)
qed

text \<open>C1 No sequence of session operations makes or loses value. Start from a session that holds and owes nothing, over
  a table whose capabilities agree with their resources, and let any calls succeed in any order: takes, puts, splits,
  merges, mints, burns, crossings, reservations, instance and byte operations, scans, seals, frames, with no edge of the
  manifest leaving twice. Then for every resource the amounts in buckets, the credits queued, the instances filed, the amounts burned and the amounts issued
  across shards equal the debits queued, the instances removed, the amounts minted, the amounts claimed and the
  reservations taken.\<close>

theorem session_conserves:
  assumes "fresh_session s" "sound_session contents s" "session_step\<^sup>*\<^sup>* s s'"
  shows "int (bk_total (ks_buckets s') r) + supp_sum (queue_weight (denominations s') (ks_store s') r) +
      supp_sum (entry_flip (denominations s') (ks_store s') r) + int (unat (burned (ks_supply s') r)) +
      int (unat (issued (ks_escrow s') r)) =
    int (unat (minted (ks_supply s') r)) + int (unat (claimed (ks_escrow s') r)) +
      supp_sum (taken_weight (ks_table s') (ks_cell_resources s') (ks_taken s') r)"
  using session_steps_conserve [OF assms(3,2), of r] fresh_net [OF assms(1), of r] by (simp add: net_def)

text \<open>A run of four calls on a session that may credit one vault: its site is bound, issuance is granted, five units are
  minted and put into the vault. The balance then says that five units are queued.\<close>

definition vault :: SubstateKey where "vault = SubstateKey 2 7"

definition minting_session :: KernelSession where
  "minting_session = (demo_session buckets_default)\<lparr> ks_supply := supply_default, ks_table := [CapDelta vault In],
     ks_cell_resources := [Some 3], ks_declared := example_declared (Point vault) (Delta In) \<rparr>"

definition mint_grant :: IssuanceGrant where
  "mint_grant = \<lparr> ig_resource = 3, ig_kind = Fungible, ig_direction = IMinted \<rparr>"

definition granted_session :: KernelSession where
  "granted_session = grant_issuance [mint_grant] (snd (bind_site [Some 0] minting_session))"

definition minted_session :: KernelSession where
  "minted_session = snd (mint 0 5 granted_session)"

definition credited_session :: KernelSession where
  "credited_session = snd (cell_put 0 0 0 minted_session)"

lemma minting_fresh: "fresh_session minting_session"
  by (simp add: fresh_session_def minting_session_def demo_session_def ov_new_def)

lemma minting_statics: "statics minting_session"
proof -
  have "capability_for \<lparr> eff_target = Point vault, eff_mode = Delta In \<rparr> True 64 = Ok (CapDelta vault In)"
    by (simp add: capability_for_def)
  from capability_within [OF this] have "covered a (example_declared (Point vault) (Delta In))" if "within (CapDelta vault In) a" for a
    using that by (simp add: covered_iff effects_of_example)
  then show ?thesis by (simp add: statics_def minting_session_def)
qed

lemma minting_sound: "sound_session (ms_contents ms_new) minting_session"
  using minting_statics mem.baseline_axioms [of ms_new]
  by (simp add: sound_session_def minting_session_def demo_session_def bk_aligned_def buckets_default_def ov_new_def
      escrow_exact_def escrow_default_def)

lemmas session_run = minting_session_def granted_session_def demo_session_def mint_grant_def grant_issuance_def bind_site_def
  u32_of_len_def reach_lend_def Let_def supply_default_def buckets_default_def

lemma minting_mints:
  "mint 0 5 granted_session = (Ok 0, minted_session)"
  "minted_session = granted_session\<lparr> ks_supply := supply_default\<lparr> sd_minted := bt_insert 3 5 bt_empty \<rparr>,
     ks_buckets := snd (bk_open (HAmount 5) 3 None buckets_default) \<rparr>"
  by (simp_all add: minted_session_def session_run mint_def op_then_def op_get_def issued_by_def
      supply_step_def supply_mint_def total_add_def checked_add_def open_bucket_def on_buckets_def bk_open_def)

lemma minting_credits:
  "cell_put 0 0 0 minted_session = (Ok (), credited_session)"
  "bk_slots (ks_buckets credited_session) = [None]" "ks_supply credited_session = ks_supply minted_session"
  "ks_escrow credited_session = escrow_default" "ks_taken credited_session = bt_empty"
  "ly_entries (ov_active (ks_store credited_session)) = bt_empty"
  by (simp_all add: credited_session_def minting_mints(2) session_run cell_put_def op_then_def op_map_def op_ok_def op_get_def acting_def
      cap_at_def rep_at_def entry_at_def ABSENT_REP_def site_def reach_holds_def judge_credit_def value_of_def cell_resource_def
      resource_at_def bk_resource_of_def bk_amount_def bk_get_def bk_slot_def settling_def on_store_def ov_queue_delta_def
      ov_record_def take_bucket_def on_buckets_def bk_take_def bk_open_def ov_new_def)

theorem session_conserves_witness:
  "supp_sum (queue_weight (denominations credited_session) (ks_store credited_session) 3) = 5"
proof -
  have "session_step\<^sup>*\<^sup>* minting_session granted_session"
    unfolding granted_session_def by (meson rtranclp.rtrancl_into_rtrancl r_into_rtranclp step_bind step_grant)
  then have run: "session_step\<^sup>*\<^sup>* minting_session credited_session"
    using step_mint [OF minting_mints(1)] step_put [OF minting_credits(1)] by (meson rtranclp.rtrancl_into_rtrancl)
  have "entry_flip (denominations credited_session) (ks_store credited_session) 3 = (\<lambda>_. 0)"
    by (auto simp: entry_flip_def ov_entry_value_def layer_entry_def minting_credits)
  moreover have "taken_weight (ks_table credited_session) (ks_cell_resources credited_session) (ks_taken credited_session) 3 = (\<lambda>_. 0)"
    by (auto simp: taken_weight_def minting_credits)
  moreover have "bk_total (ks_buckets credited_session) 3 = 0" by (simp add: bk_total_def minting_credits(2))
  ultimately show ?thesis using session_conserves [OF minting_fresh minting_sound run, of 3]
    by (simp add: minting_credits minting_mints(2) burned_def minted_def issued_def claimed_def escrow_default_def
        supply_default_def bt_values_def)
qed

end
