(* ===== verification/ShapeTable.thy ===== *)
theory ShapeTable
  imports Shape "HOL-Library.List_Lexorder"
begin

text \<open>
  \<open>crates/hbor/src/shape.rs\<close>: the published form of a type, a flat array of nodes naming
  their children by index. A table grows by \<open>push\<close>, which measures a node off the
  children the table already holds and refuses what no consumer could walk;
  \<open>declare\<close> lowers a static tree into it, \<open>matches\<close> compares a node with a tree, and
  \<open>read\<close> decodes a payload against it without the type.

  A method that panics on an identifier the table does not hold returns \<open>None\<close>
  there; the theorems show where that cannot happen. The two lookup maps are only
  ever looked up, never walked, so they are functions.
\<close>

type_synonym NodeId = u32

datatype TypeShape =
    TBool | TU8 | TU16 | TU32 | TU64 | TU128 | TI8 | TI16 | TI32 | TI64 | TI128
  | TText u32
  | TByteArray u32
  | TSeq u32 NodeId
  | TSet u32 NodeId
  | TMap u32 NodeId NodeId
  | TOption NodeId
  | TTuple "NodeId list"
  | TStruct "(bytes \<times> NodeId) list"
  | TEnum "(bytes \<times> u8 \<times> NodeId) list"
  | TNamed bytes NodeId

datatype ShapeFault =
    Unresolved NodeId
  | Duplicate NodeId
  | TooDeep
  | TooTall
  | TooBroad nat
  | ZeroWidth
  | AmbiguousName bytes
  | AmbiguousDiscriminant u8
  | NameTaken bytes
  | Malformed bytes MalformedName

definition fault_reason :: "ShapeFault \<Rightarrow> string" where
  "fault_reason f = (case f of
     Unresolved _ \<Rightarrow> ''shape references a node the table does not hold before it''
   | Duplicate _ \<Rightarrow> ''shape table repeats a node''
   | TooDeep \<Rightarrow> ''shape nests past the levels a decoder follows''
   | TooTall \<Rightarrow> ''shape stands past the levels a reader of one walks''
   | TooBroad _ \<Rightarrow> ''table walks more positions than a reader of one visits''
   | ZeroWidth \<Rightarrow> ''shape runs over an element that carries no bytes''
   | AmbiguousName _ \<Rightarrow> ''shape names two members of one type alike''
   | AmbiguousDiscriminant _ \<Rightarrow> ''shape selects two variants by one discriminant''
   | NameTaken _ \<Rightarrow> ''shape table names two types alike''
   | Malformed _ _ \<Rightarrow> ''shape names a type as no identifier could'')"

definition MAX_SHAPE_HEIGHT :: nat where "MAX_SHAPE_HEIGHT = 3 * DEFAULT_MAX_DEPTH + 1"

definition MAX_SHAPE_POSITIONS :: nat where "MAX_SHAPE_POSITIONS = 65536"

record Measure =
  ms_depth :: nat
  ms_height :: nat
  ms_positions :: nat
  ms_least :: nat
  ms_most :: nat

definition measure_leaf :: "nat \<Rightarrow> Measure" where
  "measure_leaf width = \<lparr> ms_depth = 0, ms_height = 1, ms_positions = 1, ms_least = width, ms_most = width \<rparr>"

definition measure_run :: "u32 \<Rightarrow> Measure \<Rightarrow> (ShapeFault, Measure) result" where
  "measure_run cap element =
    (if ms_least element = 0 then Err ZeroWidth
     else Ok \<lparr> ms_depth = ms_depth element + 1,
               ms_height = ms_height element + 1,
               ms_positions = usize_add (ms_positions element) 1,
               ms_least = 1,
               ms_most = usize_add (encoded_len (unat cap)) (usize_mul (unat cap) (ms_most element)) \<rparr>)"

definition under_step :: "nat option \<times> nat \<times> nat \<times> nat \<times> nat \<Rightarrow> Measure \<Rightarrow> nat option \<times> nat \<times> nat \<times> nat \<times> nat" where
  "under_step acc child = (case acc of (deepest, tallest, positions, least, most) \<Rightarrow>
     (Some (case deepest of None \<Rightarrow> ms_depth child | Some seen \<Rightarrow> max seen (ms_depth child)),
      max tallest (ms_height child),
      usize_add positions (ms_positions child),
      usize_add least (ms_least child),
      usize_add most (ms_most child)))"

definition measure_under :: "Measure list \<Rightarrow> Measure" where
  "measure_under children =
    (case foldl under_step (None, 0, 1, 0, 0) children of (deepest, tallest, positions, least, most) \<Rightarrow>
       \<lparr> ms_depth = (case deepest of None \<Rightarrow> 0 | Some depth \<Rightarrow> depth + 1),
         ms_height = tallest + 1,
         ms_positions = positions,
         ms_least = least,
         ms_most = most \<rparr>)"

record ShapeTable =
  st_nodes :: "TypeShape list"
  st_measures :: "Measure list"
  st_by_node :: "TypeShape \<Rightarrow> NodeId option"
  st_by_name :: "bytes \<Rightarrow> NodeId option"
  st_positions :: nat

definition table_new :: ShapeTable where
  "table_new = \<lparr> st_nodes = [], st_measures = [], st_by_node = Map.empty, st_by_name = Map.empty,
                 st_positions = 0 \<rparr>"

text \<open>A table holds at most \<open>MAX_SHAPE_POSITIONS\<close> nodes, so an index always fits its identifier.\<close>

definition node_at :: "nat \<Rightarrow> NodeId" where
  "node_at index = word_of_nat index"

definition table_get :: "ShapeTable \<Rightarrow> NodeId \<Rightarrow> TypeShape option" where
  "table_get t nid = (if unat nid < length (st_nodes t) then Some (st_nodes t ! unat nid) else None)"

definition measure_of :: "ShapeTable \<Rightarrow> NodeId \<Rightarrow> Measure option" where
  "measure_of t nid = (if unat nid < length (st_measures t) then Some (st_measures t ! unat nid) else None)"

definition table_most :: "ShapeTable \<Rightarrow> NodeId \<Rightarrow> nat option" where
  "table_most t nid = map_option ms_most (measure_of t nid)"

definition table_least :: "ShapeTable \<Rightarrow> NodeId \<Rightarrow> nat option" where
  "table_least t nid = map_option ms_least (measure_of t nid)"

definition table_depth :: "ShapeTable \<Rightarrow> NodeId \<Rightarrow> nat option" where
  "table_depth t nid = map_option ms_depth (measure_of t nid)"

definition table_named :: "ShapeTable \<Rightarrow> bytes \<Rightarrow> NodeId option" where
  "table_named t name = st_by_name t name"

definition table_held :: "ShapeTable \<Rightarrow> NodeId \<Rightarrow> (ShapeFault, Measure) result" where
  "table_held t nid = ok_or (Unresolved nid) (measure_of t nid)"

fun distinct_names :: "bytes list \<Rightarrow> bytes list \<Rightarrow> (ShapeFault, unit) result" where
  "distinct_names seen [] = Ok ()"
| "distinct_names seen (name # names) =
    (if name \<in> set seen then Err (AmbiguousName name) else distinct_names (name # seen) names)"

fun held_all :: "ShapeTable \<Rightarrow> NodeId list \<Rightarrow> (ShapeFault, Measure list) result" where
  "held_all t [] = Ok []"
| "held_all t (nid # nids) =
    and_then (table_held t nid) (\<lambda>m. map_res (Cons m) (held_all t nids))"

text \<open>The variants of an enum: the discriminants seen, the deepest, the tallest, the positions, the
  lightest and the widest so far.\<close>

fun measure_variants ::
  "ShapeTable \<Rightarrow> u8 list \<Rightarrow> nat \<Rightarrow> nat \<Rightarrow> nat \<Rightarrow> nat option \<Rightarrow> nat \<Rightarrow> (bytes \<times> u8 \<times> NodeId) list
    \<Rightarrow> (ShapeFault, Measure) result" where
  "measure_variants t selected deepest tallest positions lightest widest [] =
    Ok \<lparr> ms_depth = deepest, ms_height = tallest + 1, ms_positions = positions,
         ms_least = usize_add (case lightest of None \<Rightarrow> 0 | Some l \<Rightarrow> l) 1, ms_most = usize_add widest 1 \<rparr>"
| "measure_variants t selected deepest tallest positions lightest widest ((name, disc, c) # vs) =
    (if disc \<in> set selected then Err (AmbiguousDiscriminant disc)
     else and_then (table_held t c) (\<lambda>content.
       measure_variants t (disc # selected) (max deepest (ms_depth content)) (max tallest (ms_height content))
         (usize_add positions (ms_positions content))
         (Some (case lightest of None \<Rightarrow> ms_least content | Some seen \<Rightarrow> min seen (ms_least content)))
         (max widest (ms_most content)) vs))"

definition table_measure :: "ShapeTable \<Rightarrow> TypeShape \<Rightarrow> (ShapeFault, Measure) result" where
  "table_measure t node = (case node of
     TBool \<Rightarrow> Ok (measure_leaf 1) | TU8 \<Rightarrow> Ok (measure_leaf 1) | TI8 \<Rightarrow> Ok (measure_leaf 1)
   | TU16 \<Rightarrow> Ok (measure_leaf 2) | TI16 \<Rightarrow> Ok (measure_leaf 2)
   | TU32 \<Rightarrow> Ok (measure_leaf 4) | TI32 \<Rightarrow> Ok (measure_leaf 4)
   | TU64 \<Rightarrow> Ok (measure_leaf 8) | TI64 \<Rightarrow> Ok (measure_leaf 8)
   | TU128 \<Rightarrow> Ok (measure_leaf 16) | TI128 \<Rightarrow> Ok (measure_leaf 16)
   | TText cap \<Rightarrow> Ok \<lparr> ms_depth = 0, ms_height = 1, ms_positions = 1, ms_least = 1,
                        ms_most = usize_add (encoded_len (unat cap)) (unat cap) \<rparr>
   | TByteArray width \<Rightarrow> Ok (measure_leaf (unat width))
   | TSeq cap element \<Rightarrow> and_then (table_held t element) (measure_run cap)
   | TSet cap element \<Rightarrow> and_then (table_held t element) (measure_run cap)
   | TMap cap key val \<Rightarrow> and_then (table_held t key) (\<lambda>k. and_then (table_held t val) (\<lambda>v.
       measure_run cap \<lparr> ms_depth = max (ms_depth k) (ms_depth v), ms_height = max (ms_height k) (ms_height v),
                         ms_positions = usize_add (ms_positions k) (ms_positions v),
                         ms_least = usize_add (ms_least k) (ms_least v),
                         ms_most = usize_add (ms_most k) (ms_most v) \<rparr>))
   | TOption held \<Rightarrow> map_res (\<lambda>held. \<lparr> ms_depth = ms_depth held + 1, ms_height = ms_height held + 1,
                         ms_positions = usize_add (ms_positions held) 1, ms_least = 1,
                         ms_most = usize_add (ms_most held) 1 \<rparr>) (table_held t held)
   | TTuple elements \<Rightarrow> map_res measure_under (held_all t elements)
   | TStruct members \<Rightarrow> and_then (distinct_names [] (map fst members)) (\<lambda>_.
       map_res measure_under (held_all t (map snd members)))
   | TEnum variants \<Rightarrow> and_then (distinct_names [] (map fst variants)) (\<lambda>_.
       measure_variants t [] 0 0 1 None 0 variants)
   | TNamed name shape \<Rightarrow>
       (if table_named t name \<noteq> None then Err (NameTaken name)
        else map_res (\<lambda>held. held\<lparr> ms_height := ms_height held + 1,
                                 ms_positions := usize_add (ms_positions held) 1 \<rparr>) (table_held t shape)))"

definition push :: "TypeShape \<Rightarrow> (ShapeTable, ShapeFault, NodeId) op" where
  "push node t =
    (case st_by_node t node of
       Some nid \<Rightarrow> (Ok nid, t)
     | None \<Rightarrow> case table_measure t node of
         Err f \<Rightarrow> (Err f, t)
       | Ok m \<Rightarrow>
           if ms_depth m > DEFAULT_MAX_DEPTH then (Err TooDeep, t)
           else if ms_height m > MAX_SHAPE_HEIGHT then (Err TooTall, t)
           else let positions = usize_add (st_positions t) (ms_positions m) in
             if positions > MAX_SHAPE_POSITIONS then (Err (TooBroad positions), t)
             else let nid = node_at (length (st_nodes t)) in
               (Ok nid, t\<lparr> st_by_name := (case node of TNamed name _ \<Rightarrow> (st_by_name t)(name \<mapsto> nid) | _ \<Rightarrow> st_by_name t),
                          st_by_node := (st_by_node t)(node \<mapsto> nid),
                          st_nodes := st_nodes t @ [node],
                          st_measures := st_measures t @ [m],
                          st_positions := positions \<rparr>))"

subsection \<open>Lowering a tree\<close>

type_synonym 'a declaring = "(ShapeTable, ShapeFault fault, 'a) op"

definition wide_op :: "nat \<Rightarrow> u32 declaring" where
  "wide_op width = (if width < 2 ^ 32 then op_ok (word_of_nat width) else op_err Panic)"

definition named_op :: "bytes \<Rightarrow> bytes declaring" where
  "named_op name = (case name_new name of Ok nm \<Rightarrow> op_ok nm | Err source \<Rightarrow> op_err (Fault (Malformed name source)))"

definition declare_field :: "bytes \<times> NodeId declaring \<Rightarrow> (bytes \<times> NodeId) declaring" where
  "declare_field f = op_then (named_op (fst f)) (\<lambda>name. op_then (snd f) (\<lambda>shape. op_ok (name, shape)))"

definition declare_variant :: "bytes \<times> u8 \<times> NodeId declaring \<Rightarrow> (bytes \<times> u8 \<times> NodeId) declaring" where
  "declare_variant v =
    op_then (named_op (fst v)) (\<lambda>name. op_then (snd (snd v)) (\<lambda>content. op_ok (name, fst (snd v), content)))"

definition declare_named :: "bytes \<Rightarrow> NodeId declaring \<Rightarrow> NodeId declaring" where
  "declare_named name shape_op = op_then (named_op name) (\<lambda>declared. op_then shape_op (\<lambda>shape t.
     case table_named t name of
       Some nid \<Rightarrow>
         (case table_get t nid of
            None \<Rightarrow> (Err Panic, t)
          | Some node \<Rightarrow>
              if node = TNamed declared shape then (Ok nid, t) else (Err (Fault (NameTaken name)), t))
     | None \<Rightarrow> op_fault (push (TNamed declared shape)) t))"

primrec declare_node :: "ShapeNode \<Rightarrow> NodeId declaring" where
  "declare_node NBool = op_fault (push TBool)"
| "declare_node NU8 = op_fault (push TU8)"
| "declare_node NU16 = op_fault (push TU16)"
| "declare_node NU32 = op_fault (push TU32)"
| "declare_node NU64 = op_fault (push TU64)"
| "declare_node NU128 = op_fault (push TU128)"
| "declare_node NI8 = op_fault (push TI8)"
| "declare_node NI16 = op_fault (push TI16)"
| "declare_node NI32 = op_fault (push TI32)"
| "declare_node NI64 = op_fault (push TI64)"
| "declare_node NI128 = op_fault (push TI128)"
| "declare_node (NText cap) = op_then (wide_op cap) (\<lambda>cap. op_fault (push (TText cap)))"
| "declare_node (NByteArray width) = op_then (wide_op width) (\<lambda>width. op_fault (push (TByteArray width)))"
| "declare_node (NSeq cap element) = op_then (wide_op cap) (\<lambda>cap.
    op_then (declare_node element) (\<lambda>element. op_fault (push (TSeq cap element))))"
| "declare_node (NSet cap element) = op_then (wide_op cap) (\<lambda>cap.
    op_then (declare_node element) (\<lambda>element. op_fault (push (TSet cap element))))"
| "declare_node (NMap cap key val) = op_then (wide_op cap) (\<lambda>cap.
    op_then (declare_node key) (\<lambda>key. op_then (declare_node val) (\<lambda>val. op_fault (push (TMap cap key val)))))"
| "declare_node (NOption held) = op_then (declare_node held) (\<lambda>held. op_fault (push (TOption held)))"
| "declare_node (NTuple elements) =
    op_then (op_list (map declare_node elements)) (\<lambda>nids. op_fault (push (TTuple nids)))"
| "declare_node (NStruct members) =
    op_then (op_list (map declare_field (map (map_prod id declare_node) members)))
      (\<lambda>declared. op_fault (push (TStruct declared)))"
| "declare_node (NEnum variants) =
    op_then (op_list (map declare_variant (map (map_prod id (map_prod id declare_node)) variants)))
      (\<lambda>declared. op_fault (push (TEnum declared)))"
| "declare_node (NNamed name shape) = declare_named name (declare_node shape)"


subsection \<open>Comparing a node with a tree\<close>

definition and_opt :: "bool option \<Rightarrow> bool option \<Rightarrow> bool option" where
  "and_opt a b = (case a of None \<Rightarrow> None | Some False \<Rightarrow> Some False | Some True \<Rightarrow> b)"

primrec all_opt :: "bool option list \<Rightarrow> bool option" where
  "all_opt [] = Some True"
| "all_opt (b # bs) = and_opt b (all_opt bs)"

primrec table_matches :: "ShapeTable \<Rightarrow> ShapeNode \<Rightarrow> NodeId \<Rightarrow> bool option" where
  "table_matches t NBool = (\<lambda>nid. map_option (\<lambda>s. s = TBool) (table_get t nid))"
| "table_matches t NU8 = (\<lambda>nid. map_option (\<lambda>s. s = TU8) (table_get t nid))"
| "table_matches t NU16 = (\<lambda>nid. map_option (\<lambda>s. s = TU16) (table_get t nid))"
| "table_matches t NU32 = (\<lambda>nid. map_option (\<lambda>s. s = TU32) (table_get t nid))"
| "table_matches t NU64 = (\<lambda>nid. map_option (\<lambda>s. s = TU64) (table_get t nid))"
| "table_matches t NU128 = (\<lambda>nid. map_option (\<lambda>s. s = TU128) (table_get t nid))"
| "table_matches t NI8 = (\<lambda>nid. map_option (\<lambda>s. s = TI8) (table_get t nid))"
| "table_matches t NI16 = (\<lambda>nid. map_option (\<lambda>s. s = TI16) (table_get t nid))"
| "table_matches t NI32 = (\<lambda>nid. map_option (\<lambda>s. s = TI32) (table_get t nid))"
| "table_matches t NI64 = (\<lambda>nid. map_option (\<lambda>s. s = TI64) (table_get t nid))"
| "table_matches t NI128 = (\<lambda>nid. map_option (\<lambda>s. s = TI128) (table_get t nid))"
| "table_matches t (NText stated) = (\<lambda>nid. case table_get t nid of None \<Rightarrow> None
     | Some (TText cap) \<Rightarrow> Some (unat cap = stated) | Some _ \<Rightarrow> Some False)"
| "table_matches t (NByteArray stated) = (\<lambda>nid. case table_get t nid of None \<Rightarrow> None
     | Some (TByteArray width) \<Rightarrow> Some (unat width = stated) | Some _ \<Rightarrow> Some False)"
| "table_matches t (NSeq stated held) = (\<lambda>nid. case table_get t nid of None \<Rightarrow> None
     | Some (TSeq cap element) \<Rightarrow> and_opt (Some (unat cap = stated)) (table_matches t held element)
     | Some _ \<Rightarrow> Some False)"
| "table_matches t (NSet stated held) = (\<lambda>nid. case table_get t nid of None \<Rightarrow> None
     | Some (TSet cap element) \<Rightarrow> and_opt (Some (unat cap = stated)) (table_matches t held element)
     | Some _ \<Rightarrow> Some False)"
| "table_matches t (NMap stated held_key held_val) = (\<lambda>nid. case table_get t nid of None \<Rightarrow> None
     | Some (TMap cap key val) \<Rightarrow> and_opt (Some (unat cap = stated))
         (and_opt (table_matches t held_key key) (table_matches t held_val val))
     | Some _ \<Rightarrow> Some False)"
| "table_matches t (NOption stated) = (\<lambda>nid. case table_get t nid of None \<Rightarrow> None
     | Some (TOption held) \<Rightarrow> table_matches t stated held | Some _ \<Rightarrow> Some False)"
| "table_matches t (NTuple stated) = (\<lambda>nid. case table_get t nid of None \<Rightarrow> None
     | Some (TTuple elements) \<Rightarrow> and_opt (Some (length elements = length stated))
         (all_opt (map2 (\<lambda>element m. m element) elements (map (table_matches t) stated)))
     | Some _ \<Rightarrow> Some False)"
| "table_matches t (NStruct stated) = (\<lambda>nid. case table_get t nid of None \<Rightarrow> None
     | Some (TStruct members) \<Rightarrow> and_opt (Some (length members = length stated))
         (all_opt (map2 (\<lambda>member held. and_opt (Some (fst member = fst held)) (snd held (snd member)))
            members (map (map_prod id (table_matches t)) stated)))
     | Some _ \<Rightarrow> Some False)"
| "table_matches t (NEnum stated) = (\<lambda>nid. case table_get t nid of None \<Rightarrow> None
     | Some (TEnum variants) \<Rightarrow> and_opt (Some (length variants = length stated))
         (all_opt (map2 (\<lambda>variant held. and_opt (Some (fst variant = fst held))
              (and_opt (Some (fst (snd variant) = fst (snd held))) (snd (snd held) (snd (snd variant)))))
            variants (map (map_prod id (map_prod id (table_matches t))) stated)))
     | Some _ \<Rightarrow> Some False)"
| "table_matches t (NNamed stated held) = (\<lambda>nid. case table_get t nid of None \<Rightarrow> None
     | Some (TNamed name shape) \<Rightarrow> and_opt (Some (name = stated)) (table_matches t held shape)
     | Some _ \<Rightarrow> Some False)"

subsection \<open>Reading a value without its type\<close>

text \<open>A read that may also panic: \<open>None\<close>.\<close>

type_synonym 'a reading = "Decoder \<Rightarrow> ((DecodeError, 'a) result \<times> Decoder) option"

definition rd_lift :: "'a dec_op \<Rightarrow> 'a reading" where
  "rd_lift m d = Some (m d)"

definition rd_then :: "'a reading \<Rightarrow> ('a \<Rightarrow> 'b reading) \<Rightarrow> 'b reading" where
  "rd_then m f d = (case m d of None \<Rightarrow> None
     | Some (Ok a, d') \<Rightarrow> f a d' | Some (Err e, d') \<Rightarrow> Some (Err e, d'))"

definition rd_map :: "('a \<Rightarrow> 'b) \<Rightarrow> 'a reading \<Rightarrow> 'b reading" where
  "rd_map f m = rd_then m (\<lambda>a. rd_lift (op_ok (f a)))"

primrec rd_list :: "'a reading list \<Rightarrow> 'a list reading" where
  "rd_list [] = rd_lift (op_ok [])"
| "rd_list (m # ms) = rd_then m (\<lambda>a. rd_map (Cons a) (rd_list ms))"

primrec rd_times :: "nat \<Rightarrow> 'a reading \<Rightarrow> 'a list reading" where
  "rd_times 0 m = rd_lift (op_ok [])"
| "rd_times (Suc n) m = rd_then m (\<lambda>a. rd_map (Cons a) (rd_times n m))"

text \<open>A value with the bytes it was read from.\<close>

definition rd_span :: "'a reading \<Rightarrow> ('a \<times> bytes) reading" where
  "rd_span m d = rd_then m (\<lambda>a d'. Some (Ok (a, d_consumed (d_cursor d) d'), d')) d"

definition refuse_duplicates :: "bytes list \<Rightarrow> (DecodeError, unit) result" where
  "refuse_duplicates spans =
    (let spans = sort spans in
     if \<not> successively (\<noteq>) spans then Err UnsortedKeys else Ok ())"

definition run_length :: "nat \<Rightarrow> u32 \<Rightarrow> nat dec_op" where
  "run_length least cap = read_len_check least (unat cap)"

definition rd_unique :: "bytes list \<Rightarrow> 'a \<Rightarrow> 'a reading" where
  "rd_unique spans a = rd_lift (case refuse_duplicates spans of Ok _ \<Rightarrow> op_ok a | Err e \<Rightarrow> op_err e)"

definition read_run :: "ShapeValue reading \<Rightarrow> nat option \<Rightarrow> u32 \<Rightarrow> bool \<Rightarrow> ShapeValue list reading" where
  "read_run element least cap dist = (case least of
     None \<Rightarrow> (\<lambda>d. None)
   | Some l \<Rightarrow> rd_then (rd_lift (run_length l cap)) (\<lambda>len. rd_then (rd_times len (rd_span element)) (\<lambda>read.
       rd_unique (if dist then map snd read else []) (map fst read))))"

definition read_map :: "ShapeValue reading \<Rightarrow> ShapeValue reading \<Rightarrow> nat option \<Rightarrow> nat option \<Rightarrow> u32 \<Rightarrow> ShapeValue reading" where
  "read_map key val least_key least_val cap = (case (least_key, least_val) of
     (Some k, Some v) \<Rightarrow>
       rd_then (rd_lift (run_length (usize_add k v) cap)) (\<lambda>len.
         rd_then (rd_times len (rd_then (rd_span key) (\<lambda>(x, span). rd_map (\<lambda>y. ((x, y), span)) val))) (\<lambda>read.
           rd_unique (map snd read) (VMap (map fst read))))
   | _ \<Rightarrow> (\<lambda>d. None))"

text \<open>The recursion follows references downward, so as much fuel as the table has nodes is enough.\<close>

primrec read_from :: "nat \<Rightarrow> ShapeTable \<Rightarrow> NodeId \<Rightarrow> ShapeValue reading" where
  "read_from 0 t nid = (\<lambda>d. None)"
| "read_from (Suc fuel) t nid = (case table_get t nid of None \<Rightarrow> (\<lambda>d. None) | Some node \<Rightarrow>
    (case node of
       TBool \<Rightarrow> rd_lift (op_map VBool bool_decode)
     | TU8 \<Rightarrow> rd_lift (op_map VU8 word_decode)
     | TU16 \<Rightarrow> rd_lift (op_map VU16 word_decode)
     | TU32 \<Rightarrow> rd_lift (op_map VU32 word_decode)
     | TU64 \<Rightarrow> rd_lift (op_map VU64 word_decode)
     | TU128 \<Rightarrow> rd_lift (op_map VU128 word_decode)
     | TI8 \<Rightarrow> rd_lift (op_map VI8 word_decode)
     | TI16 \<Rightarrow> rd_lift (op_map VI16 word_decode)
     | TI32 \<Rightarrow> rd_lift (op_map VI32 word_decode)
     | TI64 \<Rightarrow> rd_lift (op_map VI64 word_decode)
     | TI128 \<Rightarrow> rd_lift (op_map VI128 word_decode)
     | TText cap \<Rightarrow> rd_lift (op_map VText (decode_bounded_string (unat cap)))
     | TByteArray width \<Rightarrow> rd_lift (op_map VByteArray (read_slice (unat width)))
     | TSeq cap element \<Rightarrow> rd_map VSeq (read_run (read_from fuel t element) (table_least t element) cap False)
     | TSet cap element \<Rightarrow> rd_map VSet (read_run (read_from fuel t element) (table_least t element) cap True)
     | TMap cap key val \<Rightarrow>
         read_map (read_from fuel t key) (read_from fuel t val) (table_least t key) (table_least t val) cap
     | TOption held \<Rightarrow> rd_then (rd_lift read_u8) (\<lambda>tag.
         if tag = 0 then rd_lift (op_ok (VOption None))
         else if tag = 1 then rd_map (\<lambda>v. VOption (Some v)) (read_from fuel t held)
         else rd_lift (op_err (InvalidDiscriminant tag)))
     | TTuple elements \<Rightarrow> rd_map VTuple (rd_list (map (read_from fuel t) elements))
     | TStruct members \<Rightarrow> rd_map (\<lambda>vs. VStruct (zip (map fst members) vs))
         (rd_list (map (\<lambda>m. read_from fuel t (snd m)) members))
     | TEnum variants \<Rightarrow> rd_then (rd_lift read_u8) (\<lambda>tag.
         case variant_at tag variants of
           None \<Rightarrow> rd_lift (op_err (InvalidDiscriminant tag))
         | Some (name, content) \<Rightarrow> rd_map (VVariant name tag) (read_from fuel t content))
     | TNamed name shape \<Rightarrow> read_from fuel t shape))"

definition table_read :: "ShapeTable \<Rightarrow> NodeId \<Rightarrow> bytes \<Rightarrow> (DecodeError, ShapeValue) result option" where
  "table_read t root bs =
    (case read_from (length (st_nodes t)) t root (decoder_new bs DEFAULT_MAX_DEPTH) of
       None \<Rightarrow> None
     | Some (Err e, _) \<Rightarrow> Some (Err e)
     | Some (Ok v, d) \<Rightarrow> Some (map_res (\<lambda>_. v) (dec_finish d)))"

subsection \<open>The table on the wire\<close>

definition triple_encode :: "('a \<Rightarrow> 's enc_op) \<Rightarrow> ('b \<Rightarrow> 's enc_op) \<Rightarrow> ('c \<Rightarrow> 's enc_op) \<Rightarrow> 'a \<times> 'b \<times> 'c \<Rightarrow> 's enc_op" where
  "triple_encode enc_a enc_b enc_c x = op_then (enc_nested enc_a (fst x)) (\<lambda>_.
     op_then (enc_nested enc_b (fst (snd x))) (\<lambda>_. enc_nested enc_c (snd (snd x))))"

definition triple_decode :: "'a dec_op \<Rightarrow> 'b dec_op \<Rightarrow> 'c dec_op \<Rightarrow> ('a \<times> 'b \<times> 'c) dec_op" where
  "triple_decode dec_a dec_b dec_c = op_then (dec_descend dec_a) (\<lambda>a.
     op_then (dec_descend dec_b) (\<lambda>b. op_map (\<lambda>c. (a, b, c)) (dec_descend dec_c)))"

definition field_encode :: "'s Sink \<Rightarrow> bytes \<times> NodeId \<Rightarrow> 's enc_op" where
  "field_encode S = pair_encode (name_encode S) (word_encode S)"

definition field_decode :: "(bytes \<times> NodeId) dec_op" where
  "field_decode = pair_decode name_decode word_decode"

definition variant_encode :: "'s Sink \<Rightarrow> bytes \<times> u8 \<times> NodeId \<Rightarrow> 's enc_op" where
  "variant_encode S = triple_encode (name_encode S) (word_encode S) (word_encode S)"

definition variant_decode :: "(bytes \<times> u8 \<times> NodeId) dec_op" where
  "variant_decode = triple_decode name_decode word_decode word_decode"

definition typeshape_encode :: "'s Sink \<Rightarrow> TypeShape \<Rightarrow> 's enc_op" where
  "typeshape_encode S ts = (case ts of
     TBool \<Rightarrow> write_u8 S 0 | TU8 \<Rightarrow> write_u8 S 1 | TU16 \<Rightarrow> write_u8 S 2 | TU32 \<Rightarrow> write_u8 S 3
   | TU64 \<Rightarrow> write_u8 S 4 | TU128 \<Rightarrow> write_u8 S 5 | TI8 \<Rightarrow> write_u8 S 6 | TI16 \<Rightarrow> write_u8 S 7
   | TI32 \<Rightarrow> write_u8 S 8 | TI64 \<Rightarrow> write_u8 S 9 | TI128 \<Rightarrow> write_u8 S 10
   | TText cap \<Rightarrow> op_then (write_u8 S 11) (\<lambda>_. enc_nested (word_encode S) cap)
   | TByteArray width \<Rightarrow> op_then (write_u8 S 12) (\<lambda>_. enc_nested (word_encode S) width)
   | TSeq cap element \<Rightarrow> op_then (write_u8 S 13) (\<lambda>_. op_then (enc_nested (word_encode S) cap) (\<lambda>_.
       enc_nested (word_encode S) element))
   | TSet cap element \<Rightarrow> op_then (write_u8 S 14) (\<lambda>_. op_then (enc_nested (word_encode S) cap) (\<lambda>_.
       enc_nested (word_encode S) element))
   | TMap cap key val \<Rightarrow> op_then (write_u8 S 15) (\<lambda>_. op_then (enc_nested (word_encode S) cap) (\<lambda>_.
       op_then (enc_nested (word_encode S) key) (\<lambda>_. enc_nested (word_encode S) val)))
   | TOption held \<Rightarrow> op_then (write_u8 S 16) (\<lambda>_. enc_nested (word_encode S) held)
   | TTuple elements \<Rightarrow> op_then (write_u8 S 17) (\<lambda>_. enc_nested (vec_encode S (word_encode S)) elements)
   | TStruct members \<Rightarrow> op_then (write_u8 S 18) (\<lambda>_. enc_nested (vec_encode S (field_encode S)) members)
   | TEnum variants \<Rightarrow> op_then (write_u8 S 19) (\<lambda>_. enc_nested (vec_encode S (variant_encode S)) variants)
   | TNamed name shape \<Rightarrow> op_then (write_u8 S 20) (\<lambda>_. op_then (enc_nested (name_encode S) name) (\<lambda>_.
       enc_nested (word_encode S) shape)))"

definition typeshape_branches :: "TypeShape dec_op list" where
  "typeshape_branches =
    [op_ok TBool, op_ok TU8, op_ok TU16, op_ok TU32, op_ok TU64, op_ok TU128,
     op_ok TI8, op_ok TI16, op_ok TI32, op_ok TI64, op_ok TI128,
     op_map TText (dec_descend word_decode),
     op_map TByteArray (dec_descend word_decode),
     op_map (\<lambda>(cap, element). TSeq cap element) (pair_decode word_decode word_decode),
     op_map (\<lambda>(cap, element). TSet cap element) (pair_decode word_decode word_decode),
     op_map (\<lambda>(cap, key, val). TMap cap key val) (triple_decode word_decode word_decode word_decode),
     op_map TOption (dec_descend word_decode),
     op_map TTuple (dec_descend (vec_decode 4 word_decode)),
     op_map TStruct (dec_descend (vec_decode 5 field_decode)),
     op_map TEnum (dec_descend (vec_decode 6 variant_decode)),
     op_map (\<lambda>(name, shape). TNamed name shape) (pair_decode name_decode word_decode)]"

definition typeshape_decode :: "TypeShape dec_op" where
  "typeshape_decode = op_then read_u8 (\<lambda>tag.
    if unat tag < length typeshape_branches then typeshape_branches ! unat tag
    else op_err (InvalidDiscriminant tag))"

definition table_encode :: "'s Sink \<Rightarrow> ShapeTable \<Rightarrow> 's enc_op" where
  "table_encode S t = vec_encode S (typeshape_encode S) (st_nodes t)"

fun build_table :: "nat \<Rightarrow> ShapeTable \<Rightarrow> TypeShape list \<Rightarrow> (DecodeError, ShapeTable) result" where
  "build_table index t [] = Ok t"
| "build_table index t (node # nodes) =
    (case push node t of
       (Err f, _) \<Rightarrow> Err (FailedValidation (fault_reason f))
     | (Ok nid, t') \<Rightarrow>
         if nid \<noteq> node_at index then Err (FailedValidation (fault_reason (Duplicate (node_at index))))
         else build_table (index + 1) t' nodes)"

definition table_decode :: "ShapeTable dec_op" where
  "table_decode = op_then (dec_descend (vec_decode 1 typeshape_decode)) (\<lambda>nodes.
    case build_table 0 table_new nodes of Ok t \<Rightarrow> op_ok t | Err e \<Rightarrow> op_err e)"

section \<open>The table invariant\<close>

fun refs :: "TypeShape \<Rightarrow> NodeId list" where
  "refs (TSeq _ element) = [element]"
| "refs (TSet _ element) = [element]"
| "refs (TMap _ key val) = [key, val]"
| "refs (TOption held) = [held]"
| "refs (TTuple elements) = elements"
| "refs (TStruct members) = map snd members"
| "refs (TEnum variants) = map (\<lambda>v. snd (snd v)) variants"
| "refs (TNamed _ shape) = [shape]"
| "refs _ = []"

text \<open>\<open>node\<close> measures \<open>m\<close> off the children \<open>t\<close> holds, its own name aside.\<close>

definition measured :: "ShapeTable \<Rightarrow> TypeShape \<Rightarrow> Measure \<Rightarrow> bool" where
  "measured t node m = (table_measure (t\<lparr> st_by_name := Map.empty \<rparr>) node = Ok m)"

definition tb_extends :: "ShapeTable \<Rightarrow> ShapeTable \<Rightarrow> bool" where
  "tb_extends t t' = ((\<exists>ns. st_nodes t' = st_nodes t @ ns) \<and> (\<exists>ms. st_measures t' = st_measures t @ ms))"

definition table_ok :: "ShapeTable \<Rightarrow> bool" where
  "table_ok t \<longleftrightarrow>
    length (st_measures t) = length (st_nodes t) \<and>
    (\<forall>i < length (st_nodes t). (\<forall>r \<in> set (refs (st_nodes t ! i)). unat r < i) \<and>
       measured t (st_nodes t ! i) (st_measures t ! i) \<and>
       ms_depth (st_measures t ! i) \<le> DEFAULT_MAX_DEPTH \<and> ms_height (st_measures t ! i) \<le> MAX_SHAPE_HEIGHT \<and>
       1 \<le> ms_positions (st_measures t ! i)) \<and>
    st_positions t = sum_list (map ms_positions (st_measures t)) \<and> st_positions t \<le> MAX_SHAPE_POSITIONS \<and>
    (\<forall>node nid. st_by_node t node = Some nid \<longleftrightarrow> table_get t nid = Some node) \<and>
    (\<forall>name nid. st_by_name t name = Some nid \<longleftrightarrow> (\<exists>shape. table_get t nid = Some (TNamed name shape)))"

lemma usize_add_pos [simp]: "0 < usize_add a b \<longleftrightarrow> 0 < a + b"
  by (auto simp: usize_add_def USIZE_MAX_def)

lemma measure_of_extends: "measure_of t nid = Some m \<Longrightarrow> tb_extends t t' \<Longrightarrow> measure_of t' nid = Some m"
  by (auto simp: measure_of_def tb_extends_def nth_append split: if_splits)

lemma table_get_extends: "table_get t nid = Some n \<Longrightarrow> tb_extends t t' \<Longrightarrow> table_get t' nid = Some n"
  by (auto simp: table_get_def tb_extends_def nth_append split: if_splits)

lemma tb_extends_refl [simp]: "tb_extends t t"
  by (simp add: tb_extends_def)

lemma tb_extends_trans: "tb_extends t u \<Longrightarrow> tb_extends u v \<Longrightarrow> tb_extends t v"
  by (auto simp: tb_extends_def)

lemma table_held_Ok [simp]: "table_held t nid = Ok m \<longleftrightarrow> measure_of t nid = Some m"
  by (simp add: table_held_def)

lemma measure_of_by_name [simp]: "measure_of (t\<lparr> st_by_name := b \<rparr>) = measure_of t"
  by (simp add: fun_eq_iff measure_of_def)

lemma held_all_Ok: "held_all t nids = Ok ms \<longleftrightarrow> list_all2 (\<lambda>nid m. measure_of t nid = Some m) nids ms"
  by (induction nids arbitrary: ms) (auto simp: list_all2_Cons1)

lemma held_all_by_name [simp]: "held_all (t\<lparr> st_by_name := b \<rparr>) nids = held_all t nids"
  by (induction nids) (simp_all add: table_held_def)

lemma measure_variants_by_name [simp]:
  "measure_variants (t\<lparr> st_by_name := b \<rparr>) sel de ta po li wi vs = measure_variants t sel de ta po li wi vs"
  by (induction t sel de ta po li wi vs rule: measure_variants.induct) (simp_all add: table_held_def and_then_def split: result.splits)

lemma measure_variants_held:
  "measure_variants t sel de ta po li wi vs = Ok m \<Longrightarrow> v \<in> set vs \<Longrightarrow> \<exists>c. measure_of t (snd (snd v)) = Some c"
  by (induction t sel de ta po li wi vs rule: measure_variants.induct) (auto split: if_splits)

lemma measure_variants_extends:
  "measure_variants t sel de ta po li wi vs = Ok m \<Longrightarrow> tb_extends t t' \<Longrightarrow> measure_variants t' sel de ta po li wi vs = Ok m"
  by (induction t sel de ta po li wi vs rule: measure_variants.induct)
     (auto split: if_splits dest: measure_of_extends)

lemma measured_extends: "measured t node m \<Longrightarrow> tb_extends t t' \<Longrightarrow> measured t' node m"
  unfolding measured_def table_measure_def
  by (cases node)
     (auto simp: held_all_Ok table_named_def dest: measure_of_extends measure_variants_extends
        intro: list_all2_mono)

lemma held_all_mem: "held_all t nids = Ok ms \<Longrightarrow> nid \<in> set nids \<Longrightarrow> \<exists>c. measure_of t nid = Some c"
  by (auto simp: held_all_Ok in_set_conv_nth dest: list_all2_nthD)

lemma refs_held:
  assumes "table_measure t node = Ok m" "r \<in> set (refs node)"
  shows "\<exists>c. measure_of t r = Some c"
proof (cases node)
  case (TStruct members)
  with assms obtain ms where "held_all t (map snd members) = Ok ms" "r \<in> set (map snd members)"
    by (auto simp: table_measure_def)
  then show ?thesis by (rule held_all_mem)
qed (use assms in \<open>auto simp: table_measure_def split: if_splits dest: measure_variants_held held_all_mem\<close>)

lemma measured_of_measure: "table_measure t node = Ok m \<Longrightarrow> measured t node m"
  unfolding measured_def table_measure_def by (cases node) (auto simp: table_named_def table_held_def split: if_splits)

lemma under_positions: "0 < ms_positions (measure_under children)"
proof -
  have "0 < fst (snd (snd acc)) \<Longrightarrow> 0 < fst (snd (snd (foldl under_step acc children)))" for acc
  proof (induction children arbitrary: acc)
    case (Cons c cs)
    have "0 < fst (snd (snd (under_step acc c)))" using Cons.prems by (cases acc) (simp add: under_step_def)
    with Cons.IH show ?case by simp
  qed simp
  from this [of "(None, 0, 1, 0, 0)"] show ?thesis
    by (cases "foldl under_step (None, 0, 1, 0, 0) children") (simp add: measure_under_def)
qed

lemma variants_positions:
  "measure_variants t sel de ta po li wi vs = Ok m \<Longrightarrow> 0 < po \<Longrightarrow> 0 < ms_positions m"
  by (induction t sel de ta po li wi vs rule: measure_variants.induct) (auto split: if_splits)

lemma measured_positions: "measured t node m \<Longrightarrow> 0 < ms_positions m"
  unfolding measured_def table_measure_def
  by (cases node)
     (auto simp: measure_leaf_def measure_run_def under_positions table_named_def split: if_splits
       dest: variants_positions)

lemma table_ok_new: "table_ok table_new"
  by (simp add: table_ok_def table_new_def table_get_def)

lemma table_ok_length: "table_ok t \<Longrightarrow> length (st_nodes t) \<le> MAX_SHAPE_POSITIONS"
proof -
  assume ok: "table_ok t"
  then have "length (st_measures t) \<le> sum_list (map ms_positions (st_measures t))"
    using sum_list_mono [of "st_measures t" "\<lambda>_. 1" ms_positions]
    by (auto simp: table_ok_def in_set_conv_nth sum_list_triv)
  with ok show ?thesis by (auto simp: table_ok_def)
qed

lemma unat_node_at: "index < 2 ^ 32 \<Longrightarrow> unat (node_at index) = index"
  by (simp add: node_at_def unat_of_nat take_bit_nat_eq_self)

lemma node_at_length:
  assumes "table_ok t" shows "unat (node_at (length (st_nodes t))) = length (st_nodes t)"
  using table_ok_length [OF assms] by (intro unat_node_at) (simp add: MAX_SHAPE_POSITIONS_def)

inductive push_step :: "TypeShape \<Rightarrow> ShapeTable \<Rightarrow> NodeId \<Rightarrow> ShapeTable \<Rightarrow> bool" where
  held: "st_by_node t node = Some nid \<Longrightarrow> push_step node t nid t"
| added: "st_by_node t node = None \<Longrightarrow> table_measure t node = Ok m \<Longrightarrow> ms_depth m \<le> DEFAULT_MAX_DEPTH \<Longrightarrow>
    ms_height m \<le> MAX_SHAPE_HEIGHT \<Longrightarrow> usize_add (st_positions t) (ms_positions m) \<le> MAX_SHAPE_POSITIONS \<Longrightarrow>
    nid = node_at (length (st_nodes t)) \<Longrightarrow>
    push_step node t nid (t\<lparr> st_by_name := (case node of TNamed name _ \<Rightarrow> (st_by_name t)(name \<mapsto> nid) | _ \<Rightarrow> st_by_name t),
        st_by_node := (st_by_node t)(node \<mapsto> nid), st_nodes := st_nodes t @ [node],
        st_measures := st_measures t @ [m], st_positions := usize_add (st_positions t) (ms_positions m) \<rparr>)"

lemma push_Ok: "push node t = (Ok nid, t') \<Longrightarrow> push_step node t nid t'"
  by (auto simp: push_def Let_def not_less split: option.splits result.splits if_splits intro!: push_step.intros)

lemma push_Err: "push node t = (Err f, t') \<Longrightarrow> t' = t"
  by (auto simp: push_def Let_def split: option.splits result.splits if_splits)

lemma push_step_extends: "push_step node t nid t' \<Longrightarrow> tb_extends t t'"
  by (auto simp: tb_extends_def elim: push_step.cases)

lemma push_step_get:
  assumes "push_step node t nid t'" and ok: "table_ok t"
  shows "table_get t' nid = Some node"
  using assms(1)
proof cases
  case held
  then show ?thesis using ok by (simp add: table_ok_def)
next
  case (added m)
  then show ?thesis using node_at_length [OF ok] by (simp add: table_get_def)
qed

lemma measured_added:
  assumes "tb_extends t t'" "table_ok t" "i < length (st_nodes t)"
  shows "measured t' (st_nodes t ! i) (st_measures t ! i)"
  using assms measured_extends by (auto simp: table_ok_def)

lemma table_ok_push:
  assumes ok: "table_ok t" and step: "push_step node t nid t'"
  shows "table_ok t'"
  using step
proof cases
  case held
  then show ?thesis using ok by simp
next
  case (added m)
  let ?n = "length (st_nodes t)"
  have nid: "unat nid = ?n" using node_at_length [OF ok] added by simp
  have absent: "table_get t nid = None" using nid by (simp add: table_get_def)
  have by_node: "st_by_node t n = Some i \<longleftrightarrow> table_get t i = Some n"
    and by_name: "st_by_name t nm = Some i \<longleftrightarrow> (\<exists>shape. table_get t i = Some (TNamed nm shape))" for n nm i
    using ok by (simp_all add: table_ok_def)
  have lens: "length (st_measures t) = ?n" using ok by (simp add: table_ok_def)
  have ext: "tb_extends t t'" by (rule push_step_extends [OF step])
  have m: "measured t' node m" by (rule measured_extends [OF measured_of_measure [OF added(3)] ext])
  have get: "table_get t' i = (if unat i < ?n then table_get t i else if i = nid then Some node else None)" for i
  proof -
    have "i = nid \<longleftrightarrow> unat i = ?n" using nid by (metis word_unat_eq_iff)
    then show ?thesis using added(1) by (auto simp: table_get_def nth_append)
  qed
  have sum: "usize_add (st_positions t) (ms_positions m) = st_positions t + ms_positions m"
    using added(6) by (auto simp: usize_add_def MAX_SHAPE_POSITIONS_def USIZE_MAX_def min_def split: if_splits)
  have node: "st_by_node t' n = Some i \<longleftrightarrow> table_get t' i = Some n" for n i
  proof -
    have "table_get t i = Some n \<Longrightarrow> unat i < ?n" for i n by (auto simp: table_get_def split: if_splits)
    moreover have "table_get t i \<noteq> Some node" for i using added(2) by_node [of node i] by auto
    ultimately show ?thesis using added(1) nid by_node absent unfolding get by auto
  qed
  have name: "st_by_name t' nm = Some i \<longleftrightarrow> (\<exists>shape. table_get t' i = Some (TNamed nm shape))" for nm i
  proof -
    have held: "table_get t i = Some n \<Longrightarrow> unat i < ?n" for i n by (auto simp: table_get_def split: if_splits)
    have fresh: "st_by_name t nm = None" if "node = TNamed nm shape" for nm shape
      using added(3) that by (auto simp: table_measure_def table_named_def split: if_splits)
    then have "table_get t i \<noteq> Some (TNamed nm shape')" if "node = TNamed nm shape" for i nm shape shape'
      using by_name [of nm i] that by fastforce
    then show ?thesis using added(1) nid held fresh by_name absent unfolding get
      by (cases node) auto
  qed
  have entry: "(\<forall>r \<in> set (refs (st_nodes t' ! i)). unat r < i) \<and> measured t' (st_nodes t' ! i) (st_measures t' ! i) \<and>
      ms_depth (st_measures t' ! i) \<le> DEFAULT_MAX_DEPTH \<and> ms_height (st_measures t' ! i) \<le> MAX_SHAPE_HEIGHT \<and>
      1 \<le> ms_positions (st_measures t' ! i)" if "i < Suc ?n" for i
  proof (cases "i = ?n")
    case True
    have "unat r < ?n" if "r \<in> set (refs node)" for r
      using refs_held [OF added(3) that] lens by (auto simp: measure_of_def split: if_splits)
    with True added lens m measured_positions [OF m] show ?thesis by (simp add: nth_append)
  next
    case False
    with that have "i < ?n" by simp
    with measured_added [OF ext ok this] ok added(1) lens show ?thesis by (auto simp: table_ok_def nth_append)
  qed
  show ?thesis
    unfolding table_ok_def using node name entry ok added sum lens by (auto simp: table_ok_def)
qed


section \<open>Declaring a tree\<close>

lemma and_opt_True [simp]: "and_opt a b = Some True \<longleftrightarrow> a = Some True \<and> b = Some True"
  by (auto simp: and_opt_def split: option.splits bool.splits)

lemma all_opt_True: "all_opt bs = Some True \<longleftrightarrow> (\<forall>b \<in> set bs. b = Some True)"
  by (induction bs) auto

lemma all_opt_map2_True:
  "length xs = length ys \<Longrightarrow> all_opt (map2 f xs ys) = Some True \<longleftrightarrow> list_all2 (\<lambda>x y. f x y = Some True) xs ys"
  by (induction xs ys rule: list_induct2) auto

lemma matches_iff:
  "table_matches t NBool nid = Some True \<longleftrightarrow> table_get t nid = Some TBool"
  "table_matches t NU8 nid = Some True \<longleftrightarrow> table_get t nid = Some TU8"
  "table_matches t NU16 nid = Some True \<longleftrightarrow> table_get t nid = Some TU16"
  "table_matches t NU32 nid = Some True \<longleftrightarrow> table_get t nid = Some TU32"
  "table_matches t NU64 nid = Some True \<longleftrightarrow> table_get t nid = Some TU64"
  "table_matches t NU128 nid = Some True \<longleftrightarrow> table_get t nid = Some TU128"
  "table_matches t NI8 nid = Some True \<longleftrightarrow> table_get t nid = Some TI8"
  "table_matches t NI16 nid = Some True \<longleftrightarrow> table_get t nid = Some TI16"
  "table_matches t NI32 nid = Some True \<longleftrightarrow> table_get t nid = Some TI32"
  "table_matches t NI64 nid = Some True \<longleftrightarrow> table_get t nid = Some TI64"
  "table_matches t NI128 nid = Some True \<longleftrightarrow> table_get t nid = Some TI128"
  "table_matches t (NText c) nid = Some True \<longleftrightarrow> (\<exists>cap. table_get t nid = Some (TText cap) \<and> unat cap = c)"
  "table_matches t (NByteArray c) nid = Some True \<longleftrightarrow> (\<exists>cap. table_get t nid = Some (TByteArray cap) \<and> unat cap = c)"
  "table_matches t (NSeq c n) nid = Some True \<longleftrightarrow>
    (\<exists>cap e. table_get t nid = Some (TSeq cap e) \<and> unat cap = c \<and> table_matches t n e = Some True)"
  "table_matches t (NSet c n) nid = Some True \<longleftrightarrow>
    (\<exists>cap e. table_get t nid = Some (TSet cap e) \<and> unat cap = c \<and> table_matches t n e = Some True)"
  "table_matches t (NMap c n n') nid = Some True \<longleftrightarrow>
    (\<exists>cap k v. table_get t nid = Some (TMap cap k v) \<and> unat cap = c \<and>
      table_matches t n k = Some True \<and> table_matches t n' v = Some True)"
  "table_matches t (NOption n) nid = Some True \<longleftrightarrow>
    (\<exists>e. table_get t nid = Some (TOption e) \<and> table_matches t n e = Some True)"
  "table_matches t (NTuple ns) nid = Some True \<longleftrightarrow>
    (\<exists>es. table_get t nid = Some (TTuple es) \<and> list_all2 (\<lambda>n e. table_matches t n e = Some True) ns es)"
  "table_matches t (NStruct ms) nid = Some True \<longleftrightarrow>
    (\<exists>es. table_get t nid = Some (TStruct es) \<and>
      list_all2 (\<lambda>m e. fst e = fst m \<and> table_matches t (snd m) (snd e) = Some True) ms es)"
  "table_matches t (NEnum vs) nid = Some True \<longleftrightarrow>
    (\<exists>es. table_get t nid = Some (TEnum es) \<and>
      list_all2 (\<lambda>v e. fst e = fst v \<and> fst (snd e) = fst (snd v) \<and>
        table_matches t (snd (snd v)) (snd (snd e)) = Some True) vs es)"
  "table_matches t (NNamed nm n) nid = Some True \<longleftrightarrow>
    (\<exists>e. table_get t nid = Some (TNamed nm e) \<and> table_matches t n e = Some True)"
  by (auto split: option.splits TypeShape.splits simp: all_opt_map2_True list_all2_map1 list_all2_map2 list_all2_conv_all_nth conj_comms)

declare table_matches.simps [simp del]

lemma matches_extends:
  "table_matches t n nid = Some True \<Longrightarrow> tb_extends t t' \<Longrightarrow> table_matches t' n nid = Some True"
proof (induction n arbitrary: nid rule: node_induct)
  case (Tuple ns)
  then obtain es where es: "table_get t nid = Some (TTuple es)" "list_all2 (\<lambda>n e. table_matches t n e = Some True) ns es"
    by (auto simp: matches_iff)
  then have "list_all2 (\<lambda>n e. table_matches t' n e = Some True) ns es"
    using Tuple.IH Tuple.prems(2) by (auto elim: list.rel_mono_strong)
  with table_get_extends [OF es(1) Tuple.prems(2)] show ?case by (simp add: matches_iff)
next
  case (Struct ms)
  then obtain es where es: "table_get t nid = Some (TStruct es)"
    "list_all2 (\<lambda>m e. fst e = fst m \<and> table_matches t (snd m) (snd e) = Some True) ms es"
    by (auto simp: matches_iff)
  then have "list_all2 (\<lambda>m e. fst e = fst m \<and> table_matches t' (snd m) (snd e) = Some True) ms es"
    using Struct.IH [OF _ _ Struct.prems(2)] by (auto elim!: list.rel_mono_strong)
  with table_get_extends [OF es(1) Struct.prems(2)] show ?case by (simp add: matches_iff)
next
  case (Enum vs)
  then obtain es where es: "table_get t nid = Some (TEnum es)"
    "list_all2 (\<lambda>v e. fst e = fst v \<and> fst (snd e) = fst (snd v) \<and>
        table_matches t (snd (snd v)) (snd (snd e)) = Some True) vs es"
    by (auto simp: matches_iff)
  then have "list_all2 (\<lambda>v e. fst e = fst v \<and> fst (snd e) = fst (snd v) \<and>
        table_matches t' (snd (snd v)) (snd (snd e)) = Some True) vs es"
    using Enum.IH [OF _ _ Enum.prems(2)] by (auto elim!: list.rel_mono_strong)
  with table_get_extends [OF es(1) Enum.prems(2)] show ?case by (simp add: matches_iff)
qed (auto simp: matches_iff dest: table_get_extends)

text \<open>A step of a declaration: whatever it returns it keeps the invariant and every node already held,
  and what it returns satisfies \<open>Q\<close>, which a growing table keeps.\<close>

definition declares :: "'a declaring \<Rightarrow> (ShapeTable \<Rightarrow> 'a \<Rightarrow> bool) \<Rightarrow> bool" where
  "declares m Q \<longleftrightarrow> (\<forall>t r t'. table_ok t \<longrightarrow> m t = (r, t') \<longrightarrow>
     table_ok t' \<and> tb_extends t t' \<and> (\<forall>a. r = Ok a \<longrightarrow> Q t' a))"

definition grows :: "(ShapeTable \<Rightarrow> 'a \<Rightarrow> bool) \<Rightarrow> bool" where
  "grows Q \<longleftrightarrow> (\<forall>t t' a. Q t a \<longrightarrow> tb_extends t t' \<longrightarrow> Q t' a)"

lemma declares_ok: "declares (op_ok a) (\<lambda>_ b. b = a)"
  by (auto simp: declares_def)

lemma declares_err: "declares (op_err e) Q"
  by (auto simp: declares_def)

lemma declares_weaken: "declares m P \<Longrightarrow> (\<And>t a. P t a \<Longrightarrow> Q t a) \<Longrightarrow> declares m Q"
  by (auto simp: declares_def)

lemma declares_then:
  assumes m: "declares m P" and P: "grows P" and f: "\<And>a. declares (f a) (R a)"
  shows "declares (op_then m f) (\<lambda>t b. \<exists>a. P t a \<and> R a t b)"
  unfolding declares_def
proof (intro allI impI)
  fix t r t'' assume ok: "table_ok t" and run: "op_then m f t = (r, t'')"
  obtain r1 t' where r1: "m t = (r1, t')" by fastforce
  with m ok have t': "table_ok t'" "tb_extends t t'" "\<And>a. r1 = Ok a \<Longrightarrow> P t' a" by (auto simp: declares_def)
  show "table_ok t'' \<and> tb_extends t t'' \<and> (\<forall>b. r = Ok b \<longrightarrow> (\<exists>a. P t'' a \<and> R a t'' b))"
  proof (cases r1)
    case (Ok a)
    with r1 run have "f a t' = (r, t'')" by (simp add: op_then_runs)
    with f [of a] t' have "table_ok t''" "tb_extends t' t''" "\<And>b. r = Ok b \<Longrightarrow> R a t'' b" by (auto simp: declares_def)
    moreover have "P t'' a" using P t' Ok \<open>tb_extends t' t''\<close> unfolding grows_def by blast
    ultimately show ?thesis using t'(2) by (auto intro: tb_extends_trans)
  next
    case (Err e)
    with r1 run t' show ?thesis by (auto simp: op_then_runs)
  qed
qed

lemma declares_push: "declares (op_fault (push node)) (\<lambda>t nid. table_get t nid = Some node)"
  unfolding declares_def
proof (intro allI impI)
  fix t r t' assume ok: "table_ok t" and run: "op_fault (push node) t = (r, t')"
  show "table_ok t' \<and> tb_extends t t' \<and> (\<forall>a. r = Ok a \<longrightarrow> table_get t' a = Some node)"
  proof (cases "push node t")
    case (Pair x t1)
    then show ?thesis
      using ok run push_Err [of node t _ t1] table_ok_push [OF ok push_Ok] push_step_extends [OF push_Ok] push_step_get [OF push_Ok ok]
      by (cases x) (auto simp: op_fault_def)
  qed
qed

lemma declares_list:
  "(\<And>x. x \<in> set xs \<Longrightarrow> declares (f x) (\<lambda>t b. R t x b)) \<Longrightarrow> (\<And>x. x \<in> set xs \<Longrightarrow> grows (\<lambda>t b. R t x b)) \<Longrightarrow>
   declares (op_list (map f xs)) (\<lambda>t bs. list_all2 (R t) xs bs)"
proof (induction xs)
  case Nil
  then show ?case by (auto intro: declares_weaken [OF declares_ok])
next
  case (Cons x xs)
  have "grows (\<lambda>t bs. list_all2 (R t) xs bs)"
    using Cons.prems(2) by (auto simp: grows_def elim: list.rel_mono_strong)
  note rest = declares_then [OF Cons.IH [OF Cons.prems] this declares_ok]
  have "declares (op_then (f x) (\<lambda>a. op_then (op_list (map f xs)) (\<lambda>as. op_ok (a # as))))
      (\<lambda>t bs. list_all2 (R t) (x # xs) bs)"
    by (rule declares_weaken [OF declares_then [OF Cons.prems(1) Cons.prems(2) rest]]) auto
  then show ?case by simp
qed

lemma declares_wide: "declares (wide_op w) (\<lambda>_ b. unat b = w)"
  by (cases "w < 2 ^ 32")
     (auto simp: wide_op_def unat_of_nat take_bit_nat_eq_self intro: declares_weaken [OF declares_ok] declares_err)

lemma name_new_Ok [simp]: "name_new name = Ok nm \<longleftrightarrow> nm = name \<and> is_name name"
  by (auto simp: name_new_def admissible_iff)

lemma declares_named_op: "declares (named_op name) (\<lambda>_ b. b = name)"
  by (auto simp: named_op_def split: result.split intro: declares_ok declares_err)

lemma grows_const [simp]: "grows (\<lambda>_. P)"
  by (simp add: grows_def)

lemma grows_get [simp]: "grows (\<lambda>t nid. table_get t nid = Some node)"
  by (auto simp: grows_def dest: table_get_extends)

lemma grows_matches [simp]: "grows (\<lambda>t nid. table_matches t n nid = Some True)"
  by (auto simp: grows_def dest: matches_extends)

lemma declares_declare_named:
  assumes "declares shape_op (\<lambda>t nid. table_matches t n nid = Some True)"
  shows "declares (declare_named name shape_op) (\<lambda>t nid. table_matches t (NNamed name n) nid = Some True)"
proof -
  let ?f = "\<lambda>declared shape t. case table_named t name of
       Some nid \<Rightarrow> (case table_get t nid of None \<Rightarrow> (Err Panic, t)
          | Some node \<Rightarrow> if node = TNamed declared shape then (Ok nid, t) else (Err (Fault (NameTaken name)), t))
     | None \<Rightarrow> op_fault (push (TNamed declared shape)) t"
  have f: "declares (?f declared shape) (\<lambda>t nid. table_get t nid = Some (TNamed declared shape))" for declared shape
    using declares_push [of "TNamed declared shape"] unfolding declares_def
    by (auto split: option.splits if_splits)
  show ?thesis unfolding declare_named_def
    by (rule declares_weaken [OF declares_then [OF declares_named_op grows_const
            declares_then [OF assms grows_matches f]]]) (auto simp: matches_iff)
qed

lemma declares_node: "declares (declare_node n) (\<lambda>t nid. table_matches t n nid = Some True)"
proof (induction n rule: node_induct)
  case (Leaf n)
  then show ?case by (auto simp: matches_iff intro: declares_push)
next
  case (Text cap)
  show ?case unfolding declare_node.simps
    by (rule declares_weaken [OF declares_then [OF declares_wide grows_const declares_push]]) (auto simp: matches_iff)
next
  case (ByteArray k)
  show ?case unfolding declare_node.simps
    by (rule declares_weaken [OF declares_then [OF declares_wide grows_const declares_push]]) (auto simp: matches_iff)
next
  case (Seq cap n)
  show ?case unfolding declare_node.simps
    by (rule declares_weaken [OF declares_then [OF declares_wide grows_const
            declares_then [OF Seq grows_matches declares_push]]]) (auto simp: matches_iff)
next
  case (Set cap n)
  show ?case unfolding declare_node.simps
    by (rule declares_weaken [OF declares_then [OF declares_wide grows_const
            declares_then [OF Set grows_matches declares_push]]]) (auto simp: matches_iff)
next
  case (Map cap k n)
  show ?case unfolding declare_node.simps
    by (rule declares_weaken [OF declares_then [OF declares_wide grows_const declares_then [OF Map(1) grows_matches
            declares_then [OF Map(2) grows_matches declares_push]]]]) (auto simp: matches_iff)
next
  case (Option n)
  show ?case unfolding declare_node.simps
    by (rule declares_weaken [OF declares_then [OF Option grows_matches declares_push]]) (auto simp: matches_iff)
next
  case (Tuple ns)
  have "grows (\<lambda>t bs. list_all2 (\<lambda>n nid. table_matches t n nid = Some True) ns bs)"
    by (auto simp: grows_def dest: matches_extends elim: list.rel_mono_strong)
  from declares_then [OF declares_list [OF Tuple] this declares_push] show ?case
    unfolding declare_node.simps by (rule declares_weaken) (auto simp: matches_iff)
next
  case (Struct ms)
  let ?R = "\<lambda>t m e. fst e = fst m \<and> table_matches t (snd m) (snd e) = Some True"
  have "declares (declare_field (map_prod id declare_node m)) (\<lambda>t e. ?R t m e)" if "m \<in> set ms" for m
    unfolding declare_field_def
    by (rule declares_weaken [OF declares_then [OF declares_named_op grows_const
            declares_then [OF _ grows_matches [of "snd m"] declares_ok]]])
       (use Struct [of "fst m" "snd m"] that in auto)
  moreover have "grows (\<lambda>t bs. list_all2 (?R t) ms bs)" "grows (\<lambda>t e. ?R t m e)" for m
    by (auto simp: grows_def dest: matches_extends elim: list.rel_mono_strong)
  ultimately have "declares (op_then (op_list (map (\<lambda>m. declare_field (map_prod id declare_node m)) ms)) (\<lambda>ds. op_fault (push (TStruct ds))))
      (\<lambda>t nid. \<exists>bs. list_all2 (?R t) ms bs \<and> table_get t nid = Some (TStruct bs))"
    by (intro declares_then declares_list declares_push)
  from declares_weaken [OF this] show ?case by (simp add: matches_iff comp_def conj_commute)
next
  case (Enum vs)
  let ?R = "\<lambda>t v e. fst e = fst v \<and> fst (snd e) = fst (snd v) \<and> table_matches t (snd (snd v)) (snd (snd e)) = Some True"
  have "declares (declare_variant (map_prod id (map_prod id declare_node) v)) (\<lambda>t e. ?R t v e)" if "v \<in> set vs" for v
    unfolding declare_variant_def
    by (rule declares_weaken [OF declares_then [OF declares_named_op grows_const
            declares_then [OF _ grows_matches [of "snd (snd v)"] declares_ok]]])
       (use Enum [of "fst v" "fst (snd v)" "snd (snd v)"] that in auto)
  moreover have "grows (\<lambda>t bs. list_all2 (?R t) vs bs)" "grows (\<lambda>t e. ?R t v e)" for v
    by (auto simp: grows_def dest: matches_extends elim: list.rel_mono_strong)
  ultimately have "declares (op_then (op_list (map (\<lambda>v. declare_variant (map_prod id (map_prod id declare_node) v)) vs))
      (\<lambda>ds. op_fault (push (TEnum ds))))
      (\<lambda>t nid. \<exists>bs. list_all2 (?R t) vs bs \<and> table_get t nid = Some (TEnum bs))"
    by (intro declares_then declares_list declares_push)
  from declares_weaken [OF this] show ?case by (simp add: matches_iff comp_def conj_commute)
next
  case (Named name n)
  then show ?case unfolding declare_node.simps by (rule declares_declare_named)
qed

section \<open>What a node measures is what its tree folds to\<close>

lemma deepest_of_max: "deepest_of xs = foldl max 0 xs"
proof -
  have "(\<lambda>deepest depth :: nat. if depth > deepest then depth else deepest) = max" by (auto simp: fun_eq_iff max_def)
  then show ?thesis by (simp add: deepest_of_def)
qed

lemma under_fold:
  "foldl under_step (de, ta, p, l, w) cs =
    ((if cs = [] then de else Some (foldl max (case de of None \<Rightarrow> 0 | Some d \<Rightarrow> d) (map ms_depth cs))),
     foldl max ta (map ms_height cs), foldl usize_add p (map ms_positions cs),
     foldl usize_add l (map ms_least cs), foldl usize_add w (map ms_most cs))"
proof (induction cs arbitrary: de ta p l w)
  case (Cons c cs)
  show ?case unfolding foldl_Cons
    by (subst under_step_def) (auto simp: Cons.IH split: option.splits)
qed simp

lemma under_fields:
  "ms_depth (measure_under cs) = (if cs = [] then 0 else deepest_of (map ms_depth cs) + 1)"
  "ms_least (measure_under cs) = foldl usize_add 0 (map ms_least cs)"
  "ms_most (measure_under cs) = foldl usize_add 0 (map ms_most cs)"
  by (simp_all add: measure_under_def under_fold deepest_of_max)

definition lightest_of :: "nat option \<Rightarrow> nat list \<Rightarrow> nat option" where
  "lightest_of l xs = foldl (\<lambda>l x. Some (case l of None \<Rightarrow> x | Some seen \<Rightarrow> min seen x)) l xs"

lemma lightest_of_Some: "lightest_of (Some l) xs = Some (foldl min l xs)"
  by (induction xs arbitrary: l) (simp_all add: lightest_of_def)

lemma variants_fields:
  "measure_variants t sel de ta po li wi vs = Ok m \<Longrightarrow>
   \<exists>cs. list_all2 (\<lambda>v c. measure_of t (snd (snd v)) = Some c) vs cs \<and>
     ms_depth m = foldl max de (map ms_depth cs) \<and>
     ms_least m = usize_add (case lightest_of li (map ms_least cs) of None \<Rightarrow> 0 | Some l \<Rightarrow> l) 1 \<and>
     ms_most m = usize_add (foldl max wi (map ms_most cs)) 1"
proof (induction t sel de ta po li wi vs rule: measure_variants.induct)
  case (2 t sel de ta po li wi name disc c vs)
  then obtain content where content: "measure_of t c = Some content" "disc \<notin> set sel" by (auto split: if_splits)
  with 2(2) have "measure_variants t (disc # sel) (max de (ms_depth content)) (max ta (ms_height content))
         (usize_add po (ms_positions content))
         (Some (case li of None \<Rightarrow> ms_least content | Some seen \<Rightarrow> min seen (ms_least content)))
         (max wi (ms_most content)) vs = Ok m" by (simp add: table_held_def)
  from 2(1) [OF content(2) this] obtain cs where "list_all2 (\<lambda>v c. measure_of t (snd (snd v)) = Some c) vs cs"
     "ms_depth m = foldl max (max de (ms_depth content)) (map ms_depth cs)"
     "ms_least m = usize_add (case lightest_of (Some (case li of None \<Rightarrow> ms_least content | Some seen \<Rightarrow> min seen (ms_least content))) (map ms_least cs) of None \<Rightarrow> 0 | Some l \<Rightarrow> l) 1"
     "ms_most m = usize_add (foldl max (max wi (ms_most content)) (map ms_most cs)) 1" by blast
  with content(1) show ?case by (intro exI [of _ "content # cs"]) (auto simp: lightest_of_def)
qed (auto simp: lightest_of_def)

lemma measured_at: "table_ok t \<Longrightarrow> table_get t nid = Some node \<Longrightarrow> measure_of t nid = Some m \<Longrightarrow> measured t node m"
  by (auto simp: table_ok_def table_get_def measure_of_def split: if_splits)

text \<open>The figures of a node against the folds of a tree.\<close>

definition folds_to :: "ShapeNode \<Rightarrow> Measure \<Rightarrow> bool" where
  "folds_to n m \<longleftrightarrow> min_encoded_len n = ms_least m \<and> max_encoded_len n = Some (ms_most m) \<and>
     max_depth n = ms_depth m \<and> ms_least m \<le> USIZE_MAX"

lemma unat_usize: "unat (w :: u32) \<le> USIZE_MAX"
  using unat_bound [of w] by (simp add: USIZE_MAX_def)

lemma foldl_usize_bound: "xs \<noteq> [] \<or> a \<le> USIZE_MAX \<Longrightarrow> foldl usize_add a xs \<le> USIZE_MAX"
proof (induction xs arbitrary: a)
  case (Cons x xs)
  have "usize_add a x \<le> USIZE_MAX" by (simp add: usize_add_def)
  then show ?case using Cons.IH by simp
qed simp

lemma folds_members:
  assumes "list_all2 (\<lambda>n c. folds_to n c) ns cs"
  shows "map min_encoded_len ns = map ms_least cs" "map max_encoded_len ns = map Some (map ms_most cs)"
    "map max_depth ns = map ms_depth cs" "ns = [] \<longleftrightarrow> cs = []"
  using assms by (induction ns cs rule: list_all2_induct) (auto simp: folds_to_def)

lemma folds_under:
  assumes "list_all2 folds_to ns cs"
  shows "folds_to (NTuple ns) (measure_under cs)"
proof -
  have "opt_sum (map Some ys) = Some (foldl usize_add 0 ys)" for ys by (auto simp: opt_sum_Some)
  then show ?thesis
    using folds_members [OF assms] foldl_usize_bound [of "map ms_least cs" 0]
    by (simp add: folds_to_def under_fields del: map_map)
qed

lemma folds_tuple_struct: "folds_to (NStruct ms) m \<longleftrightarrow> folds_to (NTuple (map snd ms)) m"
  unfolding folds_to_def min_encoded_len.simps max_encoded_len.simps max_depth.simps members_map by simp

lemma opt_widest_map_Some: "opt_widest (map Some ys) = Some (foldl max 0 ys)"
proof -
  have "foldl (\<lambda>widest x. case widest of None \<Rightarrow> None
     | Some w \<Rightarrow> map_option (\<lambda>most. if most > w then most else w) x) (Some a) (map Some ys) = Some (foldl max a ys)" for a
    by (induction ys arbitrary: a) (auto simp: max_def)
  then show ?thesis by (simp add: opt_widest_def)
qed

lemma folds_enum:
  assumes "list_all2 (\<lambda>v c. folds_to (snd (snd v)) c) vs cs"
    and "ms_depth m = foldl max 0 (map ms_depth cs)"
    and "ms_least m = usize_add (case lightest_of None (map ms_least cs) of None \<Rightarrow> 0 | Some l \<Rightarrow> l) 1"
    and "ms_most m = usize_add (foldl max 0 (map ms_most cs)) 1"
  shows "folds_to (NEnum vs) m"
proof -
  have content: "list_all2 folds_to (map (snd \<circ> snd) vs) cs" using assms(1) by (simp add: list_all2_map1)
  note figures = folds_members [OF content]
  have step: "(\<lambda>l v. if snd (snd v) < l then snd (snd v) else l) = (\<lambda>l v. min l (snd (snd (v :: bytes \<times> u8 \<times> nat))))"
    by (auto simp: fun_eq_iff min_def)
  have map: "map (\<lambda>v. snd (snd v)) (map (map_prod id (map_prod id f)) vs) = map f (map (snd \<circ> snd) vs)" for f :: "ShapeNode \<Rightarrow> 'a"
    by simp
  have "foldl (\<lambda>l v. min l (snd (snd v))) a (map (map_prod id (map_prod id min_encoded_len)) vs)
      = foldl min a (map min_encoded_len (map (snd \<circ> snd) vs))" for a
    by (simp add: foldl_map comp_def)
  then have least: "min_encoded_len (NEnum vs) =
      (if vs = [] then 1 else usize_add (foldl min USIZE_MAX (map ms_least cs)) 1)"
    by (simp add: Let_def step figures(1) del: map_map)
  have "min_encoded_len (NEnum vs) = ms_least m"
  proof (cases cs)
    case Nil
    with assms(1,3) least show ?thesis by (simp add: lightest_of_def usize_add_def USIZE_MAX_def)
  next
    case (Cons c cs')
    then obtain n where "folds_to n c" using content by (auto simp: list_all2_Cons2)
    then have "min USIZE_MAX (ms_least c) = ms_least c" by (simp add: folds_to_def)
    moreover have "lightest_of None (map ms_least cs) = Some (foldl min (ms_least c) (map ms_least cs'))"
      using lightest_of_Some [of "ms_least c" "map ms_least cs'"] by (simp add: Cons lightest_of_def)
    ultimately show ?thesis using assms(1,3) least Cons by (auto simp: list_all2_Cons2)
  qed
  moreover have "max_encoded_len (NEnum vs) = Some (ms_most m)"
    using assms(4) figures(2) opt_widest_map_Some [of "map ms_most cs"] by (simp add: comp_def)
  moreover have "max_depth (NEnum vs) = ms_depth m"
    using assms(2) figures(3) by (simp add: deepest_of_max comp_def)
  moreover have "ms_least m \<le> USIZE_MAX" by (simp add: assms(3) usize_add_def)
  ultimately show ?thesis by (simp add: folds_to_def)
qed

lemma measured_children:
  assumes "table_ok t" "table_get t nid = Some node" "r \<in> set (refs node)"
  obtains c where "measure_of t r = Some c" "unat r < unat nid"
proof -
  from assms have "unat r < unat nid" "unat nid < length (st_nodes t)" "length (st_measures t) = length (st_nodes t)"
    by (auto simp: table_ok_def table_get_def split: if_splits)
  then show ?thesis using that by (auto simp: measure_of_def)
qed

lemma usize_bounds [simp]: "1 \<le> USIZE_MAX" "2 \<le> USIZE_MAX" "4 \<le> USIZE_MAX" "8 \<le> USIZE_MAX" "16 \<le> USIZE_MAX" "Suc 0 \<le> USIZE_MAX"
  by (simp_all add: USIZE_MAX_def)

lemma held_folds:
  assumes "held_all t es = Ok cs" "list_all2 (\<lambda>n e. table_matches t n e = Some True) ns es"
    and "\<And>n e m. n \<in> set ns \<Longrightarrow> table_matches t n e = Some True \<Longrightarrow> measure_of t e = Some m \<Longrightarrow> folds_to n m"
  shows "list_all2 folds_to ns cs"
  using list_all2_trans [OF _ assms(2) assms(1) [unfolded held_all_Ok], of "\<lambda>n m. n \<in> set ns \<longrightarrow> folds_to n m"]
    assms(3) by (auto elim: list.rel_mono_strong)

lemma matched_measure:
  "table_ok t \<Longrightarrow> table_matches t n nid = Some True \<Longrightarrow> measure_of t nid = Some m \<Longrightarrow> folds_to n m"
proof (induction n arbitrary: nid m rule: node_induct)
  case (Leaf n)
  then obtain node where "table_get t nid = Some node" "measured t node m" "table_matches t n nid = Some True"
    by (auto simp: matches_iff dest: measured_at)
  with Leaf(1) show ?case
    by (auto simp: matches_iff measured_def table_measure_def folds_to_def measure_leaf_def)
next
  case (Text c)
  then obtain cap where "table_get t nid = Some (TText cap)" "unat cap = c" "measured t (TText cap) m"
    by (auto simp: matches_iff dest: measured_at)
  then show ?case by (auto simp: measured_def table_measure_def folds_to_def)
next
  case (ByteArray c)
  then obtain cap where "table_get t nid = Some (TByteArray cap)" "unat cap = c" "measured t (TByteArray cap) m"
    by (auto simp: matches_iff dest: measured_at)
  then show ?case by (auto simp: measured_def table_measure_def folds_to_def measure_leaf_def unat_usize)
next
  case (Seq c n)
  then obtain cap e where e: "table_matches t n e = Some True" "unat cap = c" "measured t (TSeq cap e) m"
    by (auto simp: matches_iff dest: measured_at)
  then obtain k where "measure_of t e = Some k" "measure_run cap k = Ok m"
    by (auto simp: measured_def table_measure_def)
  with Seq.IH [OF Seq.prems(1) e(1)] e(2) show ?case
    by (auto simp: folds_to_def measure_run_def split: if_splits)
next
  case (Set c n)
  then obtain cap e where e: "table_matches t n e = Some True" "unat cap = c" "measured t (TSet cap e) m"
    by (auto simp: matches_iff dest: measured_at)
  then obtain k where "measure_of t e = Some k" "measure_run cap k = Ok m"
    by (auto simp: measured_def table_measure_def)
  with Set.IH [OF Set.prems(1) e(1)] e(2) show ?case
    by (auto simp: folds_to_def measure_run_def split: if_splits)
next
  case (Map c n n')
  then obtain cap k v where e: "table_matches t n k = Some True" "table_matches t n' v = Some True"
    "unat cap = c" "measured t (TMap cap k v) m"
    by (auto simp: matches_iff dest: measured_at)
  then obtain x y where "measure_of t k = Some x" "measure_of t v = Some y"
    "measure_run cap \<lparr> ms_depth = max (ms_depth x) (ms_depth y), ms_height = max (ms_height x) (ms_height y),
       ms_positions = usize_add (ms_positions x) (ms_positions y), ms_least = usize_add (ms_least x) (ms_least y),
       ms_most = usize_add (ms_most x) (ms_most y) \<rparr> = Ok m"
    by (auto simp: measured_def table_measure_def)
  with Map.IH(1) [OF Map.prems(1) e(1)] Map.IH(2) [OF Map.prems(1) e(2)] e(3) show ?case
    by (auto simp: folds_to_def measure_run_def split: if_splits)
next
  case (Option n)
  then obtain e where e: "table_matches t n e = Some True" "measured t (TOption e) m"
    by (auto simp: matches_iff dest: measured_at)
  then obtain k where "measure_of t e = Some k" "m = \<lparr> ms_depth = ms_depth k + 1, ms_height = ms_height k + 1,
     ms_positions = usize_add (ms_positions k) 1, ms_least = 1, ms_most = usize_add (ms_most k) 1 \<rparr>"
    by (auto simp: measured_def table_measure_def)
  with Option.IH [OF Option.prems(1) e(1)] show ?case by (auto simp: folds_to_def)
next
  case (Tuple ns)
  then obtain es where es: "list_all2 (\<lambda>n e. table_matches t n e = Some True) ns es" "measured t (TTuple es) m"
    by (auto simp: matches_iff dest: measured_at)
  then obtain cs where "held_all t es = Ok cs" "m = measure_under cs" by (auto simp: measured_def table_measure_def)
  with held_folds [OF _ es(1)] Tuple.IH [OF _ Tuple.prems(1)] show ?case by (auto intro: folds_under)
next
  case (Struct ms)
  then obtain es where es: "list_all2 (\<lambda>m e. fst e = fst m \<and> table_matches t (snd m) (snd e) = Some True) ms es"
    "measured t (TStruct es) m"
    by (auto simp: matches_iff dest: measured_at)
  then obtain cs where cs: "held_all t (map snd es) = Ok cs" "m = measure_under cs"
    by (auto simp: measured_def table_measure_def)
  have "list_all2 (\<lambda>n e. table_matches t n e = Some True) (map snd ms) (map snd es)"
    using es(1) by (auto simp: list_all2_map1 list_all2_map2 elim: list.rel_mono_strong)
  with held_folds [OF cs(1) this] Struct.IH [OF _ Struct.prems(1)] cs(2) show ?case
    unfolding folds_tuple_struct by (fastforce intro: folds_under)
next
  case (Enum vs)
  then obtain es where es: "list_all2 (\<lambda>v e. fst e = fst v \<and> fst (snd e) = fst (snd v) \<and>
      table_matches t (snd (snd v)) (snd (snd e)) = Some True) vs es" "measured t (TEnum es) m"
    by (auto simp: matches_iff dest: measured_at)
  then have "measure_variants t [] 0 0 1 None 0 es = Ok m" by (auto simp: measured_def table_measure_def)
  from variants_fields [OF this] obtain cs where cs: "list_all2 (\<lambda>v c. measure_of t (snd (snd v)) = Some c) es cs"
    "ms_depth m = foldl max 0 (map ms_depth cs)"
    "ms_least m = usize_add (case lightest_of None (map ms_least cs) of None \<Rightarrow> 0 | Some l \<Rightarrow> l) 1"
    "ms_most m = usize_add (foldl max 0 (map ms_most cs)) 1" by blast
  have "list_all2 (\<lambda>v c. \<exists>e. table_matches t (snd (snd v)) e = Some True \<and> measure_of t e = Some c) vs cs"
    by (rule list_all2_trans [OF _ es(1) cs(1)]) auto
  then have "list_all2 (\<lambda>v c. folds_to (snd (snd v)) c) vs cs"
    using Enum.IH [OF _ Enum.prems(1)] by (auto elim!: list.rel_mono_strong)
  from folds_enum [OF this cs(2-)] show ?case .
next
  case (Named nm n)
  then obtain e where e: "table_matches t n e = Some True" "measured t (TNamed nm e) m"
    by (auto simp: matches_iff dest: measured_at)
  then obtain k where "measure_of t e = Some k"
    "m = k\<lparr> ms_height := ms_height k + 1, ms_positions := usize_add (ms_positions k) 1 \<rparr>"
    by (auto simp: measured_def table_measure_def split: if_splits)
  with Named.IH [OF Named.prems(1) e(1)] show ?case by (auto simp: folds_to_def)
qed

end
