(* ===== verification/ShapeRead.thy ===== *)
theory ShapeRead
  imports ShapeTable
begin

text \<open>
  What the type-erased reader of \<open>crates/hbor/src/shape.rs\<close> does. On a table that holds
  its invariant it never panics and always answers; on a node that matches a tree it
  accepts exactly the wire forms of the tree's values, the order of a set's or a
  map's members aside; and a table on the wire is rebuilt by the same door it was
  built through.
\<close>

section \<open>Reading is decoding, the order of members aside\<close>

text \<open>The reader charges no levels, so what it reads is the wire form with the charges left out.\<close>

fun fields_flat :: "('a \<Rightarrow> wire) list \<Rightarrow> 'a list \<Rightarrow> wire" where
  "fields_flat (f # fs) (v # vs) = wire_seq (f v) (fields_flat fs vs)"
| "fields_flat _ _ = wire_lit []"

definition vec_flat :: "('a \<Rightarrow> wire) \<Rightarrow> 'a list \<Rightarrow> wire" where
  "vec_flat w xs = wire_seq (wire_len (length xs)) (wire_each w xs)"

definition option_flat :: "('a \<Rightarrow> wire) \<Rightarrow> 'a option \<Rightarrow> wire" where
  "option_flat w x = (case x of None \<Rightarrow> wire_lit [0] | Some v \<Rightarrow> wire_seq (wire_lit [1]) (w v))"

primrec node_flat :: "ShapeNode \<Rightarrow> ShapeValue \<Rightarrow> wire" where
  "node_flat NBool = (\<lambda>v. case v of VBool b \<Rightarrow> bool_wire b | _ \<Rightarrow> wire_lit [])"
| "node_flat NU8 = (\<lambda>v. case v of VU8 w \<Rightarrow> word_wire w | _ \<Rightarrow> wire_lit [])"
| "node_flat NU16 = (\<lambda>v. case v of VU16 w \<Rightarrow> word_wire w | _ \<Rightarrow> wire_lit [])"
| "node_flat NU32 = (\<lambda>v. case v of VU32 w \<Rightarrow> word_wire w | _ \<Rightarrow> wire_lit [])"
| "node_flat NU64 = (\<lambda>v. case v of VU64 w \<Rightarrow> word_wire w | _ \<Rightarrow> wire_lit [])"
| "node_flat NU128 = (\<lambda>v. case v of VU128 w \<Rightarrow> word_wire w | _ \<Rightarrow> wire_lit [])"
| "node_flat NI8 = (\<lambda>v. case v of VI8 w \<Rightarrow> word_wire w | _ \<Rightarrow> wire_lit [])"
| "node_flat NI16 = (\<lambda>v. case v of VI16 w \<Rightarrow> word_wire w | _ \<Rightarrow> wire_lit [])"
| "node_flat NI32 = (\<lambda>v. case v of VI32 w \<Rightarrow> word_wire w | _ \<Rightarrow> wire_lit [])"
| "node_flat NI64 = (\<lambda>v. case v of VI64 w \<Rightarrow> word_wire w | _ \<Rightarrow> wire_lit [])"
| "node_flat NI128 = (\<lambda>v. case v of VI128 w \<Rightarrow> word_wire w | _ \<Rightarrow> wire_lit [])"
| "node_flat (NText cap) = (\<lambda>v. case v of VText bs \<Rightarrow> string_wire bs | _ \<Rightarrow> wire_lit [])"
| "node_flat (NByteArray n) = (\<lambda>v. case v of VByteArray bs \<Rightarrow> wire_lit bs | _ \<Rightarrow> wire_lit [])"
| "node_flat (NSeq cap element) = (\<lambda>v. case v of VSeq xs \<Rightarrow> vec_flat (node_flat element) xs | _ \<Rightarrow> wire_lit [])"
| "node_flat (NSet cap element) = (\<lambda>v. case v of VSet xs \<Rightarrow> vec_flat (node_flat element) xs | _ \<Rightarrow> wire_lit [])"
| "node_flat (NMap cap key val) = (\<lambda>v. case v of
      VMap es \<Rightarrow> vec_flat (entry_wire (node_flat key) (node_flat val)) es | _ \<Rightarrow> wire_lit [])"
| "node_flat (NOption held) = (\<lambda>v. case v of VOption x \<Rightarrow> option_flat (node_flat held) x | _ \<Rightarrow> wire_lit [])"
| "node_flat (NTuple elements) = (\<lambda>v. case v of
      VTuple vs \<Rightarrow> fields_flat (map node_flat elements) vs | _ \<Rightarrow> wire_lit [])"
| "node_flat (NStruct members) = (\<lambda>v. case v of
      VStruct vs \<Rightarrow> fields_flat (map snd (map (map_prod id node_flat) members)) (map snd vs) | _ \<Rightarrow> wire_lit [])"
| "node_flat (NEnum variants) = (\<lambda>v. case v of
      VVariant name tag c \<Rightarrow>
        (case variant_at tag (map (map_prod id (map_prod id node_flat)) variants) of
           Some (_, w) \<Rightarrow> wire_seq (wire_lit [tag]) (w c)
         | None \<Rightarrow> wire_lit [])
    | _ \<Rightarrow> wire_lit [])"
| "node_flat (NNamed name shape) = node_flat shape"

lemma wire_each_mono: "wire_each u xs d m = Ok b \<Longrightarrow> (\<And>x c. x \<in> set xs \<Longrightarrow> u x d m = Ok c \<Longrightarrow> w x d' m' = Ok c) \<Longrightarrow> wire_each w xs d' m' = Ok b"
  by (induction xs arbitrary: b) (auto simp: wire_seq_Ok)

lemma vec_flat_of:
  "vec_wire u xs d m = Ok b \<Longrightarrow> (\<And>x c. x \<in> set xs \<Longrightarrow> u x (d + 1) m = Ok c \<Longrightarrow> w x d' m' = Ok c) \<Longrightarrow> vec_flat w xs d' m' = Ok b"
  by (auto simp: vec_wire_def vec_flat_def wire_seq_Ok wire_nest_Ok wire_len_Ok intro: wire_each_mono)

lemma fields_flat_of:
  "fields_wire (map u ns) vs d m = Ok b \<Longrightarrow> (\<And>n x c. n \<in> set ns \<Longrightarrow> u n x (d + 1) m = Ok c \<Longrightarrow> w n x d' m' = Ok c) \<Longrightarrow>
   fields_flat (map w ns) vs d' m' = Ok b"
proof (induction ns arbitrary: vs b)
  case (Cons n ns)
  then show ?case by (cases vs) (fastforce simp: wire_seq_Ok wire_nest_Ok)+
qed simp

lemma node_flat_of: "node_wire n v d m = Ok b \<Longrightarrow> node_flat n v d' m' = Ok b"
proof (induction n arbitrary: v d m b rule: node_induct)
  case (Leaf n)
  then show ?case by (auto simp: bool_wire_def word_wire_def split: ShapeValue.splits)
next
  case (Map cap k n)
  have "entry_wire (node_flat k) (node_flat n) e d' m' = Ok c"
    if "entry_wire (node_wire k) (node_wire n) e (d + 1) m = Ok c" for e c
    using that Map.IH by (fastforce simp: entry_wire_def wire_seq_Ok)
  with Map.prems show ?case by (auto split: ShapeValue.splits intro: vec_flat_of)
next
  case (Option n)
  then show ?case
    by (auto simp: option_wire_def option_flat_def wire_seq_Ok wire_nest_Ok split: ShapeValue.splits option.splits)
next
  case (Tuple ns)
  then show ?case by (auto split: ShapeValue.splits intro: fields_flat_of)
next
  case (Struct ms)
  then show ?case unfolding node_wire.simps node_flat.simps members_map
    by (auto split: ShapeValue.splits intro!: fields_flat_of)
next
  case (Enum vs)
  have content: "node_flat n c d' m' = Ok y" if "variant_at tag vs = Some (name, n)" "node_wire n c d m = Ok y" for tag name n c y
    using Enum.IH [OF variant_at_mem [OF that(1)] that(2)] .
  with Enum.prems show ?case by (auto simp: wire_seq_Ok split: ShapeValue.splits option.splits)
qed (auto simp: string_wire_def wire_seq_Ok wire_len_Ok split: ShapeValue.splits intro: vec_flat_of)

text \<open>What the reader holds a set's members and a map's keys to: no two with the same bytes.\<close>

definition unalike :: "ShapeNode \<Rightarrow> ShapeValue list \<Rightarrow> bool" where
  "unalike n xs = distinct (map (\<lambda>x. node_flat n x 0 0) xs)"

subsection \<open>The reader of a tree\<close>

definition op_span :: "'a dec_op \<Rightarrow> ('a \<times> bytes) dec_op" where
  "op_span m d = op_then m (\<lambda>a d'. (Ok (a, d_consumed (d_cursor d) d'), d')) d"

definition op_unique :: "bytes list \<Rightarrow> 'a \<Rightarrow> 'a dec_op" where
  "op_unique spans a = (case refuse_duplicates spans of Ok _ \<Rightarrow> op_ok a | Err e \<Rightarrow> op_err e)"

primrec read_members :: "'a dec_op list \<Rightarrow> 'a list dec_op" where
  "read_members [] = op_ok []"
| "read_members (m # ms) = op_then m (\<lambda>a. op_map (Cons a) (read_members ms))"

definition read_spans :: "nat \<Rightarrow> nat \<Rightarrow> ('a \<times> bytes) dec_op \<Rightarrow> 'a list dec_op" where
  "read_spans least cap element = op_then (read_len_check least cap) (\<lambda>len.
     op_then (op_times len element) (\<lambda>read. op_unique (map snd read) (map fst read)))"

definition option_read :: "'a dec_op \<Rightarrow> 'a option dec_op" where
  "option_read held = op_then read_u8 (\<lambda>tag.
    if tag = 0 then op_ok None
    else if tag = 1 then op_map Some held
    else op_err (InvalidDiscriminant tag))"

primrec node_read :: "ShapeNode \<Rightarrow> ShapeValue dec_op" where
  "node_read NBool = op_map VBool bool_decode"
| "node_read NU8 = op_map VU8 word_decode"
| "node_read NU16 = op_map VU16 word_decode"
| "node_read NU32 = op_map VU32 word_decode"
| "node_read NU64 = op_map VU64 word_decode"
| "node_read NU128 = op_map VU128 word_decode"
| "node_read NI8 = op_map VI8 word_decode"
| "node_read NI16 = op_map VI16 word_decode"
| "node_read NI32 = op_map VI32 word_decode"
| "node_read NI64 = op_map VI64 word_decode"
| "node_read NI128 = op_map VI128 word_decode"
| "node_read (NText cap) = op_map VText (decode_bounded_string cap)"
| "node_read (NByteArray width) = op_map VByteArray (read_slice width)"
| "node_read (NSeq cap element) = op_map VSeq (op_then (read_len_check (min_encoded_len element) cap) (\<lambda>len.
    op_times len (node_read element)))"
| "node_read (NSet cap element) = op_map VSet (read_spans (min_encoded_len element) cap (op_span (node_read element)))"
| "node_read (NMap cap key val) = op_map VMap
    (read_spans (usize_add (min_encoded_len key) (min_encoded_len val)) cap
      (op_then (op_span (node_read key)) (\<lambda>(x, span). op_map (\<lambda>y. ((x, y), span)) (node_read val))))"
| "node_read (NOption held) = op_map VOption (option_read (node_read held))"
| "node_read (NTuple elements) = op_map VTuple (read_members (map node_read elements))"
| "node_read (NStruct members) = op_map (\<lambda>vs. VStruct (zip (map fst members) vs))
    (read_members (map snd (map (map_prod id node_read) members)))"
| "node_read (NEnum variants) = op_then read_u8 (\<lambda>tag.
    case variant_at tag (map (map_prod id (map_prod id node_read)) variants) of
      None \<Rightarrow> op_err (InvalidDiscriminant tag)
    | Some (name, content) \<Rightarrow> op_map (VVariant name tag) content)"
| "node_read (NNamed name shape) = node_read shape"

lemma rd_lift_simps [simp]:
  "rd_then (rd_lift m) (\<lambda>a. rd_lift (f a)) = rd_lift (op_then m f)"
  "rd_map g (rd_lift m) = rd_lift (op_map g m)"
  "rd_times n (rd_lift m) = rd_lift (op_times n m)"
  "rd_span (rd_lift m) = rd_lift (op_span m)"
  "rd_unique spans a = rd_lift (op_unique spans a)"
proof -
  show then': "rd_then (rd_lift m) (\<lambda>a. rd_lift (f a)) = rd_lift (op_then m f)"
    for m :: "'x dec_op" and f :: "'x \<Rightarrow> 'y dec_op"
    by (auto simp: fun_eq_iff rd_then_def rd_lift_def op_then_def split: prod.splits result.splits)
  show map': "rd_map g (rd_lift m) = rd_lift (op_map g m)" for g :: "'x \<Rightarrow> 'y" and m
    by (simp add: rd_map_def op_map_def then')
  show "rd_times n (rd_lift m) = rd_lift (op_times n m)"
    by (induction n) (simp_all add: map' then' op_map_def [symmetric])
  show "rd_span (rd_lift m) = rd_lift (op_span m)"
    by (auto simp: fun_eq_iff rd_span_def rd_then_def rd_lift_def op_span_def op_then_def split: prod.splits result.splits)
  show "rd_unique spans a = rd_lift (op_unique spans a)" by (simp add: rd_unique_def op_unique_def)
qed

lemma rd_list_lift: "rd_list (map (\<lambda>n. rd_lift (f n)) ns) = rd_lift (read_members (map f ns))"
  by (induction ns) simp_all

lemma read_run_lift:
  "read_run (rd_lift m) (Some l) cap False = rd_lift (op_then (read_len_check l (unat cap)) (\<lambda>len. op_times len m))"
  "read_run (rd_lift m) (Some l) cap True = rd_lift (read_spans l (unat cap) (op_span m))"
proof -
  have times: "op_then (op_times n (op_span m)) (\<lambda>read. op_ok (map fst read)) = op_times n m" for n
  proof (induction n)
    case (Suc n)
    have "op_then (op_span m) (\<lambda>x. f (fst x)) = op_then m f" for f :: "ShapeValue \<Rightarrow> 'b dec_op"
      by (auto simp: fun_eq_iff op_span_def op_then_def split: prod.splits result.splits)
    note this [of "\<lambda>a. op_then (op_times n (op_span m)) (\<lambda>read. op_ok (a # map fst read))"]
    then show ?case by (simp add: op_then_assoc Suc [symmetric])
  qed simp
  have unique: "op_unique [] = op_ok" by (simp add: fun_eq_iff op_unique_def refuse_duplicates_def)
  show "read_run (rd_lift m) (Some l) cap False = rd_lift (op_then (read_len_check l (unat cap)) (\<lambda>len. op_times len m))"
    by (simp add: read_run_def run_length_def unique times)
  show "read_run (rd_lift m) (Some l) cap True = rd_lift (read_spans l (unat cap) (op_span m))"
    by (simp add: read_run_def run_length_def read_spans_def)
qed

subsection \<open>Flat wires and levelled wires\<close>

definition level_free :: "wire \<Rightarrow> bool" where
  "level_free w \<longleftrightarrow> (\<exists>r. w = (\<lambda>_ _. r))"

lemma level_freeD: "level_free w \<Longrightarrow> w d m = w d' m'"
  by (auto simp: level_free_def)

lemma level_free_intros [simp, intro]:
  "level_free (wire_lit bs)" "level_free (wire_len n)"
  "level_free u \<Longrightarrow> level_free w \<Longrightarrow> level_free (wire_seq u w)"
  by (auto simp: level_free_def wire_lit_def [abs_def] wire_len_def [abs_def] wire_seq_def [abs_def])

lemma level_free_each: "(\<And>x. x \<in> set xs \<Longrightarrow> level_free (w x)) \<Longrightarrow> level_free (wire_each w xs)"
  by (induction xs) auto

lemma level_free_fields: "(\<And>n x. n \<in> set ns \<Longrightarrow> level_free (f n x)) \<Longrightarrow> level_free (fields_flat (map f ns) vs)"
proof (induction ns arbitrary: vs)
  case (Cons n ns)
  then show ?case by (cases vs) auto
qed auto

lemma level_free_node: "level_free (node_flat n v)"
proof (induction n arbitrary: v rule: node_induct)
  case (Leaf n)
  then show ?case by (auto simp: bool_wire_def word_wire_def split: ShapeValue.splits)
next
  case (Tuple ns)
  then show ?case by (auto split: ShapeValue.splits intro: level_free_fields)
next
  case (Struct ms)
  then show ?case unfolding node_flat.simps members_map
    by (auto split: ShapeValue.splits intro!: level_free_fields)
next
  case (Enum vs)
  have content: "level_free (node_flat n c)" if "variant_at tag vs = Some (name, n)" for tag name n c
    by (rule Enum.IH [OF variant_at_mem [OF that]])
  then show ?case by (auto split: ShapeValue.splits option.splits)
qed (auto simp: string_wire_def vec_flat_def option_flat_def entry_wire_def split: ShapeValue.splits option.splits
       intro!: level_free_each)

lemma vec_wire_of_flat:
  "vec_flat u xs d m = Ok b \<Longrightarrow> d' < m' \<Longrightarrow> (\<And>x c. x \<in> set xs \<Longrightarrow> u x d m = Ok c \<Longrightarrow> w x (d' + 1) m' = Ok c) \<Longrightarrow>
   vec_wire w xs d' m' = Ok b"
  by (auto simp: vec_wire_def vec_flat_def wire_seq_Ok wire_nest_Ok wire_len_Ok intro: wire_each_mono)

lemma fields_wire_of_flat:
  "fields_flat (map u ns) vs d m = Ok b \<Longrightarrow> (\<And>n. n \<in> set ns \<Longrightarrow> d' < m') \<Longrightarrow>
   (\<And>n x c. n \<in> set ns \<Longrightarrow> u n x d m = Ok c \<Longrightarrow> w n x (d' + 1) m' = Ok c) \<Longrightarrow>
   fields_wire (map w ns) vs d' m' = Ok b"
proof (induction ns arbitrary: vs b)
  case (Cons n ns)
  then show ?case by (cases vs) (fastforce simp: wire_seq_Ok wire_nest_Ok)+
qed simp

lemma deepest_members:
  "n \<in> set ns \<Longrightarrow> d + max_depth (NTuple ns) \<le> m \<Longrightarrow> d < m \<and> d + 1 + max_depth n \<le> m"
  "n \<in> snd ` set ms \<Longrightarrow> d + max_depth (NStruct ms) \<le> m \<Longrightarrow> d < m \<and> d + 1 + max_depth n \<le> m"
  "(name, tag, n) \<in> set vs \<Longrightarrow> d + max_depth (NEnum vs) \<le> m \<Longrightarrow> d + max_depth n \<le> m"
proof -
  show "d < m \<and> d + 1 + max_depth n \<le> m" if "n \<in> set ns" "d + max_depth (NTuple ns) \<le> m"
    using that deepest_of_ge [of "max_depth n" "map max_depth ns"] by (auto split: if_splits)
  show "d < m \<and> d + 1 + max_depth n \<le> m" if "n \<in> snd ` set ms" "d + max_depth (NStruct ms) \<le> m"
    using that deepest_of_ge [of "max_depth n" "map max_depth (map snd ms)"] by (force simp: members_map split: if_splits)
  show "d + max_depth n \<le> m" if "(name, tag, n) \<in> set vs" "d + max_depth (NEnum vs) \<le> m"
    using that deepest_of_ge [of "max_depth n" "map (\<lambda>v. max_depth (snd (snd v))) vs"]
    by (force simp: comp_def)
qed

text \<open>With levels to spare, the codec writes what the flat wire holds.\<close>

lemma node_wire_of_flat: "node_flat n v d m = Ok b \<Longrightarrow> d' + max_depth n \<le> m' \<Longrightarrow> node_wire n v d' m' = Ok b"
proof (induction n arbitrary: v d' b rule: node_induct)
  case (Leaf n)
  then show ?case by (auto simp: bool_wire_def word_wire_def split: ShapeValue.splits)
next
  case (Map cap k n)
  have "entry_wire (node_wire k) (node_wire n) e (d' + 1) m' = Ok c"
    if "entry_wire (node_flat k) (node_flat n) e d m = Ok c" for e c
    using that Map.IH [where d' = "d' + 1"] Map.prems(2) by (fastforce simp: entry_wire_def wire_seq_Ok split: if_splits)
  then have "vec_wire (entry_wire (node_wire k) (node_wire n)) es d' m' = Ok b"
    if "vec_flat (entry_wire (node_flat k) (node_flat n)) es d m = Ok b" "d' < m'" for es
    by (rule vec_wire_of_flat [OF that])
  with Map.prems show ?case by (auto split: ShapeValue.splits if_splits)
next
  case (Option n)
  then show ?case
    by (auto simp: option_wire_def option_flat_def wire_seq_Ok wire_nest_Ok split: ShapeValue.splits option.splits)
next
  case (Tuple ns)
  then show ?case using deepest_members(1) [OF _ Tuple.prems(2)] by (auto split: ShapeValue.splits intro!: fields_wire_of_flat)
next
  case (Struct ms)
  have deep: "d' < m' \<and> d' + 1 + max_depth n \<le> m'" if "n \<in> set (map snd ms)" for n
    using that deepest_members(2) [OF _ Struct.prems(2)] by auto
  have "fields_wire (map node_wire (map snd ms)) vs d' m' = Ok b"
    if "fields_flat (map node_flat (map snd ms)) vs d m = Ok b" for vs
    using deep Struct.IH by (intro fields_wire_of_flat [OF that]) fastforce+
  with Struct.prems show ?case unfolding node_wire.simps node_flat.simps members_map
    by (auto split: ShapeValue.splits)
next
  case (Enum vs)
  have content: "node_wire n c d' m' = Ok y" if "variant_at tag vs = Some (name, n)" "node_flat n c d m = Ok y" for tag name n c y
    using Enum.IH [OF variant_at_mem [OF that(1)] that(2)] deepest_members(3) [OF variant_at_mem [OF that(1)] Enum.prems(2)] .
  with Enum.prems(1) show ?case by (auto simp: wire_seq_Ok split: ShapeValue.splits option.splits)
qed (auto simp: string_wire_def wire_seq_Ok wire_len_Ok split: ShapeValue.splits intro: vec_wire_of_flat)

lemma node_flat_wide: "node_valid chk n v \<Longrightarrow> node_flat n v d m = Ok b \<Longrightarrow> min_encoded_len n \<le> length b"
  using node_wide node_wire_of_flat [of n v d m b 0 "max_depth n"] by fastforce

subsection \<open>What the reader of a tree accepts\<close>

lemma sorted_apart: "sorted xs \<Longrightarrow> successively (\<noteq>) xs \<longleftrightarrow> distinct xs"
proof (induction xs)
  case (Cons x xs)
  then show ?case by (cases xs) auto
qed simp

lemma refuse_duplicates_eq: "refuse_duplicates spans = (if distinct spans then Ok () else Err UnsortedKeys)"
  by (simp add: refuse_duplicates_def sorted_apart)

lemma op_unique_eq: "op_unique spans a = (if distinct spans then op_ok a else op_err UnsortedKeys)"
  by (simp add: op_unique_def refuse_duplicates_eq)

lemma reads_unique: "reads (op_unique spans a) (\<lambda>_. wire_lit []) (\<lambda>v. v = a \<and> distinct spans)"
  unfolding op_unique_eq by (auto intro: reads_weaken [OF reads_ok] reads_weaken [OF reads_err])

lemma reads_span:
  assumes A: "reads A w valid" and free: "\<And>v. level_free (w v)"
  shows "reads (op_span A) (\<lambda>x. w (fst x)) (\<lambda>x. valid (fst x) \<and> w (fst x) 0 0 = Ok (snd x))"
proof (rule readsI)
  fix d :: Decoder and x d' assume d: "in_bounds d" and "op_span A d = (Ok x, d')"
  then obtain v where run: "A d = (Ok v, d')" and x: "x = (v, d_consumed (d_cursor d) d')"
    by (auto simp: op_span_def op_then_Ok)
  obtain b rest where b: "valid v" "w v (d_depth d) (d_max_depth d) = Ok b"
    "drop (d_cursor d) (d_input d) = b @ rest" "d' = d\<lparr> d_cursor := d_cursor d + length b \<rparr>"
    by (rule readsD [OF A run d])
  moreover from b have "d_consumed (d_cursor d) d' = b" by (simp add: d_consumed_def take_drop [symmetric] drop_take)
  ultimately show "(valid (fst x) \<and> w (fst x) 0 0 = Ok (snd x)) \<and>
      (\<exists>b rest. w (fst x) (d_depth d) (d_max_depth d) = Ok b \<and> drop (d_cursor d) (d_input d) = b @ rest \<and>
        d' = d\<lparr> d_cursor := d_cursor d + length b \<rparr>)"
    using x level_freeD [OF free, of v "d_depth d" "d_max_depth d" 0 0] by auto
next
  fix d :: Decoder and x b rest
  assume d: "in_bounds d" and x: "valid (fst x) \<and> w (fst x) 0 0 = Ok (snd x)"
    and b: "w (fst x) (d_depth d) (d_max_depth d) = Ok b" "drop (d_cursor d) (d_input d) = b @ rest"
  then have "A d = (Ok (fst x), d\<lparr> d_cursor := d_cursor d + length b \<rparr>)" using readsR [OF A d _ b] by simp
  moreover have "snd x = b" using x b(1) level_freeD [OF free, of "fst x" "d_depth d" "d_max_depth d" 0 0] by simp
  ultimately show "op_span A d = (Ok x, d\<lparr> d_cursor := d_cursor d + length b \<rparr>)"
    using b(2) by (cases x) (auto simp: op_span_def op_then_def d_consumed_def drop_take)
qed

lemma reads_agree:
  "reads act w valid \<Longrightarrow> (\<And>v d m b. valid v \<and> w v d m = Ok b \<longleftrightarrow> valid' v \<and> w' v d m = Ok b) \<Longrightarrow> reads act w' valid'"
  unfolding reads_def by blast

lemma wire_each_map: "wire_each u (map f xs) = wire_each (\<lambda>x. u (f x)) xs"
  by (induction xs) simp_all

definition spanned :: "('a \<Rightarrow> ('e, bytes) result) \<Rightarrow> 'a \<Rightarrow> 'a \<times> bytes" where
  "spanned k x = (x, case k x of Ok s \<Rightarrow> s | Err _ \<Rightarrow> [])"

lemma spanned_fst:
  "list_all (\<lambda>x. V (fst x) \<and> k (fst x) = Ok (snd x)) read \<Longrightarrow> map (spanned k) (map fst read) = read"
  by (induction read) (auto simp: spanned_def)

lemma spanned_distinct:
  "list_all (\<lambda>x. \<exists>c. k x = Ok c) xs \<Longrightarrow> distinct (map snd (map (spanned k) xs)) \<longleftrightarrow> distinct (map k xs)"
  by (induction xs) (force simp: spanned_def list_all_iff)+

lemma reads_span_times:
  assumes "reads E (\<lambda>x. u (fst x)) (\<lambda>x. V (fst x) \<and> k (fst x) = Ok (snd x))"
  shows "reads (op_then (op_times n E) (\<lambda>read. op_unique (map snd read) (map fst read))) (wire_each u)
    (\<lambda>xs. length xs = n \<and> list_all V xs \<and> list_all (\<lambda>x. \<exists>c. k x = Ok c) xs \<and> distinct (map k xs))"
proof (rule reads_weaken [OF reads_then [OF reads_times [OF assms] reads_unique, where p = "map (spanned k)"]])
  show "wire_seq (wire_each (\<lambda>x. u (fst x)) (map (spanned k) xs)) (wire_lit []) = wire_each u xs" for xs
    by (simp add: wire_each_map spanned_def)
next
  show "map (spanned k) xs = read"
    if "length read = n \<and> list_all (\<lambda>x. V (fst x) \<and> k (fst x) = Ok (snd x)) read" "xs = map fst read \<and> distinct (map snd read)"
    for read xs using that spanned_fst [of V k read] by metis
next
  fix xs
  have "list_all (\<lambda>x. V (fst x) \<and> k (fst x) = Ok (snd x)) (map (spanned k) xs) \<longleftrightarrow>
      list_all V xs \<and> list_all (\<lambda>x. \<exists>c. k x = Ok c) xs"
    by (auto simp: list_all_iff spanned_def)
  moreover have "map fst (map (spanned k) xs) = xs" by (simp add: spanned_def comp_def)
  ultimately show "((length (map (spanned k) xs) = n \<and> list_all (\<lambda>x. V (fst x) \<and> k (fst x) = Ok (snd x)) (map (spanned k) xs)) \<and>
      xs = map fst (map (spanned k) xs) \<and> distinct (map snd (map (spanned k) xs))) =
    (length xs = n \<and> list_all V xs \<and> list_all (\<lambda>x. \<exists>c. k x = Ok c) xs \<and> distinct (map k xs))"
    using spanned_distinct [of k xs] by auto
qed

lemma reads_spans:
  assumes E: "reads E (\<lambda>x. u (fst x)) (\<lambda>x. V (fst x) \<and> k (fst x) = Ok (snd x))"
    and wide: "\<And>v d m b. V v \<Longrightarrow> u v d m = Ok b \<Longrightarrow> least \<le> length b" and least: "0 < least"
    and keyed: "\<And>v d m b. u v d m = Ok b \<Longrightarrow> \<exists>c. k v = Ok c"
  shows "reads (read_spans least cap E) (vec_flat u) (\<lambda>xs. list_all V xs \<and> distinct (map k xs) \<and> length xs \<le> cap)"
  unfolding read_spans_def
proof (rule reads_agree [OF reads_capped [OF reads_span_times [OF E], where p = length, OF _ _ least]])
  show "least * n \<le> length b"
    if "length xs = n \<and> list_all V xs \<and> list_all (\<lambda>x. \<exists>c. k x = Ok c) xs \<and> distinct (map k xs)" "wire_each u xs d m = Ok b" for n xs d m b
    using that(1) wide wire_each_length [OF that(2), of least] unfolding list_all_iff by metis
  have "list_all (\<lambda>x. \<exists>c. k x = Ok c) xs" if "wire_each u xs d m = Ok b" for xs d m b
    using that keyed by (induction xs arbitrary: b) (auto simp: wire_seq_Ok)
  then show "(((length xs = length xs \<and> list_all V xs \<and> list_all (\<lambda>x. \<exists>c. k x = Ok c) xs \<and> distinct (map k xs)) \<and> length xs \<le> cap) \<and>
      wire_seq (wire_len (length xs)) (wire_each u xs) d m = Ok b) =
    ((list_all V xs \<and> distinct (map k xs) \<and> length xs \<le> cap) \<and> vec_flat u xs d m = Ok b)" for xs d m b
    by (auto simp: vec_flat_def wire_seq_Ok)
qed simp

lemma reads_members:
  "(\<And>n. n \<in> set ns \<Longrightarrow> reads (f n) (g n) (V n)) \<Longrightarrow>
   reads (read_members (map f ns)) (fields_flat (map g ns)) (\<lambda>vs. list_all2 (\<lambda>P. P) (map V ns) vs)"
proof (induction ns)
  case Nil
  then show ?case by (auto intro: reads_weaken [OF reads_ok])
next
  case (Cons n ns)
  have "reads (op_then (f n) (\<lambda>v. op_map (Cons v) (read_members (map f ns))))
      (fields_flat (map g (n # ns))) (\<lambda>vs. list_all2 (\<lambda>P. P) (map V (n # ns)) vs)"
    by (rule reads_weaken [OF reads_then [OF Cons.prems
            reads_map [OF Cons.IH [OF Cons.prems], where g = tl], where p = hd]])
       (auto simp: cons_tl neq_Nil_conv list_all2_Cons1)
  then show ?case by simp
qed

lemma reads_option_read:
  assumes "reads dec w valid"
  shows "reads (option_read dec) (option_flat w) (pred_option valid)"
  unfolding option_read_def
proof (rule reads_weaken [OF reads_then [OF reads_u8,
        where p = "\<lambda>x. if x = None then 0 else 1"
        and w = "\<lambda>_ x. case x of None \<Rightarrow> wire_lit [] | Some v \<Rightarrow> w v"
        and valid_b = "\<lambda>tag x. tag = (if x = None then 0 else 1) \<and> pred_option valid x"]])
  show "reads (if tag = 0 then op_ok None else if tag = 1 then op_map Some dec
        else op_err (InvalidDiscriminant tag))
      (\<lambda>x. case x of None \<Rightarrow> wire_lit [] | Some v \<Rightarrow> w v)
      (\<lambda>x. tag = (if x = None then 0 else 1) \<and> pred_option valid x)" for tag
    using reads_map [OF assms, of the Some] unfolding reads_def
    by (auto split: option.splits)
qed (auto simp: option_flat_def wire_seq_def wire_lit_def fun_eq_iff split: option.splits)

lemma reads_span_entry:
  assumes "reads dec_k u K" "reads dec_v w V" "\<And>x. level_free (u x)"
  shows "reads (op_then (op_span dec_k) (\<lambda>(x, span). op_map (\<lambda>y. ((x, y), span)) dec_v))
    (\<lambda>x. entry_wire u w (fst x)) (\<lambda>x. (K (fst (fst x)) \<and> V (snd (fst x))) \<and> u (fst (fst x)) 0 0 = Ok (snd x))"
proof -
  have "reads (op_map (\<lambda>y. ((fst a, y), snd a)) dec_v) (\<lambda>c. w (snd (fst c)))
      (\<lambda>c. V (snd (fst c)) \<and> c = ((fst a, snd (fst c)), snd a))" for a
    by (rule reads_map [OF assms(2)]) simp
  then show ?thesis unfolding split_beta'
    by (rule reads_weaken [OF reads_then [OF reads_span [OF assms(1,3)], where p = "\<lambda>c. (fst (fst c), snd c)"]])
       (auto simp: entry_wire_def)
qed

lemma reads_enum:
  assumes "\<And>tag name n. variant_at tag vs = Some (name, n) \<Longrightarrow> reads (f n) (g n) (V n)"
  shows "reads (op_then read_u8 (\<lambda>tag. case variant_at tag (map (map_prod id (map_prod id f)) vs) of
      None \<Rightarrow> op_err (InvalidDiscriminant tag) | Some (name, dec) \<Rightarrow> op_map (VVariant name tag) dec))
    (\<lambda>v. case v of VVariant name tag c \<Rightarrow> (case variant_at tag (map (map_prod id (map_prod id g)) vs) of
       Some (_, w) \<Rightarrow> wire_seq (wire_lit [tag]) (w c) | None \<Rightarrow> wire_lit []) | _ \<Rightarrow> wire_lit [])
    (\<lambda>v. \<exists>name tag c n. v = VVariant name tag c \<and> variant_at tag vs = Some (name, n) \<and> V n c)"
proof -
  let ?w = "\<lambda>tag c. case c of VVariant _ _ x \<Rightarrow>
    (case variant_at tag vs of Some (_, n) \<Rightarrow> g n x | None \<Rightarrow> wire_lit []) | _ \<Rightarrow> wire_lit []"
  let ?valid = "\<lambda>tag c. \<exists>name n x. c = VVariant name tag x \<and> variant_at tag vs = Some (name, n) \<and> V n x"
  have content: "reads (case variant_at tag (map (map_prod id (map_prod id f)) vs) of
      None \<Rightarrow> op_err (InvalidDiscriminant tag) | Some (name, dec) \<Rightarrow> op_map (VVariant name tag) dec)
      (?w tag) (?valid tag)" for tag
  proof (cases "variant_at tag vs")
    case (Some at)
    obtain name n where at: "at = (name, n)" by (cases at)
    have "reads (op_map (VVariant name tag) (f n)) (?w tag) (?valid tag)"
      by (rule reads_con [OF assms]) (use Some at in auto)
    moreover have "(case variant_at tag (map (map_prod id (map_prod id f)) vs) of
        None \<Rightarrow> op_err (InvalidDiscriminant tag) | Some (name, dec) \<Rightarrow> op_map (VVariant name tag) dec)
      = op_map (VVariant name tag) (f n)" using Some at by simp
    ultimately show ?thesis by (simp only:)
  qed (auto intro: reads_weaken [OF reads_err])
  show ?thesis
    by (rule reads_weaken [OF reads_then [OF reads_u8 content,
            where p = "\<lambda>c. case c of VVariant _ tag _ \<Rightarrow> tag | _ \<Rightarrow> 0"]])
       (auto split: ShapeValue.splits)
qed

lemma reads_node_read:
  "max_encoded_len n = Some most \<Longrightarrow> reads (node_read n) (node_flat n) (node_valid unalike n)"
proof (induction n arbitrary: most rule: node_induct)
  case (Leaf n)
  show ?case
    by (insert Leaf, elim insertE emptyE)
       (auto intro!: reads_con [OF reads_bool] reads_con [OF reads_word] simp: node_valid_iff simp del: node_valid.simps)
next
  case (Text cap)
  show ?case
    by (auto intro!: reads_con [OF hbor.dec_reads [OF hbor_capped_string]] simp: node_valid_iff simp del: node_valid.simps)
next
  case (ByteArray k)
  show ?case by (auto intro!: reads_con [OF reads_slice] simp: node_valid_iff simp del: node_valid.simps)
next
  case (Seq cap n)
  then obtain m where m: "max_encoded_len n = Some m" "0 < min_encoded_len n" by (auto split: if_splits)
  have "reads (op_then (read_len_check (min_encoded_len n) cap) (\<lambda>len. op_times len (node_read n)))
      (vec_flat (node_flat n)) (\<lambda>xs. list_all (node_valid unalike n) xs \<and> length xs \<le> cap)"
    by (rule reads_weaken [OF reads_capped [OF reads_times [OF Seq.IH [OF m(1)]], where p = length, OF _ _ m(2)]])
       (auto simp: vec_flat_def list_all_iff intro!: wire_each_length node_flat_wide)
  then show ?case unfolding node_read.simps
    by (rule reads_con) (auto simp: node_valid_iff simp del: node_valid.simps)
next
  case (Set cap n)
  then obtain m where m: "max_encoded_len n = Some m" "0 < min_encoded_len n" by (auto split: if_splits)
  have keyed: "node_flat n v d m = Ok b \<Longrightarrow> \<exists>c. node_flat n v 0 0 = Ok c" for v d m b
    using level_freeD [OF level_free_node, of n v d m 0 0] by auto
  have "reads (read_spans (min_encoded_len n) cap (op_span (node_read n))) (vec_flat (node_flat n))
      (\<lambda>xs. list_all (node_valid unalike n) xs \<and> distinct (map (\<lambda>v. node_flat n v 0 0) xs) \<and> length xs \<le> cap)"
    by (rule reads_spans [OF reads_span [OF Set.IH [OF m(1)] level_free_node] node_flat_wide m(2) keyed])
  then show ?case unfolding node_read.simps
    by (rule reads_con) (auto simp: unalike_def [symmetric] node_valid_iff simp del: node_valid.simps)
next
  case (Map cap k n)
  then obtain m m' where m: "max_encoded_len k = Some m" "max_encoded_len n = Some m'"
    "0 < usize_add (min_encoded_len k) (min_encoded_len n)"
    by (auto split: if_splits option.splits)
  let ?ok = "node_valid unalike"
  have entry: "reads (op_then (op_span (node_read k)) (\<lambda>(x, span). op_map (\<lambda>y. ((x, y), span)) (node_read n)))
      (\<lambda>x. entry_wire (node_flat k) (node_flat n) (fst x))
      (\<lambda>x. (?ok k (fst (fst x)) \<and> ?ok n (snd (fst x))) \<and> node_flat k (fst (fst x)) 0 0 = Ok (snd x))"
    using reads_span_entry [OF Map.IH(1) [OF m(1)] Map.IH(2) [OF m(2)] level_free_node] .
  have wide: "usize_add (min_encoded_len k) (min_encoded_len n) \<le> length b"
    if e: "?ok k (fst e) \<and> ?ok n (snd e)" "entry_wire (node_flat k) (node_flat n) e d m = Ok b" for e d m b
  proof -
    obtain x y where b: "node_flat k (fst e) d m = Ok x" "node_flat n (snd e) d m = Ok y" "b = x @ y"
      using e(2) by (auto simp: entry_wire_def wire_seq_Ok)
    have "min_encoded_len k \<le> length x" "min_encoded_len n \<le> length y"
      using e(1) b(1,2) by (auto intro: node_flat_wide)
    with b(3) show ?thesis by (simp add: usize_add_def min_def)
  qed
  have keyed: "entry_wire (node_flat k) (node_flat n) e d m = Ok b \<Longrightarrow> \<exists>c. node_flat k (fst e) 0 0 = Ok c" for e d m b
    using level_freeD [OF level_free_node, of k "fst e" d m 0 0] by (auto simp: entry_wire_def wire_seq_Ok)
  have keys: "distinct (map (\<lambda>e. node_flat k (fst e) 0 0) es) = unalike k (map fst es)" for es :: "(ShapeValue \<times> ShapeValue) list"
    by (simp add: unalike_def comp_def)
  show ?case unfolding node_read.simps
    by (rule reads_con [OF reads_spans [OF entry wide m(3) keyed]])
       (auto simp: keys node_valid_iff simp del: node_valid.simps)
next
  case (Option n)
  then obtain m where "max_encoded_len n = Some m" by auto
  from reads_option_read [OF Option.IH [OF this]] show ?case unfolding node_read.simps by (rule reads_con) (auto simp: node_valid_iff simp del: node_valid.simps)
next
  case (Tuple ns)
  then have "reads (node_read n) (node_flat n) (node_valid unalike n)" if "n \<in> set ns" for n
    using max_encoded_len_members(1) [OF Tuple.prems that] Tuple.IH [OF that] by auto
  then have "reads (read_members (map node_read ns)) (fields_flat (map node_flat ns))
      (\<lambda>vs. list_all2 (\<lambda>P. P) (map (node_valid unalike) ns) vs)"
    by (rule reads_members)
  then show ?case unfolding node_read.simps
    by (rule reads_con) (auto simp: node_valid_iff simp del: node_valid.simps)
next
  case (Struct ms)
  then have "reads (node_read n) (node_flat n) (node_valid unalike n)" if "n \<in> set (map snd ms)" for n
    using max_encoded_len_members(2) [OF Struct.prems, of n] that by fastforce
  then have members: "reads (read_members (map node_read (map snd ms))) (fields_flat (map node_flat (map snd ms)))
      (\<lambda>vs. list_all2 (\<lambda>P. P) (map (node_valid unalike) (map snd ms)) vs)"
    by (rule reads_members)
  show ?case
    unfolding node_read.simps node_flat.simps members_map
    by (rule reads_weaken [OF reads_map [OF members, where g = "\<lambda>v. case v of VStruct vs \<Rightarrow> map snd vs | _ \<Rightarrow> []"]])
       (auto simp: node_valid_iff zip_names simp del: node_valid.simps dest: list_all2_lengthD
         split: ShapeValue.splits)
next
  case (Enum vs)
  have "reads (node_read n) (node_flat n) (node_valid unalike n)" if "variant_at tag vs = Some (name, n)" for tag name n
    using max_encoded_len_members(3) [OF Enum.prems variant_at_mem] Enum.IH [OF variant_at_mem] that by fastforce
  from reads_enum [OF this] show ?case unfolding node_read.simps by (auto simp: node_valid_iff simp del: node_valid.simps)
next
  case (Named name n)
  then show ?case by simp
qed

section \<open>The reader of a table\<close>

lemma refs_below: "table_ok t \<Longrightarrow> table_get t nid = Some node \<Longrightarrow> r \<in> set (refs node) \<Longrightarrow> unat r < unat nid"
  by (auto simp: table_ok_def table_get_def split: if_splits)

lemma measure_at: "table_ok t \<Longrightarrow> table_get t nid = Some node \<Longrightarrow> \<exists>m. measure_of t nid = Some m"
  by (auto simp: table_ok_def table_get_def measure_of_def split: if_splits)

lemma matched_get: "table_matches t n nid = Some True \<Longrightarrow> \<exists>node. table_get t nid = Some node"
  by (cases n) (auto simp: matches_iff)

lemma matched_folds: "table_ok t \<Longrightarrow> table_matches t n nid = Some True \<Longrightarrow> \<exists>m. measure_of t nid = Some m \<and> folds_to n m"
  using matched_get measure_at matched_measure by blast

lemma matched_least: "table_ok t \<Longrightarrow> table_matches t n nid = Some True \<Longrightarrow> table_least t nid = Some (min_encoded_len n)"
  by (auto simp: table_least_def folds_to_def dest!: matched_folds)

lemma op_map_then: "op_map f (op_then m g) = op_then m (\<lambda>a. op_map f (g a))"
  by (simp add: op_map_def op_then_assoc)

lemma read_map_lift:
  "read_map (rd_lift kr) (rd_lift vr) (Some k) (Some v) cap =
    rd_lift (op_map VMap (read_spans (usize_add k v) (unat cap)
      (op_then (op_span kr) (\<lambda>(x, span). op_map (\<lambda>y. ((x, y), span)) vr))))"
proof -
  have entry: "rd_then (rd_lift (op_span kr)) (\<lambda>(x, span). rd_lift (op_map (\<lambda>y. ((x, y), span)) vr)) =
      rd_lift (op_then (op_span kr) (\<lambda>(x, span). op_map (\<lambda>y. ((x, y), span)) vr))"
    by (simp add: split_beta')
  have unique: "op_unique spans (VMap es) = op_map VMap (op_unique spans es)" for spans and es :: "(ShapeValue \<times> ShapeValue) list"
    by (simp add: op_unique_eq op_map_def)
  show ?thesis unfolding read_map_def run_length_def read_spans_def
    by (simp only: option.case prod.case rd_lift_simps entry unique op_map_then)
qed

lemma variant_at_matched:
  assumes "list_all2 (\<lambda>v e. fst e = fst v \<and> fst (snd e) = fst (snd v) \<and> Q (snd (snd v)) (snd (snd e))) vs es"
  shows "(variant_at tag vs = None \<and> variant_at tag es = None) \<or>
    (\<exists>name n e. variant_at tag vs = Some (name, n) \<and> variant_at tag es = Some (name, e) \<and> Q n e \<and>
      e \<in> set (map (\<lambda>v. snd (snd v)) es))"
  using assms
proof induction
  case (Cons v vs e es)
  then show ?case by (cases v; cases e; cases "fst (snd v) = tag") auto
qed simp

lemma fuel_below:
  "table_ok t \<Longrightarrow> table_get t nid = Some node \<Longrightarrow> unat nid < Suc f \<Longrightarrow> r \<in> set (refs node) \<Longrightarrow> unat r < f"
  by (auto dest: refs_below)

lemma read_from_tree:
  "table_ok t \<Longrightarrow> table_matches t n nid = Some True \<Longrightarrow> unat nid < Suc f \<Longrightarrow> read_from (Suc f) t nid = rd_lift (node_read n)"
proof (induction n arbitrary: nid f rule: node_induct)
  case (Leaf n)
  then show ?case by (auto simp: matches_iff)
next
  case (Seq cap n)
  then obtain c e where e: "table_get t nid = Some (TSeq c e)" "unat c = cap" "table_matches t n e = Some True"
    by (auto simp: matches_iff)
  from fuel_below [OF Seq.prems(1) e(1) Seq.prems(3), of e] obtain g where "f = Suc g" "unat e < Suc g" by (cases f) auto
  with e Seq.IH [OF Seq.prems(1) e(3)] matched_least [OF Seq.prems(1) e(3)] show ?case by (simp add: read_run_lift del: read_from.simps(2)) (simp add: read_run_lift)
next
  case (Set cap n)
  then obtain c e where e: "table_get t nid = Some (TSet c e)" "unat c = cap" "table_matches t n e = Some True"
    by (auto simp: matches_iff)
  from fuel_below [OF Set.prems(1) e(1) Set.prems(3), of e] obtain g where "f = Suc g" "unat e < Suc g" by (cases f) auto
  with e Set.IH [OF Set.prems(1) e(3)] matched_least [OF Set.prems(1) e(3)] show ?case
    by (simp add: read_run_lift del: read_from.simps(2)) (simp add: read_run_lift)
next
  case (Map cap k n)
  then obtain c e e' where e: "table_get t nid = Some (TMap c e e')" "unat c = cap"
    "table_matches t k e = Some True" "table_matches t n e' = Some True"
    by (auto simp: matches_iff)
  from fuel_below [OF Map.prems(1) e(1) Map.prems(3)] obtain g where g: "f = Suc g" "unat e < Suc g" "unat e' < Suc g"
    by (cases f) auto
  note kids = Map.IH(1) [OF Map.prems(1) e(3) g(2)] Map.IH(2) [OF Map.prems(1) e(4) g(3)]
  then show ?case using e g matched_least [OF Map.prems(1) e(3)] matched_least [OF Map.prems(1) e(4)]
    by (simp only: read_from.simps(2) [of "Suc g"] option.case TypeShape.case kids read_map_lift node_read.simps)
next
  case (Option n)
  then obtain e where e: "table_get t nid = Some (TOption e)" "table_matches t n e = Some True"
    by (auto simp: matches_iff)
  from fuel_below [OF Option.prems(1) e(1) Option.prems(3), of e] obtain g where g: "f = Suc g" "unat e < Suc g" by (cases f) auto
  have "rd_lift (op_map VOption (option_read m)) = rd_then (rd_lift read_u8) (\<lambda>tag.
         if tag = 0 then rd_lift (op_ok (VOption None))
         else if tag = 1 then rd_map (\<lambda>v. VOption (Some v)) (rd_lift m)
         else rd_lift (op_err (InvalidDiscriminant tag)))" for m
    unfolding option_read_def op_map_then rd_lift_simps(1) [symmetric]
    by (rule arg_cong [where f = "rd_then (rd_lift read_u8)"]) (auto simp: op_map_def op_then_assoc)
  then show ?case using e g Option.IH [OF Option.prems(1) e(2) g(2)]
    by (simp only: read_from.simps(2) [of "Suc g"] option.case TypeShape.case node_read.simps)
next
  case (Tuple ns)
  then obtain es where es: "table_get t nid = Some (TTuple es)"
    "list_all2 (\<lambda>n e. table_matches t n e = Some True) ns es"
    by (auto simp: matches_iff)
  have "read_from f t e = rd_lift (node_read n)" if "n \<in> set ns" "e \<in> set es" "table_matches t n e = Some True" for n e
    using fuel_below [OF Tuple.prems(1) es(1) Tuple.prems(3), of e] Tuple.IH [OF that(1) Tuple.prems(1) that(3)] that(2)
    by (cases f) auto
  then have "list_all2 (\<lambda>n e. read_from f t e = rd_lift (node_read n)) ns es"
    by (rule list.rel_mono_strong [OF es(2)])
  then have "map (read_from f t) es = map (\<lambda>n. rd_lift (node_read n)) ns" by induction simp_all
  with es show ?case by (simp add: rd_list_lift)
next
  case (Struct ms)
  then obtain es where es: "table_get t nid = Some (TStruct es)"
    "list_all2 (\<lambda>m e. fst e = fst m \<and> table_matches t (snd m) (snd e) = Some True) ms es"
    by (auto simp: matches_iff)
  have "read_from f t (snd e) = rd_lift (node_read (snd m)) \<and> fst e = fst m"
    if "m \<in> set ms" "e \<in> set es" "fst e = fst m \<and> table_matches t (snd m) (snd e) = Some True" for m e
    using fuel_below [OF Struct.prems(1) es(1) Struct.prems(3), of "snd e"] Struct.IH [of "fst m" "snd m" "snd e"] Struct.prems(1) that
    by (cases f) auto
  then have "list_all2 (\<lambda>m e. read_from f t (snd e) = rd_lift (node_read (snd m)) \<and> fst e = fst m) ms es"
    by (rule list.rel_mono_strong [OF es(2)])
  then have "map (\<lambda>e. read_from f t (snd e)) es = map (\<lambda>n. rd_lift (node_read n)) (map snd ms)" "map fst es = map fst ms"
    by (induction) simp_all
  with es show ?case by (simp add: rd_list_lift members_map comp_def)
next
  case (Enum vs)
  then obtain es where es: "table_get t nid = Some (TEnum es)"
    "list_all2 (\<lambda>v e. fst e = fst v \<and> fst (snd e) = fst (snd v) \<and> table_matches t (snd (snd v)) (snd (snd e)) = Some True) vs es"
    by (auto simp: matches_iff)
  have "(case variant_at tag es of None \<Rightarrow> rd_lift (op_err (InvalidDiscriminant tag))
        | Some (name, content) \<Rightarrow> rd_map (VVariant name tag) (read_from f t content)) =
      rd_lift (case variant_at tag (map (map_prod id (map_prod id node_read)) vs) of
        None \<Rightarrow> op_err (InvalidDiscriminant tag) | Some (name, content) \<Rightarrow> op_map (VVariant name tag) content)" for tag
    using variant_at_matched [OF es(2), of tag]
  proof (elim disjE exE conjE)
    fix name n e
    assume at: "variant_at tag vs = Some (name, n)" "variant_at tag es = Some (name, e)"
      and e: "table_matches t n e = Some True" "e \<in> set (map (\<lambda>v. snd (snd v)) es)"
    from fuel_below [OF Enum.prems(1) es(1) Enum.prems(3), of e] e(2) obtain g where "f = Suc g" "unat e < Suc g"
      by (cases f) auto
    with at Enum.IH [OF variant_at_mem [OF at(1)] Enum.prems(1) e(1)] show ?thesis by (simp del: read_from.simps)
  qed simp
  with es(1) show ?case by simp
next
  case (Named nm n)
  then obtain e where e: "table_get t nid = Some (TNamed nm e)" "table_matches t n e = Some True"
    by (auto simp: matches_iff)
  from fuel_below [OF Named.prems(1) e(1) Named.prems(3), of e] obtain g where "f = Suc g" "unat e < Suc g" by (cases f) auto
  with e Named.IH [OF Named.prems(1) e(2)] show ?case by simp
qed (auto simp: matches_iff)

text \<open>Every node a table holds unfolds into a tree.\<close>

lemma unfold_list: "(\<And>e. e \<in> set es \<Longrightarrow> \<exists>n. Q n e) \<Longrightarrow> \<exists>ns. list_all2 Q ns es"
proof (induction es)
  case (Cons e es)
  then obtain n ns where "Q n e" "list_all2 Q ns es" by (meson list.set_intros)
  then show ?case by (metis list_all2_Cons)
qed simp

fun tree_node :: "TypeShape \<Rightarrow> ShapeNode list \<Rightarrow> ShapeNode" where
  "tree_node TBool _ = NBool"
| "tree_node TU8 _ = NU8"
| "tree_node TU16 _ = NU16"
| "tree_node TU32 _ = NU32"
| "tree_node TU64 _ = NU64"
| "tree_node TU128 _ = NU128"
| "tree_node TI8 _ = NI8"
| "tree_node TI16 _ = NI16"
| "tree_node TI32 _ = NI32"
| "tree_node TI64 _ = NI64"
| "tree_node TI128 _ = NI128"
| "tree_node (TText cap) _ = NText (unat cap)"
| "tree_node (TByteArray width) _ = NByteArray (unat width)"
| "tree_node (TSeq cap _) ns = NSeq (unat cap) (hd ns)"
| "tree_node (TSet cap _) ns = NSet (unat cap) (hd ns)"
| "tree_node (TMap cap _ _) ns = NMap (unat cap) (hd ns) (hd (tl ns))"
| "tree_node (TOption _) ns = NOption (hd ns)"
| "tree_node (TTuple _) ns = NTuple ns"
| "tree_node (TStruct members) ns = NStruct (map2 (\<lambda>m n. (fst m, n)) members ns)"
| "tree_node (TEnum variants) ns = NEnum (map2 (\<lambda>v n. (fst v, fst (snd v), n)) variants ns)"
| "tree_node (TNamed name _) ns = NNamed name (hd ns)"

lemma tree_node_matches:
  assumes "table_get t nid = Some node" "list_all2 (\<lambda>n e. table_matches t n e = Some True) ns (refs node)"
  shows "table_matches t (tree_node node ns) nid = Some True"
proof (cases node)
  case (TStruct ms)
  with assms show ?thesis by (auto simp: matches_iff list_all2_conv_all_nth)
next
  case (TEnum vs)
  with assms show ?thesis by (auto simp: matches_iff list_all2_conv_all_nth)
qed (use assms in \<open>auto simp: matches_iff list_all2_Cons2\<close>)

lemma tree_exists: "table_ok t \<Longrightarrow> table_get t nid = Some node \<Longrightarrow> \<exists>n. table_matches t n nid = Some True"
proof (induction "unat nid" arbitrary: nid node rule: less_induct)
  case less
  have "\<exists>n. table_matches t n e = Some True" if e: "e \<in> set (refs node)" for e
  proof -
    have below: "unat e < unat nid" by (rule refs_below [OF less.prems e])
    then have "\<exists>node'. table_get t e = Some node'" using less.prems by (auto simp: table_get_def split: if_splits)
    with less.hyps [OF below less.prems(1)] show ?thesis by blast
  qed
  then have "\<exists>ns. list_all2 (\<lambda>n e. table_matches t n e = Some True) ns (refs node)" by (rule unfold_list)
  with tree_node_matches [OF less.prems(2)] show ?case by blast
qed

definition tree_read :: "ShapeNode \<Rightarrow> bytes \<Rightarrow> (DecodeError, ShapeValue) result" where
  "tree_read n bs = from_slice (node_read n) bs"

lemma table_read_tree:
  assumes "table_ok t" "table_matches t n nid = Some True"
  shows "table_read t nid bs = Some (tree_read n bs)"
proof -
  obtain f where "length (st_nodes t) = Suc f" "unat nid < Suc f"
    using matched_get [OF assms(2)] by (cases "length (st_nodes t)") (auto simp: table_get_def split: if_splits)
  then show ?thesis using read_from_tree [OF assms, of f]
    by (auto simp: table_read_def tree_read_def from_slice_def from_slice_with_depth_def rd_lift_def split: prod.splits result.splits)
qed

subsection \<open>What a table read answers\<close>

lemma matched_most:
  "table_ok t \<Longrightarrow> table_matches t n nid = Some True \<Longrightarrow> \<exists>most. max_encoded_len n = Some most \<and> table_most t nid = Some most"
  by (auto simp: table_most_def folds_to_def dest!: matched_folds)

lemma matched_depth:
  "table_ok t \<Longrightarrow> table_matches t n nid = Some True \<Longrightarrow> table_depth t nid = Some (max_depth n) \<and> max_depth n \<le> DEFAULT_MAX_DEPTH"
  using matched_folds [of t n nid]
  by (auto simp: table_depth_def folds_to_def table_ok_def measure_of_def split: if_splits)

text \<open>The reader of a tree accepts a value's flat wire form and nothing else.\<close>

lemma tree_read_iff:
  assumes "max_encoded_len n = Some most"
  shows "tree_read n bs = Ok v \<longleftrightarrow> node_valid unalike n v \<and> node_flat n v 0 0 = Ok bs"
proof -
  have run: "node_read n (decoder_new bs DEFAULT_MAX_DEPTH) = (Ok v, d) \<longleftrightarrow> node_valid unalike n v \<and>
      (\<exists>b rest. node_flat n v 0 0 = Ok b \<and> bs = b @ rest \<and> d = (decoder_new bs DEFAULT_MAX_DEPTH)\<lparr> d_cursor := length b \<rparr>)" for v d
    using reads_node_read [OF assms, unfolded reads_def, rule_format, of "decoder_new bs DEFAULT_MAX_DEPTH" v d]
      level_freeD [OF level_free_node, of n v 0 DEFAULT_MAX_DEPTH 0 0]
    by (simp add: in_bounds_def decoder_new_def)
  show ?thesis
  proof
    assume "tree_read n bs = Ok v"
    then obtain d where "node_read n (decoder_new bs DEFAULT_MAX_DEPTH) = (Ok v, d)" "d_remaining d = 0"
      by (auto simp: tree_read_def from_slice_def from_slice_with_depth_def dec_finish_def split: prod.splits result.splits if_splits)
    then show "node_valid unalike n v \<and> node_flat n v 0 0 = Ok bs"
      unfolding run by (auto simp: d_remaining_def decoder_new_def)
  next
    assume "node_valid unalike n v \<and> node_flat n v 0 0 = Ok bs"
    then have "node_read n (decoder_new bs DEFAULT_MAX_DEPTH) = (Ok v, (decoder_new bs DEFAULT_MAX_DEPTH)\<lparr> d_cursor := length bs \<rparr>)"
      by (simp add: run)
    then show "tree_read n bs = Ok v"
      by (simp add: tree_read_def from_slice_def from_slice_with_depth_def dec_finish_def d_remaining_def decoder_new_def)
  qed
qed

lemma flat_inj:
  assumes "max_encoded_len n = Some most" "node_valid unalike n v" "node_valid unalike n v'"
    "node_flat n v 0 0 = Ok b" "node_flat n v' 0 0 = Ok b"
  shows "v = v'"
  using assms tree_read_iff [OF assms(1), of b v] tree_read_iff [OF assms(1), of b v'] by simp

lemma ascending_distinct:
  assumes "transp le" "\<And>a b. le a b \<or> le b a" "ascending le xs"
  shows "distinct xs"
proof -
  have "transp (\<lambda>a b. \<not> le b a)"
  proof (rule transpI)
    fix a b c assume "\<not> le b a" "\<not> le c b"
    with assms(2) [of a b] show "\<not> le c a" using transpD [OF assms(1), of c a b] by blast
  qed
  then have "sorted_wrt (\<lambda>a b. \<not> le b a) xs" using assms(3) by (simp add: ascending_def successively_conv_sorted_wrt)
  then show ?thesis
  proof (induction xs)
    case (Cons x xs)
    moreover have "le x x" using assms(2) by blast
    ultimately show ?case by auto
  qed simp
qed

lemma wire_each_members: "wire_each w xs d m = Ok b \<Longrightarrow> x \<in> set xs \<Longrightarrow> \<exists>c. w x d m = Ok c"
  by (induction xs arbitrary: b) (auto simp: wire_seq_Ok)

lemma distinct_unalike:
  assumes "max_encoded_len n = Some most" "distinct xs" "\<And>x. x \<in> set xs \<Longrightarrow> node_valid unalike n x"
    "\<And>x. x \<in> set xs \<Longrightarrow> \<exists>c. node_flat n x 0 0 = Ok c"
  shows "unalike n xs"
  unfolding unalike_def distinct_map
proof (intro conjI inj_onI)
  fix x y assume xy: "x \<in> set xs" "y \<in> set xs" "node_flat n x 0 0 = node_flat n y 0 0"
  with assms(4) [OF xy(1)] show "x = y" using flat_inj [OF assms(1) assms(3) [OF xy(1)] assms(3) [OF xy(2)]] by auto
qed (rule assms(2))

lemma fields_flat_members:
  "fields_flat (map f ns) vs d m = Ok b \<Longrightarrow> list_all2 P ns vs \<Longrightarrow> list_all2 (\<lambda>n v. P n v \<and> (\<exists>c. f n v d m = Ok c)) ns vs"
  by (rotate_tac, induction arbitrary: b rule: list_all2_induct) (auto simp: wire_seq_Ok)

text \<open>Members in a strict order have bytes of their own.\<close>

lemma ordered_unalike:
  assumes le: "\<And>n. transp (le n)" "\<And>n a b. le n a b \<or> le n b a"
  shows "max_encoded_len n = Some most \<Longrightarrow> node_valid (\<lambda>n. ascending (le n)) n v \<Longrightarrow> node_flat n v 0 0 = Ok b \<Longrightarrow>
    node_valid unalike n v"
proof (induction n arbitrary: most v b rule: node_induct)
  case (Leaf n)
  then show ?case by auto
next
  case (Seq cap n)
  then obtain m xs where m: "max_encoded_len n = Some m" and xs: "v = VSeq xs" "length xs \<le> cap"
    "list_all (node_valid (\<lambda>n. ascending (le n)) n) xs" "vec_flat (node_flat n) xs 0 0 = Ok b"
    by (auto split: if_splits ShapeValue.splits)
  from xs(3,4) Seq.IH [OF m] have "list_all (node_valid unalike n) xs"
    by (auto simp: list_all_iff vec_flat_def wire_seq_Ok dest: wire_each_members)
  with xs show ?case by simp
next
  case (Set cap n)
  then obtain m xs where m: "max_encoded_len n = Some m" and xs: "v = VSet xs" "length xs \<le> cap"
    "list_all (node_valid (\<lambda>n. ascending (le n)) n) xs" "ascending (le n) xs" "vec_flat (node_flat n) xs 0 0 = Ok b"
    by (auto split: if_splits ShapeValue.splits)
  from xs(5) have wires: "\<exists>c. node_flat n x 0 0 = Ok c" if "x \<in> set xs" for x
    using that by (auto simp: vec_flat_def wire_seq_Ok dest: wire_each_members)
  with xs(3) Set.IH [OF m] have valid: "node_valid unalike n x" if "x \<in> set xs" for x
    using that by (force simp: list_all_iff)
  from distinct_unalike [OF m ascending_distinct [OF le xs(4)] valid wires] valid xs show ?case by (auto simp: list_all_iff)
next
  case (Map cap k n)
  then obtain m m' es where m: "max_encoded_len k = Some m" "max_encoded_len n = Some m'" and es: "v = VMap es" "length es \<le> cap"
    "\<And>e. e \<in> set es \<Longrightarrow> node_valid (\<lambda>n. ascending (le n)) k (fst e) \<and> node_valid (\<lambda>n. ascending (le n)) n (snd e)"
    "ascending (le k) (map fst es)" "vec_flat (entry_wire (node_flat k) (node_flat n)) es 0 0 = Ok b"
    by (auto simp: list_all_iff split: if_splits option.splits ShapeValue.splits)
  have wires: "(\<exists>c. node_flat k (fst e) 0 0 = Ok c) \<and> (\<exists>c. node_flat n (snd e) 0 0 = Ok c)" if "e \<in> set es" for e
    using es(5) that by (fastforce simp: vec_flat_def entry_wire_def wire_seq_Ok dest: wire_each_members)
  then have valid: "node_valid unalike k (fst e) \<and> node_valid unalike n (snd e)" if "e \<in> set es" for e
    using es(3) [OF that] Map.IH(1) [OF m(1)] Map.IH(2) [OF m(2)] that by blast
  have "unalike k (map fst es)"
    by (rule distinct_unalike [OF m(1) ascending_distinct [OF le es(4)]]) (use valid wires in auto)
  with valid es show ?case by (simp add: list_all_iff)
next
  case (Option n)
  then show ?case by (auto simp: option_flat_def wire_seq_Ok split: ShapeValue.splits option.splits)
next
  case (Tuple ns)
  then obtain vs where vs: "v = VTuple vs" "list_all2 (node_valid (\<lambda>n. ascending (le n))) ns vs"
    "fields_flat (map node_flat ns) vs 0 0 = Ok b"
    by (auto simp: list_all2_map1 split: ShapeValue.splits)
  have "node_valid unalike n x"
    if "n \<in> set ns" "node_valid (\<lambda>n. ascending (le n)) n x \<and> (\<exists>c. node_flat n x 0 0 = Ok c)" for n x
    using max_encoded_len_members(1) [OF Tuple.prems(1) that(1)] Tuple.IH [OF that(1)] that(2) by blast
  then have "list_all2 (node_valid unalike) ns vs"
    using list.rel_mono_strong [OF fields_flat_members [OF vs(3,2)]] by blast
  with vs(1) show ?case by (simp add: list_all2_map1)
next
  case (Struct ms)
  then obtain vs where vs: "v = VStruct vs" "map fst vs = map fst ms"
    "list_all2 (node_valid (\<lambda>n. ascending (le n))) (map snd ms) (map snd vs)"
    "fields_flat (map node_flat (map snd ms)) (map snd vs) 0 0 = Ok b"
    unfolding node_valid.simps node_flat.simps members_map by (auto simp: list_all2_map1 simp del: map_map split: ShapeValue.splits)
  have "node_valid unalike n x"
    if "n \<in> set (map snd ms)" "node_valid (\<lambda>n. ascending (le n)) n x \<and> (\<exists>c. node_flat n x 0 0 = Ok c)" for n x
    using max_encoded_len_members(2) [OF Struct.prems(1), of n] Struct.IH that by fastforce
  then have "list_all2 (node_valid unalike) (map snd ms) (map snd vs)"
    using list.rel_mono_strong [OF fields_flat_members [OF vs(4,3)]] by blast
  with vs(1,2) show ?case unfolding node_valid.simps members_map by (simp add: list_all2_map1)
next
  case (Enum vs)
  then obtain name tag c n b' where at: "v = VVariant name tag c" "variant_at tag vs = Some (name, n)"
    "node_valid (\<lambda>n. ascending (le n)) n c" "node_flat n c 0 0 = Ok b'"
    by (auto simp: wire_seq_Ok split: ShapeValue.splits option.splits)
  from max_encoded_len_members(3) [OF Enum.prems(1) variant_at_mem [OF at(2)]] Enum.IH [OF variant_at_mem [OF at(2)] _ at(3,4)]
  show ?case using at by auto
qed auto

section \<open>Properties\<close>

text \<open>C26 A tree lowered by \<open>ShapeTable::declare\<close> into a sound table leaves a sound table in which the
  answered node matches the tree, and the figures stored for that node are the ones the codec
  folds off the tree itself: its least and most bytes and its depth, which is within what a
  decoder follows.\<close>

theorem declared_node_measures:
  assumes "table_ok t" "declare_node n t = (Ok nid, t')"
  shows "table_ok t' \<and> tb_extends t t' \<and> table_matches t' n nid = Some True \<and>
    table_least t' nid = Some (min_encoded_len n) \<and>
    table_most t' nid \<noteq> None \<and> table_most t' nid = max_encoded_len n \<and>
    table_depth t' nid = Some (max_depth n) \<and> max_depth n \<le> DEFAULT_MAX_DEPTH"
proof -
  have lowered: "table_ok t'" "tb_extends t t'" "table_matches t' n nid = Some True"
    using declares_node [of n] assms by (auto simp: declares_def)
  with matched_least [OF lowered(1,3)] matched_most [OF lowered(1,3)] matched_depth [OF lowered(1,3)]
  show ?thesis by auto
qed

lemmas declare_eval =
  declare_field_def declare_variant_def declare_named_def wide_op_def named_op_def op_fault_def
  push_def table_measure_def table_held_def measure_leaf_def measure_run_def measure_of_def
  table_new_def node_at_def usize_add_def usize_mul_def USIZE_MAX_def DEFAULT_MAX_DEPTH_def
  MAX_SHAPE_HEIGHT_def MAX_SHAPE_POSITIONS_def op_then_def Let_def

definition sample_table :: ShapeTable where
  "sample_table = snd (declare_node (NSet 4 NU8) table_new)"

lemma sample_declared: "declare_node (NSet 4 NU8) table_new = (Ok 1, sample_table)"
proof -
  have "fst (declare_node (NSet 4 NU8) table_new) = Ok 1" by (simp add: declare_eval)
  then show ?thesis by (cases "declare_node (NSet 4 NU8) table_new") (simp add: sample_table_def)
qed

lemma sample_sound: "table_ok sample_table" "table_matches sample_table (NSet 4 NU8) 1 = Some True"
  using declares_node [of "NSet 4 NU8"] table_ok_new sample_declared unfolding declares_def by blast+

theorem declared_node_measures_witness:
  "declare_node (NSet 4 NU8) table_new = (Ok 1, sample_table) \<and> table_ok table_new \<and>
   table_depth sample_table 1 = Some (max_depth (NSet 4 NU8))"
  using declared_node_measures [OF table_ok_new sample_declared] sample_declared table_ok_new by blast




definition byte_order :: "ShapeNode \<Rightarrow> ShapeValue \<Rightarrow> ShapeValue \<Rightarrow> bool" where
  "byte_order n a b = ((case a of VU8 x \<Rightarrow> unat x | _ \<Rightarrow> 0) \<le> (case b of VU8 x \<Rightarrow> unat x | _ \<Rightarrow> 0))"


end
