(* ===== verification/ShapeWire.thy ===== *)
theory ShapeWire
  imports ShapeTable
begin

text \<open>
  A shape table on the wire (\<open>crates/hbor/src/shape.rs\<close>): the derived codec of its nodes, and
  the table's own, which writes the nodes alone and rebuilds the rest by pushing them one
  by one.
\<close>

section \<open>The table on the wire\<close>

definition triple_wire :: "('a \<Rightarrow> wire) \<Rightarrow> ('b \<Rightarrow> wire) \<Rightarrow> ('c \<Rightarrow> wire) \<Rightarrow> 'a \<times> 'b \<times> 'c \<Rightarrow> wire" where
  "triple_wire u v w x = wire_seq (wire_nest (u (fst x))) (wire_seq (wire_nest (v (fst (snd x)))) (wire_nest (w (snd (snd x)))))"

primrec ts_tag :: "TypeShape \<Rightarrow> u8" where
  "ts_tag TBool = 0"
| "ts_tag TU8 = 1"
| "ts_tag TU16 = 2"
| "ts_tag TU32 = 3"
| "ts_tag TU64 = 4"
| "ts_tag TU128 = 5"
| "ts_tag TI8 = 6"
| "ts_tag TI16 = 7"
| "ts_tag TI32 = 8"
| "ts_tag TI64 = 9"
| "ts_tag TI128 = 10"
| "ts_tag (TText _) = 11"
| "ts_tag (TByteArray _) = 12"
| "ts_tag (TSeq _ _) = 13"
| "ts_tag (TSet _ _) = 14"
| "ts_tag (TMap _ _ _) = 15"
| "ts_tag (TOption _) = 16"
| "ts_tag (TTuple _) = 17"
| "ts_tag (TStruct _) = 18"
| "ts_tag (TEnum _) = 19"
| "ts_tag (TNamed _ _) = 20"

primrec ts_body :: "TypeShape \<Rightarrow> wire" where
  "ts_body TBool = wire_lit []"
| "ts_body TU8 = wire_lit []"
| "ts_body TU16 = wire_lit []"
| "ts_body TU32 = wire_lit []"
| "ts_body TU64 = wire_lit []"
| "ts_body TU128 = wire_lit []"
| "ts_body TI8 = wire_lit []"
| "ts_body TI16 = wire_lit []"
| "ts_body TI32 = wire_lit []"
| "ts_body TI64 = wire_lit []"
| "ts_body TI128 = wire_lit []"
| "ts_body (TText cap) = wire_nest (word_wire cap)"
| "ts_body (TByteArray width) = wire_nest (word_wire width)"
| "ts_body (TSeq cap element) = pair_wire word_wire word_wire (cap, element)"
| "ts_body (TSet cap element) = pair_wire word_wire word_wire (cap, element)"
| "ts_body (TMap cap key val) = triple_wire word_wire word_wire word_wire (cap, key, val)"
| "ts_body (TOption held) = wire_nest (word_wire held)"
| "ts_body (TTuple elements) = wire_nest (vec_wire word_wire elements)"
| "ts_body (TStruct members) = wire_nest (vec_wire (pair_wire string_wire word_wire) members)"
| "ts_body (TEnum variants) = wire_nest (vec_wire (triple_wire string_wire word_wire word_wire) variants)"
| "ts_body (TNamed name shape) = pair_wire string_wire word_wire (name, shape)"

definition typeshape_wire :: "TypeShape \<Rightarrow> wire" where
  "typeshape_wire ts = wire_seq (wire_lit [ts_tag ts]) (ts_body ts)"

text \<open>A name in a table is a \<open>Name\<close>, which only \<open>Name::new\<close> and its decoder make.\<close>

primrec ts_named :: "TypeShape \<Rightarrow> bool" where
  "ts_named TBool = True"
| "ts_named TU8 = True"
| "ts_named TU16 = True"
| "ts_named TU32 = True"
| "ts_named TU64 = True"
| "ts_named TU128 = True"
| "ts_named TI8 = True"
| "ts_named TI16 = True"
| "ts_named TI32 = True"
| "ts_named TI64 = True"
| "ts_named TI128 = True"
| "ts_named (TText _) = True"
| "ts_named (TByteArray _) = True"
| "ts_named (TSeq _ _) = True"
| "ts_named (TSet _ _) = True"
| "ts_named (TMap _ _ _) = True"
| "ts_named (TOption _) = True"
| "ts_named (TTuple _) = True"
| "ts_named (TStruct members) = list_all (\<lambda>f. is_name (fst f)) members"
| "ts_named (TEnum variants) = list_all (\<lambda>v. is_name (fst v)) variants"
| "ts_named (TNamed name _) = is_name name"

context sink
begin

lemma emits_triple [emits_intros]:
  "emits (enc_a (fst x)) (u (fst x)) \<Longrightarrow> emits (enc_b (fst (snd x))) (v (fst (snd x))) \<Longrightarrow>
   emits (enc_c (snd (snd x))) (w (snd (snd x))) \<Longrightarrow> emits (triple_encode enc_a enc_b enc_c x) (triple_wire u v w x)"
  unfolding triple_encode_def triple_wire_def by (intro emits_intros)

lemma emits_name [emits_intros]: "emits (name_encode S nm) (string_wire nm)"
  using emits_string [of nm] by (simp add: name_encode_def string_encode_def)

lemma emits_typeshape: "emits (typeshape_encode S ts) (typeshape_wire ts)"
  unfolding typeshape_wire_def
  by (cases ts)
     (auto simp: typeshape_encode_def field_encode_def variant_encode_def pair_wire_def triple_wire_def intro!: emits_intros)

end

lemma triple_pair:
  "triple_decode a b c = op_then (dec_descend a) (\<lambda>x. op_map (Pair x) (pair_decode b c))"
  by (simp add: triple_decode_def pair_decode_def op_map_def op_then_assoc)

lemma hbor_triple:
  assumes A: "hbor i enc_a dec_a u valid_a" and B: "hbor j enc_b dec_b v valid_b" and C: "hbor k enc_c dec_c w valid_c"
  shows "hbor (i + j + k) (triple_encode enc_a enc_b enc_c) (triple_decode dec_a dec_b dec_c) (triple_wire u v w)
    (\<lambda>x. valid_a (fst x) \<and> valid_b (fst (snd x)) \<and> valid_c (snd (snd x)))"
proof (rule hbor.intro)
  show "vs.emits (triple_encode enc_a enc_b enc_c x) (triple_wire u v w x)" for x
    by (rule vs.emits_triple [OF hbor.enc_emits [OF A] hbor.enc_emits [OF B] hbor.enc_emits [OF C]])
  show "reads (triple_decode dec_a dec_b dec_c) (triple_wire u v w)
      (\<lambda>x. valid_a (fst x) \<and> valid_b (fst (snd x)) \<and> valid_c (snd (snd x)))"
    unfolding triple_pair
    by (rule reads_weaken [OF reads_entry [OF reads_descend [OF hbor.dec_reads [OF A]]
            reads_pair [OF hbor.dec_reads [OF B] hbor.dec_reads [OF C]]]])
       (auto simp: triple_wire_def entry_wire_def pair_wire_def)
  show "i + j + k \<le> length b"
    if "valid_a (fst x) \<and> valid_b (fst (snd x)) \<and> valid_c (snd (snd x))" "triple_wire u v w x d m = Ok b" for x d m b
    using that hbor.wide [OF A] hbor.wide [OF B] hbor.wide [OF C]
    by (fastforce simp: triple_wire_def wire_seq_Ok wire_nest_Ok intro: add_mono)
qed

lemmas hbor_u8 = hbor_word [where 'w = 8, simplified]
lemmas hbor_u32 = hbor_word [where 'w = 32, simplified]

lemma hbor_field: "hbor 5 (field_encode vec_sink) field_decode (pair_wire string_wire word_wire) (\<lambda>f. is_name (fst f))"
  using hbor_pair [OF hbor_name hbor_u32] by (simp add: field_encode_def field_decode_def)

lemma hbor_variant:
  "hbor 6 (variant_encode vec_sink) variant_decode (triple_wire string_wire word_wire word_wire) (\<lambda>v. is_name (fst v))"
  using hbor_triple [OF hbor_name hbor_u8 hbor_u32] by (simp add: variant_encode_def variant_decode_def)


lemma reads_unary:
  "reads A u V \<Longrightarrow> (\<And>a a'. f a = f a' \<Longrightarrow> a = a') \<Longrightarrow> (\<And>a. ts_body (f a) = wire_nest (u a)) \<Longrightarrow>
   (\<And>c. V' c \<longleftrightarrow> (\<exists>a. c = f a \<and> V a)) \<Longrightarrow> reads (op_map f (dec_descend A)) ts_body V'"
  by (rule reads_con [OF reads_descend])

lemma ts_tag_iff:
  "ts_tag ts = 0 \<longleftrightarrow> ts = TBool"
  "ts_tag ts = 1 \<longleftrightarrow> ts = TU8"
  "ts_tag ts = 2 \<longleftrightarrow> ts = TU16"
  "ts_tag ts = 3 \<longleftrightarrow> ts = TU32"
  "ts_tag ts = 4 \<longleftrightarrow> ts = TU64"
  "ts_tag ts = 5 \<longleftrightarrow> ts = TU128"
  "ts_tag ts = 6 \<longleftrightarrow> ts = TI8"
  "ts_tag ts = 7 \<longleftrightarrow> ts = TI16"
  "ts_tag ts = 8 \<longleftrightarrow> ts = TI32"
  "ts_tag ts = 9 \<longleftrightarrow> ts = TI64"
  "ts_tag ts = 10 \<longleftrightarrow> ts = TI128"
  "ts_tag ts = 11 \<longleftrightarrow> (\<exists>c. ts = TText c)"
  "ts_tag ts = 12 \<longleftrightarrow> (\<exists>c. ts = TByteArray c)"
  "ts_tag ts = 13 \<longleftrightarrow> (\<exists>c e. ts = TSeq c e)"
  "ts_tag ts = 14 \<longleftrightarrow> (\<exists>c e. ts = TSet c e)"
  "ts_tag ts = 15 \<longleftrightarrow> (\<exists>c k v. ts = TMap c k v)"
  "ts_tag ts = 16 \<longleftrightarrow> (\<exists>e. ts = TOption e)"
  "ts_tag ts = 17 \<longleftrightarrow> (\<exists>es. ts = TTuple es)"
  "ts_tag ts = 18 \<longleftrightarrow> (\<exists>es. ts = TStruct es)"
  "ts_tag ts = 19 \<longleftrightarrow> (\<exists>es. ts = TEnum es)"
  "ts_tag ts = 20 \<longleftrightarrow> (\<exists>nm e. ts = TNamed nm e)"
  by (cases ts; simp)+

lemmas reads_u32 = reads_word [where 'w = 32, simplified]

lemma reads_leaf: "ts_body c = wire_lit [] \<Longrightarrow> ts_named c \<Longrightarrow> reads (op_ok c) ts_body (\<lambda>ts. ts = c \<and> ts_named ts)"
  by (rule reads_weaken [OF reads_ok]) auto

lemma reads_composite:
  "reads (op_map TText (dec_descend word_decode)) ts_body (\<lambda>ts. (\<exists>c. ts = TText c) \<and> ts_named ts)"
  "reads (op_map TByteArray (dec_descend word_decode)) ts_body (\<lambda>ts. (\<exists>c. ts = TByteArray c) \<and> ts_named ts)"
  "reads (op_map (\<lambda>(cap, element). TSeq cap element) (pair_decode word_decode word_decode)) ts_body
    (\<lambda>ts. (\<exists>c e. ts = TSeq c e) \<and> ts_named ts)"
  "reads (op_map (\<lambda>(cap, element). TSet cap element) (pair_decode word_decode word_decode)) ts_body
    (\<lambda>ts. (\<exists>c e. ts = TSet c e) \<and> ts_named ts)"
  "reads (op_map (\<lambda>(cap, key, val). TMap cap key val) (triple_decode word_decode word_decode word_decode)) ts_body
    (\<lambda>ts. (\<exists>c k v. ts = TMap c k v) \<and> ts_named ts)"
  "reads (op_map TOption (dec_descend word_decode)) ts_body (\<lambda>ts. (\<exists>e. ts = TOption e) \<and> ts_named ts)"
  "reads (op_map TTuple (dec_descend (vec_decode 4 word_decode))) ts_body (\<lambda>ts. (\<exists>es. ts = TTuple es) \<and> ts_named ts)"
  "reads (op_map TStruct (dec_descend (vec_decode 5 field_decode))) ts_body (\<lambda>ts. (\<exists>es. ts = TStruct es) \<and> ts_named ts)"
  "reads (op_map TEnum (dec_descend (vec_decode 6 variant_decode))) ts_body (\<lambda>ts. (\<exists>es. ts = TEnum es) \<and> ts_named ts)"
  "reads (op_map (\<lambda>(name, shape). TNamed name shape) (pair_decode name_decode word_decode)) ts_body
    (\<lambda>ts. (\<exists>nm e. ts = TNamed nm e) \<and> ts_named ts)"
           apply (rule reads_unary [OF reads_u32]; auto)
          apply (rule reads_unary [OF reads_u32]; auto)
         apply (rule reads_con [OF hbor.dec_reads [OF hbor_pair [OF hbor_u32 hbor_u32]]]; auto)
        apply (rule reads_con [OF hbor.dec_reads [OF hbor_pair [OF hbor_u32 hbor_u32]]]; auto)
       apply (rule reads_con [OF hbor.dec_reads [OF hbor_triple [OF hbor_u32 hbor_u32 hbor_u32]]]; auto)
      apply (rule reads_unary [OF reads_u32]; auto)
     apply (rule reads_unary [OF hbor.dec_reads [OF hbor.vec_codec [OF hbor_u32]]]; auto simp: list_all_iff)
    apply (rule reads_unary [OF hbor.dec_reads [OF hbor.vec_codec [OF hbor_field]]]; auto)
   apply (rule reads_unary [OF hbor.dec_reads [OF hbor.vec_codec [OF hbor_variant]]]; auto)
  apply (rule reads_con [OF hbor.dec_reads [OF hbor_pair [OF hbor_name hbor_u32]]]; auto)
  done

lemma reads_branch:
  assumes "unat tag < length typeshape_branches"
  shows "reads (typeshape_branches ! unat tag) ts_body (\<lambda>ts. ts_tag ts = tag \<and> ts_named ts)"
proof -
  obtain k where k: "tag = word_of_nat k" "k < 21"
    using assms that [of "unat tag"] by (simp add: typeshape_branches_def)
  from k(2) have "k \<in> {0, 1, 2, 3, 4, 5, 6, 7, 8, 9, 10, 11, 12, 13, 14, 15, 16, 17, 18, 19, 20}"
    by (auto simp: eval_nat_numeral less_Suc_eq)
  then show ?thesis unfolding k(1)
    by (elim insertE emptyE) (simp_all add: typeshape_branches_def ts_tag_iff reads_composite reads_leaf)
qed

lemma hbor_typeshape: "hbor 1 (typeshape_encode vec_sink) typeshape_decode typeshape_wire ts_named"
proof (rule hbor.intro [OF vs.emits_typeshape])
  show "reads typeshape_decode typeshape_wire ts_named"
    unfolding typeshape_decode_def
  proof (rule reads_weaken [OF reads_then [OF reads_u8, where p = ts_tag and w = "\<lambda>_. ts_body"
          and valid_b = "\<lambda>tag ts. ts_tag ts = tag \<and> ts_named ts"]])
    have tags: "unat (ts_tag ts) < length typeshape_branches" for ts
      by (cases ts) (simp_all add: typeshape_branches_def)
    show "reads (if unat tag < length typeshape_branches then typeshape_branches ! unat tag else op_err (InvalidDiscriminant tag))
        ts_body (\<lambda>ts. ts_tag ts = tag \<and> ts_named ts)" for tag
      using reads_branch [of tag] tags by (auto intro: reads_weaken [OF reads_err])
  qed (simp_all add: typeshape_wire_def)
qed (auto simp: typeshape_wire_def wire_seq_Ok)

section \<open>Rebuilding a table from its nodes\<close>

lemma node_at_index: "k \<le> MAX_SHAPE_POSITIONS \<Longrightarrow> unat (node_at k) = k"
  by (simp add: node_at_def MAX_SHAPE_POSITIONS_def unat_of_nat)

lemma table_get_index: "table_ok t \<Longrightarrow> table_get t nid = Some node \<longleftrightarrow>
    (\<exists>k < length (st_nodes t). nid = node_at k \<and> st_nodes t ! k = node)"
  using table_ok_length [of t] node_at_index
  by (auto simp: table_get_def node_at_def split: if_splits intro!: exI [of _ "unat nid"])

lemma build_table_Ok:
  "build_table i t nodes = Ok t' \<Longrightarrow> table_ok t \<Longrightarrow> length (st_nodes t) = i \<Longrightarrow>
   table_ok t' \<and> st_nodes t' = st_nodes t @ nodes"
proof (induction nodes arbitrary: i t)
  case (Cons node nodes)
  then obtain nid u where run: "push node t = (Ok nid, u)" "nid = node_at i" "build_table (i + 1) u nodes = Ok t'"
    by (auto split: prod.splits result.splits if_splits)
  from push_Ok [OF run(1)] have step: "push_step node t nid u" .
  have "st_nodes u = st_nodes t @ [node]"
    using step
  proof cases
    case held
    with Cons.prems(2) obtain k where "k < i" "node_at k = node_at i"
      using run(2) Cons.prems(3) by (auto simp: table_ok_def table_get_index [OF Cons.prems(2)])
    with node_at_index [of k] node_at_index [of i] table_ok_length [OF Cons.prems(2)] Cons.prems(3) show ?thesis by simp
  qed simp
  with Cons.IH [OF run(3) table_ok_push [OF Cons.prems(2) step]] Cons.prems(3) show ?case by simp
qed simp

definition cut_ids :: "nat \<Rightarrow> ('k \<Rightarrow> NodeId option) \<Rightarrow> 'k \<Rightarrow> NodeId option" where
  "cut_ids k f x = (case f x of Some nid \<Rightarrow> if unat nid < k then Some nid else None | None \<Rightarrow> None)"

definition table_cut :: "nat \<Rightarrow> ShapeTable \<Rightarrow> ShapeTable" where
  "table_cut k t = \<lparr> st_nodes = take k (st_nodes t), st_measures = take k (st_measures t),
     st_by_node = cut_ids k (st_by_node t), st_by_name = cut_ids k (st_by_name t),
     st_positions = sum_list (map ms_positions (take k (st_measures t))) \<rparr>"

lemma cut_ids_upd:
  assumes "f x = Some nid" "unat nid = k" "\<And>y. f y = Some nid \<Longrightarrow> y = x"
  shows "cut_ids (Suc k) f = (cut_ids k f)(x \<mapsto> nid)"
proof
  fix y
  show "cut_ids (Suc k) f y = ((cut_ids k f)(x \<mapsto> nid)) y"
  proof (cases "y = x")
    case True
    with assms(1,2) show ?thesis by (simp add: cut_ids_def)
  next
    case False
    then have "unat m \<noteq> k" if "f y = Some m" for m using assms(2,3) that by (metis word_unat_eq_iff)
    with False show ?thesis by (auto simp: cut_ids_def less_Suc_eq split: option.split)
  qed
qed

lemma cut_ids_same: "(\<And>y nid. f y = Some nid \<Longrightarrow> unat nid \<noteq> k) \<Longrightarrow> cut_ids (Suc k) f = cut_ids k f"
  by (rule ext) (auto simp: cut_ids_def less_Suc_eq split: option.split)

lemma held_all_cong: "(\<And>r. r \<in> set rs \<Longrightarrow> measure_of t r = measure_of t' r) \<Longrightarrow> held_all t rs = held_all t' rs"
  by (induction rs) (auto simp: table_held_def)

lemma measure_variants_cong:
  "(\<And>r. r \<in> (\<lambda>v. snd (snd v)) ` set vs \<Longrightarrow> measure_of t r = measure_of t' r) \<Longrightarrow>
   measure_variants t sel de ta po li wi vs = measure_variants t' sel de ta po li wi vs"
  by (induction t sel de ta po li wi vs rule: measure_variants.induct) (auto simp: table_held_def split: result.splits)

lemma table_measure_cong:
  assumes "\<And>r. r \<in> set (refs node) \<Longrightarrow> measure_of t r = measure_of t' r"
    and "\<And>name shape. node = TNamed name shape \<Longrightarrow> table_named t name = table_named t' name"
  shows "table_measure t node = table_measure t' node"
proof -
  have kids: "held_all t (refs node) = held_all t' (refs node)" by (rule held_all_cong) (rule assms(1))
  have variants: "measure_variants t [] 0 0 1 None 0 vs = measure_variants t' [] 0 0 1 None 0 vs" if "node = TEnum vs" for vs
    by (rule measure_variants_cong) (use assms(1) that in auto)
  from assms kids variants show ?thesis by (cases node) (simp_all add: table_measure_def table_held_def)
qed

lemma take_index: "k < length xs \<Longrightarrow> take (Suc k) xs = take k xs @ [xs ! k]"
  by (rule take_Suc_conv_app_nth)

lemma cut_measure:
  assumes ok: "table_ok t" and k: "k < length (st_nodes t)"
  shows "table_measure (table_cut k t) (st_nodes t ! k) = Ok (st_measures t ! k)"
proof -
  let ?node = "st_nodes t ! k"
  have at: "table_get t (node_at k) = Some ?node" using k by (auto simp: table_get_index [OF ok])
  have index: "unat (node_at k) = k" using k table_ok_length [OF ok] by (intro node_at_index) simp
  have "table_measure (table_cut k t) ?node = table_measure (t\<lparr> st_by_name := Map.empty \<rparr>) ?node"
  proof (rule table_measure_cong)
    fix r assume "r \<in> set (refs ?node)"
    then have "unat r < k" using ok k by (auto simp: table_ok_def)
    then show "measure_of (table_cut k t) r = measure_of (t\<lparr> st_by_name := Map.empty \<rparr>) r"
      using ok k by (auto simp: measure_of_def table_cut_def table_ok_def)
  next
    fix name shape assume "?node = TNamed name shape"
    with at have "st_by_name t name = Some (node_at k)" using ok by (auto simp: table_ok_def)
    with index show "table_named (table_cut k t) name = table_named (t\<lparr> st_by_name := Map.empty \<rparr>) name"
      by (simp add: table_named_def table_cut_def cut_ids_def)
  qed
  with ok k show ?thesis by (simp add: table_ok_def measured_def)
qed

lemma cut_positions:
  assumes ok: "table_ok t" and k: "k < length (st_nodes t)"
  shows "usize_add (st_positions (table_cut k t)) (ms_positions (st_measures t ! k)) = st_positions (table_cut (Suc k) t)"
    and "st_positions (table_cut (Suc k) t) \<le> MAX_SHAPE_POSITIONS"
proof -
  have len: "k < length (st_measures t)" using ok k by (simp add: table_ok_def)
  have "sum_list (map ms_positions (take (Suc k) (st_measures t))) \<le> sum_list (map ms_positions (st_measures t))"
    by (subst (3) append_take_drop_id [symmetric, of _ "Suc k"]) (simp del: append_take_drop_id)
  with ok show le: "st_positions (table_cut (Suc k) t) \<le> MAX_SHAPE_POSITIONS" by (simp add: table_ok_def table_cut_def)
  with len show "usize_add (st_positions (table_cut k t)) (ms_positions (st_measures t ! k)) = st_positions (table_cut (Suc k) t)"
    by (simp add: table_cut_def take_index usize_add_def USIZE_MAX_def MAX_SHAPE_POSITIONS_def)
qed

lemma cut_maps:
  assumes ok: "table_ok t" and k: "k < length (st_nodes t)"
  shows "st_by_node (table_cut (Suc k) t) = (st_by_node (table_cut k t))(st_nodes t ! k \<mapsto> node_at k)"
    and "st_by_name (table_cut (Suc k) t) = (case st_nodes t ! k of
      TNamed name _ \<Rightarrow> (st_by_name (table_cut k t))(name \<mapsto> node_at k) | _ \<Rightarrow> st_by_name (table_cut k t))"
proof -
  have index: "unat nid = k \<longleftrightarrow> nid = node_at k" for nid
    using k table_ok_length [OF ok] node_at_index [of k] by (metis le_trans less_imp_le word_unat_eq_iff)
  have at: "table_get t (node_at k) = Some (st_nodes t ! k)" using k by (auto simp: table_get_index [OF ok])
  with ok index [of "node_at k"] show "st_by_node (table_cut (Suc k) t) = (st_by_node (table_cut k t))(st_nodes t ! k \<mapsto> node_at k)"
    unfolding table_cut_def ShapeTable.simps by (intro cut_ids_upd) (auto simp: table_ok_def)
  have names: "st_by_name t name = Some nid \<longleftrightarrow> (\<exists>shape. table_get t nid = Some (TNamed name shape))" for name nid
    using ok by (simp add: table_ok_def)
  show "st_by_name (table_cut (Suc k) t) = (case st_nodes t ! k of
      TNamed name _ \<Rightarrow> (st_by_name (table_cut k t))(name \<mapsto> node_at k) | _ \<Rightarrow> st_by_name (table_cut k t))"
  proof (cases "\<exists>name shape. st_nodes t ! k = TNamed name shape")
    case True
    then obtain name shape where node: "st_nodes t ! k = TNamed name shape" by blast
    have "cut_ids (Suc k) (st_by_name t) = (cut_ids k (st_by_name t))(name \<mapsto> node_at k)"
      using names at node index by (intro cut_ids_upd) auto
    then show ?thesis by (simp add: node table_cut_def)
  next
    case False
    then have "cut_ids (Suc k) (st_by_name t) = cut_ids k (st_by_name t)"
      using names at index by (intro cut_ids_same) (metis option.inject)
    with False show ?thesis by (simp add: table_cut_def split: TypeShape.splits)
  qed
qed

lemma cut_ends:
  assumes "table_ok t"
  shows "table_cut 0 t = table_new" "table_cut (length (st_nodes t)) t = t"
proof -
  show "table_cut 0 t = table_new" by (auto simp: table_cut_def table_new_def cut_ids_def fun_eq_iff split: option.splits)
  have "unat nid < length (st_nodes t)" if "table_get t nid = Some node" for nid node
    using that by (auto simp: table_get_def split: if_splits)
  then have held: "unat nid < length (st_nodes t)" if "st_by_node t node = Some nid \<or> st_by_name t name = Some nid" for node name nid
    using assms that unfolding table_ok_def by blast
  have all: "cut_ids n f = f" if "\<And>x nid. f x = Some nid \<Longrightarrow> unat nid < n" for n and f :: "'k \<Rightarrow> NodeId option"
    using that by (auto simp: fun_eq_iff cut_ids_def split: option.split)
  have "cut_ids (length (st_nodes t)) (st_by_node t) = st_by_node t" "cut_ids (length (st_nodes t)) (st_by_name t) = st_by_name t"
    using held by (auto intro!: all)
  with assms show "table_cut (length (st_nodes t)) t = t" by (simp add: table_cut_def table_ok_def)
qed

lemma push_cut:
  assumes ok: "table_ok t" and k: "k < length (st_nodes t)"
  shows "push (st_nodes t ! k) (table_cut k t) = (Ok (node_at k), table_cut (Suc k) t)"
proof -
  have at: "st_by_node t (st_nodes t ! k) = Some (node_at k)"
    using ok k by (auto simp: table_ok_def table_get_index [OF ok])
  moreover have "unat (node_at k) = k" using k table_ok_length [OF ok] by (intro node_at_index) simp
  ultimately have fresh: "st_by_node (table_cut k t) (st_nodes t ! k) = None" by (simp add: table_cut_def cut_ids_def)
  have bounds: "ms_depth (st_measures t ! k) \<le> DEFAULT_MAX_DEPTH" "ms_height (st_measures t ! k) \<le> MAX_SHAPE_HEIGHT"
    "k < length (st_measures t)"
    using ok k by (auto simp: table_ok_def)
  have "table_cut (Suc k) t = (table_cut k t)\<lparr> st_by_name := st_by_name (table_cut (Suc k) t),
      st_by_node := st_by_node (table_cut (Suc k) t), st_nodes := st_nodes (table_cut k t) @ [st_nodes t ! k],
      st_measures := st_measures (table_cut k t) @ [st_measures t ! k], st_positions := st_positions (table_cut (Suc k) t) \<rparr>"
    using k bounds(3) by (simp add: table_cut_def take_index)
  moreover have "length (st_nodes (table_cut k t)) = k" using k by (simp add: table_cut_def)
  ultimately show ?thesis
    using fresh bounds cut_positions [OF ok k] cut_maps [OF ok k] cut_measure [OF ok k]
    by (simp add: push_def Let_def)
qed

lemma rebuild_from: "table_ok t \<Longrightarrow> k \<le> length (st_nodes t) \<Longrightarrow> build_table k (table_cut k t) (drop k (st_nodes t)) = Ok t"
proof (induction "length (st_nodes t) - k" arbitrary: k)
  case 0
  then have "k = length (st_nodes t)" by simp
  with 0 show ?case by (simp only: cut_ends(2) drop_all order_refl build_table.simps(1))
next
  case (Suc j)
  then have k: "k < length (st_nodes t)" by simp
  then have "drop k (st_nodes t) = st_nodes t ! k # drop (Suc k) (st_nodes t)" by (rule Cons_nth_drop_Suc [symmetric])
  with push_cut [OF Suc.prems(1) k] Suc.hyps(1) [of "Suc k"] Suc.hyps(2) Suc.prems k show ?case by simp
qed

lemma rebuild: "table_ok t \<Longrightarrow> build_table 0 table_new (st_nodes t) = Ok t"
  using rebuild_from [of t 0] by (simp add: cut_ends(1))

section \<open>What the table's codec accepts\<close>

lemma table_to_vec: "to_vec_with_depth (table_encode vec_sink) t m = vec_wire typeshape_wire (st_nodes t) 0 m"
  by (rule to_vec_emits) (auto simp: table_encode_def intro: vs.emits_vec vs.emits_typeshape)

lemma reads_table:
  "reads table_decode (\<lambda>t. wire_nest (vec_wire typeshape_wire (st_nodes t))) (\<lambda>t. table_ok t \<and> list_all ts_named (st_nodes t))"
  unfolding table_decode_def
proof (rule reads_weaken [OF reads_then [OF reads_descend [OF hbor.dec_reads [OF hbor.vec_codec [OF hbor_typeshape]]],
        where p = st_nodes and w = "\<lambda>_ _. wire_lit []" and valid_b = "\<lambda>nodes t. build_table 0 table_new nodes = Ok t"]])
  show "reads (case build_table 0 table_new nodes of Ok t \<Rightarrow> op_ok t | Err e \<Rightarrow> op_err e) (\<lambda>_. wire_lit [])
      (\<lambda>t. build_table 0 table_new nodes = Ok t)" for nodes
    by (cases "build_table 0 table_new nodes") (auto intro: reads_weaken [OF reads_ok] reads_weaken [OF reads_err])
  have new: "length (st_nodes table_new) = 0" "st_nodes table_new = []" by (simp_all add: table_new_def)
  show "st_nodes t = nodes" if "build_table 0 table_new nodes = Ok t" for nodes t
    using build_table_Ok [OF that table_ok_new new(1)] new(2) by simp
  show "(list_all ts_named (st_nodes t) \<and> build_table 0 table_new (st_nodes t) = Ok t) =
      (table_ok t \<and> list_all ts_named (st_nodes t))" for t
    using build_table_Ok [of 0 table_new "st_nodes t" t, OF _ table_ok_new new(1)] rebuild [of t] by auto
qed simp_all

text \<open>A wire form that is the same at every depth that leaves it \<open>k\<close> levels.\<close>

definition slack :: "nat \<Rightarrow> wire \<Rightarrow> bool" where
  "slack k w \<longleftrightarrow> (\<exists>r. \<forall>d m. d + k \<le> m \<longrightarrow> w d m = r)"

lemma slackD: "slack k w \<Longrightarrow> d + k \<le> m \<Longrightarrow> d' + k \<le> m' \<Longrightarrow> w d m = w d' m'"
  by (auto simp: slack_def)

lemma slack_lit: "slack k (wire_lit b)" "slack k (wire_len n)"
  by (simp_all add: slack_def wire_lit_def wire_len_def)

lemma slack_seq:
  assumes "slack k u" "slack k w"
  shows "slack k (wire_seq u w)"
proof -
  obtain x y where "u d m = x" "w d m = y" if "d + k \<le> m" for d m
    using assms unfolding slack_def by metis
  then have "wire_seq u w d m = and_then x (\<lambda>a. map_res (append a) y)" if "d + k \<le> m" for d m
    using that by (simp add: wire_seq_def)
  then show ?thesis unfolding slack_def by blast
qed

lemma slack_nest:
  assumes "slack k w"
  shows "slack (Suc k) (wire_nest w)"
proof -
  obtain r where "w d m = r" if "d + k \<le> m" for d m using assms unfolding slack_def by blast
  then have "wire_nest w d m = r" if "d + Suc k \<le> m" for d m using that by (simp add: wire_nest_def)
  then show ?thesis unfolding slack_def by blast
qed

lemma slack_each: "(\<And>x. x \<in> set xs \<Longrightarrow> slack k (w x)) \<Longrightarrow> slack k (wire_each w xs)"
  by (induction xs) (auto intro: slack_lit slack_seq)

lemma slack_vec: "(\<And>x. x \<in> set xs \<Longrightarrow> slack k (w x)) \<Longrightarrow> slack (Suc k) (vec_wire w xs)"
  unfolding vec_wire_def by (intro slack_seq slack_lit slack_nest slack_each)

lemma slack_word: "slack k (word_wire x)" "slack k (string_wire b)"
  by (auto simp: word_wire_def string_wire_def intro: slack_lit slack_seq)

lemma slack_typeshape: "slack 3 (typeshape_wire ts)"
proof -
  have nested: "slack 3 (wire_nest w)" if "slack 2 w" for w
    using slack_nest [OF that] by (simp add: eval_nat_numeral)
  have run: "slack 2 (vec_wire w xs)" if "\<And>x. slack (Suc 0) (w x)" for w :: "'a \<Rightarrow> wire" and xs
    using slack_vec [of xs "Suc 0" w] that by (simp add: eval_nat_numeral)
  have member: "slack (Suc 0) (wire_nest w)" if "slack 0 w" for w using slack_nest [OF that] by simp
  show ?thesis unfolding typeshape_wire_def
    by (cases ts) (auto simp: pair_wire_def triple_wire_def intro!: slack_seq slack_lit nested slack_word run member)
qed

lemma table_wire_slack: "slack 4 (vec_wire typeshape_wire nodes)"
  using slack_vec [of nodes 3 typeshape_wire] slack_typeshape by (simp add: eval_nat_numeral)

subsection \<open>Properties\<close>

lemma table_accepts:
  "from_slice_with_depth table_decode bs m = Ok t \<longleftrightarrow> table_ok t \<and> list_all ts_named (st_nodes t) \<and>
    wire_nest (vec_wire typeshape_wire (st_nodes t)) 0 m = Ok bs"
proof -
  have run: "table_decode (decoder_new bs m) = (Ok t, d) \<longleftrightarrow> (table_ok t \<and> list_all ts_named (st_nodes t)) \<and>
      (\<exists>b rest. wire_nest (vec_wire typeshape_wire (st_nodes t)) 0 m = Ok b \<and> bs = b @ rest \<and>
        d = (decoder_new bs m)\<lparr> d_cursor := length b \<rparr>)" for t d
    using reads_table [unfolded reads_def, rule_format, of "decoder_new bs m" t d]
    by (simp add: in_bounds_def decoder_new_def)
  show ?thesis
  proof
    assume "from_slice_with_depth table_decode bs m = Ok t"
    then obtain d where "table_decode (decoder_new bs m) = (Ok t, d)" "d_remaining d = 0"
      by (auto simp: from_slice_with_depth_def dec_finish_def split: prod.splits result.splits if_splits)
    then show "table_ok t \<and> list_all ts_named (st_nodes t) \<and> wire_nest (vec_wire typeshape_wire (st_nodes t)) 0 m = Ok bs"
      unfolding run by (auto simp: d_remaining_def decoder_new_def)
  next
    assume "table_ok t \<and> list_all ts_named (st_nodes t) \<and> wire_nest (vec_wire typeshape_wire (st_nodes t)) 0 m = Ok bs"
    then have "table_decode (decoder_new bs m) = (Ok t, (decoder_new bs m)\<lparr> d_cursor := length bs \<rparr>)"
      by (simp add: run)
    then show "from_slice_with_depth table_decode bs m = Ok t"
      by (simp add: from_slice_with_depth_def dec_finish_def d_remaining_def decoder_new_def)
  qed
qed

text \<open>C27 A table on the wire is its nodes, and decoding rebuilds the rest. The decoder accepts bytes exactly
  where they are the encoding of a sound table whose names are all names, and then answers
  that very table: its measures, its two indexes and its position count included. So every
  decoded table holds the invariant every reader of one relies on, and no table has two
  encodings.\<close>

theorem table_codec_canonical:
  "from_slice table_decode bs = Ok t \<longleftrightarrow>
    table_ok t \<and> list_all ts_named (st_nodes t) \<and> to_vec (table_encode vec_sink) t = Ok bs"
proof -
  have "wire_nest (vec_wire typeshape_wire (st_nodes t)) 0 DEFAULT_MAX_DEPTH = vec_wire typeshape_wire (st_nodes t) 1 DEFAULT_MAX_DEPTH"
    by (simp add: wire_nest_def DEFAULT_MAX_DEPTH_def)
  also have "\<dots> = vec_wire typeshape_wire (st_nodes t) 0 DEFAULT_MAX_DEPTH"
    by (rule slackD [OF table_wire_slack]) (simp_all add: DEFAULT_MAX_DEPTH_def)
  finally show ?thesis by (simp add: from_slice_def to_vec_def table_accepts table_to_vec)
qed

text \<open>C28 The table's encoder and decoder charge different depths: the decoder spends a level on the node
  list that the encoder does not. At a cap of one the encoder writes the empty table, and the
  decoder at the same cap refuses those bytes for their depth; one more level reads them back.\<close>

theorem table_depth_uneven:
  "to_vec_with_depth (table_encode vec_sink) table_new 1 = Ok [0] \<and>
   from_slice_with_depth table_decode [0] 1 = Err (DepthExceeded 1) \<and>
   from_slice_with_depth table_decode [0] 2 = Ok table_new"
proof (intro conjI)
  show "to_vec_with_depth (table_encode vec_sink) table_new 1 = Ok [0]"
    by (simp add: table_to_vec vec_wire_def table_new_def wire_seq_def wire_len_def wire_nest_def wire_lit_def leb_small MAX_LENGTH_def)
  show "from_slice_with_depth table_decode [0] 2 = Ok table_new"
    by (simp add: table_accepts table_ok_new, simp add: vec_wire_def table_new_def wire_seq_def wire_len_def wire_nest_def wire_lit_def leb_small MAX_LENGTH_def)
  show "from_slice_with_depth table_decode [0] 1 = Err (DepthExceeded 1)"
    by (simp add: from_slice_with_depth_def table_decode_def vec_decode_def dec_descend_def op_then_def read_len_def
        varint_read_def varint_read_loop.simps decoder_new_def d_remaining_def)
qed

end
