(* ===== verification/Identity.thy ===== *)
theory Identity
  imports Merkle Shape
begin

text \<open>
  Identities over an encoding: the leaves the derive of \<open>crates/hbor-macros/src/merkle.rs\<close> emits for a type, with
  the roots and proofs of \<open>Chunked\<close>, and the signing preimages of \<open>crates/hbor-macros/src/signing.rs\<close>.
\<close>

section \<open>The derived leaves\<close>

text \<open>\<open>chunks\<close> as the derive emits it: one leaf per field, an enum's discriminant its own leaf.\<close>

fun field_chunks :: "ShapeNode list \<Rightarrow> ShapeValue list \<Rightarrow> (EncodeError, bytes list) result" where
  "field_chunks (n # ns) (v # vs) =
    and_then (to_vec (node_encode vec_sink n) v) (\<lambda>leaf. map_res (Cons leaf) (field_chunks ns vs))"
| "field_chunks _ _ = Ok []"

fun struct_chunks :: "ShapeNode \<Rightarrow> ShapeValue \<Rightarrow> (EncodeError, bytes list) result" where
  "struct_chunks (NStruct members) (VStruct vs) = field_chunks (map snd members) (map snd vs)"
| "struct_chunks (NTuple elements) (VTuple vs) = field_chunks elements vs"
| "struct_chunks _ _ = Ok []"

fun enum_chunks :: "ShapeNode \<Rightarrow> ShapeValue \<Rightarrow> (EncodeError, bytes list) result" where
  "enum_chunks (NEnum variants) (VVariant name tag content) =
    (case variant_at tag variants of
       Some (_, shape) \<Rightarrow> and_then (to_vec (word_encode vec_sink) tag) (\<lambda>leaf. map_res (Cons leaf) (struct_chunks shape content))
     | None \<Rightarrow> Ok [])"
| "enum_chunks _ _ = Ok []"

fun derived_chunks :: "ShapeNode \<Rightarrow> ShapeValue \<Rightarrow> (EncodeError, bytes list) result" where
  "derived_chunks (NEnum variants) v = enum_chunks (NEnum variants) v"
| "derived_chunks n v = struct_chunks n v"

definition merkle_root :: "Hasher \<Rightarrow> bytes \<Rightarrow> ShapeNode \<Rightarrow> ShapeValue \<Rightarrow> (EncodeError, Hash32) result" where
  "merkle_root h domain n v = map_res (root_of h domain) (derived_chunks n v)"

definition chunked_prove :: "Hasher \<Rightarrow> ShapeNode \<Rightarrow> ShapeValue \<Rightarrow> nat \<Rightarrow> (EncodeError, Proof option) result" where
  "chunked_prove h n v index = map_res (\<lambda>chunks. prove h chunks index) (derived_chunks n v)"

section \<open>Signing preimages\<close>

text \<open>The fields a signature covers: those not marked \<open>unsigned\<close>.\<close>

definition signed_fields :: "(bool \<times> ShapeNode) list \<Rightarrow> ShapeValue list \<Rightarrow> ((bool \<times> ShapeNode) \<times> ShapeValue) list" where
  "signed_fields members vs = filter (\<lambda>((unsigned, _), _). \<not> unsigned) (zip members vs)"

definition signing_bytes ::
  "bytes \<Rightarrow> (ShapeNode \<times> ShapeValue) option \<Rightarrow> (bool \<times> ShapeNode) list \<Rightarrow> ShapeValue list \<Rightarrow> (EncodeError, bytes) result" where
  "signing_bytes domain signing_context members vs =
    to_vec_with_depth (\<lambda>fs.
      op_then (write_sized vec_sink domain) (\<lambda>_.
      op_then (case signing_context of None \<Rightarrow> op_ok () | Some (n, v) \<Rightarrow> enc_nested (node_encode vec_sink n) v) (\<lambda>_.
      encode_fields (map (\<lambda>((_, n), _). node_encode vec_sink n) fs) (map snd fs))))
      (signed_fields members vs) DEFAULT_MAX_DEPTH"

section \<open>Leaves partition the encoding\<close>

text \<open>A wire form that fits a level down fits the level above, with the same bytes.\<close>

definition level_loose :: "wire \<Rightarrow> bool" where
  "level_loose w \<longleftrightarrow> (\<forall>d m b. w (d + 1) m = Ok b \<longrightarrow> w d m = Ok b)"

lemma looseD: "level_loose w \<Longrightarrow> w (Suc d) m = Ok b \<Longrightarrow> w d m = Ok b"
  unfolding level_loose_def Suc_eq_plus1 by blast

lemma loose_lit: "level_loose (wire_lit bs)" "level_loose (wire_len n)"
  by (simp_all add: level_loose_def wire_len_Ok)

lemma loose_seq: "level_loose a \<Longrightarrow> level_loose b \<Longrightarrow> level_loose (wire_seq a b)"
  unfolding level_loose_def wire_seq_Ok by blast

lemma loose_nest: "level_loose a \<Longrightarrow> level_loose (wire_nest a)"
  unfolding level_loose_def wire_nest_Ok by (blast intro: add_lessD1)

lemma loose_each: "(\<And>x. x \<in> set xs \<Longrightarrow> level_loose (w x)) \<Longrightarrow> level_loose (wire_each w xs)"
  by (induction xs) (simp_all add: loose_lit loose_seq)

lemma loose_fields: "(\<And>n v. n \<in> set ns \<Longrightarrow> level_loose (f n v)) \<Longrightarrow> level_loose (fields_wire (map f ns) vs)"
  by (induction ns arbitrary: vs) (case_tac vs; simp add: loose_lit loose_seq loose_nest)+

lemmas loose_intros = loose_lit loose_seq loose_nest loose_each loose_fields

lemma loose_node: "level_loose (node_wire n v)"
proof (induction n arbitrary: v rule: node_induct)
  case (Tuple ns)
  then show ?case by (auto split: ShapeValue.split intro!: loose_intros)
next
  case (Struct ms)
  then show ?case unfolding node_wire.simps members_map by (auto split: ShapeValue.split intro!: loose_intros)
next
  case (Enum vs)
  then show ?case by (auto split: ShapeValue.split option.split intro!: loose_intros dest: variant_at_mem)
qed (auto simp: word_wire_def bool_wire_def string_wire_def vec_wire_def option_wire_def entry_wire_def
      split: ShapeValue.split option.split intro!: loose_intros)

lemma field_chunks_wire:
  "fields_wire (map node_wire ns) vs 0 DEFAULT_MAX_DEPTH = Ok b \<Longrightarrow> \<exists>leaves. field_chunks ns vs = Ok leaves \<and> concat leaves = b"
proof (induction ns vs arbitrary: b rule: field_chunks.induct)
  case (1 n ns v vs)
  then obtain x y where xy: "node_wire n v 1 DEFAULT_MAX_DEPTH = Ok x" "fields_wire (map node_wire ns) vs 0 DEFAULT_MAX_DEPTH = Ok y" "b = x @ y"
    by (auto simp: wire_seq_Ok wire_nest_Ok)
  have "node_wire n v 0 DEFAULT_MAX_DEPTH = Ok x" by (rule looseD [OF loose_node]) (use xy in simp)
  moreover obtain leaves where "field_chunks ns vs = Ok leaves" "concat leaves = y" using 1(1) [OF xy(2)] by blast
  ultimately show ?case using xy(3) by (simp add: to_vec_def node_to_vec)
qed auto

text \<open>Whether a value is one the derive gives leaves: a struct with fields, or a variant of the type.\<close>

fun fielded :: "ShapeNode \<Rightarrow> ShapeValue \<Rightarrow> bool" where
  "fielded (NStruct members) (VStruct vs) = True"
| "fielded (NTuple elements) (VTuple vs) = True"
| "fielded _ _ = False"

lemma struct_leaves:
  assumes "fielded n v" "node_wire n v 0 DEFAULT_MAX_DEPTH = Ok b"
  shows "\<exists>leaves. struct_chunks n v = Ok leaves \<and> concat leaves = b"
  using assms by (induction n v rule: struct_chunks.induct) (simp_all add: members_map [simplified] field_chunks_wire)

fun leafy :: "ShapeNode \<Rightarrow> ShapeValue \<Rightarrow> bool" where
  "leafy (NEnum variants) (VVariant name tag content) =
    (case variant_at tag variants of Some (_, shape) \<Rightarrow> fielded shape content | None \<Rightarrow> False)"
| "leafy n v = fielded n v"

lemma enum_leaves:
  assumes "leafy (NEnum variants) v" "node_wire (NEnum variants) v 0 DEFAULT_MAX_DEPTH = Ok b"
  shows "\<exists>leaves. enum_chunks (NEnum variants) v = Ok leaves \<and> concat leaves = b"
proof (cases v)
  case (VVariant name tag content)
  with assms(1) obtain name' shape where at: "variant_at tag variants = Some (name', shape)" "fielded shape content"
    by (auto split: option.splits)
  with assms(2) VVariant obtain y where y: "node_wire shape content 0 DEFAULT_MAX_DEPTH = Ok y" "b = tag # y"
    by (auto simp: wire_seq_Ok)
  have "to_vec (word_encode vec_sink) tag = Ok [tag]"
    by (subst to_vec_def, subst to_vec_emits [OF vs.emits_word]) (simp add: word_wire_def wire_lit_def le_bytes_def)
  with struct_leaves [OF at(2) y(1)] y(2) at(1) VVariant show ?thesis by auto
qed (use assms(1) in simp_all)

section \<open>Framed preimages are injective\<close>

lemma reads_inj:
  assumes R: "reads act w V" and v: "V v" "w v d m = Ok b" and v': "V v'" "w v' d m = Ok b'" and eq: "b @ r = b' @ r'"
  shows "v = v' \<and> b = b' \<and> r = r'"
proof -
  let ?d = "(decoder_new (b @ r) m)\<lparr> d_depth := d \<rparr>"
  have "act ?d = (Ok v, ?d\<lparr> d_cursor := d_cursor ?d + length b \<rparr>)"
    by (rule readsR [OF R _ v(1)]) (simp_all add: in_bounds_def decoder_new_def v(2))
  moreover have "act ?d = (Ok v', ?d\<lparr> d_cursor := d_cursor ?d + length b' \<rparr>)"
    by (rule readsR [OF R _ v'(1)]) (simp_all add: in_bounds_def decoder_new_def v'(2) eq)
  ultimately have "v = v'" "length b = length b'" by (simp_all add: decoder_new_def)
  with eq show ?thesis by simp
qed

definition framed_wire :: "bytes \<Rightarrow> wire" where
  "framed_wire bs = wire_seq (wire_len (length bs)) (wire_lit bs)"

lemma reads_framed: "reads (op_then (read_len 1) read_slice) framed_wire (\<lambda>_. True)"
  by (rule reads_weaken [OF reads_sized [OF reads_slice, where p = length and k = 1]]) (simp_all add: framed_wire_def)

definition signing_wire :: "bytes \<Rightarrow> (ShapeNode \<times> ShapeValue) option \<Rightarrow> ((bool \<times> ShapeNode) \<times> ShapeValue) list \<Rightarrow> wire" where
  "signing_wire domain signing_context fs =
    wire_seq (framed_wire domain)
      (wire_seq (case signing_context of None \<Rightarrow> wire_lit [] | Some (n, v) \<Rightarrow> wire_nest (node_wire n v))
        (fields_wire (map node_wire (map (snd \<circ> fst) fs)) (map snd fs)))"

lemma emits_signed_fields: "vs.emits (encode_fields (map (node_encode vec_sink) ns) vs) (fields_wire (map node_wire ns) vs)"
  by (induction ns vs rule: field_chunks.induct) (auto intro!: emits_intros vs.emits_node)

lemma signing_bytes_wire:
  "signing_bytes domain signing_context members vs = signing_wire domain signing_context (signed_fields members vs) 0 DEFAULT_MAX_DEPTH"
proof -
  have "vs.emits (op_then (write_sized vec_sink domain) (\<lambda>_.
      op_then (case signing_context of None \<Rightarrow> op_ok () | Some (n, v) \<Rightarrow> enc_nested (node_encode vec_sink n) v) (\<lambda>_.
      encode_fields (map (\<lambda>((_, n), _). node_encode vec_sink n) fs) (map snd fs)))) (signing_wire domain signing_context fs)" for fs
  proof -
    have fields: "map (\<lambda>((_, n), _). node_encode vec_sink n) fs = map (node_encode vec_sink) (map (snd \<circ> fst) fs)" by auto
    have "vs.emits (case signing_context of None \<Rightarrow> op_ok () | Some (n, v) \<Rightarrow> enc_nested (node_encode vec_sink n) v)
        (case signing_context of None \<Rightarrow> wire_lit [] | Some (n, v) \<Rightarrow> wire_nest (node_wire n v))"
      by (auto split: option.split intro!: vs.emits_ok vs.emits_nested vs.emits_node)
    then show ?thesis unfolding fields signing_wire_def framed_wire_def write_sized_def
      by (intro vs.emits_then vs.emits_write_len vs.emits_write_fixed emits_signed_fields)
  qed
  then show ?thesis unfolding signing_bytes_def by (rule to_vec_emits)
qed

text \<open>What the decoder of a type holds its fields to, with members in the type's order.\<close>

definition field_ok :: "(ShapeNode \<Rightarrow> ShapeValue \<Rightarrow> ShapeValue \<Rightarrow> bool) \<Rightarrow> ShapeNode \<Rightarrow> ShapeValue \<Rightarrow> bool" where
  "field_ok le n v \<longleftrightarrow> max_encoded_len n \<noteq> None \<and> node_valid (\<lambda>n. ascending (le n)) n v"

lemma reads_ok_node: "max_encoded_len n \<noteq> None \<Longrightarrow> reads (node_decode le n) (node_wire n) (field_ok le n)"
  by (erule not_None_eq [THEN iffD1, THEN exE]) (rule reads_weaken [OF reads_node], auto simp: field_ok_def)

lemma signed_nodes:
  "length vs = length members \<Longrightarrow> map fst (signed_fields members vs) = filter (\<lambda>m. \<not> fst m) members"
  unfolding signed_fields_def by (induction vs members rule: list_induct2) (auto simp: split_beta)

lemma context_unique:
  assumes "map_option fst c = map_option fst c'" "pred_option (\<lambda>(n, v). field_ok le n v) c" "pred_option (\<lambda>(n, v). field_ok le n v) c'"
    and "(case c of None \<Rightarrow> wire_lit [] | Some (n, v) \<Rightarrow> wire_nest (node_wire n v)) d m = Ok b"
    and "(case c' of None \<Rightarrow> wire_lit [] | Some (n, v) \<Rightarrow> wire_nest (node_wire n v)) d m = Ok b'"
    and eq: "b @ r = b' @ r'"
  shows "c = c' \<and> r = r'"
proof (cases c)
  case None
  with assms show ?thesis by simp
next
  case (Some nv)
  then obtain n v v' where c: "c = Some (n, v)" "c' = Some (n, v')" using assms(1) by (cases nv; cases c') auto
  with assms have V: "field_ok le n v" "field_ok le n v'" and w: "node_wire n v (d + 1) m = Ok b" "node_wire n v' (d + 1) m = Ok b'"
    by (simp_all add: wire_nest_Ok)
  then have "reads (node_decode le n) (node_wire n) (field_ok le n)" by (intro reads_ok_node) (simp add: field_ok_def)
  from reads_inj [OF this V(1) w(1) V(2) w(2) eq] c show ?thesis by simp
qed

lemma fields_unique:
  assumes "map fst fs = map fst fs'" "\<And>f. f \<in> set fs \<union> set fs' \<Longrightarrow> field_ok le (snd (fst f)) (snd f)"
    and "fields_wire (map node_wire (map (snd \<circ> fst) fs)) (map snd fs) d m = Ok b"
    and "fields_wire (map node_wire (map (snd \<circ> fst) fs')) (map snd fs') d m = Ok b"
  shows "fs = fs'"
proof -
  let ?ns = "map (snd \<circ> fst) fs"
  have ns: "map (snd \<circ> fst) fs' = ?ns" using assms(1) by (metis map_map)
  have ok: "list_all2 (\<lambda>P. P) (map (field_ok le) (map (snd \<circ> fst) gs)) (map snd gs)" if "set gs \<subseteq> set fs \<union> set fs'" for gs
    using assms(2) that by (auto simp: list_all2_conv_all_nth intro!: assms(2) dest: nth_mem)
  have "reads (decode_fields (map (node_decode le) ?ns)) (fields_wire (map node_wire ?ns)) (\<lambda>vs. list_all2 (\<lambda>P. P) (map (field_ok le) ?ns) vs)"
    by (rule reads_fields) (use assms(2) in \<open>auto intro!: reads_ok_node simp: field_ok_def\<close>)
  from reads_inj [OF this ok [of fs] assms(3) ok [of fs', unfolded ns] assms(4) [unfolded ns] refl, of "[]"]
  have "map snd fs = map snd fs'" by simp
  with assms(1) show ?thesis by (metis zip_map_fst_snd)
qed

section \<open>Properties of derived identities\<close>

text \<open>C38 A derived type's leaves partition its encoding. For a struct, or an enum's variant, that encodes, the derive's
  leaves all encode and their concatenation is the value's own encoding, so the root is over exactly those bytes.\<close>

theorem leaves_partition:
  assumes "leafy n v" "to_vec (node_encode vec_sink n) v = Ok b"
  shows "\<exists>leaves. derived_chunks n v = Ok leaves \<and> concat leaves = b \<and> merkle_root h domain n v = Ok (root_of h domain leaves)"
proof -
  have w: "node_wire n v 0 DEFAULT_MAX_DEPTH = Ok b" using assms(2) by (simp only: to_vec_def node_to_vec)
  have "\<exists>leaves. derived_chunks n v = Ok leaves \<and> concat leaves = b"
  proof (cases "\<exists>variants. n = NEnum variants")
    case True
    with enum_leaves assms(1) w show ?thesis by auto
  next
    case False
    then have "derived_chunks n v = struct_chunks n v" by (cases n) simp_all
    moreover have "fielded n v" using assms(1) False by (cases n) simp_all
    ultimately show ?thesis using struct_leaves [OF _ w] by simp
  qed
  then show ?thesis by (auto simp: merkle_root_def)
qed

theorem leaves_partition_witness:
  "\<exists>leaves. derived_chunks (NTuple [NU8, NU16]) (VTuple [VU8 3, VU16 258]) = Ok leaves \<and> concat leaves = [3, 2, 1]"
  using leaves_partition [of "NTuple [NU8, NU16]" "VTuple [VU8 3, VU16 258]" "[3, 2, 1]"]
  by (simp add: to_vec_def node_to_vec word_wire_def wire_seq_def wire_nest_def wire_lit_def le_bytes_def DEFAULT_MAX_DEPTH_def
      upt_rec [of _ "numeral _"] del: node_encode.simps)

text \<open>C37 A signature is for one message. Two equal preimages have the same domain, whatever the two types; and when the
  types agree as well (the fields, their signed subset and the context's type), the contexts and every signed field
  are equal. The values are ones the types' own decoders accept; the unsigned fields are free.\<close>

theorem signing_injective:
  assumes "signing_bytes d c ms vs = Ok b" "signing_bytes d' c' ms' vs' = Ok b"
  shows "d' = d \<and>
    (ms' = ms \<and> map_option fst c' = map_option fst c \<and> length vs = length ms \<and> length vs' = length ms \<and>
     pred_option (\<lambda>(n, v). field_ok le n v) c \<and> pred_option (\<lambda>(n, v). field_ok le n v) c' \<and>
     (\<forall>((u, n), v) \<in> set (signed_fields ms vs) \<union> set (signed_fields ms vs'). field_ok le n v) \<longrightarrow>
     c' = c \<and> signed_fields ms vs' = signed_fields ms vs)"
proof -
  let ?m = DEFAULT_MAX_DEPTH
  let ?ctx = "\<lambda>c. case c of None \<Rightarrow> wire_lit [] | Some (n, v) \<Rightarrow> wire_nest (node_wire n v)"
  let ?fields = "\<lambda>fs. fields_wire (map node_wire (map (snd \<circ> fst) fs)) (map snd fs)"
  obtain x y z where l: "framed_wire d 0 ?m = Ok x" "?ctx c 0 ?m = Ok y" "?fields (signed_fields ms vs) 0 ?m = Ok z" "b = x @ y @ z"
    using assms(1) unfolding signing_bytes_wire signing_wire_def wire_seq_Ok by metis
  obtain x' y' z' where r: "framed_wire d' 0 ?m = Ok x'" "?ctx c' 0 ?m = Ok y'" "?fields (signed_fields ms' vs') 0 ?m = Ok z'" "b = x' @ y' @ z'"
    using assms(2) unfolding signing_bytes_wire signing_wire_def wire_seq_Ok by metis
  have d: "d = d' \<and> x = x' \<and> y @ z = y' @ z'"
    by (rule reads_inj [OF reads_framed _ l(1) _ r(1)]) (use l(4) r(4) in simp_all)
  have "c' = c \<and> signed_fields ms vs' = signed_fields ms vs"
    if ms: "ms' = ms" and types: "map_option fst c' = map_option fst c" and len: "length vs = length ms" "length vs' = length ms"
      and ctx: "pred_option (\<lambda>(n, v). field_ok le n v) c" "pred_option (\<lambda>(n, v). field_ok le n v) c'"
      and ok: "\<forall>((u, n), v) \<in> set (signed_fields ms vs) \<union> set (signed_fields ms vs'). field_ok le n v"
  proof -
    have c: "c = c' \<and> z = z'" using context_unique [OF types [symmetric] ctx l(2) r(2)] d by blast
    have "signed_fields ms vs = signed_fields ms vs'"
    proof (rule fields_unique)
      show "map fst (signed_fields ms vs) = map fst (signed_fields ms vs')" using len by (simp add: signed_nodes)
      show "?fields (signed_fields ms vs) 0 ?m = Ok z" by (rule l(3))
      show "?fields (signed_fields ms vs') 0 ?m = Ok z" using r(3) ms c by simp
    qed (use ok in fastforce)
    with c show ?thesis by simp
  qed
  with d show ?thesis by blast
qed

theorem signing_injective_witness:
  "\<exists>b. signing_bytes [7] None [(True, NU8), (False, NU8)] [VU8 1, VU8 5] = Ok b \<and>
       signing_bytes [7] None [(True, NU8), (False, NU8)] [VU8 2, VU8 5] = Ok b \<and>
       signed_fields [(True, NU8), (False, NU8)] [VU8 2, VU8 5] = signed_fields [(True, NU8), (False, NU8)] [VU8 1, VU8 5]"
proof -
  let ?ms = "[(True, NU8), (False, NU8)]"
  have run: "signing_bytes [7] None ?ms [VU8 x, VU8 5] = Ok [1, 7, 5]" for x
    by (simp add: signing_bytes_wire signing_wire_def signed_fields_def framed_wire_def wire_seq_def wire_len_def wire_lit_def
        wire_nest_def word_wire_def le_bytes_def DEFAULT_MAX_DEPTH_def MAX_LENGTH_def leb.simps)
  from signing_injective [OF run [of 1] run [of 2], of "\<lambda>_ _ _. True"] run show ?thesis
    by (auto simp: signed_fields_def field_ok_def)
qed

end
