(* ===== verification/Spec2Isabelle.thy ===== *)
theory Spec2Isabelle
  imports Oracle Grouping Conservation ShapeRead ShapeWire Identity
begin

text \<open>
  A verification development of the Hyperscale VM: the transaction kernel (\<open>crates/kernel\<close>), the shared types it
  runs on (\<open>crates/types\<close>), the canonical encoding (\<open>crates/hbor\<close>, \<open>crates/hbor-macros\<close>) and the kernel's own
  cells (\<open>crates/effects/src/cells.rs\<close>). All paths below are under \<open>src/\<close>.

  \<^bold>\<open>The program.\<close> A transaction declares the state it will reach as a set of effects. A batch is grouped by the
  conflicts between those sets, and each group runs on an overlay of the committed store. A transaction runs inside a
  session: a table of capabilities made from its declaration, a table of buckets for value in flight, and running
  totals of supply and escrow. Its finish judges the queued movements, settles the reservations, burns the fee,
  checks every logged access against the declaration, weighs every resource and either merges the active layer or
  drops it. Values reach state and wire through one canonical encoding, whose shapes also give Merkle identities and
  signing preimages.

  \<^bold>\<open>Conventions.\<close> A machine integer is a word of its width and a method on a mutable receiver is a function from
  the state to a result and a state (\<open>Prelude\<close>, \<open>Ops\<close>); refusals are values of an error type, and a source panic
  is \<open>Panic\<close> or \<open>None\<close>. An ordered map is its ascending entry list (\<open>BTree\<close>). Closures the sources are handed from
  outside (a hasher, a baseline store, an owner predicate) are arguments.

  \<^bold>\<open>Theories and sources.\<close>
  \<^item> \<open>Lattice\<close>, \<open>Address\<close>, \<open>Effects\<close>: \<open>types/src/mode.rs\<close>, \<open>address.rs\<close>, \<open>effect.rs\<close>. Folding accesses into a set is
    independent of their order and keeps exactly what was declared.
  \<^item> \<open>Conflict\<close>, \<open>Oracle\<close>, \<open>Grouping\<close>: \<open>kernel/src/conflict.rs\<close>, \<open>oracle.rs\<close> and the grouping of \<open>executor.rs\<close>. The two
    statements of the conflict relation agree, accesses covered by sets that do not conflict never contend, and the
    groups are the connected components of the relation.
  \<^item> \<open>Bytes\<close>, \<open>Writes\<close>, \<open>Outcome\<close>, \<open>DeltaModes\<close>: \<open>types/src/amount.rs\<close>, \<open>writes.rs\<close>, \<open>execution.rs\<close> and
    \<open>kernel/src/modes.rs\<close>. Amount cells, movements and their settlement, the abort taxonomy, and the queued modes.
  \<^item> \<open>Store\<close>, \<open>Ledger\<close>, \<open>Overlay\<close>: \<open>kernel/src/store.rs\<close>, \<open>ledger.rs\<close>, \<open>overlay.rs\<close>. The locale \<open>baseline\<close> is what a store
    to read from promises and \<open>amount_ledger\<close> what a store to write amounts to promises; both are interpreted on the
    memory store and the overlay. An overlay answers as the store its layers collapse to, a discard undoes a
    transaction, a merge keeps it, and reservations stay covered.
  \<^item> \<open>Varint\<close>, \<open>Hbor\<close>, \<open>Shape\<close>, \<open>ShapeTable\<close>, \<open>ShapeRead\<close>, \<open>ShapeWire\<close>: \<open>hbor/src/varint.rs\<close>, \<open>encode.rs\<close>, \<open>decode.rs\<close>,
    \<open>node.rs\<close>, \<open>name.rs\<close>, \<open>shape.rs\<close> and the derives of \<open>hbor-macros\<close>. The locales \<open>sink\<close> and \<open>hbor\<close> are the
    interfaces of a writer and of an encodable type. A derived decoder accepts exactly the encodings, within the
    bounds its shape folds to, and the type-erased reader of a shape table agrees with it.
  \<^item> \<open>Limbs\<close>, \<open>WideMath\<close>: \<open>types/src/math.rs\<close>. The limb loops compute the exact rounded quotients, roots and powers
    they document, but for the findings recorded beside this development.
  \<^item> \<open>Merkle\<close>, \<open>Identity\<close>: \<open>hbor/src/hash.rs\<close>, \<open>merkle.rs\<close>, \<open>signing.rs\<close> and their derives. Verification is sound where
    the hasher is collision free, and signing preimages are injective.
  \<^item> \<open>Cells\<close>: \<open>effects/src/cells.rs\<close> and the key derivation of \<open>effects/src/types.rs\<close>. The locale \<open>cell_family\<close> is a
    record type stored as its encoding, interpreted on the four families of cells; the classifier of crossing leaves
    and the acceptance of answers are exact.
  \<^item> \<open>Supply\<close>, \<open>Escrow\<close>, \<open>Capability\<close>, \<open>Buckets\<close>: \<open>kernel/src/supply.rs\<close>, \<open>escrow.rs\<close>, \<open>session/materialize.rs\<close>,
    \<open>session/grants.rs\<close>, \<open>session/buckets.rs\<close>, \<open>session/reach.rs\<close>, \<open>session/trap.rs\<close>. Every access within a capability is
    covered by the effect it was made from, and every bucket operation conserves each resource.
  \<^item> \<open>Session\<close>: \<open>kernel/src/session.rs\<close>, \<open>session/value.rs\<close>, \<open>session/ranges.rs\<close>, \<open>session/seal.rs\<close>, one operation per method.
  \<^item> \<open>Receipt\<close>, \<open>Finish\<close>: \<open>session/receipt.rs\<close> and the projection of \<open>locality.rs\<close>. The conservation fold is exact, a
    completed receipt balances, and an abort leaves nothing.
  \<^item> \<open>Balance\<close>, \<open>Conservation\<close>: the same balance before the end. The denominations of a table are exactly the resources
    its capabilities carry; every successful session call keeps each resource's net, and so does any sequence of them
    (\<open>session_step\<close> is the relation of single calls).

  \<^bold>\<open>Bounds and fuel.\<close> No operation runs on fuel: the union-find walk, the merge of a scan and the limb loops are
  total with their measures, and a loop the sources leave early on an error is a recursion over its list. \<open>usize\<close> is
  64 bits wide. Recursive decoding is bounded by the encoding's own depth cap, which is an argument.

  \<^bold>\<open>Hypotheses.\<close> A baseline's scan answers the leading entries of one ascending sequence; a hasher has no collision
  where a statement says so; a session's table agrees with its resources and its declaration (\<open>statics\<close>), which building
  it establishes; the committed layer of a session's overlay queues no movement, as each transaction before
  it folded or dropped its own.

  \<^bold>\<open>Not modelled.\<close> Building a session from a manifest and judging its conditions, the walk over a manifest's nodes and
  the threads of the executor, since they run rules and node types of the declaration language; that language, its
  publishing checks and admission (\<open>crates/effects\<close>); the WebAssembly hosting, metering and reference interpreter
  (\<open>crates/embed\<close>, \<open>runtime\<close>, \<open>meter\<close>, \<open>gate\<close>, \<open>ref\<close>), which rest on engines and parsers outside the repository; the
  guest kit and its macros (\<open>crates/sdk\<close>, \<open>sdk-macros\<close>, \<open>stdlib\<close>, \<open>fixtures\<close>); and the client and test tooling
  (\<open>crates/cli\<close>, \<open>manifest-builder\<close>, \<open>preview\<close>, \<open>testing\<close>, \<open>harness\<close>), which is input, output and rendering.
\<close>

end
